(* ===== verification/Prelude.thy ===== *)
theory Prelude
  imports Main "HOL-Library.Word"
begin

text \<open>
  Shared vocabulary of the development: the machine integers of the Go sources, byte
  strings and their big-endian bits, Go's truncating integer division, its conversions
  to \<open>int64\<close>, the hexadecimal codec of \<open>encoding/hex\<close>, and generic facts on lists, sums
  and words that the component theories use. The two collections declared here gather
  the unfolding rules of the error-passing style (\<open>go_err\<close>) and of the word conversions
  (\<open>go_word\<close>).
\<close>

unbundle bit_operations_syntax

named_theorems go_err \<open>unfolding rules of the error-passing operations\<close>
named_theorems go_word \<open>conversion rules between words, naturals and integers\<close>

type_synonym byte = "8 word"
type_synonym bytes = "8 word list"
type_synonym u8 = "8 word"
type_synonym u32 = "32 word"
type_synonym u64 = "64 word"

section \<open>Go integers\<close>

text \<open>Go's \<open>/\<close> on signed integers rounds towards zero; \<open>big.Int.Div\<close> is Euclidean.\<close>

definition go_quot :: "int \<Rightarrow> int \<Rightarrow> int" where
  "go_quot a b = sgn a * sgn b * (\<bar>a\<bar> div \<bar>b\<bar>)"

definition big_div :: "int \<Rightarrow> int \<Rightarrow> int" where
  "big_div a b = sgn b * (a div \<bar>b\<bar>)"

definition int64_of :: "int \<Rightarrow> int" where
  "int64_of k = (k + 2 ^ 63) mod 2 ^ 64 - 2 ^ 63"

lemma go_quot_nonneg: "0 \<le> a \<Longrightarrow> 0 < b \<Longrightarrow> go_quot a b = a div b"
  by (cases "a = 0") (auto simp: go_quot_def)

lemma go_quot_nonneg_iff: "0 < b \<Longrightarrow> a < 0 \<Longrightarrow> go_quot a b \<le> 0"
  by (auto simp: go_quot_def sgn_if pos_imp_zdiv_nonneg_iff)

lemma big_div_pos [simp]: "0 < b \<Longrightarrow> big_div a b = a div b"
  by (simp add: big_div_def)

lemma int64_of_id [simp]: "- (2 ^ 63) \<le> k \<Longrightarrow> k < 2 ^ 63 \<Longrightarrow> int64_of k = k"
  by (simp add: int64_of_def)

lemma int64_of_range: "- (2 ^ 63) \<le> int64_of k \<and> int64_of k < 2 ^ 63"
proof -
  have "0 \<le> (k + 2 ^ 63) mod 2 ^ 64" "(k + 2 ^ 63) mod 2 ^ 64 < (2 ^ 64 :: int)"
    by (rule pos_mod_sign, simp) (rule pos_mod_bound, simp)
  then show ?thesis
    unfolding int64_of_def by simp
qed

section \<open>Lists\<close>

lemma length_takeWhile_neq: "a \<in> set xs \<Longrightarrow> length (takeWhile (\<lambda>v. v \<noteq> a) xs) < length xs"
  by (induction xs) auto

section \<open>Big-endian bits\<close>

primrec be_val :: "bool list \<Rightarrow> nat" where
  "be_val [] = 0"
| "be_val (b # bs) = of_bool b * 2 ^ length bs + be_val bs"

definition byte_bits :: "byte \<Rightarrow> bool list" where
  "byte_bits w = map (\<lambda>j. bit w (7 - j)) [0..<8]"

definition bits_of :: "bytes \<Rightarrow> bool list" where
  "bits_of bs = concat (map byte_bits bs)"

lemma be_val_bound: "be_val bs < 2 ^ length bs"
  by (induction bs) auto

lemma be_val_append: "be_val (xs @ ys) = be_val xs * 2 ^ length ys + be_val ys"
  by (induction xs) (auto simp: algebra_simps power_add)

lemma be_val_inj: "length xs = length ys \<Longrightarrow> be_val xs = be_val ys \<Longrightarrow> xs = ys"
proof (induction xs ys rule: list_induct2)
  case Nil
  then show ?case by simp
next
  case (Cons x xs y ys)
  have "be_val xs < 2 ^ length xs" "be_val ys < 2 ^ length ys"
    by (rule be_val_bound)+
  with Cons show ?case
    by (cases x; cases y) auto
qed

text \<open>Comparing two values of the same width compares at the first differing bit.\<close>

fun bits_less :: "bool list \<Rightarrow> bool list \<Rightarrow> bool" where
  "bits_less (x # xs) (y # ys) = (if x = y then bits_less xs ys else y)"
| "bits_less _ _ = False"

lemma be_val_less_iff: "length xs = length ys \<Longrightarrow> be_val xs < be_val ys \<longleftrightarrow> bits_less xs ys"
proof (induction xs ys rule: list_induct2)
  case Nil
  then show ?case by simp
next
  case (Cons x xs y ys)
  have "be_val xs < 2 ^ length xs" "be_val ys < 2 ^ length ys"
    by (rule be_val_bound)+
  with Cons show ?case
    by (cases x; cases y) auto
qed

lemma length_byte_bits [simp]: "length (byte_bits w) = 8"
  by (simp add: byte_bits_def)

lemma byte_bits_nth: "j < 8 \<Longrightarrow> byte_bits w ! j = bit w (7 - j)"
  by (simp add: byte_bits_def)

lemma length_bits_of [simp]: "length (bits_of bs) = 8 * length bs"
  by (induction bs) (auto simp: bits_of_def)

lemma bits_of_Nil [simp]: "bits_of [] = []"
  by (simp add: bits_of_def)

lemma bits_of_Cons [simp]: "bits_of (b # bs) = byte_bits b @ bits_of bs"
  by (simp add: bits_of_def)

lemma byte_bits_unfold:
  "byte_bits w = [bit w 7, bit w 6, bit w 5, bit w 4, bit w 3, bit w 2, bit w 1, bit w 0]"
  by (simp add: byte_bits_def upt_rec numeral_nat)

lemma be_val_rev: "be_val (rev bs) = horner_sum of_bool 2 bs"
  by (induction bs) (auto simp: be_val_append)

lemma rev_byte_bits: "rev (byte_bits w) = map (bit w) [0..<8]"
  by (simp add: byte_bits_def upt_rec numeral_nat)

lemma unat_byte_bits: "unat w = be_val (byte_bits w)"
proof -
  have "be_val (byte_bits w) = horner_sum of_bool 2 (map (bit w) [0..<8])"
    by (simp flip: rev_byte_bits add: be_val_rev [of "rev (byte_bits w)", simplified])
  also have "\<dots> = horner_sum of_bool 2 (map (bit (unat w)) [0..<8])"
    by (intro arg_cong [where f = "\<lambda>f. horner_sum of_bool 2 (map f [0..<8])"] ext)
      (simp add: bit_unsigned_iff)
  also have "\<dots> = unat w"
    by (simp add: horner_sum_bit_eq_take_bit take_bit_nat_eq_self unsigned_less [where ?'a = nat and w = w, simplified])
  finally show ?thesis by simp
qed

lemma byte_bits_inj: "byte_bits v = byte_bits w \<longleftrightarrow> v = w"
proof
  assume "byte_bits v = byte_bits w"
  then have "unat v = unat w" by (simp add: unat_byte_bits)
  then show "v = w" by (simp add: word_unat_eq_iff)
qed simp

lemma byte_bits_not_Nil [simp]: "byte_bits w \<noteq> []" "[] \<noteq> byte_bits w"
  by (simp_all add: byte_bits_unfold)

lemma bits_of_inj: "bits_of xs = bits_of ys \<longleftrightarrow> xs = ys"
proof (induction xs arbitrary: ys)
  case Nil
  then show ?case by (cases ys) simp_all
next
  case (Cons x xs)
  then show ?case by (cases ys) (simp_all add: byte_bits_inj)
qed

lemma bits_of_split: "bits_of xs = bits_of (take n xs) @ bits_of (drop n xs)"
  by (metis append_take_drop_id bits_of_def concat_append map_append)

lemma byte_bits_xor: "byte_bits (v XOR w) = map2 (\<noteq>) (byte_bits v) (byte_bits w)"
  by (simp add: byte_bits_unfold bit_xor_iff)

lemma byte_less_iff: "(v :: byte) < w \<longleftrightarrow> bits_less (byte_bits v) (byte_bits w)"
  by (simp add: word_less_nat_alt unat_byte_bits be_val_less_iff)


section \<open>The codec of \<open>encoding/hex\<close>\<close>

datatype hex_error = InvalidByteError char | ErrLength

definition hextable :: string where
  "hextable = ''0123456789abcdef''"

definition hex_encode_byte :: "byte \<Rightarrow> string" where
  "hex_encode_byte v = [hextable ! unat (drop_bit 4 v), hextable ! unat (v AND 15)]"

definition hex_encode :: "bytes \<Rightarrow> string" where
  "hex_encode bs = concat (map hex_encode_byte bs)"

definition from_hex_char :: "char \<Rightarrow> byte option" where
  "from_hex_char c = (let n = (of_char c :: nat) in
     if 48 \<le> n \<and> n \<le> 57 then Some (of_nat (n - 48))
     else if 97 \<le> n \<and> n \<le> 102 then Some (of_nat (n - 87))
     else if 65 \<le> n \<and> n \<le> 70 then Some (of_nat (n - 55))
     else None)"

fun hex_decode :: "string \<Rightarrow> hex_error + bytes" where
  "hex_decode [] = Inr []"
| "hex_decode [c] = (case from_hex_char c of None \<Rightarrow> Inl (InvalidByteError c) | Some _ \<Rightarrow> Inl ErrLength)"
| "hex_decode (c # d # cs) =
     (case from_hex_char c of None \<Rightarrow> Inl (InvalidByteError c)
      | Some a \<Rightarrow> (case from_hex_char d of None \<Rightarrow> Inl (InvalidByteError d)
          | Some b \<Rightarrow> (case hex_decode cs of Inl e \<Rightarrow> Inl e
              | Inr bs \<Rightarrow> Inr ((push_bit 4 a OR b) # bs))))"

lemma from_hex_hextable: "i < 16 \<Longrightarrow> from_hex_char (hextable ! i) = Some (of_nat i)"
proof -
  assume "i < 16"
  moreover have "\<forall>i \<in> set [0..<16]. from_hex_char (hextable ! i) = Some (of_nat i)"
    by (simp add: hextable_def from_hex_char_def numeral_nat)
  ultimately show ?thesis by simp
qed

lemma unat_drop_bit4: "unat (drop_bit 4 v :: byte) < 16"
  using unsigned_less [where ?'a = nat and w = v]
  by (simp add: drop_bit_eq_div unat_div_distrib)

lemma unat_and15: "unat (v AND 15 :: byte) < 16"
proof -
  have "unat (v AND 15) \<le> unat (15 :: byte)"
    by (rule word_and_le1 [THEN word_le_nat_alt [THEN iffD1]])
  then show ?thesis by simp
qed

lemma nibbles: "push_bit 4 (drop_bit 4 v) OR (v AND 15) = (v :: byte)"
proof -
  have "(15 :: byte) = mask 4" by (simp add: mask_eq_exp_minus_1)
  then show ?thesis
    by (simp add: bit_eq_iff bit_simps) (auto simp: bit_simps)
qed

lemma hex_decode_encode [simp]: "hex_decode (hex_encode bs) = Inr bs"
  by (induction bs)
    (auto simp: hex_encode_def hex_encode_byte_def from_hex_hextable unat_drop_bit4 unat_and15 nibbles)

lemma hex_encode_inj: "hex_encode a = hex_encode b \<longleftrightarrow> a = b"
  by (metis hex_decode_encode sum.inject(2))

end
