(* ===== verification/Swarm.thy ===== *)
theory Swarm
  imports Prelude
begin

text \<open>
  The address space of the network (\<open>pkg/swarm\<close>): addresses and chunks
  (\<open>swarm.go\<close>), the XOR distance (\<open>distance.go\<close>), the proximity order
  (\<open>proximity.go\<close>) and the list utilities (\<open>utilities.go\<close>). The lemmas relate the
  byte loops to the bits of an address: the proximity order is the capped length of the
  common bit prefix, it satisfies the ultrametric inequality, the byte-wise comparison
  of distances is the comparison of the distances as integers, and a larger proximity
  order implies a smaller distance.
\<close>

section \<open>Constants and addresses (\<open>swarm.go\<close>)\<close>

type_synonym address = bytes

definition SpanSize :: nat where "SpanSize = 8"
definition SectionSize :: nat where "SectionSize = 32"
definition Branches :: nat where "Branches = 128"
definition ChunkSize :: nat where "ChunkSize = SectionSize * Branches"
definition HashSize :: nat where "HashSize = 32"
definition MaxPO :: u8 where "MaxPO = 31"
definition ExtendedPO :: u8 where "ExtendedPO = MaxPO + 5"
definition MaxBins :: u8 where "MaxBins = MaxPO + 1"

definition NewAddress :: "bytes \<Rightarrow> address" where
  "NewAddress b = b"

definition EmptyAddress :: address where
  "EmptyAddress = NewAddress (replicate HashSize 0)"

definition ZeroAddress :: address where
  "ZeroAddress = NewAddress []"

definition ParseHexAddress :: "string \<Rightarrow> hex_error + address" where
  "ParseHexAddress s = (case hex_decode s of Inl e \<Rightarrow> Inl e | Inr b \<Rightarrow> Inr (NewAddress b))"

definition addr_String :: "address \<Rightarrow> string" where
  "addr_String a = hex_encode a"

definition addr_Equal :: "address \<Rightarrow> address \<Rightarrow> bool" where
  "addr_Equal a b = (a = b)"

definition IsZero :: "address \<Rightarrow> bool" where
  "IsZero a = addr_Equal a ZeroAddress"

definition IsEmpty :: "address \<Rightarrow> bool" where
  "IsEmpty a = addr_Equal a EmptyAddress"

definition IsValidLength :: "address \<Rightarrow> bool" where
  "IsValidLength a = (length a = HashSize)"

definition IsValidNonEmpty :: "address \<Rightarrow> bool" where
  "IsValidNonEmpty a = (IsValidLength a \<and> \<not> IsEmpty a)"

text \<open>\<open>bytes.Compare\<close>: lexicographic order of byte slices.\<close>

fun bytes_Compare :: "bytes \<Rightarrow> bytes \<Rightarrow> int" where
  "bytes_Compare [] [] = 0"
| "bytes_Compare [] (_ # _) = - 1"
| "bytes_Compare (_ # _) [] = 1"
| "bytes_Compare (x # xs) (y # ys) =
     (if x < y then - 1 else if y < x then 1 else bytes_Compare xs ys)"

definition addr_Compare :: "address \<Rightarrow> address \<Rightarrow> int" where
  "addr_Compare a b = bytes_Compare a b"

text \<open>Binary address strings: the loop state is the pending bit position, the byte being
  filled and the bytes already completed.\<close>

datatype bitstr_error = ErrBadCharacter

fun bitstr_loop :: "string \<Rightarrow> nat \<Rightarrow> byte \<Rightarrow> bytes \<Rightarrow> bitstr_error + bytes" where
  "bitstr_loop [] bitPos b a = Inr (a @ [b])"
| "bitstr_loop (s # src) bitPos b a =
     (if s \<noteq> CHR ''1'' \<and> s \<noteq> CHR ''0'' then Inl ErrBadCharacter
      else let b' = (if s = CHR ''1'' then b OR push_bit bitPos 1 else b)
           in if bitPos = 0 then bitstr_loop src 7 0 (a @ [b'])
              else bitstr_loop src (bitPos - 1) b' a)"

definition bytesToAddr :: "bytes \<Rightarrow> address" where
  "bytesToAddr b = NewAddress (take HashSize b @ replicate (HashSize - length b) 0)"

definition ParseBitStrAddress :: "string \<Rightarrow> bitstr_error + address" where
  "ParseBitStrAddress src = (case bitstr_loop src 7 0 [] of Inl e \<Rightarrow> Inl e | Inr a \<Rightarrow> Inr (bytesToAddr a))"

section \<open>Distance (\<open>distance.go\<close>)\<close>

datatype dist_error = ErrAddressLength

definition DistanceRaw :: "address \<Rightarrow> address \<Rightarrow> dist_error + bytes" where
  "DistanceRaw x y =
     (if length x \<noteq> length y then Inl ErrAddressLength else Inr (map2 (XOR) x y))"

definition big_SetBytes :: "bytes \<Rightarrow> int" where
  "big_SetBytes bs = foldl (\<lambda>r b. r * 256 + uint b) 0 bs"

definition Distance :: "address \<Rightarrow> address \<Rightarrow> dist_error + int" where
  "Distance x y = (case DistanceRaw x y of Inl e \<Rightarrow> Inl e | Inr d \<Rightarrow> Inr (big_SetBytes d))"

fun dist_cmp_loop :: "bytes \<Rightarrow> bytes \<Rightarrow> bytes \<Rightarrow> int" where
  "dist_cmp_loop (a # as) (x # xs) (y # ys) =
     (let dx = x XOR a; dy = y XOR a
      in if dx = dy then dist_cmp_loop as xs ys else if dx < dy then 1 else - 1)"
| "dist_cmp_loop _ _ _ = 0"

definition DistanceCmp :: "address \<Rightarrow> address \<Rightarrow> address \<Rightarrow> dist_error + int" where
  "DistanceCmp a x y =
     (if length a \<noteq> length x \<or> length a \<noteq> length y then Inl ErrAddressLength
      else Inr (dist_cmp_loop a x y))"

definition Closer :: "address \<Rightarrow> address \<Rightarrow> address \<Rightarrow> dist_error + bool" where
  "Closer x a y = (case DistanceCmp a x y of Inl e \<Rightarrow> Inl e | Inr c \<Rightarrow> Inr (c = 1))"

section \<open>Proximity order (\<open>proximity.go\<close>)\<close>

definition po_inner :: "byte \<Rightarrow> nat option" where
  "po_inner oxo = find (\<lambda>j. drop_bit (7 - j) oxo AND 1 \<noteq> 0) [0..<8]"

fun po_outer :: "bytes \<Rightarrow> bytes \<Rightarrow> nat list \<Rightarrow> u8 \<Rightarrow> u8" where
  "po_outer one other [] d = d"
| "po_outer one other (i # is) d =
     (case po_inner (one ! i XOR other ! i) of
        Some j \<Rightarrow> of_nat i * 8 + of_nat j
      | None \<Rightarrow> po_outer one other is d)"

definition po_bytes :: "u8 \<Rightarrow> bytes \<Rightarrow> bytes \<Rightarrow> u8" where
  "po_bytes maxpo one other =
     (let b = maxpo div 8 + 1;
          l1 = of_nat (length one);
          b1 = (if b > l1 then l1 else b);
          l2 = of_nat (length other)
      in if b1 > l2 then l2 else b1)"

definition Proximity :: "bytes \<Rightarrow> bytes \<Rightarrow> u8" where
  "Proximity one other = po_outer one other [0..<unat (po_bytes MaxPO one other)] MaxPO"

definition ExtendedProximity :: "bytes \<Rightarrow> bytes \<Rightarrow> u8" where
  "ExtendedProximity one other =
     po_outer one other [0..<unat (po_bytes ExtendedPO one other)] ExtendedPO"

section \<open>Address lists (\<open>utilities.go\<close>)\<close>

fun index_of_from :: "int \<Rightarrow> address list \<Rightarrow> address \<Rightarrow> int" where
  "index_of_from i [] a = - 1"
| "index_of_from i (v # addrs) a = (if addr_Equal v a then i else index_of_from (i + 1) addrs a)"

definition IndexOfAddress :: "address list \<Rightarrow> address \<Rightarrow> int" where
  "IndexOfAddress addrs a = index_of_from 0 addrs a"

definition ContainsAddress :: "address list \<Rightarrow> address \<Rightarrow> bool" where
  "ContainsAddress addrs a = (IndexOfAddress addrs a \<noteq> - 1)"

definition RemoveAddress :: "address list \<Rightarrow> address \<Rightarrow> address list" where
  "RemoveAddress addrs a =
     (let i = IndexOfAddress addrs a
      in if i = - 1 then addrs else take (nat i) addrs @ drop (nat i + 1) addrs)"


section \<open>The bit-level reading\<close>

text \<open>\<open>cpl\<close> is the length of the common prefix of two bit strings, the specification of
  the proximity order.\<close>

fun cpl :: "bool list \<Rightarrow> bool list \<Rightarrow> nat" where
  "cpl (x # xs) (y # ys) = (if x = y then Suc (cpl xs ys) else 0)"
| "cpl _ _ = 0"

lemma cpl_commute: "cpl xs ys = cpl ys xs"
  by (induction xs ys rule: cpl.induct) auto

lemma cpl_le: "cpl xs ys \<le> length xs"
  by (induction xs ys rule: cpl.induct) auto

lemma cpl_refl [simp]: "cpl xs xs = length xs"
  by (induction xs) auto

lemma cpl_full: "length xs = length ys \<Longrightarrow> cpl xs ys = length xs \<longleftrightarrow> xs = ys"
  by (induction xs ys rule: list_induct2) auto

lemma cpl_append_eq: "cpl (xs @ us) (xs @ vs) = length xs + cpl us vs"
  by (induction xs) auto

lemma cpl_append_neq:
  "length xs = length ys \<Longrightarrow> xs \<noteq> ys \<Longrightarrow> cpl (xs @ us) (ys @ vs) = cpl xs ys"
  by (induction xs ys rule: list_induct2) auto

lemma cpl_ultrametric:
  "length xs = length ys \<Longrightarrow> length ys = length zs \<Longrightarrow> min (cpl xs ys) (cpl ys zs) \<le> cpl xs zs"
  by (induction xs ys zs rule: list_induct3) auto

lemma and_one_neq_zero: "drop_bit n (w :: byte) AND 1 \<noteq> 0 \<longleftrightarrow> bit w n"
  by (simp add: bit_iff_odd_drop_bit and_one_eq odd_iff_mod_2_eq_one)

text \<open>The inner loop of \<open>Proximity\<close> finds the first set bit of the XOR of two bytes, that
  is, the first position at which they differ.\<close>

lemma po_inner_cpl:
  "po_inner (x XOR y) =
     (if x = y then None else Some (cpl (byte_bits x) (byte_bits y)))"
proof -
  have "po_inner (x XOR y) =
      (if byte_bits x = byte_bits y then None else Some (cpl (byte_bits x) (byte_bits y)))"
    unfolding po_inner_def and_one_neq_zero
    by (simp add: byte_bits_unfold bit_xor_iff upt_rec numeral_nat)
  then show ?thesis by (simp add: byte_bits_inj)
qed

lemma po_inner_0 [simp]: "po_inner 0 = None"
  using po_inner_cpl [of 0 0] by simp

lemma po_outer_shift:
  "po_outer (x # xs) (y # ys) (map Suc is) d =
     (if \<forall>i \<in> set is. xs ! i = ys ! i then d else po_outer xs ys is d + 8)"
proof (induction "is")
  case Nil
  then show ?case by simp
next
  case (Cons i "is")
  then show ?case
    by (auto simp: po_inner_cpl algebra_simps)
qed

lemma po_outer_default:
  "\<forall>i \<in> set is. one ! i = other ! i \<Longrightarrow> po_outer one other is d = d"
  by (induction "is") (auto simp: po_inner_cpl)

lemma po_outer_cpl:
  assumes "length one = n" "length other = n"
  shows "po_outer one other [0..<n] d =
    (if one = other then d else of_nat (cpl (bits_of one) (bits_of other)))"
  using assms
proof (induction n arbitrary: one other)
  case 0
  then show ?case by simp
next
  case (Suc n)
  then obtain x xs y ys where c: "one = x # xs" "other = y # ys"
    and l: "length xs = n" "length ys = n"
    by (metis length_Suc_conv)
  have u: "[0..<Suc n] = 0 # map Suc [0..<n]"
    by (simp add: map_Suc_upt upt_conv_Cons del: upt_Suc)
  have all: "(\<forall>i \<in> set [0..<n]. xs ! i = ys ! i) \<longleftrightarrow> xs = ys"
    using l by (simp add: list_eq_iff_nth_eq [of xs ys] Ball_def)
  show ?case
  proof (cases "x = y")
    case True
    have "po_outer one other [0..<Suc n] d = (if xs = ys then d else po_outer xs ys [0..<n] d + 8)"
      unfolding c u using True all by (simp add: po_outer_shift del: map_Suc_upt)
    also have "\<dots> = (if xs = ys then d else of_nat (cpl (bits_of xs) (bits_of ys) + 8))"
      using Suc.IH [OF l] by simp
    finally show ?thesis
      using True c by (simp add: cpl_append_eq add.commute)
  next
    case False
    then have "byte_bits x \<noteq> byte_bits y" by (simp add: byte_bits_inj)
    with False show ?thesis
      unfolding c u by (simp add: po_inner_cpl cpl_append_neq)
  qed
qed

lemma po_outer_take:
  "(\<And>i. i \<in> set is \<Longrightarrow> i < n) \<Longrightarrow>
     po_outer (take n one) (take n other) is d = po_outer one other is d"
  by (induction "is") (auto split: option.split)


text \<open>The number of bytes inspected: the capped minimum of the two lengths. The sources
  convert the lengths to \<open>uint8\<close>, so the statement is for slices below 256 bytes.\<close>

lemma unat_po_bytes:
  assumes "length one < 256" "length other < 256" "unat (maxpo div 8 + 1) = k"
  shows "unat (po_bytes maxpo one other) = min k (min (length one) (length other))"
  using assms
  by (auto simp: po_bytes_def Let_def word_less_nat_alt unat_of_nat min_def)

lemma po_outer_eq:
  assumes "n \<le> length one" "n \<le> length other"
  shows "po_outer one other [0..<n] d =
    (if take n one = take n other then d
     else of_nat (cpl (bits_of (take n one)) (bits_of (take n other))))"
proof -
  have "po_outer one other [0..<n] d = po_outer (take n one) (take n other) [0..<n] d"
    by (rule po_outer_take [symmetric]) simp
  then show ?thesis
    using assms by (simp add: po_outer_cpl [of _ n])
qed

lemma cpl_take_bytes:
  assumes "n \<le> length one" "n \<le> length other" "take n one \<noteq> take n other"
  shows "cpl (bits_of (take n one)) (bits_of (take n other)) = cpl (bits_of one) (bits_of other)"
proof -
  have "bits_of (take n one) \<noteq> bits_of (take n other)"
    using assms bits_of_inj by blast
  then show ?thesis
    using assms bits_of_split [of one n] bits_of_split [of other n]
    by (metis cpl_append_neq length_bits_of length_take min.absorb2)
qed


lemma Proximity_cpl:
  assumes "4 \<le> length one" "length one < 256" "4 \<le> length other" "length other < 256"
  shows "unat (Proximity one other) = min 31 (cpl (bits_of one) (bits_of other))"
proof -
  have n: "unat (po_bytes MaxPO one other) = 4"
    using assms by (subst unat_po_bytes [where k = 4]) (auto simp: MaxPO_def)
  show ?thesis
  proof (cases "take 4 one = take 4 other")
    case True
    then have "cpl (bits_of one) (bits_of other) =
        length (bits_of (take 4 one)) + cpl (bits_of (drop 4 one)) (bits_of (drop 4 other))"
      using bits_of_split [of one 4] bits_of_split [of other 4] by (metis cpl_append_eq)
    then have "32 \<le> cpl (bits_of one) (bits_of other)"
      using assms by simp
    with True show ?thesis
      unfolding Proximity_def n using assms by (simp add: po_outer_eq MaxPO_def)
  next
    case False
    have "cpl (bits_of (take 4 one)) (bits_of (take 4 other)) \<noteq> 32"
      using False assms cpl_full [of "bits_of (take 4 one)" "bits_of (take 4 other)"]
      by (auto simp: bits_of_inj)
    moreover have "cpl (bits_of (take 4 one)) (bits_of (take 4 other)) \<le> 32"
      using cpl_le [of "bits_of (take 4 one)" "bits_of (take 4 other)"] assms by simp
    ultimately show ?thesis
      using False assms
      by (simp add: Proximity_def n po_outer_eq cpl_take_bytes unat_of_nat)
  qed
qed

lemma big_SetBytes_be_val: "big_SetBytes bs = int (be_val (bits_of bs))"
proof -
  have "foldl (\<lambda>r b. r * 256 + uint b) r bs = r * 256 ^ length bs + int (be_val (bits_of bs))" for r
  proof (induction bs arbitrary: r)
    case Nil
    then show ?case by simp
  next
    case (Cons b bs)
    have "(256 :: int) ^ length bs = 2 ^ (8 * length bs)"
      by (simp add: power_mult)
    moreover have "uint b = int (be_val (byte_bits b))"
      by (simp flip: unat_byte_bits)
    ultimately show ?case
      using Cons.IH by (simp add: be_val_append algebra_simps)
  qed
  then show ?thesis by (simp add: big_SetBytes_def)
qed

lemma bits_of_map2_xor:
  "length xs = length ys \<Longrightarrow> bits_of (map2 (XOR) xs ys) = map2 (\<noteq>) (bits_of xs) (bits_of ys)"
  by (induction xs ys rule: list_induct2) (simp_all add: byte_bits_xor)

lemma dist_cmp_loop_eq:
  assumes "length x = length a" "length y = length a"
  shows "dist_cmp_loop a x y =
    (let dx = be_val (bits_of (map2 (XOR) x a)); dy = be_val (bits_of (map2 (XOR) y a))
     in if dx < dy then 1 else if dx = dy then 0 else - 1)"
  using assms
proof (induction a x y rule: dist_cmp_loop.induct)
  case (1 a as x xs y ys)
  define u v where "u = bits_of (map2 (XOR) xs as)" and "v = bits_of (map2 (XOR) ys as)"
  have len: "length u = length v" using 1 by (simp add: u_def v_def)
  have uv: "be_val u < 2 ^ length v" "be_val v < 2 ^ length v"
    using be_val_bound [of u] be_val_bound [of v] len by simp_all
  have scale: "p < q \<Longrightarrow> p * 2 ^ length v + be_val u' < q * 2 ^ length v + be_val v'"
    if "be_val u' < 2 ^ length v" for p q :: nat and u' v'
  proof -
    assume "p < q"
    then have "Suc p * 2 ^ length v \<le> q * 2 ^ length v" by (intro mult_le_mono1) simp
    with that show ?thesis by simp
  qed
  show ?case
  proof (cases "x XOR a = y XOR a")
    case True
    with 1 show ?thesis by (simp add: be_val_append)
  next
    case False
    then show ?thesis
      using scale [OF uv(1), of "unat (x XOR a)" "unat (y XOR a)" v]
        scale [OF uv(2), of "unat (y XOR a)" "unat (x XOR a)" u] len
      by (auto simp: be_val_append Let_def u_def v_def word_less_nat_alt word_unat_eq_iff
          simp flip: unat_byte_bits)
  qed
qed auto

lemma bits_less_of_cpl:
  assumes "length a = length x" "length x = length y" "cpl a y < cpl a x"
  shows "bits_less (map2 (\<noteq>) x a) (map2 (\<noteq>) y a)"
  using assms by (induction a x y rule: list_induct3) (auto split: if_splits)


lemma DistanceRaw_bits:
  "length x = length y \<Longrightarrow> DistanceRaw x y = Inr d \<Longrightarrow> bits_of d = map2 (\<noteq>) (bits_of x) (bits_of y)"
  by (auto simp: DistanceRaw_def bits_of_map2_xor)

section \<open>Address lists\<close>

lemma index_of_from_spec:
  "index_of_from k addrs a =
     (if a \<in> set addrs then k + int (length (takeWhile (\<lambda>v. v \<noteq> a) addrs)) else - 1)"
  by (induction addrs arbitrary: k) (auto simp: addr_Equal_def)

lemma IndexOfAddress_notin: "a \<notin> set addrs \<Longrightarrow> IndexOfAddress addrs a = - 1"
  by (simp add: IndexOfAddress_def index_of_from_spec)

lemma IndexOfAddress_in:
  assumes "a \<in> set addrs"
  shows "0 \<le> IndexOfAddress addrs a" "nat (IndexOfAddress addrs a) < length addrs"
    "addrs ! nat (IndexOfAddress addrs a) = a"
proof -
  have e: "IndexOfAddress addrs a = int (length (takeWhile (\<lambda>v. v \<noteq> a) addrs))"
    using assms by (simp add: IndexOfAddress_def index_of_from_spec)
  then show "0 \<le> IndexOfAddress addrs a" by simp
  have l: "length (takeWhile (\<lambda>v. v \<noteq> a) addrs) < length addrs"
    using assms by (rule length_takeWhile_neq)
  with e show "nat (IndexOfAddress addrs a) < length addrs" by simp
  show "addrs ! nat (IndexOfAddress addrs a) = a"
    using e nth_length_takeWhile [OF l] by simp
qed

lemma ContainsAddress_iff: "ContainsAddress addrs a \<longleftrightarrow> a \<in> set addrs"
  using IndexOfAddress_notin IndexOfAddress_in(1) by (force simp: ContainsAddress_def)

lemma RemoveAddress_remove1: "RemoveAddress addrs a = remove1 a addrs"
proof -
  have "take (length (takeWhile (\<lambda>v. v \<noteq> a) xs)) xs @
      drop (length (takeWhile (\<lambda>v. v \<noteq> a) xs) + 1) xs = remove1 a xs" for xs
    by (induction xs) auto
  then show ?thesis
    by (auto simp: RemoveAddress_def Let_def IndexOfAddress_def index_of_from_spec remove1_idem
        nat_add_distrib)
qed

section \<open>Binary address strings\<close>

lemma bitstr_loop_error:
  "(\<exists>e. bitstr_loop src p b a = Inl e) \<longleftrightarrow> \<not> set src \<subseteq> {CHR ''0'', CHR ''1''}"
  by (induction src p b a rule: bitstr_loop.induct) (auto simp: Let_def)

lemma byte_bits_set:
  "p < 8 \<Longrightarrow> byte_bits (b OR push_bit p 1) = (byte_bits b)[7 - p := True]"
  by (auto simp: list_eq_iff_nth_eq byte_bits_nth bit_simps nth_list_update)

lemma bitstr_loop_bits:
  assumes "bitstr_loop src p b a = Inr r" "p < 8" "\<forall>j \<le> p. \<not> bit b j"
  shows "\<exists>k. bits_of r =
    bits_of a @ take (7 - p) (byte_bits b) @ map (\<lambda>c. c = CHR ''1'') src @ replicate k False"
  using assms
proof (induction src p b a rule: bitstr_loop.induct)
  case (1 p b a)
  have "drop (7 - p) (byte_bits b) = replicate (Suc p) False"
    using "1.prems"(2,3) by (auto simp: list_eq_iff_nth_eq byte_bits_nth simp del: replicate_Suc)
  then have "byte_bits b = take (7 - p) (byte_bits b) @ replicate (Suc p) False"
    by (metis append_take_drop_id)
  with 1 show ?case
    by (auto simp: bits_of_def intro!: exI [of _ "Suc p"])
next
  case (2 s src p b a)
  define b' where "b' = (if s = CHR ''1'' then b OR push_bit p 1 else b)"
  have ok: "s = CHR ''1'' \<or> s = CHR ''0''" using 2 by (auto split: if_splits)
  have bit': "bit b' j \<longleftrightarrow> bit b j \<or> (j = p \<and> s = CHR ''1'')" if "j < 8" for j
    using that 2 by (auto simp: b'_def bit_simps)
  have tk: "take (8 - p) (byte_bits b') = take (7 - p) (byte_bits b) @ [s = CHR ''1'']"
    using 2 bit' by (auto simp: list_eq_iff_nth_eq byte_bits_nth nth_append less_diff_conv)
  show ?case
  proof (cases "p = 0")
    case True
    then have "bitstr_loop src 7 0 (a @ [b']) = Inr r"
      using 2 ok by (auto simp: b'_def Let_def split: if_splits)
    then have "\<exists>k. bits_of r = bits_of (a @ [b']) @ map (\<lambda>c. c = CHR ''1'') src @ replicate k False"
      using "2.IH"(1) [of b'] ok True by (auto simp: b'_def)
    with tk True show ?thesis by (simp add: bits_of_def)
  next
    case False
    then have "bitstr_loop src (p - 1) b' a = Inr r"
      using 2 ok by (auto simp: b'_def Let_def split: if_splits)
    moreover have "\<forall>j \<le> p - 1. \<not> bit b' j"
      using 2 bit' False by auto
    ultimately have "\<exists>k. bits_of r = bits_of a @ take (7 - (p - 1)) (byte_bits b') @
        map (\<lambda>c. c = CHR ''1'') src @ replicate k False"
      using "2.IH"(2) [of b'] ok False 2 by (auto simp: b'_def)
    with tk False show ?thesis by (simp add: Suc_diff_Suc)
  qed
qed

section \<open>Properties of the metric\<close>

text \<open>C29: for addresses of equal length between 4 and 255 bytes, the proximity order is
  symmetric, it is the number of common leading bits capped at 31, so that an address has order 31
  with itself, and it satisfies the ultrametric inequality.\<close>

theorem proximity_metric:
  assumes "length x = n" "length y = n" "length z = n" "4 \<le> n" "n < 256"
  shows "unat (Proximity x y) = min (unat MaxPO) (cpl (bits_of x) (bits_of y)) \<and>
    Proximity x y = Proximity y x \<and>
    min (Proximity x y) (Proximity y z) \<le> Proximity x z \<and> Proximity x x = MaxPO"
proof -
  have cap: "unat MaxPO = 31" by (simp add: MaxPO_def)
  have u: "unat (Proximity p q) = min 31 (cpl (bits_of p) (bits_of q))"
    if "length p = n" "length q = n" for p q
    using Proximity_cpl that assms by simp
  have sym: "Proximity x y = Proximity y x"
    using u assms by (simp add: word_unat_eq_iff cpl_commute)
  have "min (cpl (bits_of x) (bits_of y)) (cpl (bits_of y) (bits_of z))
      \<le> cpl (bits_of x) (bits_of z)"
    using assms by (intro cpl_ultrametric) simp_all
  then have "min (Proximity x y) (Proximity y z) \<le> Proximity x z"
    unfolding min_le_iff_disj using u assms by (auto simp: word_le_nat_alt)
  moreover have "32 \<le> length (bits_of x)" using assms(1,4) by simp
  then have "unat (Proximity x x) = unat MaxPO" using u [OF assms(1,1)] cap by simp
  then have "Proximity x x = MaxPO" by (simp only: word_unat_eq_iff)
  ultimately show ?thesis using u [OF assms(1,2)] sym cap by simp
qed

theorem proximity_metric_witness:
  "min (Proximity [128, 0, 0, 0] [192, 0, 0, 1]) (Proximity [192, 0, 0, 1] [192, 8, 0, 1])
     \<le> Proximity [128, 0, 0, 0] [192, 8, 0, 1] \<and> Proximity [128, 0, 0, 0] [128, 0, 0, 0] = MaxPO"
  by (rule proximity_metric [of "[128, 0, 0, 0]" 4 "[192, 0, 0, 1]" "[192, 8, 0, 1]",
        THEN conjunct2, THEN conjunct2]) simp_all

text \<open>C31: the byte-wise comparison loop of \<open>DistanceCmp\<close> decides the order of the two
  distances as big integers, as computed by \<open>Distance\<close>; with mismatched lengths both
  report an error.\<close>

theorem distance_cmp_correct:
  "DistanceCmp a x y =
     (case (Distance x a, Distance y a) of
        (Inr dx, Inr dy) \<Rightarrow> Inr (if dx < dy then 1 else if dx = dy then 0 else - 1)
      | _ \<Rightarrow> Inl ErrAddressLength)"
  by (simp add: DistanceCmp_def Distance_def DistanceRaw_def big_SetBytes_be_val
      dist_cmp_loop_eq Let_def eq_commute [of "length a"])

text \<open>An address with a strictly larger proximity order to the target is strictly
  closer to it in the XOR metric, so the bins of the routing table order peers
  consistently with \<open>Closer\<close>.\<close>

lemma proximity_closer:
  assumes "length a = n" "length x = n" "length y = n" "4 \<le> n" "n < 256"
    and "Proximity a y < Proximity a x"
  shows "Closer x a y = Inr True"
proof -
  have "min 31 (cpl (bits_of a) (bits_of y)) < min 31 (cpl (bits_of a) (bits_of x))"
    using assms Proximity_cpl [of a x] Proximity_cpl [of a y] by (simp add: word_less_nat_alt)
  then have "cpl (bits_of a) (bits_of y) < cpl (bits_of a) (bits_of x)"
    by (simp add: min_def split: if_splits)
  then have "bits_less (map2 (\<noteq>) (bits_of x) (bits_of a)) (map2 (\<noteq>) (bits_of y) (bits_of a))"
    using assms by (intro bits_less_of_cpl) simp_all
  then have "be_val (bits_of (map2 (XOR) x a)) < be_val (bits_of (map2 (XOR) y a))"
    using assms by (simp add: bits_of_map2_xor be_val_less_iff)
  then show ?thesis
    using assms by (simp add: Closer_def DistanceCmp_def dist_cmp_loop_eq)
qed

lemma bits_of_replicate0: "bits_of (replicate n 0) = replicate (8 * n) False"
  by (induction n) (simp_all add: byte_bits_unfold numeral_eq_Suc)

lemma bits_of_append: "bits_of (xs @ ys) = bits_of xs @ bits_of ys"
  by (simp add: bits_of_def)

lemma bits_of_take: "bits_of (take n xs) = take (8 * n) (bits_of xs)"
proof (induction xs arbitrary: n)
  case (Cons x xs)
  then show ?case by (cases n) simp_all
qed simp

lemma bits_of_bytesToAddr:
  assumes "bits_of r = M @ replicate k False"
  shows "bits_of (bytesToAddr r) = take 256 (M @ replicate 256 False)"
proof -
  have len: "8 * length r = length M + k"
    using arg_cong [OF assms, of length] by simp
  have "bits_of (bytesToAddr r) =
      take 256 (M @ replicate k False) @ replicate (8 * (32 - length r)) False"
    by (simp add: bytesToAddr_def NewAddress_def HashSize_def bits_of_append bits_of_take
        bits_of_replicate0 assms)
  also have "\<dots> = take 256 (M @ replicate 256 False)"
    using len by (intro nth_equalityI) (auto simp: nth_append min_def diff_mult_distrib2)
  finally show ?thesis .
qed

text \<open>\<open>ParseBitStrAddress\<close> fails exactly on strings with a character other than 0 and
  1; otherwise it returns a 32-byte address whose bits are the digits of the string,
  cut at 256 bits or padded with zero bits.\<close>

lemma parse_bit_str:
  "if set src \<subseteq> {CHR ''0'', CHR ''1''}
   then \<exists>a. ParseBitStrAddress src = Inr a \<and> length a = HashSize \<and>
     bits_of a = take 256 (map (\<lambda>c. c = CHR ''1'') src @ replicate 256 False)
   else ParseBitStrAddress src = Inl ErrBadCharacter"
proof (cases "bitstr_loop src 7 0 []")
  case (Inl e)
  then show ?thesis
    using bitstr_loop_error [of src 7 0 "[]"]
    by (cases e) (auto simp: ParseBitStrAddress_def)
next
  case (Inr r)
  then obtain k where "bits_of r = map (\<lambda>c. c = CHR ''1'') src @ replicate k False"
    using bitstr_loop_bits [OF Inr] by auto
  moreover have "length (bytesToAddr r) = HashSize"
    by (simp add: bytesToAddr_def NewAddress_def)
  ultimately show ?thesis
    using Inr bitstr_loop_error [of src 7 0 "[]"] bits_of_bytesToAddr
    by (auto simp: ParseBitStrAddress_def)
qed

end
