(* ===== verification/PSlice.thy ===== *)
theory PSlice
  imports Swarm
begin

text \<open>
  The peer slice of the routing table (\<open>pkg/topology/pslice/pslice.go\<close>): one list of
  addresses per proximity bin. Index panics of the sources are the value \<open>None\<close>; the
  invariant \<open>ps_inv\<close> excludes them. The locale \<open>peer_set\<close> is the contract the
  Kademlia component relies on (a set of peers with insertion, removal and membership);
  the interpretation at the end proves it for the bin structure.
\<close>

section \<open>The interface\<close>

locale peer_set =
  fixes add1 :: "'s \<Rightarrow> 'a \<Rightarrow> 's option"
    and remove :: "'s \<Rightarrow> 'a \<Rightarrow> 's option"
    and ex :: "'s \<Rightarrow> 'a \<Rightarrow> bool option"
    and elems :: "'s \<Rightarrow> 'a set"
    and inv :: "'s \<Rightarrow> bool"
  assumes add1_ok: "inv s \<Longrightarrow> \<exists>s'. add1 s a = Some s' \<and> inv s' \<and> elems s' = insert a (elems s)"
    and remove_ok: "inv s \<Longrightarrow> \<exists>s'. remove s a = Some s' \<and> inv s' \<and> elems s' = elems s - {a}"
    and ex_ok: "inv s \<Longrightarrow> ex s a = Some (a \<in> elems s)"
begin

text \<open>A client applies a sequence of insertions (\<open>True\<close>) and removals (\<open>False\<close>).\<close>

fun run :: "'s \<Rightarrow> (bool \<times> 'a) list \<Rightarrow> 's option" where
  "run s [] = Some s"
| "run s ((True, a) # es) = (case add1 s a of None \<Rightarrow> None | Some s' \<Rightarrow> run s' es)"
| "run s ((False, a) # es) = (case remove s a of None \<Rightarrow> None | Some s' \<Rightarrow> run s' es)"

fun last_event :: "(bool \<times> 'a) list \<Rightarrow> 'a \<Rightarrow> bool \<Rightarrow> bool" where
  "last_event [] a d = d"
| "last_event ((b, x) # es) a d = last_event es a (if x = a then b else d)"

lemma run_spec:
  "inv s \<Longrightarrow> \<exists>s'. run s es = Some s' \<and> inv s' \<and>
     (\<forall>a. ex s' a = Some (last_event es a (a \<in> elems s)))"
proof (induction s es rule: run.induct)
  case (1 s)
  then show ?case by (simp add: ex_ok)
next
  case (2 s a es)
  then obtain s1 where s1: "add1 s a = Some s1" "inv s1" "elems s1 = insert a (elems s)"
    using add1_ok by blast
  then have "b \<in> elems s1 \<longleftrightarrow> (if a = b then True else b \<in> elems s)" for b
    by auto
  with "2.IH" [OF s1(1,2)] s1(1) show ?case by simp
next
  case (3 s a es)
  then obtain s1 where s1: "remove s a = Some s1" "inv s1" "elems s1 = elems s - {a}"
    using remove_ok by blast
  then have "b \<in> elems s1 \<longleftrightarrow> (if a = b then False else b \<in> elems s)" for b
    by auto
  with "3.IH" [OF s1(1,2)] s1(1) show ?case by simp
qed

end

section \<open>The peer slice\<close>

record pslice =
  peers :: "address list list"
  baseBytes :: bytes
  maxBins :: nat

definition ps_New :: "nat \<Rightarrow> address \<Rightarrow> pslice" where
  "ps_New n base = \<lparr>peers = replicate n [], baseBytes = base, maxBins = n\<rparr>"

definition ps_po :: "pslice \<Rightarrow> bytes \<Rightarrow> u8" where
  "ps_po s peer =
     (let po = Proximity (baseBytes s) peer
      in if maxBins s \<le> unat po then of_nat (maxBins s) - 1 else po)"

definition ps_index :: "pslice \<Rightarrow> address \<Rightarrow> u8 \<Rightarrow> (bool \<times> int) option" where
  "ps_index s addr po =
     (if unat po < length (peers s)
      then let idx = IndexOfAddress (peers s ! unat po) addr
           in Some (if idx \<noteq> - 1 then (True, idx) else (False, 0))
      else None)"

definition append_at :: "pslice \<Rightarrow> u8 \<Rightarrow> address \<Rightarrow> pslice" where
  "append_at s po addr =
     s\<lparr>peers := (peers s)[unat po := peers s ! unat po @ [addr]]\<rparr>"

text \<open>The general case of \<open>Add\<close>: a first pass computes every bin and whether the address
  is already in it, a second pass appends the ones that were not. The reallocation of the
  bins in between only changes capacities.\<close>

fun add_scan :: "pslice \<Rightarrow> address list \<Rightarrow> (u8 \<times> bool) list option" where
  "add_scan s [] = Some []"
| "add_scan s (addr # addrs) =
     (let po = ps_po s addr in
      case ps_index s addr po of None \<Rightarrow> None
      | Some (e, _) \<Rightarrow> (case add_scan s addrs of None \<Rightarrow> None
          | Some rs \<Rightarrow> Some ((po, e) # rs)))"

fun add_commit :: "pslice \<Rightarrow> address list \<Rightarrow> (u8 \<times> bool) list \<Rightarrow> pslice" where
  "add_commit s (addr # addrs) ((po, e) # rs) =
     add_commit (if e then s else append_at s po addr) addrs rs"
| "add_commit s _ _ = s"

definition ps_Add :: "pslice \<Rightarrow> address list \<Rightarrow> pslice option" where
  "ps_Add s addrs =
     (case addrs of
        [addr] \<Rightarrow>
          (let po = ps_po s addr in
           case ps_index s addr po of None \<Rightarrow> None
           | Some (e, _) \<Rightarrow> Some (if e then s else append_at s po addr))
      | _ \<Rightarrow> map_option (add_commit s addrs) (add_scan s addrs))"

text \<open>The iterators take the callback as a state transformer that answers with the
  \<open>stop\<close> and \<open>next\<close> flags and an optional error.\<close>

type_synonym ('c, 'e) each_peer_func = "address \<Rightarrow> u8 \<Rightarrow> 'c \<Rightarrow> (bool \<times> bool \<times> 'e option) \<times> 'c"

datatype 'e loop_exit = Continue | Stop | Fail 'e

fun each_peer :: "('c, 'e) each_peer_func \<Rightarrow> u8 \<Rightarrow> address list \<Rightarrow> 'c \<Rightarrow> 'e loop_exit \<times> 'c" where
  "each_peer pf i [] c = (Continue, c)"
| "each_peer pf i (peer # ps) c =
     (case pf peer i c of
        ((stop, nxt, Some e), c') \<Rightarrow> (Fail e, c')
      | ((stop, nxt, None), c') \<Rightarrow>
          if stop then (Stop, c') else if nxt then (Continue, c') else each_peer pf i ps c')"

fun each_bins :: "('c, 'e) each_peer_func \<Rightarrow> pslice \<Rightarrow> nat list \<Rightarrow> 'c \<Rightarrow> 'e option \<times> 'c" where
  "each_bins pf s [] c = (None, c)"
| "each_bins pf s (i # is) c =
     (case each_peer pf (of_nat i) (peers s ! i) c of
        (Fail e, c') \<Rightarrow> (Some e, c')
      | (Stop, c') \<Rightarrow> (None, c')
      | (Continue, c') \<Rightarrow> each_bins pf s is c')"

definition EachBin :: "pslice \<Rightarrow> ('c, 'e) each_peer_func \<Rightarrow> 'c \<Rightarrow> 'e option \<times> 'c" where
  "EachBin s pf c = each_bins pf s (rev [0..<maxBins s]) c"

definition EachBinRev :: "pslice \<Rightarrow> ('c, 'e) each_peer_func \<Rightarrow> 'c \<Rightarrow> 'e option \<times> 'c" where
  "EachBinRev s pf c = each_bins pf s [0..<maxBins s] c"

definition BinSize :: "pslice \<Rightarrow> u8 \<Rightarrow> nat" where
  "BinSize s bin = (if maxBins s \<le> unat bin then 0 else length (peers s ! unat bin))"

definition BinPeers :: "pslice \<Rightarrow> u8 \<Rightarrow> address list" where
  "BinPeers s bin = (if maxBins s \<le> unat bin then [] else peers s ! unat bin)"

definition ps_Length :: "pslice \<Rightarrow> nat" where
  "ps_Length s = foldl (\<lambda>ret ps. ret + length ps) 0 (peers s)"

fun shallowest :: "nat \<Rightarrow> address list list \<Rightarrow> u8 \<times> bool" where
  "shallowest i [] = (0, True)"
| "shallowest i (ps # rest) = (if ps = [] then (of_nat i, False) else shallowest (Suc i) rest)"

definition ShallowestEmpty :: "pslice \<Rightarrow> u8 \<times> bool" where
  "ShallowestEmpty s = shallowest 0 (peers s)"

definition ps_Exists :: "pslice \<Rightarrow> address \<Rightarrow> bool option" where
  "ps_Exists s addr = map_option fst (ps_index s addr (ps_po s addr))"

definition ps_Remove :: "pslice \<Rightarrow> address \<Rightarrow> pslice option" where
  "ps_Remove s addr =
     (let po = ps_po s addr in
      case ps_index s addr po of None \<Rightarrow> None
      | Some (e, i) \<Rightarrow>
          if \<not> e then Some s
          else let bin = peers s ! unat po;
                   newLength = length bin - 1;
                   cpy = take newLength bin
               in if nat i = newLength then Some (s\<lparr>peers := (peers s)[unat po := cpy]\<rparr>)
                  else Some (s\<lparr>peers := (peers s)[unat po := cpy[nat i := bin ! newLength]]\<rparr>))"


section \<open>Invariant\<close>

text \<open>Every bin exists, holds each address once and only addresses of its own proximity
  order. The number of bins is positive and fits the \<open>uint8\<close> arithmetic of \<open>po\<close>.\<close>

definition ps_inv :: "pslice \<Rightarrow> bool" where
  "ps_inv s \<longleftrightarrow> 0 < maxBins s \<and> maxBins s \<le> 256 \<and> length (peers s) = maxBins s \<and>
     (\<forall>i < maxBins s. distinct (peers s ! i) \<and> (\<forall>a \<in> set (peers s ! i). unat (ps_po s a) = i))"

definition ps_elems :: "pslice \<Rightarrow> address set" where
  "ps_elems s = (\<Union>i < length (peers s). set (peers s ! i))"

lemma ps_invD:
  assumes "ps_inv s"
  shows "0 < maxBins s" "maxBins s \<le> 256" "length (peers s) = maxBins s"
    "i < maxBins s \<Longrightarrow> distinct (peers s ! i)"
    "i < maxBins s \<Longrightarrow> a \<in> set (peers s ! i) \<Longrightarrow> unat (ps_po s a) = i"
  using assms by (auto simp: ps_inv_def)

lemma ps_po_peers [simp]: "ps_po (s\<lparr>peers := p\<rparr>) a = ps_po s a"
  by (simp add: ps_po_def Let_def)

lemma ps_po_append_at [simp]: "ps_po (append_at s po addr) a = ps_po s a"
  by (simp add: append_at_def)

lemma ps_po_less: "0 < maxBins s \<Longrightarrow> maxBins s \<le> 256 \<Longrightarrow> unat (ps_po s a) < maxBins s"
proof -
  assume m: "0 < maxBins s" "maxBins s \<le> 256"
  have u: "unat (Proximity (baseBytes s) a) < 256"
    using unsigned_less [where ?'a = nat and w = "Proximity (baseBytes s) a"] by simp
  show ?thesis
  proof (cases "maxBins s \<le> unat (Proximity (baseBytes s) a)")
    case True
    with u have "maxBins s < 256" by simp
    with m have "unat ((of_nat (maxBins s) :: u8) - 1) = maxBins s - 1"
      by (subst unat_sub_if') (simp add: unat_of_nat)
    with True m show ?thesis by (simp add: ps_po_def Let_def)
  next
    case False
    then show ?thesis by (simp add: ps_po_def Let_def)
  qed
qed

lemma ps_inv_po: "ps_inv s \<Longrightarrow> unat (ps_po s a) < length (peers s)"
  using ps_po_less [of s a] by (simp add: ps_inv_def)

lemma ps_elems_bin:
  assumes "ps_inv s"
  shows "a \<in> ps_elems s \<longleftrightarrow> a \<in> set (peers s ! unat (ps_po s a))"
  using ps_inv_po [OF assms, of a] ps_invD(3,5) [OF assms]
  by (auto simp: ps_elems_def)

lemma ps_index_eq:
  assumes "ps_inv s"
  shows "ps_index s a (ps_po s a) =
    Some (if a \<in> ps_elems s then (True, IndexOfAddress (peers s ! unat (ps_po s a)) a) else (False, 0))"
  using assms ps_inv_po [OF assms, of a] ps_elems_bin [OF assms, of a]
    IndexOfAddress_in(1) [of a "peers s ! unat (ps_po s a)"]
  by (auto simp: ps_index_def Let_def IndexOfAddress_notin)

text \<open>Replacing one bin by a list that keeps the bin discipline.\<close>

lemma ps_inv_update:
  assumes "ps_inv s" "i < maxBins s" "distinct b" "\<forall>a \<in> set b. unat (ps_po s a) = i"
  shows "ps_inv (s\<lparr>peers := (peers s)[i := b]\<rparr>)"
  using assms by (auto simp: ps_inv_def nth_list_update)

lemma ps_elems_update:
  assumes "ps_inv s" "i < maxBins s"
  shows "ps_elems (s\<lparr>peers := (peers s)[i := b]\<rparr>) = (ps_elems s - set (peers s ! i)) \<union> set b"
proof -
  have d: "x \<notin> set (peers s ! i)" if "j < maxBins s" "j \<noteq> i" "x \<in> set (peers s ! j)" for j x
    using ps_invD(5) [OF assms(1)] assms(2) that by blast
  show ?thesis
    using assms d ps_invD(3) [OF assms(1)]
    by (auto simp: ps_elems_def nth_list_update split: if_splits)
qed

lemma append_at_ok:
  assumes "ps_inv s" "a \<notin> ps_elems s"
  shows "ps_inv (append_at s (ps_po s a) a) \<and>
    ps_elems (append_at s (ps_po s a) a) = insert a (ps_elems s)"
proof -
  let ?i = "unat (ps_po s a)"
  have i: "?i < maxBins s" using assms(1) by (simp add: ps_po_less ps_inv_def)
  have bin: "set (peers s ! ?i) \<subseteq> ps_elems s" "distinct (peers s ! ?i)"
    "\<forall>b \<in> set (peers s ! ?i). unat (ps_po s b) = ?i"
    using ps_invD(3,4,5) [OF assms(1)] i by (auto simp: ps_elems_def)
  have "a \<notin> set (peers s ! ?i)" using assms bin by blast
  then have "ps_inv (append_at s (ps_po s a) a)"
    unfolding append_at_def using assms(1) i bin by (intro ps_inv_update) auto
  moreover have "ps_elems (append_at s (ps_po s a) a) = insert a (ps_elems s)"
    unfolding append_at_def using assms(1) i bin by (subst ps_elems_update) auto
  ultimately show ?thesis by simp
qed

lemma add_scan_eq:
  "ps_inv s \<Longrightarrow> add_scan s addrs = Some (map (\<lambda>a. (ps_po s a, a \<in> ps_elems s)) addrs)"
  by (induction addrs) (simp_all add: Let_def ps_index_eq)

lemma add_commit_ok:
  assumes "ps_inv s" "distinct addrs" "\<forall>a \<in> set addrs. E a \<longleftrightarrow> a \<in> ps_elems s"
    "\<forall>a. po a = ps_po s a"
  shows "ps_inv (add_commit s addrs (map (\<lambda>a. (po a, E a)) addrs)) \<and>
    ps_elems (add_commit s addrs (map (\<lambda>a. (po a, E a)) addrs)) = ps_elems s \<union> set addrs"
  using assms
proof (induction addrs arbitrary: s)
  case Nil
  then show ?case by simp
next
  case (Cons a addrs)
  let ?s = "if E a then s else append_at s (po a) a"
  have s: "ps_inv ?s \<and> ps_elems ?s = insert a (ps_elems s)"
    using Cons.prems append_at_ok [of s a] by auto
  have po: "\<forall>b. po b = ps_po ?s b"
    using Cons.prems by simp
  have E: "\<forall>b \<in> set addrs. E b \<longleftrightarrow> b \<in> ps_elems ?s"
    using Cons.prems s by auto
  have d: "distinct addrs" using Cons.prems by simp
  show ?case
    using Cons.IH [OF conjunct1 [OF s] d E po] conjunct2 [OF s] by simp
qed


lemma ps_Add_multi:
  assumes "ps_inv s" "distinct addrs"
  shows "\<exists>s'. ps_Add s addrs = Some s' \<and> ps_inv s' \<and> ps_elems s' = ps_elems s \<union> set addrs"
proof -
  have "ps_Add s addrs = Some (add_commit s addrs (map (\<lambda>a. (ps_po s a, a \<in> ps_elems s)) addrs))"
    using assms(1) by (auto simp: ps_Add_def Let_def ps_index_eq add_scan_eq split: list.split)
  with add_commit_ok [OF assms, of "\<lambda>a. a \<in> ps_elems s" "ps_po s"] show ?thesis
    by simp
qed

lemma swap_remove_set:
  assumes "distinct b" "i < length b"
  shows "let cpy = take (length b - 1) b in
    (if i = length b - 1 then distinct cpy \<and> set cpy = set b - {b ! i}
     else distinct (cpy[i := b ! (length b - 1)]) \<and>
       set (cpy[i := b ! (length b - 1)]) = set b - {b ! i})"
proof -
  obtain c x where b: "b = c @ [x]"
    using assms(2) by (metis length_0_conv less_nat_zero_code rev_exhaust)
  show ?thesis
  proof (cases "i = length c")
    case True
    with b assms show ?thesis by auto
  next
    case False
    with b assms have i: "i < length c" by simp
    have "distinct (c[i := x])" using b assms by (simp add: distinct_list_update)
    moreover have "set (c[i := x]) = insert x (set c - {c ! i})"
      using b assms i by (simp add: set_update_distinct)
    ultimately show ?thesis
      using b assms i by (auto simp: nth_append Let_def)
  qed
qed

lemma ps_Remove_ok:
  assumes "ps_inv s"
  shows "\<exists>s'. ps_Remove s a = Some s' \<and> ps_inv s' \<and> ps_elems s' = ps_elems s - {a}"
proof (cases "a \<in> ps_elems s")
  case False
  then show ?thesis using assms by (auto simp: ps_Remove_def Let_def ps_index_eq)
next
  case True
  let ?i = "unat (ps_po s a)"
  let ?b = "peers s ! ?i"
  let ?k = "nat (IndexOfAddress ?b a)"
  let ?c = "if ?k = length ?b - 1 then take (length ?b - 1) ?b
    else (take (length ?b - 1) ?b)[?k := ?b ! (length ?b - 1)]"
  have i: "?i < maxBins s" using ps_invD(3) [OF assms] ps_inv_po [OF assms] by simp
  have ab: "a \<in> set ?b" using True ps_elems_bin [OF assms] by simp
  have c: "distinct ?c \<and> set ?c = set ?b - {a}"
    using swap_remove_set [of ?b ?k] IndexOfAddress_in(2,3) [OF ab] ps_invD(4) [OF assms i]
    by (auto simp: Let_def split: if_splits)
  have eq: "ps_Remove s a = Some (s\<lparr>peers := (peers s)[?i := ?c]\<rparr>)"
    using True assms by (simp add: ps_Remove_def Let_def ps_index_eq)
  have "ps_inv (s\<lparr>peers := (peers s)[?i := ?c]\<rparr>)"
    using assms i c ps_invD(5) [OF assms i] by (intro ps_inv_update) auto
  moreover have "ps_elems (s\<lparr>peers := (peers s)[?i := ?c]\<rparr>) = ps_elems s - {a}"
  proof -
    have "set ?b \<subseteq> ps_elems s" using i ps_invD(3) [OF assms] by (auto simp: ps_elems_def)
    then show ?thesis using assms i c ab by (subst ps_elems_update) auto
  qed
  ultimately show ?thesis using eq by blast
qed

lemma ps_Exists_iff: "ps_inv s \<Longrightarrow> ps_Exists s a = Some (a \<in> ps_elems s)"
  by (simp add: ps_Exists_def ps_index_eq)

lemma ps_New_inv: "0 < n \<Longrightarrow> n \<le> 256 \<Longrightarrow> ps_inv (ps_New n base) \<and> ps_elems (ps_New n base) = {}"
  by (auto simp: ps_inv_def ps_New_def ps_elems_def)

interpretation ps: peer_set "\<lambda>s a. ps_Add s [a]" ps_Remove ps_Exists ps_elems ps_inv
proof
  fix s a
  assume "ps_inv s"
  then show "\<exists>s'. ps_Add s [a] = Some s' \<and> ps_inv s' \<and> ps_elems s' = insert a (ps_elems s)"
    using ps_Add_multi [of s "[a]"] by simp
qed (simp_all add: ps_Remove_ok ps_Exists_iff)


section \<open>Iteration\<close>

definition collect :: "(( address \<times> u8) list, 'e) each_peer_func" where
  "collect p i c = ((False, False, None), c @ [(p, i)])"

lemma each_peer_collect:
  "each_peer collect i ps c = (Continue, c @ map (\<lambda>p. (p, i)) ps)"
  by (induction ps arbitrary: c) (auto simp: collect_def)

lemma each_bins_collect:
  "each_bins collect s is c =
     (None, c @ concat (map (\<lambda>i. map (\<lambda>p. (p, of_nat i)) (peers s ! i)) is))"
  by (induction "is" arbitrary: c) (auto simp: each_peer_collect)

definition visited :: "pslice \<Rightarrow> address list" where
  "visited s = map fst (snd (EachBin s (collect :: (_, unit) each_peer_func) []))"

lemma visited_eq: "visited s = concat (map (\<lambda>i. peers s ! i) (rev [0..<maxBins s]))"
  by (simp add: visited_def EachBin_def each_bins_collect map_concat comp_def)

lemma sorted_wrt_concat_bins:
  assumes "sorted_wrt (\<lambda>i j. j < i) is" "\<And>i a. i \<in> set is \<Longrightarrow> a \<in> set (f i) \<Longrightarrow> h a = (i :: nat)"
  shows "sorted_wrt (\<lambda>p q. h q \<le> h p) (concat (map f is))"
  using assms
proof (induction "is")
  case Nil
  then show ?case by simp
next
  case (Cons i "is")
  have "\<forall>a \<in> set (f i). h a = i" using Cons.prems(2) by simp
  then have "sorted_wrt (\<lambda>p q. h q \<le> h p) (f i)"
    by (simp add: sorted_wrt_iff_nth_less)
  moreover have "\<forall>p \<in> set (f i). \<forall>q \<in> set (concat (map f is)). h q \<le> h p"
    using Cons.prems by (fastforce intro: less_imp_le)
  ultimately show ?case
    using Cons by (simp add: sorted_wrt_append)
qed

lemma ps_Length_concat: "ps_Length s = length (concat (peers s))"
proof -
  have "foldl (\<lambda>ret ps. ret + length ps) r xs = r + length (concat xs)" for r and xs :: "address list list"
    by (induction xs arbitrary: r) auto
  then show ?thesis by (simp add: ps_Length_def)
qed

lemma shallowest_spec:
  "k + length pss \<le> 256 \<Longrightarrow> shallowest k pss =
     (if [] \<in> set pss then (of_nat (k + length (takeWhile (\<lambda>p. p \<noteq> []) pss)), False) else (0, True))"
  by (induction pss arbitrary: k) auto

section \<open>Properties of the peer slice\<close>

text \<open>C27: on a well-formed peer slice \<open>Add\<close>, \<open>Remove\<close> and \<open>Exists\<close> never panic, keep
  the bin invariant, and behave as insertion, deletion and membership of the set of
  stored peers; the batched \<open>Add\<close> does so for batches without repeated addresses.\<close>

theorem pslice_refines_set:
  assumes "ps_inv s"
  shows "(\<exists>s'. ps_Add s [a] = Some s' \<and> ps_inv s' \<and> ps_elems s' = insert a (ps_elems s)) \<and>
    (\<exists>s'. ps_Remove s a = Some s' \<and> ps_inv s' \<and> ps_elems s' = ps_elems s - {a}) \<and>
    ps_Exists s a = Some (a \<in> ps_elems s) \<and>
    (distinct addrs \<longrightarrow>
      (\<exists>s'. ps_Add s addrs = Some s' \<and> ps_inv s' \<and> ps_elems s' = ps_elems s \<union> set addrs))"
  using ps.add1_ok [OF assms, of a] ps.remove_ok [OF assms, of a] ps.ex_ok [OF assms, of a]
    ps_Add_multi [OF assms, of addrs]
  by (intro conjI impI)

theorem pslice_refines_set_witness:
  "\<exists>s'. ps_Add (ps_New 32 [0, 0, 0, 0]) [[1, 2, 3, 4], [255, 0, 0, 0]] = Some s' \<and> ps_inv s' \<and>
     ps_elems s' = {[1, 2, 3, 4], [255, 0, 0, 0]}"
proof -
  have n: "ps_inv (ps_New 32 [0, 0, 0, 0])" "ps_elems (ps_New 32 [0, 0, 0, 0]) = {}"
    using ps_New_inv [of 32 "[0, 0, 0, 0]"] by simp_all
  show ?thesis
    using pslice_refines_set [OF n(1), of "[]" "[[1, 2, 3, 4], [255, 0, 0, 0]]"] n(2) by simp
qed

text \<open>\<open>EachBin\<close> with a callback that neither stops nor skips visits every stored peer
  exactly once, in the order of non-increasing proximity bins, and \<open>Length\<close> is the number
  of peers visited.\<close>

lemma each_bin_order:
  assumes "ps_inv s"
  shows "set (visited s) = ps_elems s \<and> distinct (visited s) \<and>
    sorted_wrt (\<lambda>p q. ps_po s q \<le> ps_po s p) (visited s) \<and>
    length (visited s) = ps_Length s"
proof -
  note I = ps_invD [OF assms]
  have s: "set (visited s) = ps_elems s"
    using I(3) by (auto simp: visited_eq ps_elems_def)
  have all: "concat (map ((!) (peers s)) [0..<maxBins s]) = concat (peers s)"
    using I(3) by (metis map_nth)
  have "distinct (concat (map ((!) (peers s)) is))"
    if "distinct is" "set is \<subseteq> {..< maxBins s}" for "is"
    using that
  proof (induction "is")
    case (Cons i "is")
    have "x \<notin> set (peers s ! i)" if "j \<in> set is" "x \<in> set (peers s ! j)" for x j
      using I(5) [of i x] I(5) [of j x] that Cons.prems by auto
    then have "set (peers s ! i) \<inter> set (concat (map ((!) (peers s)) is)) = {}"
      by auto
    then show ?case using Cons.IH Cons.prems I(4) [of i] by simp
  qed simp
  then have d: "distinct (visited s)"
    by (simp add: visited_eq subset_iff)
  have "sorted_wrt (\<lambda>p q. unat (ps_po s q) \<le> unat (ps_po s p)) (visited s)"
    unfolding visited_eq
    by (rule sorted_wrt_concat_bins) (auto simp: I(5) sorted_wrt_rev intro: sorted_wrt_upt)
  then have o: "sorted_wrt (\<lambda>p q. ps_po s q \<le> ps_po s p) (visited s)"
    by (simp add: word_le_nat_alt)
  have "length (visited s) = sum_list (map length (map ((!) (peers s)) [0..<maxBins s]))"
    by (simp add: visited_eq length_concat rev_map [symmetric] comp_def)
  then have "length (visited s) = ps_Length s"
    using all I(3) by (metis length_concat map_nth ps_Length_concat)
  with s d o show ?thesis by simp
qed

text \<open>\<open>ShallowestEmpty\<close> returns the least empty bin, and the flag that reports that no
  bin is empty exactly when every bin holds a peer.\<close>

lemma shallowest_empty_correct:
  assumes "ps_inv s"
  shows "case ShallowestEmpty s of
      (i, False) \<Rightarrow> unat i < maxBins s \<and> BinSize s i = 0 \<and> (\<forall>j. j < i \<longrightarrow> 0 < BinSize s j)
    | (i, True) \<Rightarrow> i = 0 \<and> (\<forall>j. unat j < maxBins s \<longrightarrow> 0 < BinSize s j)"
proof (cases "[] \<in> set (peers s)")
  case False
  then show ?thesis
    using ps_invD(1,2,3) [OF assms] shallowest_spec [of 0 "peers s"]
    by (auto simp: ShallowestEmpty_def BinSize_def in_set_conv_nth)
next
  case True
  let ?n = "length (takeWhile (\<lambda>p. p \<noteq> []) (peers s))"
  have lt: "?n < length (peers s)" using True by (rule length_takeWhile_neq)
  note I = ps_invD(1,2,3) [OF assms]
  have u: "unat (of_nat ?n :: u8) = ?n" using lt I by (simp add: unat_of_nat)
  have e: "peers s ! ?n = []" using nth_length_takeWhile [OF lt] by simp
  have ne: "peers s ! j \<noteq> []" if "j < ?n" for j
    using set_takeWhileD [OF nth_mem [OF that]] takeWhile_nth [OF that] by simp
  show ?thesis
    using True I lt e ne shallowest_spec [of 0 "peers s"]
    by (auto simp: ShallowestEmpty_def BinSize_def u word_less_nat_alt)
qed

text \<open>A batch that repeats an address stores it twice, since the membership test of the
  batched \<open>Add\<close> runs before any insertion; after one \<open>Remove\<close> the peer is still reported
  as present.\<close>

lemma batched_add_duplicates:
  "Option.bind (Option.bind (ps_Add (ps_New 4 [0]) [[1], [1]]) (\<lambda>s. ps_Remove s [1]))
     (\<lambda>s. ps_Exists s [1]) = Some True"
  by code_simp

end
