(* ===== verification/Intervals.thy ===== *)
theory Intervals
  imports Prelude
begin

text \<open>
  The interval sets of the pull-sync component
  (\<open>pkg/puller/intervalstore/intervals.go\<close>): sorted lists of closed \<open>uint64\<close> ranges with
  a lower bound, their insertion loop, the search for the next gap and the text codec.
  The lemmas show that insertion into a normalised list is set union under the
  conditions the loop relies on, that the list stays normalised, that \<open>Next\<close> returns the
  first gap, and that the codec round-trips; two theorems exhibit the inputs on which the
  insertion loop leaves the normal form.
\<close>

section \<open>Standard library pieces\<close>

text \<open>\<open>strconv.FormatUint\<close> and \<open>strconv.ParseUint\<close> in base 36, \<open>bytes.Join\<close>,
  \<open>bytes.Split\<close> and \<open>bytes.SplitN\<close> with limit 2, for a one-byte separator.\<close>

datatype num_error = ErrSyntax | ErrRange

definition digit36 :: "nat \<Rightarrow> char" where
  "digit36 n = char_of (if n < 10 then 48 + n else 87 + n)"

fun FormatUint36 :: "nat \<Rightarrow> string" where
  "FormatUint36 n =
     (if n < 36 then [digit36 n] else FormatUint36 (n div 36) @ [digit36 (n mod 36)])"

declare FormatUint36.simps [simp del]

definition digit_value :: "char \<Rightarrow> nat option" where
  "digit_value c = (let n = (of_char c :: nat) in
     if 48 \<le> n \<and> n \<le> 57 then Some (n - 48)
     else if 97 \<le> n \<and> n \<le> 122 then Some (n - 87)
     else if 65 \<le> n \<and> n \<le> 90 then Some (n - 55)
     else None)"

fun parse_loop :: "nat \<Rightarrow> string \<Rightarrow> num_error + nat" where
  "parse_loop n [] = Inr n"
| "parse_loop n (c # cs) =
     (case digit_value c of
        None \<Rightarrow> Inl ErrSyntax
      | Some d \<Rightarrow>
          if (2 ^ 64 - 1) div 36 + 1 \<le> n then Inl ErrRange
          else if 2 ^ 64 \<le> n * 36 + d then Inl ErrRange
          else parse_loop (n * 36 + d) cs)"

definition ParseUint36 :: "string \<Rightarrow> num_error + u64" where
  "ParseUint36 s =
     (if s = [] then Inl ErrSyntax
      else case parse_loop 0 s of Inl e \<Rightarrow> Inl e | Inr n \<Rightarrow> Inr (of_nat n))"

fun bytes_Join :: "char \<Rightarrow> string list \<Rightarrow> string" where
  "bytes_Join c [] = []"
| "bytes_Join c [x] = x"
| "bytes_Join c (x # xs) = x @ c # bytes_Join c xs"

fun bytes_Split :: "char \<Rightarrow> string \<Rightarrow> string list" where
  "bytes_Split c [] = [[]]"
| "bytes_Split c (x # xs) =
     (if x = c then [] # bytes_Split c xs
      else case bytes_Split c xs of [] \<Rightarrow> [[x]] | w # ws \<Rightarrow> (x # w) # ws)"

definition bytes_SplitN2 :: "char \<Rightarrow> string \<Rightarrow> string list" where
  "bytes_SplitN2 c s =
     (case dropWhile (\<lambda>x. x \<noteq> c) s of [] \<Rightarrow> [s] | _ # rest \<Rightarrow> [takeWhile (\<lambda>x. x \<noteq> c) s, rest])"

section \<open>Intervals\<close>

record intervals =
  iv_start :: u64
  ranges :: "(u64 \<times> u64) list"

definition NewIntervals :: "u64 \<Rightarrow> intervals" where
  "NewIntervals s = \<lparr>iv_start = s, ranges = []\<rparr>"

text \<open>The scan of \<open>add\<close>: it returns the adjusted bounds, the first and the last range that
  touches the new one, and the index at which it stopped.\<close>

fun add_loop :: "(u64 \<times> u64) list \<Rightarrow> nat \<Rightarrow> u64 \<Rightarrow> u64 \<Rightarrow> u64 \<Rightarrow> nat option \<Rightarrow> nat option \<Rightarrow>
    u64 \<times> u64 \<times> nat option \<times> nat option \<times> nat" where
  "add_loop [] j endCheck start end minStartJ maxEndJ = (start, end, minStartJ, maxEndJ, j)"
| "add_loop ((r0, r1) # rs) j endCheck start end minStartJ maxEndJ =
     (let hit = minStartJ = None \<and>
            ((start \<le> r0 \<and> endCheck \<ge> r0) \<or> (start \<le> r1 + 1 \<and> endCheck \<ge> r1));
          start' = (if hit \<and> r0 < start then r0 else start);
          minStartJ' = (if hit then Some j else minStartJ);
          hit2 = ((start' \<le> r1 \<and> endCheck \<ge> r1) \<or> (start' \<le> r0 \<and> endCheck \<ge> r0));
          end' = (if hit2 \<and> r1 > end then r1 else end);
          maxEndJ' = (if hit2 then Some j else maxEndJ)
      in if end' + 1 \<le> r0 then (start', end', minStartJ', maxEndJ', j)
         else add_loop rs (Suc j) endCheck start' end' minStartJ' maxEndJ')"

definition add_ranges :: "(u64 \<times> u64) list \<Rightarrow> u64 \<Rightarrow> u64 \<Rightarrow> (u64 \<times> u64) list" where
  "add_ranges rs start end =
     (let endCheck = (if end = - 1 then end else end + 1) in
      case add_loop rs 0 endCheck start end None None of
        (s, e, None, None, j) \<Rightarrow> take j rs @ [(s, e)] @ drop j rs
      | (s, e, Some i, None, j) \<Rightarrow> rs[i := (s, snd (rs ! i))]
      | (s, e, None, Some k, j) \<Rightarrow> rs[k := (fst (rs ! k), e)]
      | (s, e, Some i, Some k, j) \<Rightarrow>
          (let rs1 = rs[i := (s, snd (rs ! i))];
               rs2 = rs1[k := (fst (rs1 ! k), e)]
           in if i = k then rs2
              else let rs3 = rs2[k := (s, snd (rs2 ! k))] in take i rs3 @ drop k rs3))"

definition iv_add :: "intervals \<Rightarrow> u64 \<Rightarrow> u64 \<Rightarrow> intervals" where
  "iv_add i start end =
     (let start' = (if start < iv_start i then iv_start i else start)
      in if end < iv_start i then i
         else i\<lparr>ranges := add_ranges (ranges i) start' end\<rparr>)"

definition iv_Add :: "intervals \<Rightarrow> u64 \<Rightarrow> u64 \<Rightarrow> intervals" where
  "iv_Add i start end = iv_add i start end"

definition iv_Merge :: "intervals \<Rightarrow> intervals \<Rightarrow> intervals" where
  "iv_Merge i m = foldl (\<lambda>i r. iv_add i (fst r) (snd r)) i (ranges m)"

definition iv_next_raw :: "intervals \<Rightarrow> u64 \<times> u64" where
  "iv_next_raw i =
     (case ranges i of
        [] \<Rightarrow> (iv_start i, 0)
      | (a, b) # rs \<Rightarrow>
          if a \<noteq> iv_start i then (iv_start i, a - 1)
          else (case rs of [] \<Rightarrow> (b + 1, 0) | (c, d) # _ \<Rightarrow> (b + 1, c - 1)))"

definition iv_Next :: "intervals \<Rightarrow> u64 \<Rightarrow> u64 \<times> u64 \<times> bool" where
  "iv_Next i ceiling =
     (case iv_next_raw i of (start, end) \<Rightarrow>
        if 0 < ceiling
        then let hitStart = ceiling < start;
                 hitEnd = (end = 0 \<or> ceiling < end)
             in (if hitStart then ceiling else start, if hitEnd then ceiling else end,
                 hitStart \<and> hitEnd)
        else (start, end, False))"

definition iv_Last :: "intervals \<Rightarrow> u64" where
  "iv_Last i = (if ranges i = [] then 0 else snd (last (ranges i)))"

definition iv_MarshalBinary :: "intervals \<Rightarrow> string" where
  "iv_MarshalBinary i =
     bytes_Join (CHR '';'') (FormatUint36 (unat (iv_start i)) #
       map (\<lambda>r. FormatUint36 (unat (fst r)) @ CHR '','' # FormatUint36 (unat (snd r))) (ranges i))"

datatype iv_error = StartError num_error | FewElements nat | FirstElement nat num_error
  | SecondElement nat num_error

fun unmarshal_ranges :: "intervals \<Rightarrow> nat \<Rightarrow> string list \<Rightarrow> iv_error option \<times> intervals" where
  "unmarshal_ranges i j [] = (None, i)"
| "unmarshal_ranges i j (d # ds) =
     (case bytes_SplitN2 (CHR '','') d of
        [r0, r1] \<Rightarrow>
          (case ParseUint36 r0 of
             Inl e \<Rightarrow> (Some (FirstElement j e), i)
           | Inr start \<Rightarrow>
               (case ParseUint36 r1 of
                  Inl e \<Rightarrow> (Some (SecondElement j e), i)
                | Inr end \<Rightarrow> unmarshal_ranges (iv_add i start end) (Suc j) ds))
      | _ \<Rightarrow> (Some (FewElements j), i))"

text \<open>\<open>strconv.ParseUint\<close> returns the largest value along with a range error and zero
  along with a syntax error; the start field is assigned before the error is returned.\<close>

definition iv_UnmarshalBinary :: "intervals \<Rightarrow> string \<Rightarrow> iv_error option \<times> intervals" where
  "iv_UnmarshalBinary i data =
     (case bytes_Split (CHR '';'') data of
        [] \<Rightarrow> (None, i)
      | d0 # ds \<Rightarrow>
          (case ParseUint36 d0 of
             Inl e \<Rightarrow> (Some (StartError e), i\<lparr>iv_start := (if e = ErrRange then - 1 else 0)\<rparr>)
           | Inr s \<Rightarrow>
               if ds = [] then (None, i\<lparr>iv_start := s\<rparr>)
               else unmarshal_ranges (i\<lparr>iv_start := s, ranges := []\<rparr>) 1 ds))"


section \<open>The insertion loop\<close>

lemma unat_inc [go_word]: "x \<noteq> - 1 \<Longrightarrow> unat ((x :: u64) + 1) = unat x + 1"
  by (metis Suc_eq_plus1 add.commute add_eq_0_iff unatSuc)

lemma inc_le_iff: "x \<noteq> - 1 \<Longrightarrow> (x :: u64) + 1 \<le> y \<longleftrightarrow> unat x < unat y"
  by (simp add: word_le_nat_alt unat_inc Suc_le_eq)

definition range_ok :: "u64 \<times> u64 \<Rightarrow> bool" where
  "range_ok r \<longleftrightarrow> unat (fst r) \<le> unat (snd r) \<and> snd r \<noteq> - 1"

definition gap :: "u64 \<times> u64 \<Rightarrow> u64 \<times> u64 \<Rightarrow> bool" where
  "gap r q \<longleftrightarrow> unat (snd r) + 1 < unat (fst q)"

definition normal :: "(u64 \<times> u64) list \<Rightarrow> bool" where
  "normal rs \<longleftrightarrow> (\<forall>r \<in> set rs. range_ok r) \<and> sorted_wrt gap rs"

text \<open>The three kinds of stored ranges relative to a new range \<open>[s, e]\<close>: entirely before
  it with a gap, touching it, and entirely after it with a gap.\<close>

definition before :: "u64 \<Rightarrow> u64 \<times> u64 \<Rightarrow> bool" where
  "before s r \<longleftrightarrow> unat (snd r) + 1 < unat s"

definition after :: "u64 \<Rightarrow> u64 \<times> u64 \<Rightarrow> bool" where
  "after e r \<longleftrightarrow> unat e + 1 < unat (fst r)"

definition nested :: "u64 \<Rightarrow> u64 \<Rightarrow> u64 \<times> u64 \<Rightarrow> bool" where
  "nested s e r \<longleftrightarrow> unat (fst r) < unat s \<and> unat e + 1 < unat (snd r)"

lemmas range_defs = range_ok_def gap_def before_def after_def nested_def

lemma add_loop_before:
  assumes "\<forall>r \<in> set A. range_ok r \<and> before s r" "unat s \<le> unat e" "e \<noteq> - 1"
  shows "add_loop (A @ rs) j (e + 1) s e None None = add_loop rs (j + length A) (e + 1) s e None None"
  using assms(1)
proof (induction A arbitrary: j)
  case Nil
  then show ?case by simp
next
  case (Cons r A)
  obtain r0 r1 where r: "r = (r0, r1)" by (cases r)
  have f: "unat r0 \<le> unat r1" "unat r1 + 1 < unat s" "r1 \<noteq> - 1"
    using Cons.prems r by (auto simp: range_defs)
  then have "\<not> s \<le> r0" "\<not> s \<le> r1 + 1" "\<not> s \<le> r1" "\<not> e + 1 \<le> r0"
    using assms(2,3) by (simp_all add: word_le_nat_alt unat_inc)
  then show ?case
    using Cons r by (simp add: Let_def)
qed

lemma add_loop_after:
  assumes "\<forall>r \<in> set C. range_ok r \<and> after e r" "e \<noteq> - 1"
    "e' \<noteq> - 1" "\<forall>r \<in> set C. unat e' < unat (fst r)"
    "mn = None \<Longrightarrow> mx = None"
  shows "add_loop C j (e + 1) s e' mn mx = (s, e', mn, mx, j)"
proof (cases C)
  case Nil
  then show ?thesis by simp
next
  case (Cons r C')
  obtain r0 r1 where r: "r = (r0, r1)" by (cases r)
  have f: "unat r0 \<le> unat r1" "unat e + 1 < unat r0" "unat e' < unat r0"
    using assms Cons r by (auto simp: range_defs)
  then have "\<not> e + 1 \<ge> r0" "\<not> e + 1 \<ge> r1" "e' + 1 \<le> r0"
    using assms(2,3) by (simp_all add: word_le_nat_alt unat_inc)
  then show ?thesis
    using Cons r by (simp add: Let_def)
qed

lemma add_loop_touch:
  assumes "\<forall>r \<in> set B. range_ok r \<and> \<not> after e r \<and> unat s \<le> unat (fst r)" "e \<noteq> - 1"
    "e' \<noteq> - 1" "sorted_wrt gap B" "B \<noteq> []"
  shows "add_loop (B @ rs) j (e + 1) s e' (Some i) mx =
    add_loop rs (j + length B) (e + 1) s (if unat e' < unat (snd (last B)) then snd (last B) else e')
      (Some i) (Some (j + length B - 1))"
  using assms
proof (induction B arbitrary: j e' mx)
  case Nil
  then show ?case by simp
next
  case (Cons r B)
  obtain r0 r1 where r: "r = (r0, r1)" by (cases r)
  let ?e = "if e' < r1 then r1 else e'"
  have f: "unat r0 \<le> unat r1" "r1 \<noteq> - 1" "unat r0 \<le> unat e + 1" "unat s \<le> unat r0"
    using Cons.prems r by (auto simp: range_defs)
  then have c: "s \<le> r0" "r0 \<le> e + 1"
    using assms(2) by (simp_all add: word_le_nat_alt unat_inc)
  have e: "?e \<noteq> - 1" using f Cons.prems(3) by simp
  have nb: "\<not> ?e + 1 \<le> r0"
    using f by (simp add: inc_le_iff [OF e]) (auto simp: word_less_nat_alt)
  have step: "add_loop ((r # B) @ rs) j (e + 1) s e' (Some i) mx =
      add_loop (B @ rs) (Suc j) (e + 1) s ?e (Some i) (Some j)"
    using c nb r by (auto simp: Let_def)
  show ?case
  proof (cases "B = []")
    case True
    then show ?thesis using step r by (simp add: word_less_nat_alt)
  next
    case False
    have "gap r (last B)" "range_ok (last B)"
      using Cons.prems last_in_set [OF False] by auto
    then have "unat r1 < unat (snd (last B))"
      using r by (simp add: range_defs)
    then show ?thesis
      using step Cons.IH [of ?e "Suc j" "Some j"] Cons.prems e False r
      by (auto simp: word_less_nat_alt)
  qed
qed


definition first_part :: "u64 \<Rightarrow> (u64 \<times> u64) list \<Rightarrow> (u64 \<times> u64) list" where
  "first_part s rs = takeWhile (before s) rs"

definition mid_part :: "u64 \<Rightarrow> u64 \<Rightarrow> (u64 \<times> u64) list \<Rightarrow> (u64 \<times> u64) list" where
  "mid_part s e rs = takeWhile (\<lambda>r. \<not> after e r) (dropWhile (before s) rs)"

definition last_part :: "u64 \<Rightarrow> u64 \<Rightarrow> (u64 \<times> u64) list \<Rightarrow> (u64 \<times> u64) list" where
  "last_part s e rs = dropWhile (\<lambda>r. \<not> after e r) (dropWhile (before s) rs)"

lemma parts: "rs = first_part s rs @ mid_part s e rs @ last_part s e rs"
  by (simp add: first_part_def mid_part_def last_part_def)

lemma normal_append:
  "normal (A @ B) \<longleftrightarrow> normal A \<and> normal B \<and> (\<forall>a \<in> set A. \<forall>b \<in> set B. gap a b)"
  by (auto simp: normal_def sorted_wrt_append)

lemma normal_Cons: "normal (r # B) \<longleftrightarrow> range_ok r \<and> normal B \<and> (\<forall>b \<in> set B. gap r b)"
  by (auto simp: normal_def)

lemma dropWhile_not_before: "normal rs \<Longrightarrow> r \<in> set (dropWhile (before s) rs) \<Longrightarrow> \<not> before s r"
proof (induction rs)
  case (Cons q rs)
  then have "r \<in> set rs \<Longrightarrow> gap q r \<and> range_ok r"
    by (auto simp: normal_Cons normal_def)
  with Cons show ?case
    by (cases "before s q") (auto simp: normal_Cons range_defs)
qed simp

lemma dropWhile_after: "normal rs \<Longrightarrow> r \<in> set (dropWhile (\<lambda>r. \<not> after e r) rs) \<Longrightarrow> after e r"
proof (induction rs)
  case (Cons q rs)
  then show ?case
    by (auto simp: normal_Cons range_defs split: if_splits)
qed simp

lemma parts_props:
  assumes "normal rs"
  shows "(\<forall>r \<in> set (first_part s rs). range_ok r \<and> before s r) \<and>
    (\<forall>r \<in> set (mid_part s e rs). \<not> before s r \<and> \<not> after e r) \<and>
    (\<forall>r \<in> set (last_part s e rs). range_ok r \<and> after e r) \<and>
    normal (first_part s rs) \<and> normal (mid_part s e rs) \<and> normal (last_part s e rs) \<and>
    (\<forall>a \<in> set (mid_part s e rs). \<forall>c \<in> set (last_part s e rs). gap a c)"
proof -
  have n: "normal (first_part s rs @ mid_part s e rs @ last_part s e rs)"
    using assms parts by metis
  have d: "normal (dropWhile (before s) rs)"
    using assms by (metis normal_append takeWhile_dropWhile_id)
  have 1: "before s r" if "r \<in> set (first_part s rs)" for r
    using that unfolding first_part_def by (rule set_takeWhileD [THEN conjunct2])
  have 2: "\<not> before s r \<and> \<not> after e r" if "r \<in> set (mid_part s e rs)" for r
    using that set_takeWhileD [OF that [unfolded mid_part_def]] dropWhile_not_before [OF assms]
    by blast
  have 3: "after e r" if "r \<in> set (last_part s e rs)" for r
    using that unfolding last_part_def by (rule dropWhile_after [OF d])
  show ?thesis
    using n 1 2 3 unfolding normal_append by (simp add: normal_def)
qed

text \<open>The new range after merging with the ranges it touches.\<close>

definition merged :: "u64 \<Rightarrow> u64 \<Rightarrow> (u64 \<times> u64) list \<Rightarrow> u64 \<times> u64" where
  "merged s e B =
     (if B = [] then (s, e)
      else (if unat (fst (hd B)) < unat s then fst (hd B) else s,
            if unat e < unat (snd (last B)) then snd (last B) else e))"

lemma add_loop_mid:
  assumes B: "normal B" "\<forall>r \<in> set B. \<not> before s r \<and> \<not> after e r \<and> \<not> nested s e r" "B \<noteq> []"
    and se: "unat s \<le> unat e" "e \<noteq> - 1"
  shows "add_loop (B @ rs) j (e + 1) s e None None =
    add_loop rs (j + length B) (e + 1) (fst (merged s e B)) (snd (merged s e B))
      (Some j) (Some (j + length B - 1))"
proof -
  obtain r B' where B': "B = r # B'" using B(3) by (cases B) auto
  obtain r0 r1 where r: "r = (r0, r1)" by (cases r)
  have f: "unat r0 \<le> unat r1" "r1 \<noteq> - 1" "unat s \<le> unat r1 + 1" "unat r0 \<le> unat e + 1"
    "\<not> (unat r0 < unat s \<and> unat e + 1 < unat r1)"
    using B B' r by (auto simp: range_defs normal_def)
  let ?s = "if r0 < s then r0 else s"
  let ?e = "if e < r1 then r1 else e"
  have c: "(s \<le> r0 \<and> r0 \<le> e + 1) \<or> (s \<le> r1 + 1 \<and> r1 \<le> e + 1)"
    using f se by (auto simp: word_le_nat_alt unat_inc)
  have c2: "?s \<le> r0" "r0 \<le> e + 1"
    using f se by (auto simp: word_le_nat_alt word_less_nat_alt unat_inc)
  have ne: "?e \<noteq> - 1" using f se by simp
  have nb: "\<not> ?e + 1 \<le> r0"
    using f by (simp add: inc_le_iff [OF ne]) (auto simp: word_less_nat_alt)
  have step: "add_loop (B @ rs) j (e + 1) s e None None =
      add_loop (B' @ rs) (Suc j) (e + 1) ?s ?e (Some j) (Some j)"
    using c c2 nb B' r by (auto simp: Let_def)
  show ?thesis
  proof (cases "B' = []")
    case True
    then show ?thesis using step B' r by (simp add: merged_def word_less_nat_alt)
  next
    case False
    have g: "gap r q" if "q \<in> set B'" for q
      using B(1) B' that by (simp add: normal_Cons)
    have "\<forall>q \<in> set B'. range_ok q \<and> \<not> after e q \<and> unat ?s \<le> unat (fst q)"
      using B B' g r f by (fastforce simp: range_defs normal_def)
    moreover have "sorted_wrt gap B'" using B(1) B' by (simp add: normal_def)
    ultimately have "add_loop (B' @ rs) (Suc j) (e + 1) ?s ?e (Some j) (Some j) =
        add_loop rs (Suc j + length B') (e + 1) ?s
          (if unat ?e < unat (snd (last B')) then snd (last B') else ?e) (Some j)
          (Some (Suc j + length B' - 1))"
      using se(2) ne False by (intro add_loop_touch)
    moreover have "range_ok (last B')"
      using B(1) B' last_in_set [OF False] by (simp add: normal_def)
    then have "unat r1 < unat (snd (last B'))"
      using g [OF last_in_set [OF False]] r by (simp add: range_defs)
    ultimately show ?thesis
      using step B' r False by (simp add: merged_def word_less_nat_alt)
  qed
qed


lemma add_ranges_eq:
  assumes n: "normal rs" and se: "unat s \<le> unat e" "e \<noteq> - 1"
    and nn: "\<forall>r \<in> set rs. \<not> nested s e r"
  shows "add_ranges rs s e = first_part s rs @ merged s e (mid_part s e rs) # last_part s e rs"
proof -
  define A B C where "A = first_part s rs" and "B = mid_part s e rs" and "C = last_part s e rs"
  have P: "\<forall>r \<in> set A. range_ok r \<and> before s r" "\<forall>r \<in> set B. \<not> before s r \<and> \<not> after e r"
    "\<forall>r \<in> set C. range_ok r \<and> after e r" "normal B" "\<forall>a \<in> set B. \<forall>c \<in> set C. gap a c"
    using parts_props [OF n, of s e] by (simp_all add: A_def B_def C_def)
  have rs: "rs = A @ B @ C" unfolding A_def B_def C_def by (rule parts)
  have start: "add_loop rs 0 (e + 1) s e None None =
      add_loop (B @ C) (length A) (e + 1) s e None None"
    using add_loop_before [OF P(1) se, of "B @ C" 0] rs by simp
  show ?thesis
  proof (cases "B = []")
    case True
    have "add_loop C (length A) (e + 1) s e None None = (s, e, None, None, length A)"
      using P(3) se(2) by (intro add_loop_after) (auto simp: range_defs)
    with True start have "add_ranges rs s e = A @ [(s, e)] @ C"
      using se(2) rs by (simp add: add_ranges_def)
    with True show ?thesis by (simp add: merged_def A_def B_def C_def)
  next
    case False
    let ?s = "fst (merged s e B)" and ?e = "snd (merged s e B)" and ?k = "length A + length B - 1"
    have nnB: "\<forall>r \<in> set B. \<not> before s r \<and> \<not> after e r \<and> \<not> nested s e r"
      using P(2) nn rs by auto
    have lastB: "range_ok (last B)" "\<forall>c \<in> set C. gap (last B) c"
      using P(4,5) last_in_set [OF False] by (simp_all add: normal_def)
    have "add_loop C (length A + length B) (e + 1) ?s ?e (Some (length A)) (Some ?k) =
        (?s, ?e, Some (length A), Some ?k, length A + length B)"
      using P(3) se lastB False
      by (intro add_loop_after) (auto simp: range_defs merged_def)
    then have loop: "add_loop rs 0 (e + 1) s e None None =
        (?s, ?e, Some (length A), Some ?k, length A + length B)"
      using start add_loop_mid [OF P(4) nnB False se, of C "length A"] by simp
    obtain B1 b where B1: "B = B1 @ [b]" using False by (metis rev_exhaust)
    show ?thesis
    proof (cases B1)
      case Nil
      then show ?thesis
        using loop se(2) rs B1 unfolding A_def [symmetric] B_def [symmetric] C_def [symmetric]
        by (simp add: add_ranges_def list_update_append)
    next
      case (Cons b' B2)
      then show ?thesis
        using loop se(2) rs B1 unfolding A_def [symmetric] B_def [symmetric] C_def [symmetric]
        by (simp add: add_ranges_def list_update_append nth_append Let_def)
    qed
  qed
qed


section \<open>Set semantics\<close>

definition covers :: "(u64 \<times> u64) list \<Rightarrow> u64 \<Rightarrow> bool" where
  "covers rs x \<longleftrightarrow> (\<exists>r \<in> set rs. fst r \<le> x \<and> x \<le> snd r)"

lemma covers_simps [simp]:
  "covers [] x \<longleftrightarrow> False"
  "covers (r # rs) x \<longleftrightarrow> (fst r \<le> x \<and> x \<le> snd r) \<or> covers rs x"
  "covers (A @ B) x \<longleftrightarrow> covers A x \<or> covers B x"
  by (auto simp: covers_def)

lemma normal_bounds:
  assumes "normal B" "r \<in> set B"
  shows "unat (fst (hd B)) \<le> unat (fst r)" "unat (snd r) \<le> unat (snd (last B))"
proof -
  have "unat (fst (hd B)) \<le> unat (fst r) \<and> unat (snd r) \<le> unat (snd (last B))"
    using assms
  proof (induction B)
    case (Cons q B)
    show ?case
    proof (cases "B = []")
      case True
      with Cons show ?thesis by simp
    next
      case False
      have q: "range_ok q" "\<forall>b \<in> set B. gap q b" "normal B"
        using Cons.prems by (simp_all add: normal_Cons)
      then have "range_ok (last B)" "gap q (last B)"
        using False by (simp_all add: normal_def)
      then have "unat (snd q) \<le> unat (snd (last B))"
        by (simp add: range_defs)
      moreover have "unat (fst q) \<le> unat (fst r)"
        using Cons.prems q by (auto simp: range_defs)
      ultimately show ?thesis
        using Cons q False by auto
    qed
  qed simp
  then show "unat (fst (hd B)) \<le> unat (fst r)" "unat (snd r) \<le> unat (snd (last B))" by auto
qed

lemma merged_covers:
  assumes B: "normal B" "\<forall>r \<in> set B. \<not> before s r \<and> \<not> after e r"
    and se: "unat s \<le> unat e"
  shows "fst (merged s e B) \<le> x \<and> x \<le> snd (merged s e B) \<longleftrightarrow> covers B x \<or> (s \<le> x \<and> x \<le> e)"
proof (cases "B = []")
  case True
  then show ?thesis by (simp add: merged_def)
next
  case False
  have hl: "\<not> before s (hd B)" "\<not> after e (last B)"
    using B False by simp_all
  have c1: "covers B x" if "unat (fst (hd B)) \<le> unat x" "unat x < unat s"
    using that hl False hd_in_set [OF False]
    by (auto simp: covers_def range_defs word_le_nat_alt word_less_nat_alt intro!: bexI [of _ "hd B"])
  have c2: "covers B x" if "unat e < unat x" "unat x \<le> unat (snd (last B))"
    using that hl False last_in_set [OF False]
    by (auto simp: covers_def range_defs word_le_nat_alt word_less_nat_alt intro!: bexI [of _ "last B"])
  have c3: "unat (fst (hd B)) \<le> unat x \<and> unat x \<le> unat (snd (last B))" if "covers B x"
    using that normal_bounds [OF B(1)] by (fastforce simp: covers_def word_le_nat_alt)
  have m: "unat (fst (merged s e B)) = min (unat (fst (hd B))) (unat s)"
    "unat (snd (merged s e B)) = max (unat e) (unat (snd (last B)))"
    using False by (simp_all add: merged_def)
  show ?thesis
  proof (cases "covers B x")
    case True
    with c3 show ?thesis by (auto simp: word_le_nat_alt m)
  next
    case no: False
    then have "\<not> (unat (fst (hd B)) \<le> unat x \<and> unat x < unat s)"
      "\<not> (unat e < unat x \<and> unat x \<le> unat (snd (last B)))"
      using c1 c2 by blast+
    with no show ?thesis unfolding word_le_nat_alt m by linarith
  qed
qed

lemma merged_lower: "lo \<le> s \<Longrightarrow> \<forall>r \<in> set B. lo \<le> fst r \<Longrightarrow> lo \<le> fst (merged s e B)"
  by (simp add: merged_def)

lemma merged_normal:
  assumes n: "normal rs" and se: "unat s \<le> unat e" "e \<noteq> - 1"
  shows "normal (first_part s rs @ merged s e (mid_part s e rs) # last_part s e rs)"
proof -
  define A B C where "A = first_part s rs" and "B = mid_part s e rs" and "C = last_part s e rs"
  have P: "\<forall>r \<in> set A. range_ok r \<and> before s r" "\<forall>r \<in> set B. \<not> before s r \<and> \<not> after e r"
    "\<forall>r \<in> set C. range_ok r \<and> after e r" "normal A" "normal B" "normal C"
    using parts_props [OF n, of s e] by (simp_all add: A_def B_def C_def)
  have "normal (A @ B @ C)" using n parts [of rs s e] by (simp add: A_def B_def C_def)
  then have g: "\<forall>a \<in> set A. \<forall>b \<in> set B. gap a b" "\<forall>b \<in> set B. \<forall>c \<in> set C. gap b c"
    "\<forall>a \<in> set A. \<forall>c \<in> set C. gap a c"
    by (auto simp: normal_append)
  have okB: "B \<noteq> [] \<Longrightarrow> range_ok (last B) \<and> range_ok (hd B)"
    using P(5) by (simp add: normal_def)
  have m: "range_ok (merged s e B)"
    using se okB by (auto simp: merged_def range_defs)
  have "\<forall>a \<in> set A. gap a (merged s e B)"
    using P(1) g(1) hd_in_set [of B] by (auto simp: merged_def range_defs)
  moreover have "\<forall>c \<in> set C. gap (merged s e B) c"
    using P(3) g(2) last_in_set [of B] by (auto simp: merged_def range_defs)
  ultimately show ?thesis
    using P m g(3) by (simp add: normal_append normal_Cons A_def B_def C_def)
qed

definition iv_ok :: "intervals \<Rightarrow> bool" where
  "iv_ok i \<longleftrightarrow> normal (ranges i) \<and> (\<forall>r \<in> set (ranges i). iv_start i \<le> fst r)"

lemma iv_add_ok:
  assumes i: "iv_ok i" and se: "start \<le> end" "end \<noteq> - 1"
    and nn: "\<forall>r \<in> set (ranges i). \<not> nested start end r"
  shows "iv_ok (iv_add i start end) \<and> iv_start (iv_add i start end) = iv_start i \<and>
    (\<forall>x. covers (ranges (iv_add i start end)) x \<longleftrightarrow>
       covers (ranges i) x \<or> (iv_start i \<le> x \<and> start \<le> x \<and> x \<le> end))"
proof (cases "end < iv_start i")
  case True
  with i show ?thesis by (auto simp: iv_add_def)
next
  case False
  let ?s = "if start < iv_start i then iv_start i else start"
  let ?A = "first_part ?s (ranges i)" and ?B = "mid_part ?s end (ranges i)"
    and ?C = "last_part ?s end (ranges i)"
  have n: "normal (ranges i)" and lo: "\<forall>r \<in> set (ranges i). iv_start i \<le> fst r"
    using i by (simp_all add: iv_ok_def)
  have s: "unat ?s \<le> unat end" using False se by (auto simp: word_le_nat_alt word_less_nat_alt)
  have nn': "\<forall>r \<in> set (ranges i). \<not> nested ?s end r"
    using nn lo by (auto simp: nested_def word_le_nat_alt)
  have eq: "iv_add i start end = i\<lparr>ranges := ?A @ merged ?s end ?B # ?C\<rparr>"
    using False add_ranges_eq [OF n s se(2) nn'] by (simp add: iv_add_def)
  have p: "set ?A \<subseteq> set (ranges i)" "set ?B \<subseteq> set (ranges i)" "set ?C \<subseteq> set (ranges i)"
    using parts [of "ranges i" ?s "end"] by (metis set_append sup_ge1 sup_ge2 sup.coboundedI2)+
  have "iv_start i \<le> ?s" by (simp add: not_less)
  then have "iv_start i \<le> fst (merged ?s end ?B)"
    using lo p(2) by (intro merged_lower) auto
  then have ok: "iv_ok (iv_add i start end)"
    using merged_normal [OF n s se(2)] lo p unfolding eq by (auto simp: iv_ok_def)
  have B: "normal ?B" "\<forall>r \<in> set ?B. \<not> before ?s r \<and> \<not> after end r"
    using parts_props [OF n, of ?s "end"] by simp_all
  have split: "covers (ranges i) x \<longleftrightarrow> covers ?A x \<or> covers ?B x \<or> covers ?C x" for x
    using parts [of "ranges i" ?s "end"] by (metis covers_simps(3))
  have "covers (ranges (iv_add i start end)) x \<longleftrightarrow>
      covers (ranges i) x \<or> (?s \<le> x \<and> x \<le> end)" for x
    unfolding eq split using merged_covers [OF B s, of x] by auto
  moreover have "?s \<le> x \<longleftrightarrow> iv_start i \<le> x \<and> start \<le> x" for x
    by (auto simp: word_le_nat_alt word_less_nat_alt)
  ultimately show ?thesis
    using ok by (simp add: eq)
qed


section \<open>The next gap\<close>

lemma unat_dec: "0 < unat (x :: u64) \<Longrightarrow> unat (x - 1) = unat x - 1"
  by (metis unat_eq_zero unat_minus_one less_numeral_extra(3))

lemma not_covers_below:
  "normal rs \<Longrightarrow> unat x < unat (fst (hd rs)) \<Longrightarrow> \<not> covers rs x"
  using normal_bounds(1) by (fastforce simp: covers_def word_le_nat_alt)

text \<open>The specification of the gap \<open>(a, b)\<close> found by \<open>Next\<close> before the ceiling is
  applied; \<open>b = 0\<close> stands for no upper limit.\<close>

definition first_gap :: "intervals \<Rightarrow> u64 \<Rightarrow> u64 \<Rightarrow> bool" where
  "first_gap i a b \<longleftrightarrow> iv_start i \<le> a \<and>
     (\<forall>x. iv_start i \<le> x \<and> x < a \<longrightarrow> covers (ranges i) x) \<and>
     (if b = 0 then \<forall>x \<ge> a. \<not> covers (ranges i) x
      else a \<le> b \<and> (\<forall>x. a \<le> x \<and> x \<le> b \<longrightarrow> \<not> covers (ranges i) x) \<and> covers (ranges i) (b + 1))"

lemma first_gapI_bounded:
  assumes "normal q" "q \<noteq> []" "0 < unat a" "unat a < unat (fst (hd q))"
    "iv_start i \<le> a" "\<And>x. iv_start i \<le> x \<and> x < a \<Longrightarrow> covers (ranges i) x"
    "\<And>x. a \<le> x \<Longrightarrow> covers (ranges i) x = covers q x"
  shows "first_gap i a (fst (hd q) - 1)"
proof -
  let ?c = "fst (hd q)"
  have c: "unat (?c - 1) = unat ?c - 1" using assms by (intro unat_dec) simp
  have "unat (?c - 1) \<noteq> 0" using c assms by simp
  then have "?c - 1 \<noteq> 0" by (metis unat_0)
  moreover have "\<not> covers q x" if "x \<le> ?c - 1" for x
    using that assms c by (intro not_covers_below) (auto simp: word_le_nat_alt)
  moreover have "covers q ?c"
    using assms hd_in_set [OF assms(2)]
    by (auto simp: covers_def normal_def range_defs word_le_nat_alt)
  ultimately show ?thesis
    using assms c by (auto simp: first_gap_def word_le_nat_alt)
qed

lemma iv_next_raw_gap:
  assumes "iv_ok i" "1 \<le> iv_start i" "iv_next_raw i = (a, b)"
  shows "first_gap i a b"
proof (cases "ranges i")
  case Nil
  with assms show ?thesis by (auto simp: iv_next_raw_def first_gap_def)
next
  case (Cons r rs)
  obtain a0 b0 where r: "r = (a0, b0)" by (cases r)
  have n: "normal (r # rs)" "iv_start i \<le> a0" using assms(1) Cons r by (auto simp: iv_ok_def)
  have ok: "unat a0 \<le> unat b0" "b0 \<noteq> - 1" using n r by (auto simp: normal_Cons range_defs)
  have pos: "0 < unat (iv_start i)" using assms(2) by (simp add: word_le_nat_alt)
  show ?thesis
  proof (cases "a0 = iv_start i")
    case False
    then have "unat (iv_start i) < unat a0"
      using n(2) by (simp add: word_le_nat_alt word_unat_eq_iff)
    then have "first_gap i (iv_start i) (fst (hd (r # rs)) - 1)"
      using n pos Cons r by (intro first_gapI_bounded [where q = "r # rs"]) auto
    with False assms(3) Cons r show ?thesis by (simp add: iv_next_raw_def)
  next
    case True
    have b1: "unat (b0 + 1) = unat b0 + 1" using ok by (simp add: unat_inc)
    have below: "covers (ranges i) x" if "iv_start i \<le> x \<and> x < b0 + 1" for x
      using that True Cons r b1 by (auto simp: word_le_nat_alt word_less_nat_alt)
    have above: "covers (ranges i) x = covers rs x" if "b0 + 1 \<le> x" for x
      using that Cons r b1 by (auto simp: word_le_nat_alt)
    have lo: "iv_start i \<le> b0 + 1" using True ok b1 by (simp add: word_le_nat_alt)
    show ?thesis
    proof (cases rs)
      case Nil
      with assms(3) Cons r True below above lo show ?thesis
        by (auto simp: iv_next_raw_def first_gap_def)
    next
      case (Cons q rs')
      have "unat (b0 + 1) < unat (fst (hd rs))"
        using n(1) r Cons b1 by (simp add: normal_Cons range_defs)
      then have "first_gap i (b0 + 1) (fst (hd rs) - 1)"
        using n(1) lo below above b1 Cons
        by (intro first_gapI_bounded [where q = rs]) (auto simp: normal_Cons)
      with assms(3) True r Cons \<open>ranges i = r # rs\<close> show ?thesis
        by (cases q) (simp add: iv_next_raw_def)
    qed
  qed
qed


section \<open>The text codec\<close>

lemma digit36_props:
  assumes "d < 36"
  shows "digit_value (digit36 d) = Some d" "digit36 d \<noteq> CHR '';''" "digit36 d \<noteq> CHR '',''"
proof -
  have v: "(of_char (digit36 d) :: nat) = (if d < 10 then 48 + d else 87 + d)"
    using assms by (simp add: digit36_def of_char_of)
  show "digit_value (digit36 d) = Some d"
    using v assms by (simp add: digit_value_def)
  show "digit36 d \<noteq> CHR '';''" "digit36 d \<noteq> CHR '',''"
    using v by (auto split: if_splits)
qed

lemma parse_loop_append:
  "parse_loop n (xs @ ys) = (case parse_loop n xs of Inl e \<Rightarrow> Inl e | Inr m \<Rightarrow> parse_loop m ys)"
  by (induction xs arbitrary: n) (auto split: option.split)

lemma parse_loop_format: "n < 2 ^ 64 \<Longrightarrow> parse_loop 0 (FormatUint36 n) = Inr n"
proof (induction n rule: FormatUint36.induct)
  case (1 n)
  show ?case
  proof (cases "n < 36")
    case True
    then show ?thesis
      by (subst FormatUint36.simps) (simp add: digit36_props)
  next
    case False
    have "parse_loop 0 (FormatUint36 (n div 36)) = Inr (n div 36)"
      using 1 False by simp
    moreover have "n div 36 \<le> (2 ^ 64 - 1) div 36"
      using 1 by (intro div_le_mono) simp
    moreover have "n div 36 * 36 + n mod 36 = n" by simp
    ultimately show ?thesis
      using False "1.prems"
      by (subst FormatUint36.simps) (simp add: parse_loop_append digit36_props)
  qed
qed

lemma FormatUint36_chars: "c \<in> set (FormatUint36 n) \<Longrightarrow> c \<noteq> CHR '';'' \<and> c \<noteq> CHR '',''"
proof (induction n rule: FormatUint36.induct)
  case (1 n)
  then show ?case
    by (subst (asm) (2) FormatUint36.simps) (auto simp: digit36_props split: if_splits)
qed

lemma FormatUint36_not_Nil: "FormatUint36 n \<noteq> []"
  by (subst FormatUint36.simps) simp

lemma ParseUint36_format: "ParseUint36 (FormatUint36 (unat x)) = Inr x"
  using parse_loop_format [of "unat x"] unsigned_less [where ?'a = nat and w = x]
  by (simp add: ParseUint36_def FormatUint36_not_Nil)

lemma bytes_Split_no_sep: "c \<notin> set x \<Longrightarrow> bytes_Split c x = [x]"
  by (induction x) auto

lemma bytes_Split_append: "c \<notin> set x \<Longrightarrow> bytes_Split c (x @ c # y) = x # bytes_Split c y"
  by (induction x) auto

lemma bytes_Split_Join: "ds \<noteq> [] \<Longrightarrow> \<forall>d \<in> set ds. c \<notin> set d \<Longrightarrow> bytes_Split c (bytes_Join c ds) = ds"
  by (induction c ds rule: bytes_Join.induct) (auto simp: bytes_Split_no_sep bytes_Split_append)

lemma bytes_SplitN2_append: "c \<notin> set x \<Longrightarrow> bytes_SplitN2 c (x @ c # y) = [x, y]"
proof -
  assume c: "c \<notin> set x"
  then have "dropWhile (\<lambda>z. z \<noteq> c) (x @ c # y) = c # y" "takeWhile (\<lambda>z. z \<noteq> c) (x @ c # y) = x"
    by (induction x) auto
  then show ?thesis by (simp add: bytes_SplitN2_def)
qed

lemma iv_add_append:
  assumes "normal (ranges i @ [(s, e)])" "iv_start i \<le> s"
  shows "iv_add i s e = i\<lparr>ranges := ranges i @ [(s, e)]\<rparr>"
proof -
  have n: "normal (ranges i)" "unat s \<le> unat e" "e \<noteq> - 1" "\<forall>r \<in> set (ranges i). before s r"
    using assms(1) by (auto simp: normal_append normal_Cons range_defs)
  have "\<forall>r \<in> set (ranges i). \<not> nested s e r"
    using n by (auto simp: range_defs)
  then have "add_ranges (ranges i) s e =
      first_part s (ranges i) @ merged s e (mid_part s e (ranges i)) # last_part s e (ranges i)"
    using n by (intro add_ranges_eq)
  also have "\<dots> = ranges i @ [(s, e)]"
  proof -
    have t: "takeWhile (before s) (ranges i) = ranges i" "dropWhile (before s) (ranges i) = []"
      using n(4) by (simp_all add: takeWhile_eq_all_conv dropWhile_eq_Nil_conv)
    show ?thesis
      unfolding first_part_def mid_part_def last_part_def t by (simp add: merged_def)
  qed
  finally show ?thesis
    using assms(2) n(2) by (auto simp: iv_add_def word_le_nat_alt word_less_nat_alt)
qed

abbreviation encode_range :: "u64 \<times> u64 \<Rightarrow> string" where
  "encode_range r \<equiv> FormatUint36 (unat (fst r)) @ CHR '','' # FormatUint36 (unat (snd r))"

lemma unmarshal_ranges_encode:
  assumes "normal (ranges i @ rs)" "\<forall>r \<in> set rs. iv_start i \<le> fst r"
  shows "unmarshal_ranges i j (map encode_range rs) = (None, i\<lparr>ranges := ranges i @ rs\<rparr>)"
  using assms
proof (induction rs arbitrary: i j)
  case Nil
  then show ?case by simp
next
  case (Cons r rs)
  have "normal ((ranges i @ [r]) @ rs)" using Cons.prems by simp
  then have "normal (ranges i @ [r])" unfolding normal_append [of "ranges i @ [r]"] by blast
  then have add: "iv_add i (fst r) (snd r) = i\<lparr>ranges := ranges i @ [r]\<rparr>"
    using iv_add_append [of i "fst r" "snd r"] Cons.prems by simp
  have "CHR '','' \<notin> set (FormatUint36 (unat (fst r)))"
    using FormatUint36_chars by blast
  then have "unmarshal_ranges i j (map encode_range (r # rs)) =
      unmarshal_ranges (iv_add i (fst r) (snd r)) (Suc j) (map encode_range rs)"
    by (simp add: bytes_SplitN2_append ParseUint36_format)
  with add Cons.IH [of "i\<lparr>ranges := ranges i @ [r]\<rparr>" "Suc j"] Cons.prems show ?case by simp
qed

section \<open>Properties of the interval sets\<close>

text \<open>C36: adding a range to a normalised interval list yields a normalised list that covers exactly the old values and
  the new range cut at the lower bound, provided the range is not empty (start at most end), does not end at the largest
  64-bit value, and no stored range starts before it and reaches more than one value past its end.\<close>

theorem intervals_add_correct:
  assumes "iv_ok i" "start \<le> end" "end \<noteq> - 1" "\<forall>r \<in> set (ranges i). \<not> nested start end r"
  shows "iv_ok (iv_Add i start end) \<and>
    (\<forall>x. covers (ranges (iv_Add i start end)) x \<longleftrightarrow>
       covers (ranges i) x \<or> (iv_start i \<le> x \<and> start \<le> x \<and> x \<le> end))"
  using iv_add_ok [OF assms] by (simp add: iv_Add_def)

theorem intervals_add_correct_witness:
  "covers (ranges (iv_Add \<lparr>iv_start = 1, ranges = [(1, 5), (15, 20)]\<rparr> 3 17)) 9"
proof -
  let ?i = "\<lparr>iv_start = 1, ranges = [(1, 5), (15, 20)]\<rparr>"
  have "iv_ok ?i" "\<forall>r \<in> set (ranges ?i). \<not> nested 3 17 r"
    by (simp_all add: iv_ok_def normal_def range_defs)
  then show ?thesis
    using intervals_add_correct [of ?i 3 17] by simp
qed

text \<open>On a normalised interval list with a positive lower bound, \<open>Next\<close> without a
  ceiling returns the first gap: everything from the lower bound up to the returned start
  is covered, and nothing from the start up to the returned end is.\<close>

lemma intervals_next_gap:
  assumes "iv_ok i" "1 \<le> iv_start i" "iv_Next i 0 = (a, b, emp)"
  shows "first_gap i a b \<and> \<not> emp"
  using assms iv_next_raw_gap [of i a b] by (auto simp: iv_Next_def split: prod.splits)

text \<open>Decoding the encoded form of a normalised interval list into a fresh value
  succeeds and gives the list back.\<close>

lemma intervals_roundtrip:
  assumes "iv_ok i"
  shows "iv_UnmarshalBinary (NewIntervals s) (iv_MarshalBinary i) = (None, i)"
proof -
  let ?d = "FormatUint36 (unat (iv_start i)) # map encode_range (ranges i)"
  have "\<forall>d \<in> set ?d. CHR '';'' \<notin> set d"
    using FormatUint36_chars by fastforce
  then have "bytes_Split (CHR '';'') (iv_MarshalBinary i) = ?d"
    unfolding iv_MarshalBinary_def by (intro bytes_Split_Join) simp_all
  moreover have "unmarshal_ranges \<lparr>iv_start = iv_start i, ranges = []\<rparr> 1 (map encode_range (ranges i)) =
      (None, \<lparr>iv_start = iv_start i, ranges = ranges i\<rparr>)"
    using assms unmarshal_ranges_encode [of "\<lparr>iv_start = iv_start i, ranges = []\<rparr>" "ranges i" 1]
    by (simp add: iv_ok_def)
  ultimately show ?thesis
    by (auto simp: iv_UnmarshalBinary_def ParseUint36_format NewIntervals_def)
qed

text \<open>A range strictly inside a stored one is inserted as a separate, overlapping
  range, after which \<open>Next\<close> answers with an interval whose end lies before its start; and
  a range that ends at the largest value is inserted in front of smaller ranges.\<close>

lemma intervals_add_nested:
  "ranges (iv_Add \<lparr>iv_start = 1, ranges = [(1, 10)]\<rparr> 3 5) = [(1, 10), (3, 5)] \<and>
   iv_Next (iv_Add \<lparr>iv_start = 1, ranges = [(1, 10)]\<rparr> 3 5) 0 = (11, 2, False) \<and>
   ranges (iv_Add \<lparr>iv_start = 1, ranges = [(1, 5), (10, 20)]\<rparr> 7 (- 1)) =
     [(7, - 1), (1, 5), (10, 20)]"
  by code_simp

end
