(* ===== verification/StateStore.thy ===== *)
theory StateStore
  imports Prelude "HOL-Library.List_Lexorder" "HOL-Library.Char_ord" "HOL-Library.Sublist"
begin

text \<open>
  The persistent key-value store the services are built on: the interface
  \<open>storage.StateStorer\<close> (\<open>pkg/storage/statestore.go\<close>) and the adapter that implements
  it (\<open>pkg/statestore/storeadapter\<close>). Every operation may fail with an input/output error;
  the model carries a fault schedule indexed by an operation counter, so that any
  combination of failures of the calls of a handler is covered. A failed operation leaves
  the contents unchanged. Keys are enumerated in byte order, as the database iterates them.

  \<open>bindE\<close> is the propagation of an error through a state-passing computation
  (\<open>if err != nil { return err }\<close>).
\<close>

section \<open>Errors and state\<close>

definition bindE :: "('e + 'a) \<times> 's \<Rightarrow> ('a \<Rightarrow> 's \<Rightarrow> ('e + 'b) \<times> 's) \<Rightarrow> ('e + 'b) \<times> 's" where
  "bindE m f = (case m of (Inl e, s) \<Rightarrow> (Inl e, s) | (Inr x, s) \<Rightarrow> f x s)"

lemma bindE_simps [simp, go_err]:
  "bindE (Inl e, s) f = (Inl e, s)"
  "bindE (Inr x, s) f = f x s"
  by (simp_all add: bindE_def)

lemma bindE_Inr:
  "bindE m f = (Inr y, t) \<longleftrightarrow> (\<exists>x s. m = (Inr x, s) \<and> f x s = (Inr y, t))"
  by (cases m; cases "fst m") (auto simp: bindE_def)

lemma bindE_Inl:
  "bindE m f = (Inl e, t) \<longleftrightarrow> m = (Inl e, t) \<or> (\<exists>x s. m = (Inr x, s) \<and> f x s = (Inl e, t))"
  by (cases m; cases "fst m") (auto simp: bindE_def)

section \<open>The store contract\<close>

datatype store_error = ErrNotFound | ErrIO

locale state_store =
  fixes get :: "'s \<Rightarrow> string \<Rightarrow> (store_error + 'v) \<times> 's"
    and put :: "'s \<Rightarrow> string \<Rightarrow> 'v \<Rightarrow> store_error option \<times> 's"
    and delete :: "'s \<Rightarrow> string \<Rightarrow> store_error option \<times> 's"
    and content :: "'s \<Rightarrow> string \<rightharpoonup> 'v"
  assumes get_content: "content (snd (get s k)) = content s"
    and get_value: "get s k = (Inr v, s') \<Longrightarrow> content s k = Some v"
    and get_missing: "get s k = (Inl ErrNotFound, s') \<Longrightarrow> content s k = None"
    and put_ok: "put s k v = (None, s') \<Longrightarrow> content s' = (content s)(k \<mapsto> v)"
    and put_fail: "put s k v = (Some e, s') \<Longrightarrow> content s' = content s"
    and delete_ok: "delete s k = (None, s') \<Longrightarrow> content s' = (content s)(k := None)"
    and delete_fail: "delete s k = (Some e, s') \<Longrightarrow> content s' = content s"
begin

text \<open>A read that follows a successful write of the same key returns the written value
  unless the read itself fails, and other keys are not affected.\<close>

lemma get_after_put:
  assumes "put s k v = (None, s1)" "get s1 k = (r, s2)"
  shows "r = Inr v \<or> r = Inl ErrIO"
proof -
  have c: "content s1 k = Some v" using put_ok [OF assms(1)] by simp
  show ?thesis
  proof (cases r)
    case (Inl e)
    with assms(2) c get_missing [of s1 k s2] show ?thesis by (cases e) auto
  next
    case (Inr w)
    with assms(2) c get_value [of s1 k w s2] show ?thesis by simp
  qed
qed

lemma put_frame: "put s k v = (r, s') \<Longrightarrow> k' \<noteq> k \<Longrightarrow> content s' k' = content s k'"
  using put_ok put_fail by (cases r) fastforce+

text \<open>Deleting a list of keys, stopping at the first failure.\<close>

fun delete_all :: "'s \<Rightarrow> string list \<Rightarrow> store_error option \<times> 's" where
  "delete_all s [] = (None, s)"
| "delete_all s (k # ks) =
     (case delete s k of (Some e, s') \<Rightarrow> (Some e, s') | (None, s') \<Rightarrow> delete_all s' ks)"

lemma delete_all_ok: "delete_all s ks = (None, s') \<Longrightarrow> content s' = content s |` (- set ks)"
proof (induction s ks rule: delete_all.induct)
  case (1 s)
  then show ?case by (simp add: restrict_map_def)
next
  case (2 s k ks)
  then obtain s1 where s1: "delete s k = (None, s1)" "delete_all s1 ks = (None, s')"
    by (auto split: prod.splits option.splits)
  then have "content s' = content s1 |` (- set ks)" using "2.IH" [OF s1(1) [symmetric]] by simp
  then show ?case using delete_ok [OF s1(1)] by (auto simp: restrict_map_def fun_eq_iff)
qed

lemma delete_all_frame:
  "delete_all s ks = (r, s') \<Longrightarrow> k \<notin> set ks \<Longrightarrow> content s' k = content s k"
proof (induction s ks rule: delete_all.induct)
  case (2 s k' ks)
  obtain r1 s1 where s1: "delete s k' = (r1, s1)" by (cases "delete s k'")
  then have "content s1 k = content s k"
    using delete_ok delete_fail "2.prems" by (cases r1) fastforce+
  with "2.IH" "2.prems" s1 show ?case by (cases r1) auto
qed simp

end

section \<open>The store\<close>

record 'v statestore =
  st_kv :: "string \<rightharpoonup> 'v"
  st_keys :: "string list"
  st_tick :: nat
  st_fault :: "nat \<Rightarrow> bool"

definition st_step :: "'v statestore \<Rightarrow> bool \<times> 'v statestore" where
  "st_step s = (st_fault s (st_tick s), s\<lparr>st_tick := Suc (st_tick s)\<rparr>)"

definition st_Get :: "'v statestore \<Rightarrow> string \<Rightarrow> (store_error + 'v) \<times> 'v statestore" where
  "st_Get s k =
     (case st_step s of (f, s') \<Rightarrow>
        (if f then Inl ErrIO
         else case st_kv s k of None \<Rightarrow> Inl ErrNotFound | Some v \<Rightarrow> Inr v, s'))"

definition st_Put :: "'v statestore \<Rightarrow> string \<Rightarrow> 'v \<Rightarrow> store_error option \<times> 'v statestore" where
  "st_Put s k v =
     (case st_step s of (f, s') \<Rightarrow>
        if f then (Some ErrIO, s')
        else (None, s'\<lparr>st_kv := (st_kv s)(k \<mapsto> v), st_keys := insort k (removeAll k (st_keys s))\<rparr>))"

definition st_Delete :: "'v statestore \<Rightarrow> string \<Rightarrow> store_error option \<times> 'v statestore" where
  "st_Delete s k =
     (case st_step s of (f, s') \<Rightarrow>
        if f then (Some ErrIO, s')
        else (None, s'\<lparr>st_kv := (st_kv s)(k := None), st_keys := removeAll k (st_keys s)\<rparr>))"

text \<open>The keys with a prefix, in order: what \<open>Iterate\<close> passes to its callback.\<close>

definition st_Iterate :: "'v statestore \<Rightarrow> string \<Rightarrow> (store_error + string list) \<times> 'v statestore" where
  "st_Iterate s pre =
     (case st_step s of (f, s') \<Rightarrow>
        (if f then Inl ErrIO else Inr (filter (prefix pre) (st_keys s)), s'))"

text \<open>\<open>Nuke\<close> removes every key except those under the preserved prefixes.\<close>

definition prefixesToPreserve :: "string list" where
  "prefixesToPreserve =
     [''non-mineable-overlay'', ''overlayV2_nonce'', ''pseudosettle'', ''accounting'', ''swap'']"

definition collectKeysExcept ::
    "'v statestore \<Rightarrow> string list \<Rightarrow> (store_error + string list) \<times> 'v statestore" where
  "collectKeysExcept s pres =
     bindE (st_Iterate s '''')
       (\<lambda>ks s'. (Inr (filter (\<lambda>k. \<not> (\<exists>v \<in> set pres. prefix v k)) ks), s'))"

fun deleteKeys :: "'v statestore \<Rightarrow> string list \<Rightarrow> store_error option \<times> 'v statestore" where
  "deleteKeys s [] = (None, s)"
| "deleteKeys s (k # ks) =
     (case st_Delete s k of (Some e, s') \<Rightarrow> (Some e, s') | (None, s') \<Rightarrow> deleteKeys s' ks)"

definition st_Nuke :: "'v statestore \<Rightarrow> store_error option \<times> 'v statestore" where
  "st_Nuke s =
     (case collectKeysExcept s prefixesToPreserve of
        (Inl e, s') \<Rightarrow> (Some e, s')
      | (Inr ks, s') \<Rightarrow> deleteKeys s' ks)"

lemmas st_defs = st_Get_def st_Put_def st_Delete_def st_Iterate_def st_step_def

interpretation st: state_store st_Get st_Put st_Delete st_kv
  by unfold_locales (auto simp: st_defs split: if_splits option.splits)

lemma deleteKeys_delete_all: "deleteKeys s ks = st.delete_all s ks"
  by (induction s ks rule: deleteKeys.induct) (auto split: prod.splits option.splits)

section \<open>Invariant\<close>

definition st_ok :: "'v statestore \<Rightarrow> bool" where
  "st_ok s \<longleftrightarrow> sorted (st_keys s) \<and> distinct (st_keys s) \<and> set (st_keys s) = dom (st_kv s)"

lemma sorted_removeAll: "sorted xs \<Longrightarrow> sorted (removeAll k xs)"
  by (simp add: removeAll_filter_not_eq sorted_wrt_filter)

lemma st_ok_ops:
  assumes "st_ok s"
  shows "st_ok (snd (st_Get s k))" "st_ok (snd (st_Put s k v))" "st_ok (snd (st_Delete s k))"
    "st_ok (snd (st_Iterate s k))"
  using assms
  by (auto simp: st_ok_def st_defs set_insort_key sorted_insort sorted_removeAll distinct_insort distinct_removeAll
      split: if_splits)

text \<open>When \<open>Nuke\<close> succeeds, exactly the entries under the preserved prefixes remain,
  with their values; and even when it fails part-way no preserved entry is lost.\<close>

lemma nuke_preserves:
  assumes "st_ok s" "st_Nuke s = (r, s')"
  shows "(\<forall>k. (\<exists>v \<in> set prefixesToPreserve. prefix v k) \<longrightarrow> st_kv s' k = st_kv s k) \<and>
    (r = None \<longrightarrow> st_kv s' = st_kv s |` {k. \<exists>v \<in> set prefixesToPreserve. prefix v k})"
proof (cases "st_fault s (st_tick s)")
  case True
  then show ?thesis
    using assms(2) by (auto simp: st_Nuke_def collectKeysExcept_def st_Iterate_def st_step_def)
next
  case False
  let ?s = "s\<lparr>st_tick := Suc (st_tick s)\<rparr>"
  let ?keep = "{k. \<exists>v \<in> set prefixesToPreserve. prefix v k}"
  let ?ks = "filter (\<lambda>k. k \<notin> ?keep) (st_keys s)"
  have del: "st.delete_all ?s ?ks = (r, s')"
    using False assms(2)
    by (simp add: st_Nuke_def collectKeysExcept_def st_Iterate_def st_step_def deleteKeys_delete_all)
  have "st_kv s' k = st_kv s k" if "k \<in> ?keep" for k
    using st.delete_all_frame [OF del, of k] that by simp
  moreover have "st_kv s' = st_kv s |` ?keep" if "r = None"
  proof -
    have "st_kv s' = st_kv s |` (- set ?ks)"
      using st.delete_all_ok [of ?s ?ks s'] del that by simp
    moreover have "k \<notin> set ?ks \<longleftrightarrow> k \<in> ?keep \<or> st_kv s k = None" for k
      using assms(1) by (auto simp: st_ok_def)
    ultimately show ?thesis by (auto simp: restrict_map_def fun_eq_iff)
  qed
  ultimately show ?thesis by auto
qed

end
