(* ===== verification/Bytes.thy ===== *)
theory Bytes
  imports Swarm StateStore
begin

text \<open>
  Byte-level encodings shared by the stored and transmitted records: fixed-width big-endian
  and little-endian integers (\<open>encoding/binary\<close>), the minimal big-endian form of a \<open>big.Int\<close>
  (\<open>Bytes\<close>, \<open>FillBytes\<close>, \<open>SetBytes\<close>), \<open>copy\<close> into a slice, and byte slices used as string
  keys, whose order in the store is the order of the encoded numbers.
\<close>

section \<open>Fixed-width integers\<close>

primrec be_put :: "nat \<Rightarrow> nat \<Rightarrow> bytes" where
  "be_put 0 n = []"
| "be_put (Suc k) n = of_nat (n div 256 ^ k) # be_put k n"

definition be_nat :: "bytes \<Rightarrow> nat" where
  "be_nat bs = foldl (\<lambda>r b. r * 256 + unat b) 0 bs"

definition le_put :: "nat \<Rightarrow> nat \<Rightarrow> bytes" where
  "le_put k n = rev (be_put k n)"

definition le_nat :: "bytes \<Rightarrow> nat" where
  "le_nat bs = be_nat (rev bs)"

lemma length_be_put [simp]: "length (be_put k n) = k"
  by (induction k) auto

lemma length_le_put [simp]: "length (le_put k n) = k"
  by (simp add: le_put_def)

lemma byte_less256: "unat (b :: byte) < 256"
  using unsigned_less [of b] by simp

lemma u64_less: "unat (w :: u64) < 256 ^ 8"
  using unsigned_less [of w] by simp

lemma u32_less: "unat (w :: u32) < 256 ^ 4"
  using unsigned_less [of w] by simp

lemma be_foldl:
  "foldl (\<lambda>r b. r * 256 + unat b) r bs = r * 256 ^ length bs + foldl (\<lambda>r b. r * 256 + unat b) 0 bs"
proof (induction bs arbitrary: r)
  case (Cons c cs)
  have "foldl (\<lambda>r b. r * 256 + unat b) r (c # cs) =
      (r * 256 + unat c) * 256 ^ length cs + foldl (\<lambda>r b. r * 256 + unat b) 0 cs"
    by (simp add: Cons.IH [of "r * 256 + unat c"])
  moreover have "foldl (\<lambda>r b. r * 256 + unat b) 0 (c # cs) =
      unat c * 256 ^ length cs + foldl (\<lambda>r b. r * 256 + unat b) 0 cs"
    by (simp add: Cons.IH [of "unat c"])
  ultimately show ?case by (simp add: algebra_simps)
qed simp

lemma be_nat_simps [simp]:
  "be_nat [] = 0"
  "be_nat (b # bs) = unat b * 256 ^ length bs + be_nat bs"
  using be_foldl [of "unat b" bs] by (simp_all add: be_nat_def)

lemma be_nat_append: "be_nat (xs @ ys) = be_nat xs * 256 ^ length ys + be_nat ys"
  by (induction xs) (auto simp: algebra_simps power_add)

lemma be_nat_bound: "be_nat bs < 256 ^ length bs"
proof (induction bs)
  case (Cons b bs)
  have "unat b \<le> 255" using byte_less256 [of b] by simp
  then have "unat b * 256 ^ length bs \<le> 255 * 256 ^ length bs" by (rule mult_right_mono) simp
  with Cons show ?case unfolding be_nat_simps length_Cons power_Suc by linarith
qed simp

lemma be_nat_replicate0 [simp]: "be_nat (replicate k 0) = 0"
  by (induction k) auto

lemma unat_of_nat_byte: "unat (of_nat n :: byte) = n mod 256"
  by (simp add: unat_of_nat)

lemma be_nat_be_put: "be_nat (be_put k n) = n mod 256 ^ k"
proof (induction k)
  case (Suc k)
  have "n mod 256 ^ Suc k = 256 ^ k * (n div 256 ^ k mod 256) + n mod 256 ^ k"
    using mod_mult2_eq [of n "256 ^ k" 256] by (simp add: mult.commute)
  with Suc show ?case by (simp add: unat_of_nat_byte mult.commute)
qed simp

lemma be_nat_put_id [simp]: "n < 256 ^ k \<Longrightarrow> be_nat (be_put k n) = n"
  by (simp add: be_nat_be_put)

lemma be_nat_inj: "length xs = length ys \<Longrightarrow> be_nat xs = be_nat ys \<longleftrightarrow> xs = ys"
proof (induction xs ys rule: list_induct2)
  case (Cons x xs y ys)
  have b: "be_nat xs < 256 ^ length xs" "be_nat ys < 256 ^ length xs"
    using be_nat_bound [of xs] be_nat_bound [of ys] Cons.hyps by auto
  have d: "(k * 256 ^ length xs + m) div 256 ^ length xs = k" if "m < 256 ^ length xs" for k m :: nat
    using that by simp
  have "x = y \<and> xs = ys" if eq: "unat x * 256 ^ length xs + be_nat xs = unat y * 256 ^ length xs + be_nat ys"
  proof -
    have "unat x = unat y" using d [OF b(1), of "unat x"] d [OF b(2), of "unat y"] eq by (metis (no_types))
    with eq Cons.IH show ?thesis using word_unat_eq_iff [of x y] by simp
  qed
  then show ?case using Cons.hyps by (metis be_nat_simps(2))
qed simp

lemma be_put_be_nat [simp]: "be_put (length bs) (be_nat bs) = bs"
  using be_nat_inj [of "be_put (length bs) (be_nat bs)" bs] be_nat_bound [of bs] by simp

lemma be_put_be_nat' [simp]: "length bs = k \<Longrightarrow> be_put k (be_nat bs) = bs"
  using be_put_be_nat by blast

lemma le_nat_put_id [simp]: "n < 256 ^ k \<Longrightarrow> le_nat (le_put k n) = n"
  by (simp add: le_nat_def le_put_def)

lemma le_put_le_nat [simp]: "length bs = k \<Longrightarrow> le_put k (le_nat bs) = bs"
  by (simp add: le_nat_def le_put_def)

lemma big_SetBytes_be_nat: "big_SetBytes bs = int (be_nat bs)"
proof -
  have "foldl (\<lambda>r b. r * 256 + uint b) (int r) bs = int (foldl (\<lambda>r b. r * 256 + unat b) r bs)" for r
  proof (induction bs arbitrary: r)
    case (Cons b bs)
    then show ?case using Cons.IH [of "r * 256 + unat b"] by simp
  qed simp
  from this [of 0] show ?thesis by (simp add: big_SetBytes_def be_nat_def)
qed

section \<open>Big integers\<close>

text \<open>The minimal big-endian bytes of a magnitude.\<close>

fun nat_bytes :: "nat \<Rightarrow> bytes" where
  "nat_bytes n = (if n = 0 then [] else nat_bytes (n div 256) @ [of_nat (n mod 256)])"

declare nat_bytes.simps [simp del]

definition big_Bytes :: "int \<Rightarrow> bytes" where
  "big_Bytes x = nat_bytes (nat \<bar>x\<bar>)"

text \<open>\<open>FillBytes\<close> panics (\<open>None\<close>) when the value does not fit.\<close>

definition big_FillBytes :: "nat \<Rightarrow> int \<Rightarrow> bytes option" where
  "big_FillBytes k x =
     (if nat \<bar>x\<bar> < 256 ^ k then Some (be_put k (nat \<bar>x\<bar>)) else None)"

lemma be_nat_nat_bytes [simp]: "be_nat (nat_bytes n) = n"
proof (induction n rule: nat_bytes.induct)
  case (1 n)
  then show ?case
    by (subst nat_bytes.simps) (auto simp: be_nat_append unat_of_nat_byte)
qed

lemma length_nat_bytes: "length (nat_bytes n) \<le> k \<longleftrightarrow> n < 256 ^ k"
proof (induction k arbitrary: n)
  case 0
  then show ?case by (cases "n = 0") (simp_all add: nat_bytes.simps)
next
  case (Suc k)
  then show ?case
    by (cases "n = 0") (simp_all add: nat_bytes.simps [of n] nat_bytes.simps [of 0] div_less_iff_less_mult mult.commute)
qed

lemma pad_nat_bytes:
  assumes "n < 256 ^ k"
  shows "replicate (k - length (nat_bytes n)) 0 @ nat_bytes n = be_put k n"
proof -
  have "length (replicate (k - length (nat_bytes n)) 0 @ nat_bytes n) = k"
    using length_nat_bytes assms by simp
  moreover have "be_nat (replicate (k - length (nat_bytes n)) 0 @ nat_bytes n) = n"
    by (simp add: be_nat_append)
  ultimately show ?thesis by (metis be_put_be_nat)
qed

section \<open>Slices\<close>

text \<open>\<open>copy(dst[i:], src)\<close>, for an index within the slice.\<close>

definition copy_at :: "bytes \<Rightarrow> nat \<Rightarrow> bytes \<Rightarrow> bytes" where
  "copy_at dst i src = take i dst @ take (length dst - i) src @ drop (i + length src) dst"

lemma length_copy_at [simp]: "i \<le> length dst \<Longrightarrow> length (copy_at dst i src) = length dst"
  by (auto simp: copy_at_def min_def)

lemma copy_at_next:
  "i = length xs \<Longrightarrow> length src = n \<Longrightarrow> copy_at (xs @ replicate (n + k) 0) i src = xs @ src @ replicate k 0"
  by (simp add: copy_at_def)

definition slice :: "nat \<Rightarrow> nat \<Rightarrow> 'a list \<Rightarrow> 'a list" where
  "slice i j xs = take (j - i) (drop i xs)"

lemma slice_append:
  "i = length xs \<Longrightarrow> j = length xs + length ys \<Longrightarrow> slice i j (xs @ ys @ zs) = ys"
  by (simp add: slice_def)

lemma length_slice [simp]: "j \<le> length xs \<Longrightarrow> length (slice i j xs) = j - i"
  by (simp add: slice_def)

section \<open>Bytes as strings\<close>

definition bytes_str :: "bytes \<Rightarrow> string" where
  "bytes_str bs = map (\<lambda>b. char_of (unat b)) bs"

definition str_bytes :: "string \<Rightarrow> bytes" where
  "str_bytes s = map (\<lambda>c. of_nat (of_char c)) s"

lemma byte_of_char [simp]: "(of_nat (of_char (char_of (unat b) :: char)) :: byte) = b"
  using byte_less256 [of b] by simp

lemma str_bytes_bytes_str [simp]: "str_bytes (bytes_str bs) = bs"
  unfolding str_bytes_def bytes_str_def by (induction bs) (simp_all del: of_char_of)

lemma length_bytes_str [simp]: "length (bytes_str bs) = length bs"
  by (simp add: bytes_str_def)

lemma bytes_str_append [simp]: "bytes_str (xs @ ys) = bytes_str xs @ bytes_str ys"
  by (simp add: bytes_str_def)

lemma bytes_str_inj [simp]: "bytes_str xs = bytes_str ys \<longleftrightarrow> xs = ys"
  by (metis str_bytes_bytes_str)

lemma byte_char_less: "char_of (unat (a :: byte)) < (char_of (unat (b :: byte)) :: char) \<longleftrightarrow> unat a < unat b"
  using byte_less256 [of a] byte_less256 [of b] by (simp add: less_char_def)

lemma bytes_str_less:
  "length xs = length ys \<Longrightarrow> bytes_str xs < bytes_str ys \<longleftrightarrow> be_nat xs < be_nat ys"
proof (induction xs ys rule: list_induct2)
  case (Cons x xs y ys)
  have b: "be_nat xs < 256 ^ length xs" "be_nat ys < 256 ^ length xs"
    using be_nat_bound [of xs] be_nat_bound [of ys] Cons.hyps by auto
  have lt: "k * 256 ^ length xs + m < l * 256 ^ length xs + n" if "k < l" "m < 256 ^ length xs" for k l m n :: nat
  proof -
    have "Suc k * 256 ^ length xs \<le> l * 256 ^ length xs" using that(1) by (intro mult_right_mono) auto
    then show ?thesis using that(2) unfolding mult_Suc by linarith
  qed
  have eq: "be_nat (x # xs) < be_nat (y # ys) \<longleftrightarrow> unat x < unat y \<or> unat x = unat y \<and> be_nat xs < be_nat ys"
    using lt [OF _ b(1), of "unat x" "unat y" "be_nat ys"] lt [OF _ b(2), of "unat y" "unat x" "be_nat xs"] Cons.hyps
    by (cases "unat x" "unat y" rule: linorder_cases) auto
  have "char_of (unat x) = (char_of (unat y) :: char) \<longleftrightarrow> unat x = unat y"
    using byte_of_char by metis
  then show ?case
    unfolding eq using Cons.IH by (simp add: bytes_str_def byte_char_less)
qed (simp add: bytes_str_def)

end
