(* ===== verification/ItemStore.thy ===== *)
theory ItemStore
  imports Bytes
begin

text \<open>
  The store of serialised items: the query and result types of \<open>pkg/storage/storage.go\<close> and the
  implementation \<open>pkg/storage/leveldbstore/store.go\<close>. The database underneath is the ordered
  key-value map of \<open>StateStore\<close>, whose calls may fail; an iterator is a snapshot of the entries of its
  range. An item is given by its namespace, its identifier and its serialisation; the factory of a
  query by its namespace and its \<open>Unmarshal\<close>. The callback of an iteration threads a state of its
  caller, and the errors an iteration joins are a list, empty for \<open>nil\<close>.
\<close>

section \<open>Queries\<close>

datatype QueryItemProperty = QueryItem | QueryItemID | QueryItemSize

datatype Order = KeyAscendingOrder | KeyDescendingOrder

datatype 'e item_error = ItemNotFound | ItemInvalidQuery | ItemIO | ItemDecode | ItemEncode | ItemCallback 'e

record 'a Result =
  r_ID :: string
  r_Size :: nat
  r_Entry :: "'a option"

record 'a Query =
  q_Factory :: "(string \<times> (bytes \<Rightarrow> 'a option)) option"
  q_Prefix :: string
  q_PrefixAtStart :: bool
  q_SkipFirst :: bool
  q_ItemProperty :: QueryItemProperty
  q_Order :: Order
  q_Filters :: "(string \<Rightarrow> bytes \<Rightarrow> bool) list"

definition query_Validate :: "'a Query \<Rightarrow> bool" where
  "query_Validate q \<longleftrightarrow> \<not> (q_ItemProperty q = QueryItem \<and> q_Factory q = None)"

type_synonym leveldb = "bytes statestore"

section \<open>Operations\<close>

definition separator :: string where "separator = ''/''"

definition item_key :: "string \<Rightarrow> string \<Rightarrow> string" where
  "item_key ns i = ns @ separator @ i"

fun matchAny :: "(string \<Rightarrow> bytes \<Rightarrow> bool) list \<Rightarrow> string \<Rightarrow> bytes \<Rightarrow> bool" where
  "matchAny [] k v = False"
| "matchAny (f # fs) k v = (if f k v then True else matchAny fs k v)"

definition ls_Get :: "leveldb \<Rightarrow> string \<Rightarrow> string \<Rightarrow> (bytes \<Rightarrow> 'a option) \<Rightarrow> ('e item_error + 'a) \<times> leveldb" where
  "ls_Get db ns i unmarshal =
     (case st_Get db (item_key ns i) of
        (Inl ErrNotFound, db) \<Rightarrow> (Inl ItemNotFound, db)
      | (Inl ErrIO, db) \<Rightarrow> (Inl ItemIO, db)
      | (Inr val, db) \<Rightarrow> (case unmarshal val of None \<Rightarrow> Inl ItemDecode | Some x \<Rightarrow> Inr x, db))"

definition ls_Has :: "leveldb \<Rightarrow> string \<Rightarrow> string \<Rightarrow> ('e item_error + bool) \<times> leveldb" where
  "ls_Has db ns i =
     (case st_Get db (item_key ns i) of
        (Inl ErrNotFound, db) \<Rightarrow> (Inr False, db)
      | (Inl ErrIO, db) \<Rightarrow> (Inl ItemIO, db)
      | (Inr val, db) \<Rightarrow> (Inr True, db))"

definition ls_GetSize :: "leveldb \<Rightarrow> string \<Rightarrow> string \<Rightarrow> ('e item_error + nat) \<times> leveldb" where
  "ls_GetSize db ns i =
     (case st_Get db (item_key ns i) of
        (Inl ErrNotFound, db) \<Rightarrow> (Inl ItemNotFound, db)
      | (Inl ErrIO, db) \<Rightarrow> (Inl ItemIO, db)
      | (Inr val, db) \<Rightarrow> (Inr (length val), db))"

definition ls_Put :: "leveldb \<Rightarrow> string \<Rightarrow> string \<Rightarrow> bytes option \<Rightarrow> ('e item_error + unit) \<times> leveldb" where
  "ls_Put db ns i marshalled =
     (case marshalled of
        None \<Rightarrow> (Inl ItemEncode, db)
      | Some value \<Rightarrow>
          (case st_Put db (item_key ns i) value of
             (Some _, db) \<Rightarrow> (Inl ItemIO, db)
           | (None, db) \<Rightarrow> (Inr (), db)))"

definition ls_Delete :: "leveldb \<Rightarrow> string \<Rightarrow> string \<Rightarrow> ('e item_error + unit) \<times> leveldb" where
  "ls_Delete db ns i =
     (case st_Delete db (if ns = [] then i else item_key ns i) of
        (Some _, db) \<Rightarrow> (Inl ItemIO, db)
      | (None, db) \<Rightarrow> (Inr (), db))"

definition ls_Count :: "leveldb \<Rightarrow> string \<Rightarrow> ('e item_error + nat) \<times> leveldb" where
  "ls_Count db ns =
     (case st_Iterate db (ns @ separator) of
        (Inl _, db) \<Rightarrow> (Inl ItemIO, db)
      | (Inr ks, db) \<Rightarrow> (Inr (length ks), db))"

definition query_namespace :: "'a Query \<Rightarrow> string" where
  "query_namespace q = (case q_Factory q of None \<Rightarrow> [] | Some (ns, _) \<Rightarrow> ns)"

text \<open>The prefix of the iterator, which is also cut off the keys of the results.\<close>

definition query_prefix :: "'a Query \<Rightarrow> string" where
  "query_prefix q =
     (let ns = query_namespace q in
      if q_PrefixAtStart q then ns
      else if ns \<noteq> [] then ns @ separator @ q_Prefix q else [])"

text \<open>The keys in the order the iterator delivers them. With \<open>PrefixAtStart\<close> nothing is delivered when
  no key of the range is at or after the start, whatever the order.\<close>

definition query_keys :: "'a Query \<Rightarrow> string list \<Rightarrow> string list" where
  "query_keys q rng =
     (let start = dropWhile (\<lambda>k. k < query_namespace q @ separator @ q_Prefix q) rng in
      if q_PrefixAtStart q then
        (if start = [] then [] else case q_Order q of KeyAscendingOrder \<Rightarrow> start | KeyDescendingOrder \<Rightarrow> rev rng)
      else case q_Order q of KeyAscendingOrder \<Rightarrow> rng | KeyDescendingOrder \<Rightarrow> rev rng)"

definition query_result :: "'a Query \<Rightarrow> string \<Rightarrow> bytes \<Rightarrow> 'a Result option" where
  "query_result q key val =
     (case q_ItemProperty q of
        QueryItem \<Rightarrow>
          (case q_Factory q of
             None \<Rightarrow> None
           | Some (_, unmarshal) \<Rightarrow>
               (case unmarshal val of
                  None \<Rightarrow> None
                | Some x \<Rightarrow> Some \<lparr>r_ID = key, r_Size = 0, r_Entry = Some x\<rparr>))
      | _ \<Rightarrow> Some \<lparr>r_ID = key, r_Size = length val, r_Entry = None\<rparr>)"

fun iterate_loop :: "'a Query \<Rightarrow> ('a Result \<Rightarrow> 'c \<Rightarrow> ('e + bool) \<times> 'c) \<Rightarrow> (string \<times> bytes) list \<Rightarrow> bool \<Rightarrow> 'c \<Rightarrow>
    'e item_error list \<times> 'c" where
  "iterate_loop q fn [] firstSkipped c = ([], c)"
| "iterate_loop q fn ((k, val) # es) firstSkipped c =
     (let key = drop (length (query_prefix q)) k in
      if matchAny (q_Filters q) key val then iterate_loop q fn es firstSkipped c
      else if q_SkipFirst q \<and> \<not> firstSkipped then iterate_loop q fn es True c
      else
        case query_result q key val of
          None \<Rightarrow> ([ItemDecode], c)
        | Some res \<Rightarrow>
            (case fn res c of
               (Inl e, c) \<Rightarrow> ([ItemCallback e], c)
             | (Inr True, c) \<Rightarrow> ([], c)
             | (Inr False, c) \<Rightarrow> iterate_loop q fn es firstSkipped c))"

text \<open>The entries of the snapshot, and the errors of the iterator itself.\<close>

definition query_entries :: "leveldb \<Rightarrow> 'a Query \<Rightarrow> (store_error + (string \<times> bytes) list) \<times> leveldb" where
  "query_entries db q =
     (case st_Iterate db (query_prefix q) of
        (Inl e, db') \<Rightarrow> (Inl e, db')
      | (Inr ks, db') \<Rightarrow> (Inr (map (\<lambda>k. (k, the (st_kv db k))) (query_keys q ks)), db'))"

definition ls_Iterate :: "leveldb \<Rightarrow> 'a Query \<Rightarrow> ('a Result \<Rightarrow> 'c \<Rightarrow> ('e + bool) \<times> 'c) \<Rightarrow> 'c \<Rightarrow>
    'e item_error list \<times> 'c \<times> leveldb" where
  "ls_Iterate db q fn c =
     (if \<not> query_Validate q then ([ItemInvalidQuery], c, db)
      else case query_entries db q of
        (Inl _, db) \<Rightarrow> ([ItemIO], c, db)
      | (Inr es, db) \<Rightarrow>
          (case iterate_loop q fn es (\<not> q_SkipFirst q) c of (errs, c) \<Rightarrow> (errs, c, db)))"

section \<open>Laws\<close>

lemma item_key_inj: "length i = length j \<Longrightarrow> item_key ns i = item_key ns' j \<longleftrightarrow> ns = ns' \<and> i = j"
  by (auto simp: item_key_def separator_def)

lemma item_key_same [simp]: "item_key ns i = item_key ns j \<longleftrightarrow> i = j"
  by (simp add: item_key_def)

lemma ls_Get_db: "ls_Get db ns i u = (r, db') \<Longrightarrow> st_kv db' = st_kv db \<and> (st_ok db \<longrightarrow> st_ok db')"
  using st.get_content [of db "item_key ns i"] st_ok_ops(1) [of db "item_key ns i"]
  by (auto simp: ls_Get_def split: prod.splits sum.splits store_error.splits)

lemma ls_Get_value:
  assumes "ls_Get db ns i u = (r, db')"
  shows "r = Inr x \<Longrightarrow> \<exists>v. st_kv db (item_key ns i) = Some v \<and> u v = Some x"
    and "r = Inl ItemNotFound \<Longrightarrow> st_kv db (item_key ns i) = None"
  using assms st.get_value [of db "item_key ns i"] st.get_missing [of db "item_key ns i"]
  by (auto simp: ls_Get_def split: prod.splits sum.splits store_error.splits option.splits)

lemma ls_Put_ok:
  "ls_Put db ns i m = (Inr u, db') \<Longrightarrow>
     \<exists>v. m = Some v \<and> st_kv db' = (st_kv db)(item_key ns i \<mapsto> v) \<and> (st_ok db \<longrightarrow> st_ok db')"
  using st.put_ok [of db "item_key ns i" "the m"] st_ok_ops(2) [of db "item_key ns i" "the m"]
  by (auto simp: ls_Put_def split: prod.splits option.splits)

lemma ls_Put_fail:
  "ls_Put db ns i m = (Inl e, db') \<Longrightarrow> st_kv db' = st_kv db \<and> (st_ok db \<longrightarrow> st_ok db')"
  using st.put_fail [of db "item_key ns i" "the m"] st_ok_ops(2) [of db "item_key ns i" "the m"]
  by (auto simp: ls_Put_def split: prod.splits option.splits)

lemma ls_Delete_ok:
  "ns \<noteq> [] \<Longrightarrow> ls_Delete db ns i = (Inr u, db') \<Longrightarrow>
     st_kv db' = (st_kv db)(item_key ns i := None) \<and> (st_ok db \<longrightarrow> st_ok db')"
  using st.delete_ok [of db "item_key ns i"] st_ok_ops(3) [of db "item_key ns i"]
  by (fastforce simp: ls_Delete_def split: prod.splits option.splits)

lemma ls_Delete_fail:
  "ls_Delete db ns i = (Inl e, db') \<Longrightarrow> st_kv db' = st_kv db \<and> (st_ok db \<longrightarrow> st_ok db')"
  using st.delete_fail [of db "if ns = [] then i else item_key ns i"] st_ok_ops(3) [of db "if ns = [] then i else item_key ns i"]
  by (fastforce simp: ls_Delete_def split: prod.splits option.splits)

text \<open>A callback that only collects sees the entries up to the first that does not decode.\<close>

definition plain_query :: "string \<Rightarrow> (bytes \<Rightarrow> 'a option) \<Rightarrow> string \<Rightarrow> 'a Query" where
  "plain_query ns u pre = \<lparr>q_Factory = Some (ns, u), q_Prefix = pre, q_PrefixAtStart = False, q_SkipFirst = False,
     q_ItemProperty = QueryItem, q_Order = KeyAscendingOrder, q_Filters = []\<rparr>"

lemma plain_query_simps [simp]:
  "query_Validate (plain_query ns u pre)"
  "query_keys (plain_query ns u pre) ks = ks"
  "ns \<noteq> [] \<Longrightarrow> query_prefix (plain_query ns u pre) = ns @ separator @ pre"
  "q_Filters (plain_query ns u pre) = []" "q_SkipFirst (plain_query ns u pre) = False"
  by (simp_all add: plain_query_def query_Validate_def query_keys_def query_prefix_def query_namespace_def)

text \<open>An iteration whose callback neither stops nor fails is a fold over the decoded items.\<close>

lemma iterate_loop_fold:
  assumes "\<And>r c. fst (fn r c) = Inr False" "\<And>k v. (k, v) \<in> set es \<Longrightarrow> u v \<noteq> None"
  shows "iterate_loop (plain_query ns u pre) fn es True c =
    ([], fold (\<lambda>(k, v) c. snd (fn \<lparr>r_ID = drop (length (query_prefix (plain_query ns u pre))) k, r_Size = 0, r_Entry = u v\<rparr> c)) es c)"
  using assms(2)
proof (induction es arbitrary: c)
  case (Cons e es)
  obtain k v where e: "e = (k, v)" by fastforce
  obtain x where x: "u v = Some x" using Cons.prems [of k v] e by auto
  let ?r = "\<lparr>r_ID = drop (length (query_prefix (plain_query ns u pre))) k, r_Size = 0, r_Entry = Some x\<rparr>"
  obtain c' where c': "fn ?r c = (Inr False, c')" using assms(1) [of ?r c] by (cases "fn ?r c") auto
  have "query_result (plain_query ns u pre) k' v = Some \<lparr>r_ID = k', r_Size = 0, r_Entry = Some x\<rparr>" for k'
    by (simp add: query_result_def plain_query_def x)
  moreover have "\<And>k v. (k, v) \<in> set es \<Longrightarrow> u v \<noteq> None" using Cons.prems by (meson list.set_intros(2))
  ultimately show ?case using Cons.IH [of c'] x e c' by (simp add: Let_def)
qed simp

lemma dropWhile_less_sorted:
  "sorted ks \<Longrightarrow> dropWhile (\<lambda>k. k < t) ks = filter (\<lambda>k. t \<le> k) (ks :: 'a :: linorder list)"
proof (induction ks)
  case (Cons k ks)
  show ?case
  proof (cases "k < t")
    case False
    with Cons.prems have "\<forall>x\<in>set ks. t \<le> x" by auto
    with False show ?thesis by (simp add: filter_id_conv)
  qed (use Cons in auto)
qed simp

text \<open>An ascending iteration over a namespace that starts at a prefix delivers exactly the keys of
  the namespace range that are not smaller than the start, in order; a plain one exactly the keys
  with the prefix.\<close>

lemma query_keys_correct:
  assumes "st_ok db" "query_entries db q = (Inr es, db')" "q_Order q = KeyAscendingOrder"
  shows "sorted (map fst es) \<and> distinct (map fst es) \<and>
    set es = {(k, v). st_kv db k = Some v \<and> prefix (query_prefix q) k \<and>
      (q_PrefixAtStart q \<longrightarrow> query_namespace q @ separator @ q_Prefix q \<le> k)}"
proof -
  let ?ks = "filter (prefix (query_prefix q)) (st_keys db)" and ?t = "query_namespace q @ separator @ q_Prefix q"
  have es: "es = map (\<lambda>k. (k, the (st_kv db k))) (query_keys q ?ks)"
    using assms(2) by (auto simp: query_entries_def st_Iterate_def st_step_def split: if_splits)
  have srt: "sorted ?ks" "distinct ?ks" and set: "set ?ks = {k. prefix (query_prefix q) k \<and> st_kv db k \<noteq> None}"
    using assms(1) by (auto simp: st_ok_def sorted_wrt_filter)
  have "query_keys q ?ks = filter (\<lambda>k. q_PrefixAtStart q \<longrightarrow> ?t \<le> k) ?ks"
    using dropWhile_less_sorted [OF srt(1)] assms(3) by (auto simp: query_keys_def Let_def)
  with es have "map fst es = filter (\<lambda>k. q_PrefixAtStart q \<longrightarrow> ?t \<le> k) ?ks"
    "set es = (\<lambda>k. (k, the (st_kv db k))) ` {k \<in> set ?ks. q_PrefixAtStart q \<longrightarrow> ?t \<le> k}"
    by (simp_all add: comp_def)
  with srt set show ?thesis by (auto simp: sorted_wrt_filter simp del: filter_filter)
qed

end
