(* ===== verification/BatchStore.thy ===== *)
theory BatchStore
  imports Bytes
begin

text \<open>
  Postage batches and their persistent store: \<open>pkg/postage/batch.go\<close> (the record and its
  95-byte serialisation), \<open>pkg/postage/chainstate.go\<close> and \<open>pkg/postage/batchstore/store.go\<close>
  (batches by identifier, an index ordered by value, the chain state, and the eviction of expired
  batches). A panic of the code (a value that does not fit, a slice out of range) is the error
  \<open>BsPanic\<close>. The callbacks \<open>evictFn\<close> and \<open>HandleStampExpiry\<close> are recorded in order, and the state
  says which of them fail. The radius is computed by the code in floating point; that computation,
  \<open>uint8(math.Ceil(math.Log2(float64(total) / float64(capacity))))\<close>, is the field \<open>bs_log2ratio\<close>.
\<close>

section \<open>Batches\<close>

record Batch =
  b_ID :: bytes
  b_Value :: int
  b_Start :: u64
  b_Owner :: bytes
  b_Depth :: u8
  b_BucketDepth :: u8
  b_Immutable :: bool

definition batch_MarshalBinary :: "Batch \<Rightarrow> bytes option" where
  "batch_MarshalBinary b =
     (let out = replicate 95 0;
          out = copy_at out 0 (b_ID b);
          value = big_Bytes (b_Value b) in
      if length value > 64 then None
      else
        let out = copy_at out (64 - length value) value;
            out = copy_at out 64 (be_put 8 (unat (b_Start b)));
            out = copy_at out 72 (b_Owner b);
            out = out[92 := b_BucketDepth b];
            out = out[93 := b_Depth b]
        in Some (if b_Immutable b then out[94 := 1] else out))"

definition batch_UnmarshalBinary :: "bytes \<Rightarrow> Batch option" where
  "batch_UnmarshalBinary buf =
     (if length buf < 95 then None
      else Some \<lparr>b_ID = slice 0 32 buf, b_Value = big_SetBytes (slice 32 64 buf),
                 b_Start = of_nat (be_nat (slice 64 72 buf)), b_Owner = slice 72 92 buf,
                 b_Depth = buf ! 93, b_BucketDepth = buf ! 92, b_Immutable = buf ! 94 > 0\<rparr>)"

record ChainState =
  cs_Block :: u64
  cs_TotalAmount :: int
  cs_CurrentPrice :: int

section \<open>The store\<close>

datatype bs_value = VBatch bytes | VNil | VChainState ChainState | VRadius u8

datatype bs_effect = HandleStampExpiry bytes | EvictFn bytes

datatype bs_error =
    BsNotFound
  | BsExists
  | BsStore store_error
  | BsDecode
  | BsPanic
  | BsCallback bs_effect

record batchstore =
  bs_capacity :: int
  bs_store :: "bs_value statestore"
  bs_cs :: ChainState
  bs_radius :: u8
  bs_hasExpiry :: bool
  bs_fails :: "bs_effect \<Rightarrow> bool"
  bs_out :: "bs_effect list"
  bs_log2ratio :: "int \<Rightarrow> int \<Rightarrow> u8"

definition batchKeyPrefix :: string where "batchKeyPrefix = ''batchstore_batch_''"
definition valueKeyPrefix :: string where "valueKeyPrefix = ''batchstore_value_''"
definition chainStateKey :: string where "chainStateKey = ''batchstore_chainstate''"
definition reserveRadiusKey :: string where "reserveRadiusKey = ''batchstore_radius''"

definition batchKey :: "bytes \<Rightarrow> string" where
  "batchKey batchID = batchKeyPrefix @ bytes_str batchID"

definition valueKey :: "int \<Rightarrow> bytes \<Rightarrow> string option" where
  "valueKey val batchID =
     (case big_FillBytes 32 val of
        None \<Rightarrow> None
      | Some value \<Rightarrow> Some (valueKeyPrefix @ bytes_str value @ bytes_str batchID))"

definition valueKeyToID :: "string \<Rightarrow> bytes option" where
  "valueKeyToID key =
     (if length key < 32 then None else Some (str_bytes (drop (length key - 32) key)))"

definition zeroChainState :: ChainState where
  "zeroChainState = \<lparr>cs_Block = 0, cs_TotalAmount = 0, cs_CurrentPrice = 0\<rparr>"

definition bs_get :: "batchstore \<Rightarrow> string \<Rightarrow> (bs_error + bs_value) \<times> batchstore" where
  "bs_get s k =
     (case st_Get (bs_store s) k of
        (Inl e, st) \<Rightarrow> (Inl (BsStore e), s\<lparr>bs_store := st\<rparr>)
      | (Inr v, st) \<Rightarrow> (Inr v, s\<lparr>bs_store := st\<rparr>))"

definition bs_put :: "batchstore \<Rightarrow> string \<Rightarrow> bs_value \<Rightarrow> (bs_error + unit) \<times> batchstore" where
  "bs_put s k v =
     (case st_Put (bs_store s) k v of
        (Some e, st) \<Rightarrow> (Inl (BsStore e), s\<lparr>bs_store := st\<rparr>)
      | (None, st) \<Rightarrow> (Inr (), s\<lparr>bs_store := st\<rparr>))"

definition bs_delete :: "batchstore \<Rightarrow> string \<Rightarrow> (bs_error + unit) \<times> batchstore" where
  "bs_delete s k =
     (case st_Delete (bs_store s) k of
        (Some e, st) \<Rightarrow> (Inl (BsStore e), s\<lparr>bs_store := st\<rparr>)
      | (None, st) \<Rightarrow> (Inr (), s\<lparr>bs_store := st\<rparr>))"

definition bs_iterate :: "batchstore \<Rightarrow> string \<Rightarrow> (bs_error + string list) \<times> batchstore" where
  "bs_iterate s pre =
     (case st_Iterate (bs_store s) pre of
        (Inl e, st) \<Rightarrow> (Inl (BsStore e), s\<lparr>bs_store := st\<rparr>)
      | (Inr ks, st) \<Rightarrow> (Inr ks, s\<lparr>bs_store := st\<rparr>))"

text \<open>Decoding a stored batch.\<close>

definition decode_batch :: "bs_value \<Rightarrow> bs_error + Batch" where
  "decode_batch v =
     (case v of
        VBatch bs \<Rightarrow> (case batch_UnmarshalBinary bs of None \<Rightarrow> Inl BsPanic | Some b \<Rightarrow> Inr b)
      | _ \<Rightarrow> Inl BsDecode)"

definition bs_Get :: "batchstore \<Rightarrow> bytes \<Rightarrow> (bs_error + Batch) \<times> batchstore" where
  "bs_Get s bid = bindE (bs_get s (batchKey bid)) (\<lambda>v s. (decode_batch v, s))"

definition bs_Exists :: "batchstore \<Rightarrow> bytes \<Rightarrow> (bs_error + bool) \<times> batchstore" where
  "bs_Exists s bid =
     (case bs_Get s bid of
        (Inr _, s) \<Rightarrow> (Inr True, s)
      | (Inl (BsStore ErrNotFound), s) \<Rightarrow> (Inr False, s)
      | (Inl e, s) \<Rightarrow> (Inl e, s))"

text \<open>The batches an iteration over the batch keys passes to its callback.\<close>

fun decode_values :: "(string \<rightharpoonup> bs_value) \<Rightarrow> string list \<Rightarrow> bs_error + Batch list" where
  "decode_values m [] = Inr []"
| "decode_values m (k # ks) =
     (case m k of
        None \<Rightarrow> Inl BsDecode
      | Some v \<Rightarrow>
          (case decode_batch v of
             Inl e \<Rightarrow> Inl e
           | Inr b \<Rightarrow> (case decode_values m ks of Inl e \<Rightarrow> Inl e | Inr bs \<Rightarrow> Inr (b # bs))))"

definition bs_Iterate :: "batchstore \<Rightarrow> (bs_error + Batch list) \<times> batchstore" where
  "bs_Iterate s =
     bindE (bs_iterate s batchKeyPrefix) (\<lambda>ks s. (decode_values (st_kv (bs_store s)) ks, s))"

definition exp2 :: "u8 \<Rightarrow> int" where
  "exp2 e = int64_of (2 ^ unat e)"

definition total_commitment :: "Batch list \<Rightarrow> int" where
  "total_commitment bs = foldl (\<lambda>t b. int64_of (t + exp2 (b_Depth b))) 0 bs"

definition Commitment :: "batchstore \<Rightarrow> (bs_error + u64) \<times> batchstore" where
  "Commitment s =
     bindE (bs_Iterate s) (\<lambda>bs s. (Inr (word_of_int (total_commitment bs)), s))"

definition computeRadius :: "batchstore \<Rightarrow> (bs_error + unit) \<times> batchstore" where
  "computeRadius s =
     bindE (bs_Iterate s) (\<lambda>bs s.
       let totalCommitment = total_commitment bs;
           radius = (if totalCommitment > bs_capacity s
                     then bs_log2ratio s totalCommitment (bs_capacity s) else 0)
       in bs_put (s\<lparr>bs_radius := radius\<rparr>) reserveRadiusKey (VRadius radius))"

text \<open>The callback of the iteration over the value keys: collect expired batches, stop at the
  first one that is not.\<close>

fun cleanup_scan :: "batchstore \<Rightarrow> string list \<Rightarrow> Batch list \<Rightarrow> (bs_error + Batch list) \<times> batchstore" where
  "cleanup_scan s [] evictions = (Inr evictions, s)"
| "cleanup_scan s (key # keys) evictions =
     (case valueKeyToID key of
        None \<Rightarrow> (Inl BsPanic, s)
      | Some bid \<Rightarrow>
          bindE (bs_Get s bid) (\<lambda>b s.
            if b_Value b \<le> cs_TotalAmount (bs_cs s) then cleanup_scan s keys (evictions @ [b])
            else (Inr evictions, s)))"

definition bs_call :: "batchstore \<Rightarrow> bs_effect \<Rightarrow> (bs_error + unit) \<times> batchstore" where
  "bs_call s e =
     (if bs_fails s e then Inl (BsCallback e) else Inr (), s\<lparr>bs_out := bs_out s @ [e]\<rparr>)"

definition evict_batch :: "batchstore \<Rightarrow> Batch \<Rightarrow> (bs_error + unit) \<times> batchstore" where
  "evict_batch s b =
     bindE (if bs_hasExpiry s then bs_call s (HandleStampExpiry (b_ID b)) else (Inr (), s)) (\<lambda>_ s.
     bindE (bs_call s (EvictFn (b_ID b))) (\<lambda>_ s.
       case valueKey (b_Value b) (b_ID b) of
         None \<Rightarrow> (Inl BsPanic, s)
       | Some k \<Rightarrow> bindE (bs_delete s k) (\<lambda>_ s. bs_delete s (batchKey (b_ID b)))))"

fun evict_all :: "batchstore \<Rightarrow> Batch list \<Rightarrow> (bs_error + unit) \<times> batchstore" where
  "evict_all s [] = (Inr (), s)"
| "evict_all s (b # bs) = bindE (evict_batch s b) (\<lambda>_ s. evict_all s bs)"

definition cleanup :: "batchstore \<Rightarrow> (bs_error + unit) \<times> batchstore" where
  "cleanup s =
     bindE (bs_iterate s valueKeyPrefix) (\<lambda>keys s.
     bindE (cleanup_scan s keys []) (\<lambda>evictions s. evict_all s evictions))"

definition saveBatch :: "batchstore \<Rightarrow> Batch \<Rightarrow> (bs_error + unit) \<times> batchstore" where
  "saveBatch s b =
     (case valueKey (b_Value b) (b_ID b) of
        None \<Rightarrow> (Inl BsPanic, s)
      | Some k \<Rightarrow>
          bindE (bs_put s k VNil) (\<lambda>_ s. bindE (cleanup s) (\<lambda>_ s. computeRadius s)))"

definition put_batch :: "batchstore \<Rightarrow> Batch \<Rightarrow> (bs_error + unit) \<times> batchstore" where
  "put_batch s b =
     (case batch_MarshalBinary b of
        None \<Rightarrow> (Inl BsPanic, s)
      | Some bs \<Rightarrow> bs_put s (batchKey (b_ID b)) (VBatch bs))"

definition bs_Save :: "batchstore \<Rightarrow> Batch \<Rightarrow> (bs_error + unit) \<times> batchstore" where
  "bs_Save s batch =
     (case bs_Get s (b_ID batch) of
        (Inl (BsStore ErrNotFound), s) \<Rightarrow>
          bindE (put_batch s batch) (\<lambda>_ s. saveBatch s batch)
      | (Inl e, s) \<Rightarrow> (Inl e, s)
      | (Inr _, s) \<Rightarrow> (Inl BsExists, s))"

text \<open>\<open>Update\<close> mutates the batch it is given; the updated batch is part of the result.\<close>

definition bs_Update :: "batchstore \<Rightarrow> Batch \<Rightarrow> int \<Rightarrow> u8 \<Rightarrow> (bs_error + Batch) \<times> batchstore" where
  "bs_Update s batch value depth =
     (case bs_Get s (b_ID batch) of
        (Inl (BsStore ErrNotFound), s) \<Rightarrow> (Inl BsNotFound, s)
      | (Inl e, s) \<Rightarrow> (Inl e, s)
      | (Inr oldBatch, s) \<Rightarrow>
        (case valueKey (b_Value batch) (b_ID batch) of
           None \<Rightarrow> (Inl BsPanic, s)
         | Some k \<Rightarrow>
             bindE (bs_delete s k) (\<lambda>_ s.
               let batch = batch\<lparr>b_Value := value, b_Depth := depth\<rparr> in
               bindE (put_batch s batch) (\<lambda>_ s.
                 bindE (saveBatch s batch) (\<lambda>_ s. (Inr batch, s))))))"

definition GetChainState :: "batchstore \<Rightarrow> ChainState" where
  "GetChainState s = bs_cs s"

definition Radius :: "batchstore \<Rightarrow> u8" where
  "Radius s = bs_radius s"

definition PutChainState :: "batchstore \<Rightarrow> ChainState \<Rightarrow> (bs_error + unit) \<times> batchstore" where
  "PutChainState s cs =
     bindE (cleanup (s\<lparr>bs_cs := cs\<rparr>)) (\<lambda>_ s.
     bindE (computeRadius s) (\<lambda>_ s. bs_put s chainStateKey (VChainState cs)))"

fun delete_keys :: "batchstore \<Rightarrow> string list \<Rightarrow> (bs_error + unit) \<times> batchstore" where
  "delete_keys s [] = (Inr (), s)"
| "delete_keys s (k # ks) = bindE (bs_delete s k) (\<lambda>_ s. delete_keys s ks)"

definition bs_Reset :: "batchstore \<Rightarrow> (bs_error + unit) \<times> batchstore" where
  "bs_Reset s =
     bindE (bs_iterate s ''batchstore_'') (\<lambda>ks s.
     bindE (delete_keys s ks) (\<lambda>_ s. (Inr (), s\<lparr>bs_cs := zeroChainState, bs_radius := 0\<rparr>)))"

definition SetBatchExpiryHandler :: "batchstore \<Rightarrow> batchstore" where
  "SetBatchExpiryHandler s = s\<lparr>bs_hasExpiry := True\<rparr>"

text \<open>\<open>New\<close> reads the chain state and the radius back from the state store.\<close>

definition bs_New :: "batchstore \<Rightarrow> (bs_error + unit) \<times> batchstore" where
  "bs_New s =
     bindE (case bs_get s chainStateKey of
              (Inr (VChainState cs), s) \<Rightarrow> (Inr cs, s)
            | (Inr _, s) \<Rightarrow> (Inl BsDecode, s)
            | (Inl (BsStore ErrNotFound), s) \<Rightarrow> (Inr zeroChainState, s)
            | (Inl e, s) \<Rightarrow> (Inl e, s)) (\<lambda>cs s.
     bindE (case bs_get s reserveRadiusKey of
              (Inr (VRadius r), s) \<Rightarrow> (Inr r, s)
            | (Inr _, s) \<Rightarrow> (Inl BsDecode, s)
            | (Inl (BsStore ErrNotFound), s) \<Rightarrow> (Inr 0, s)
            | (Inl e, s) \<Rightarrow> (Inl e, s)) (\<lambda>radius s.
       (Inr (), s\<lparr>bs_cs := cs, bs_radius := radius, bs_hasExpiry := False\<rparr>)))"

section \<open>Serialisation\<close>

definition batch_ok :: "Batch \<Rightarrow> bool" where
  "batch_ok b \<longleftrightarrow> length (b_ID b) = 32 \<and> length (b_Owner b) = 20 \<and> 0 \<le> b_Value b \<and> b_Value b < 2 ^ 256"

lemma copy_at_append:
  "i = length xs \<Longrightarrow> length src = length ys \<Longrightarrow> copy_at (xs @ ys @ zs) i src = xs @ src @ zs"
  by (simp add: copy_at_def)

definition batch_bytes :: "Batch \<Rightarrow> bytes" where
  "batch_bytes b = b_ID b @ be_put 32 (nat (b_Value b)) @ be_put 8 (unat (b_Start b)) @ b_Owner b @
     [b_BucketDepth b, b_Depth b, if b_Immutable b then 1 else 0]"

lemma nat_value_bound: "batch_ok b \<Longrightarrow> nat (b_Value b) < 256 ^ 32"
  by (simp add: batch_ok_def nat_less_iff)

lemma batch_MarshalBinary_ok:
  assumes "batch_ok b"
  shows "batch_MarshalBinary b = Some (batch_bytes b)"
proof -
  let ?v = "big_Bytes (b_Value b)" and ?n = "nat (b_Value b)"
  have v: "?v = nat_bytes ?n" using assms by (simp add: big_Bytes_def batch_ok_def)
  have len: "length ?v \<le> 32" using length_nat_bytes nat_value_bound [OF assms] v by simp
  have id: "length (b_ID b) = 32" and ow: "length (b_Owner b) = 20" using assms by (simp_all add: batch_ok_def)
  have s1: "copy_at (replicate 95 0) 0 (b_ID b) = b_ID b @ replicate 63 0"
    using id by (simp add: copy_at_def)
  have r: "b_ID b @ replicate 63 (0 :: byte) =
      (b_ID b @ replicate (32 - length ?v) 0) @ replicate (length ?v) 0 @ replicate 31 0"
    using len by (simp flip: replicate_add)
  have pad: "replicate (32 - length (nat_bytes ?n)) 0 @ nat_bytes ?n @ zs = be_put 32 ?n @ zs" for zs
    using pad_nat_bytes [OF nat_value_bound [OF assms]] by (metis append_assoc)
  have s2: "copy_at (b_ID b @ replicate 63 0) (64 - length ?v) ?v = b_ID b @ be_put 32 ?n @ replicate 31 0"
    unfolding r using len id pad v by (subst copy_at_append) simp_all
  let ?h = "b_ID b @ be_put 32 ?n"
  have r3: "b_ID b @ be_put 32 ?n @ replicate 31 (0 :: byte) = ?h @ replicate 8 0 @ replicate 23 0"
    by (simp flip: replicate_add)
  have s3: "copy_at (b_ID b @ be_put 32 ?n @ replicate 31 0) 64 (be_put 8 (unat (b_Start b))) =
      ?h @ be_put 8 (unat (b_Start b)) @ replicate 23 0"
    unfolding r3 using id by (subst copy_at_append) simp_all
  let ?g = "?h @ be_put 8 (unat (b_Start b))"
  have r4: "?h @ be_put 8 (unat (b_Start b)) @ replicate 23 (0 :: byte) = ?g @ replicate 20 0 @ replicate 3 0"
    by (simp flip: replicate_add)
  have s4: "copy_at (?h @ be_put 8 (unat (b_Start b)) @ replicate 23 0) 72 (b_Owner b) =
      ?g @ b_Owner b @ replicate 3 0"
    unfolding r4 using id ow by (subst copy_at_append) simp_all
  let ?p = "?g @ b_Owner b"
  have up: "(?p @ [x, y, z])[92 := u] = ?p @ [u, y, z]" "(?p @ [x, y, z])[93 := u] = ?p @ [x, u, z]"
    "(?p @ [x, y, z])[94 := u] = ?p @ [x, y, u]" for x y z u :: byte
    using list_update_length [of ?p x "[y, z]" u] list_update_length [of "?p @ [x]" y "[z]" u]
      list_update_length [of "?p @ [x, y]" z "[]" u] id ow by simp_all
  have s5: "?g @ b_Owner b @ replicate 3 0 = ?p @ [0, 0, 0]" by (simp add: numeral_3_eq_3)
  show ?thesis
    unfolding batch_MarshalBinary_def Let_def s1 s2 s3 s4 s5 up using len
    by (simp add: batch_bytes_def)
qed

lemma batch_UnmarshalBinary_bytes:
  assumes "batch_ok b"
  shows "batch_UnmarshalBinary (batch_bytes b) = Some b"
proof -
  have id: "length (b_ID b) = 32" and ow: "length (b_Owner b) = 20" and v: "0 \<le> b_Value b"
    using assms by (simp_all add: batch_ok_def)
  let ?bs = "batch_bytes b"
  have len: "length ?bs = 95" using id ow by (simp add: batch_bytes_def)
  have "slice 0 32 ?bs = b_ID b" "slice 32 64 ?bs = be_put 32 (nat (b_Value b))"
    "slice 64 72 ?bs = be_put 8 (unat (b_Start b))" "slice 72 92 ?bs = b_Owner b"
    using id ow by (simp_all add: batch_bytes_def slice_def)
  moreover have "?bs ! 92 = b_BucketDepth b" "?bs ! 93 = b_Depth b"
    "?bs ! 94 = (if b_Immutable b then 1 else 0)"
    using id ow by (simp_all add: batch_bytes_def nth_append)
  moreover have "be_nat (be_put 8 (unat (b_Start b))) = unat (b_Start b)"
    by (rule be_nat_put_id [OF u64_less])
  moreover have "big_SetBytes (be_put 32 (nat (b_Value b))) = b_Value b"
    using nat_value_bound [OF assms] v by (simp add: big_SetBytes_be_nat)
  ultimately show ?thesis using len by (simp add: batch_UnmarshalBinary_def)
qed

section \<open>Keys\<close>

lemma valueKey_ok:
  "batch_ok b \<Longrightarrow> valueKey (b_Value b) (b_ID b) =
     Some (valueKeyPrefix @ bytes_str (be_put 32 (nat (b_Value b)) @ b_ID b))"
  using nat_value_bound [of b] by (simp add: valueKey_def big_FillBytes_def batch_ok_def)

lemma batchKey_inj [simp]: "batchKey x = batchKey y \<longleftrightarrow> x = y"
  by (simp add: batchKey_def)

lemma prefix_batchKey [simp]: "prefix batchKeyPrefix (batchKey x)"
  by (simp add: batchKey_def)

lemma prefix_valueKey: "valueKey v i = Some k \<Longrightarrow> prefix valueKeyPrefix k"
  by (auto simp: valueKey_def split: option.splits)

lemma prefixes_disjoint: "prefix batchKeyPrefix k \<Longrightarrow> prefix valueKeyPrefix k \<Longrightarrow> False"
  by (auto simp: batchKeyPrefix_def valueKeyPrefix_def prefix_def)

lemma other_keys [simp]:
  "\<not> prefix batchKeyPrefix reserveRadiusKey" "\<not> prefix valueKeyPrefix reserveRadiusKey"
  "\<not> prefix batchKeyPrefix chainStateKey" "\<not> prefix valueKeyPrefix chainStateKey"
  by (simp_all add: batchKeyPrefix_def valueKeyPrefix_def reserveRadiusKey_def chainStateKey_def)

lemma valueKey_inj:
  assumes "batch_ok b" "batch_ok c" "valueKey (b_Value b) (b_ID b) = valueKey (b_Value c) (b_ID c)"
  shows "b_ID b = b_ID c \<and> b_Value b = b_Value c"
proof -
  have "be_put 32 (nat (b_Value b)) @ b_ID b = be_put 32 (nat (b_Value c)) @ b_ID c"
    using assms(3) unfolding valueKey_ok [OF assms(1)] valueKey_ok [OF assms(2)] by (simp del: bytes_str_append)
  then have "be_put 32 (nat (b_Value b)) = be_put 32 (nat (b_Value c))" "b_ID b = b_ID c" by simp_all
  moreover have "nat (b_Value b) = nat (b_Value c)"
    using calculation(1) be_nat_put_id nat_value_bound assms(1,2) by metis
  moreover have "0 \<le> b_Value b" "0 \<le> b_Value c" using assms by (simp_all add: batch_ok_def)
  ultimately show ?thesis by (simp add: eq_nat_nat_iff)
qed

lemma valueKeyToID_ok:
  "batch_ok b \<Longrightarrow> valueKey (b_Value b) (b_ID b) = Some k \<Longrightarrow> valueKeyToID k = Some (b_ID b)"
  unfolding valueKey_ok by (auto simp: valueKeyToID_def batch_ok_def)

lemma str_append_less: "(p @ x :: string) < p @ y \<longleftrightarrow> x < y"
  by (induction p) auto

text \<open>The order of the value keys is the order of the values.\<close>

lemma valueKey_mono:
  assumes "batch_ok b" "batch_ok c" "valueKey (b_Value b) (b_ID b) = Some k"
    "valueKey (b_Value c) (b_ID c) = Some l" "k \<le> l"
  shows "b_Value b \<le> b_Value c"
proof (rule ccontr)
  assume "\<not> b_Value b \<le> b_Value c"
  then have lt: "nat (b_Value c) < nat (b_Value b)" using assms by (simp add: batch_ok_def)
  let ?x = "be_put 32 (nat (b_Value b)) @ b_ID b" and ?y = "be_put 32 (nat (b_Value c)) @ b_ID c"
  have "be_nat ?y < be_nat ?x"
  proof -
    have "Suc (nat (b_Value c)) * 256 ^ 32 \<le> nat (b_Value b) * 256 ^ 32"
      using lt by (intro mult_right_mono) auto
    moreover have "be_nat (b_ID c) < 256 ^ 32" using be_nat_bound [of "b_ID c"] assms by (simp add: batch_ok_def)
    ultimately have "nat (b_Value c) * 256 ^ 32 + be_nat (b_ID c) < nat (b_Value b) * 256 ^ 32 + be_nat (b_ID b)"
      unfolding mult_Suc by linarith
    then show ?thesis
      using nat_value_bound assms(1,2) by (simp add: be_nat_append batch_ok_def)
  qed
  moreover have "length ?y = length ?x" using assms by (simp add: batch_ok_def)
  ultimately have "bytes_str ?y < bytes_str ?x" using bytes_str_less by blast
  then have "l < k"
    using assms(3,4) unfolding valueKey_ok [OF assms(1)] valueKey_ok [OF assms(2)]
    by (auto simp: str_append_less simp del: bytes_str_append)
  with assms(5) show False by simp
qed

section \<open>Consistency of the indexes\<close>

definition batches :: "(string \<rightharpoonup> bs_value) \<Rightarrow> bytes \<rightharpoonup> Batch" where
  "batches m i =
     (case m (batchKey i) of Some (VBatch bs) \<Rightarrow> batch_UnmarshalBinary bs | _ \<Rightarrow> None)"

definition index_ok :: "(string \<rightharpoonup> bs_value) \<Rightarrow> bool" where
  "index_ok m \<longleftrightarrow>
     (\<forall>k v. m k = Some v \<and> prefix batchKeyPrefix k \<longrightarrow>
        (\<exists>b. batch_ok b \<and> k = batchKey (b_ID b) \<and> v = VBatch (batch_bytes b))) \<and>
     (\<forall>k. prefix valueKeyPrefix k \<longrightarrow>
        (m k \<noteq> None \<longleftrightarrow>
          (\<exists>b. batches m (b_ID b) = Some b \<and> valueKey (b_Value b) (b_ID b) = Some k)))"

lemma batches_ok:
  assumes "index_ok m" "batches m i = Some b"
  shows "batch_ok b" "b_ID b = i" "m (batchKey i) = Some (VBatch (batch_bytes b))"
proof -
  obtain v where v: "m (batchKey i) = Some v" using assms(2) by (auto simp: batches_def split: option.splits)
  obtain c where c: "batch_ok c" "b_ID c = i" "v = VBatch (batch_bytes c)"
    using assms(1) v unfolding index_ok_def by (metis batchKey_inj prefix_batchKey)
  then have "c = b" using assms(2) v by (simp add: batches_def batch_UnmarshalBinary_bytes)
  with c v show "batch_ok b" "b_ID b = i" "m (batchKey i) = Some (VBatch (batch_bytes b))" by auto
qed

lemma batches_Some: "batch_ok b \<Longrightarrow> m (batchKey i) = Some (VBatch (batch_bytes b)) \<Longrightarrow> batches m i = Some b"
  by (simp add: batches_def batch_UnmarshalBinary_bytes)

lemma batches_None:
  assumes "index_ok m"
  shows "batches m i = None \<longleftrightarrow> m (batchKey i) = None"
proof (cases "m (batchKey i)")
  case (Some v)
  then obtain b where "batch_ok b" "v = VBatch (batch_bytes b)"
    using assms prefix_batchKey unfolding index_ok_def by blast
  then show ?thesis using Some batches_Some by simp
qed (simp add: batches_def)

lemma batches_upd:
  "batches (m(k \<mapsto> v)) i = (if k = batchKey i
     then case v of VBatch bs \<Rightarrow> batch_UnmarshalBinary bs | _ \<Rightarrow> None else batches m i)"
  "batches (m(k := None)) i = (if k = batchKey i then None else batches m i)"
  by (auto simp: batches_def)

text \<open>Keys outside the two indexes do not matter.\<close>

lemma index_ok_other:
  assumes "index_ok m" "\<not> prefix batchKeyPrefix k" "\<not> prefix valueKeyPrefix k"
  shows "index_ok (m(k \<mapsto> v)) \<and> batches (m(k \<mapsto> v)) = batches m"
proof -
  have b: "batches (m(k \<mapsto> v)) = batches m" using assms(2) by (auto simp: batches_upd fun_eq_iff)
  show ?thesis unfolding index_ok_def b using assms by (auto simp: index_ok_def)
qed

section \<open>Effects of the operations\<close>

definition bkv :: "batchstore \<Rightarrow> string \<rightharpoonup> bs_value" where
  "bkv s = st_kv (bs_store s)"

definition bs_env :: "batchstore \<Rightarrow> batchstore \<Rightarrow> bool" where
  "bs_env s s' \<longleftrightarrow> bs_cs s' = bs_cs s \<and> bs_capacity s' = bs_capacity s \<and>
     bs_hasExpiry s' = bs_hasExpiry s \<and> bs_fails s' = bs_fails s \<and> bs_log2ratio s' = bs_log2ratio s \<and>
     (st_ok (bs_store s) \<longrightarrow> st_ok (bs_store s'))"

definition bs_reads :: "batchstore \<Rightarrow> batchstore \<Rightarrow> bool" where
  "bs_reads s s' \<longleftrightarrow> bs_env s s' \<and> bkv s' = bkv s \<and> bs_out s' = bs_out s \<and> bs_radius s' = bs_radius s"

lemma bs_env_refl [simp]: "bs_env s s"
  by (simp add: bs_env_def)

lemma bs_env_trans: "bs_env s t \<Longrightarrow> bs_env t u \<Longrightarrow> bs_env s u"
  by (auto simp: bs_env_def)

lemma bs_reads_refl [simp]: "bs_reads s s"
  by (simp add: bs_reads_def)

lemma bs_reads_trans: "bs_reads s t \<Longrightarrow> bs_reads t u \<Longrightarrow> bs_reads s u"
  by (auto simp: bs_reads_def intro: bs_env_trans)

lemma bs_get_reads: "bs_get s k = (r, s') \<Longrightarrow> bs_reads s s'"
  using st.get_content [of "bs_store s" k] st_ok_ops(1) [of "bs_store s" k]
  by (auto simp: bs_get_def bs_reads_def bs_env_def bkv_def split: prod.splits sum.splits)

lemma bs_get_value: "bs_get s k = (Inr v, s') \<Longrightarrow> bkv s k = Some v"
  "bs_get s k = (Inl (BsStore ErrNotFound), s') \<Longrightarrow> bkv s k = None"
  using st.get_value [of "bs_store s" k] st.get_missing [of "bs_store s" k]
  by (auto simp: bs_get_def bkv_def split: prod.splits sum.splits)

lemma bs_put_ok:
  "bs_put s k v = (Inr u, s') \<Longrightarrow>
     bs_env s s' \<and> bkv s' = (bkv s)(k \<mapsto> v) \<and> bs_out s' = bs_out s \<and> bs_radius s' = bs_radius s"
  using st.put_ok [of "bs_store s" k v] st_ok_ops(2) [of "bs_store s" k v]
  by (auto simp: bs_put_def bs_env_def bkv_def split: prod.splits option.splits)

lemma bs_delete_ok:
  "bs_delete s k = (Inr u, s') \<Longrightarrow>
     bs_env s s' \<and> bkv s' = (bkv s)(k := None) \<and> bs_out s' = bs_out s \<and> bs_radius s' = bs_radius s"
  using st.delete_ok [of "bs_store s" k] st_ok_ops(3) [of "bs_store s" k]
  by (auto simp: bs_delete_def bs_env_def bkv_def split: prod.splits option.splits)

lemma bs_iterate_ok:
  assumes "bs_iterate s pre = (Inr ks, s')"
  shows "bs_reads s s' \<and> ks = filter (prefix pre) (st_keys (bs_store s))"
  using assms st_ok_ops(4) [of "bs_store s" pre]
  by (auto simp: bs_iterate_def bs_reads_def bs_env_def bkv_def st_Iterate_def st_step_def split: if_splits)

lemma bs_Get_reads: "bs_Get s i = (r, s') \<Longrightarrow> bs_reads s s'"
  by (auto simp: bs_Get_def bindE_def dest: bs_get_reads split: prod.splits sum.splits)

lemma bs_Get_value:
  assumes "bs_Get s i = (r, s')"
  shows "r = Inr b \<Longrightarrow> batches (bkv s) i = Some b"
    and "r = Inl (BsStore ErrNotFound) \<Longrightarrow> bkv s (batchKey i) = None"
  using assms bs_get_value [of s "batchKey i"]
  by (auto simp: bs_Get_def bindE_def batches_def decode_batch_def
      split: prod.splits sum.splits bs_value.splits option.splits)

text \<open>Among the expired batches the scan collects all, because the keys come in the order of the
  values.\<close>

definition key_batch :: "(string \<rightharpoonup> bs_value) \<Rightarrow> string \<Rightarrow> Batch" where
  "key_batch m k = the (batches m (the (valueKeyToID k)))"

lemma key_batch_ok:
  assumes "index_ok m" "prefix valueKeyPrefix k" "m k \<noteq> None"
  shows "batches m (b_ID (key_batch m k)) = Some (key_batch m k)"
    "valueKey (b_Value (key_batch m k)) (b_ID (key_batch m k)) = Some k"
    "valueKeyToID k = Some (b_ID (key_batch m k))" "batch_ok (key_batch m k)"
proof -
  obtain b where b: "batches m (b_ID b) = Some b" "valueKey (b_Value b) (b_ID b) = Some k"
    using assms unfolding index_ok_def by blast
  have "valueKeyToID k = Some (b_ID b)" using valueKeyToID_ok batches_ok(1) [OF assms(1) b(1)] b(2) by blast
  then have "key_batch m k = b" using b(1) by (simp add: key_batch_def)
  with b \<open>valueKeyToID k = Some (b_ID b)\<close> batches_ok(1) [OF assms(1) b(1)]
  show "batches m (b_ID (key_batch m k)) = Some (key_batch m k)"
    "valueKey (b_Value (key_batch m k)) (b_ID (key_batch m k)) = Some k"
    "valueKeyToID k = Some (b_ID (key_batch m k))" "batch_ok (key_batch m k)"
    by simp_all
qed

lemma cleanup_scan_ok:
  assumes "cleanup_scan s ks ev = (Inr ev', s')" "index_ok (bkv s)"
    "\<And>k. k \<in> set ks \<Longrightarrow> prefix valueKeyPrefix k \<and> bkv s k \<noteq> None"
  shows "bs_reads s s' \<and>
    ev' = ev @ takeWhile (\<lambda>b. b_Value b \<le> cs_TotalAmount (bs_cs s)) (map (key_batch (bkv s)) ks)"
  using assms
proof (induction s ks ev arbitrary: rule: cleanup_scan.induct)
  case (2 s key keys ev)
  let ?b = "key_batch (bkv s) key"
  note kb = key_batch_ok [OF "2.prems"(2), of key]
  obtain r t where g: "bs_Get s (b_ID ?b) = (r, t)" by fastforce
  have rd: "bs_reads s t" using bs_Get_reads [OF g] .
  have id: "valueKeyToID key = Some (b_ID ?b)" using kb(3) "2.prems"(3) by simp
  then obtain b where b: "r = Inr b" using "2.prems"(1) g by (cases r) auto
  have bb: "b = ?b" using bs_Get_value(1) [OF g b] kb(1) "2.prems"(3) by simp
  have t: "bkv t = bkv s" "bs_cs t = bs_cs s" using rd by (simp_all add: bs_reads_def bs_env_def)
  show ?case
  proof (cases "b_Value ?b \<le> cs_TotalAmount (bs_cs s)")
    case True
    then have "cleanup_scan t keys (ev @ [b]) = (Inr ev', s')"
      using "2.prems"(1) id g b bb t by simp
    from "2.IH" [OF id _ this] True bb t "2.prems"(2,3)
    have "bs_reads t s' \<and> ev' = (ev @ [b]) @ takeWhile (\<lambda>b. b_Value b \<le> cs_TotalAmount (bs_cs t)) (map (key_batch (bkv t)) keys)"
      by fastforce
    then show ?thesis using True bb t rd bs_reads_trans by simp
  next
    case False
    then show ?thesis using "2.prems"(1) id g b bb t rd by simp
  qed
qed simp

lemma takeWhile_sorted:
  "sorted ks \<Longrightarrow> (\<And>x y. x \<in> set ks \<Longrightarrow> y \<in> set ks \<Longrightarrow> x \<le> y \<Longrightarrow> P (f y) \<Longrightarrow> P (f x)) \<Longrightarrow>
     takeWhile P (map f ks) = filter P (map f ks)"
proof (induction ks)
  case (Cons k ks)
  show ?case
  proof (cases "P (f k)")
    case True
    have "takeWhile P (map f ks) = filter P (map f ks)"
      using Cons.prems by (intro Cons.IH) auto
    with True show ?thesis by simp
  next
    case False
    then have "\<not> P (f x)" if "x \<in> set ks" for x
      using Cons.prems that by (meson list.set_intros sorted_simps(2))
    then show ?thesis using False by (auto simp: filter_empty_conv)
  qed
qed simp

definition evict_calls :: "bool \<Rightarrow> Batch \<Rightarrow> bs_effect list" where
  "evict_calls expiry b = (if expiry then [HandleStampExpiry (b_ID b)] else []) @ [EvictFn (b_ID b)]"

definition batch_keys :: "Batch \<Rightarrow> string set" where
  "batch_keys b = {k. valueKey (b_Value b) (b_ID b) = Some k} \<union> {batchKey (b_ID b)}"

lemma bs_call_ok:
  "bs_call s e = (Inr u, s') \<Longrightarrow> bs_env s s' \<and> bkv s' = bkv s \<and> bs_out s' = bs_out s @ [e] \<and> bs_radius s' = bs_radius s"
  by (auto simp: bs_call_def bs_env_def bkv_def split: if_splits)

lemma evict_batch_ok:
  assumes "evict_batch s b = (Inr u, s')"
  shows "bs_env s s' \<and> bkv s' = bkv s |` (- batch_keys b) \<and>
    bs_out s' = bs_out s @ evict_calls (bs_hasExpiry s) b \<and> bs_radius s' = bs_radius s"
proof -
  obtain s1 s2 s3 k where
    s1: "(if bs_hasExpiry s then bs_call s (HandleStampExpiry (b_ID b)) else (Inr (), s)) = (Inr (), s1)"
    and s2: "bs_call s1 (EvictFn (b_ID b)) = (Inr (), s2)"
    and k: "valueKey (b_Value b) (b_ID b) = Some k"
    and s3: "bs_delete s2 k = (Inr (), s3)" and s4: "bs_delete s3 (batchKey (b_ID b)) = (Inr (), s')"
    using assms by (auto simp: evict_batch_def bindE_Inr split: option.splits)
  have e1: "bs_env s s1 \<and> bkv s1 = bkv s \<and> bs_radius s1 = bs_radius s \<and>
      bs_out s1 = bs_out s @ (if bs_hasExpiry s then [HandleStampExpiry (b_ID b)] else [])"
    using s1 bs_call_ok [of s "HandleStampExpiry (b_ID b)"] by (auto split: if_splits)
  note e = e1 bs_call_ok [OF s2] bs_delete_ok [OF s3] bs_delete_ok [OF s4]
  have "bs_env s s'" using e bs_env_trans by blast
  moreover have "bkv s' = bkv s |` (- batch_keys b)"
    using e k by (auto simp: batch_keys_def restrict_map_def fun_eq_iff)
  ultimately show ?thesis using e by (simp add: evict_calls_def)
qed

lemma evict_all_ok:
  assumes "evict_all s bs = (Inr u, s')"
  shows "bs_env s s' \<and> bkv s' = bkv s |` (- (\<Union>b\<in>set bs. batch_keys b)) \<and>
    bs_out s' = bs_out s @ concat (map (evict_calls (bs_hasExpiry s)) bs) \<and> bs_radius s' = bs_radius s"
  using assms
proof (induction s bs rule: evict_all.induct)
  case (1 s)
  then show ?case by (simp add: restrict_map_def fun_eq_iff)
next
  case (2 s b bs)
  then obtain s1 where s1: "evict_batch s b = (Inr (), s1)" "evict_all s1 bs = (Inr u, s')"
    by (auto simp: bindE_Inr)
  note e = evict_batch_ok [OF s1(1)]
  have h: "bs_hasExpiry s1 = bs_hasExpiry s" using e by (simp add: bs_env_def)
  from "2.IH" [OF s1(2)] s1 e h show ?case
    by (auto simp: restrict_map_def fun_eq_iff intro: bs_env_trans)
qed

lemma index_ok_restrict:
  assumes ok: "index_ok m" and E: "\<And>b. b \<in> E \<Longrightarrow> batches m (b_ID b) = Some b"
    and m': "m' = m |` (- (\<Union>b\<in>E. batch_keys b))"
  shows "batches m' = (\<lambda>i. case batches m i of Some b \<Rightarrow> if b \<in> E then None else Some b | None \<Rightarrow> None)"
    "index_ok m'"
proof -
  have bk: "batchKey i \<in> (\<Union>b\<in>E. batch_keys b) \<longleftrightarrow> (\<exists>b. batches m i = Some b \<and> b \<in> E)" for i
  proof -
    have "valueKey (b_Value b) (b_ID b) \<noteq> Some (batchKey i)" for b
      using prefix_valueKey prefixes_disjoint prefix_batchKey by blast
    then have "batchKey i \<in> (\<Union>b\<in>E. batch_keys b) \<longleftrightarrow> (\<exists>b\<in>E. b_ID b = i)" by (auto simp: batch_keys_def)
    then show ?thesis using E batches_ok(2) [OF ok] by metis
  qed
  show bt: "batches m' = (\<lambda>i. case batches m i of Some b \<Rightarrow> if b \<in> E then None else Some b | None \<Rightarrow> None)"
  proof
    fix i
    show "batches m' i = (case batches m i of Some b \<Rightarrow> if b \<in> E then None else Some b | None \<Rightarrow> None)"
    proof (cases "batches m i")
      case None
      then show ?thesis using batches_None [OF ok] by (simp add: batches_def m' restrict_map_def)
    next
      case (Some b)
      then show ?thesis using bk [of i] by (auto simp: batches_def m' restrict_map_def)
    qed
  qed
  have vk: "m' k \<noteq> None \<longleftrightarrow> (\<exists>b. batches m' (b_ID b) = Some b \<and> valueKey (b_Value b) (b_ID b) = Some k)"
    if k: "prefix valueKeyPrefix k" for k
  proof -
    have mk: "m k \<noteq> None \<longleftrightarrow> (\<exists>b. batches m (b_ID b) = Some b \<and> valueKey (b_Value b) (b_ID b) = Some k)"
      using ok k unfolding index_ok_def by blast
    have "k \<in> (\<Union>b\<in>E. batch_keys b) \<longleftrightarrow> (\<exists>b\<in>E. valueKey (b_Value b) (b_ID b) = Some k)"
      using k prefixes_disjoint prefix_batchKey by (fastforce simp: batch_keys_def)
    then have m'k: "m' k \<noteq> None \<longleftrightarrow> m k \<noteq> None \<and> \<not> (\<exists>b\<in>E. valueKey (b_Value b) (b_ID b) = Some k)"
      by (auto simp: m' restrict_map_def)
    have inj: "b = c" if "batches m (b_ID b) = Some b" "batches m (b_ID c) = Some c"
        "valueKey (b_Value b) (b_ID b) = Some k" "valueKey (b_Value c) (b_ID c) = Some k" for b c
      using valueKey_inj [of b c] batches_ok(1) [OF ok] that by (metis option.inject)
    have b': "batches m' (b_ID b) = Some b \<longleftrightarrow> batches m (b_ID b) = Some b \<and> b \<notin> E" for b
      unfolding bt by (auto split: option.splits)
    show ?thesis unfolding m'k mk b' using inj E by blast
  qed
  then show "index_ok m'"
    using ok unfolding index_ok_def by (auto simp: m' restrict_map_def split: if_splits)
qed

definition bs_ok :: "batchstore \<Rightarrow> bool" where
  "bs_ok s \<longleftrightarrow> st_ok (bs_store s) \<and> index_ok (bkv s)"

definition alive :: "int \<Rightarrow> (bytes \<rightharpoonup> Batch) \<Rightarrow> bytes \<rightharpoonup> Batch" where
  "alive t B i = (case B i of Some b \<Rightarrow> if b_Value b \<le> t then None else Some b | None \<Rightarrow> None)"

text \<open>The scan over the value keys finds exactly the expired batches.\<close>

lemma scan_expired:
  assumes it: "bs_iterate s valueKeyPrefix = (Inr ks, s1)" and sc: "cleanup_scan s1 ks [] = (Inr ev, s2)"
    and "bs_ok s"
  shows "bs_reads s s2"
    "b \<in> set ev \<longleftrightarrow> batches (bkv s) (b_ID b) = Some b \<and> b_Value b \<le> cs_TotalAmount (bs_cs s)"
proof -
  let ?T = "cs_TotalAmount (bs_cs s)" and ?m = "bkv s"
  have ok: "index_ok ?m" and so: "st_ok (bs_store s)" using assms(3) by (simp_all add: bs_ok_def)
  note i = bs_iterate_ok [OF it]
  have s1: "bkv s1 = ?m" "bs_cs s1 = bs_cs s" using i by (simp_all add: bs_reads_def bs_env_def)
  have ks: "k \<in> set ks \<longleftrightarrow> prefix valueKeyPrefix k \<and> ?m k \<noteq> None" for k
    using i so by (auto simp: st_ok_def bkv_def)
  have srt: "sorted ks" using i so by (simp add: st_ok_def sorted_wrt_filter)
  have sc': "bs_reads s1 s2 \<and> ev = takeWhile (\<lambda>b. b_Value b \<le> ?T) (map (key_batch ?m) ks)"
    using cleanup_scan_ok [OF sc, unfolded s1, OF ok] ks by simp
  then show "bs_reads s s2" using i bs_reads_trans by blast
  have mono: "b_Value (key_batch ?m x) \<le> b_Value (key_batch ?m y)" if "x \<in> set ks" "y \<in> set ks" "x \<le> y" for x y
    using valueKey_mono key_batch_ok [OF ok] that ks by metis
  have "takeWhile (\<lambda>b. b_Value b \<le> ?T) (map (key_batch ?m) ks) = filter (\<lambda>b. b_Value b \<le> ?T) (map (key_batch ?m) ks)"
    by (rule takeWhile_sorted [OF srt]) (meson mono order_trans)
  with sc' have ev: "set ev = {key_batch ?m k | k. k \<in> set ks \<and> b_Value (key_batch ?m k) \<le> ?T}" by auto
  show "b \<in> set ev \<longleftrightarrow> batches ?m (b_ID b) = Some b \<and> b_Value b \<le> ?T"
  proof
    assume "b \<in> set ev"
    then show "batches ?m (b_ID b) = Some b \<and> b_Value b \<le> ?T" using ev ks key_batch_ok(1) [OF ok] by auto
  next
    assume b: "batches ?m (b_ID b) = Some b \<and> b_Value b \<le> ?T"
    then obtain k where k: "valueKey (b_Value b) (b_ID b) = Some k" using valueKey_ok batches_ok(1) [OF ok] by blast
    then have pk: "prefix valueKeyPrefix k" "?m k \<noteq> None"
      using prefix_valueKey ok b unfolding index_ok_def by blast+
    have "valueKeyToID k = Some (b_ID b)" using valueKeyToID_ok batches_ok(1) [OF ok] b k by blast
    then have "key_batch ?m k = b" using b by (simp add: key_batch_def)
    then show "b \<in> set ev" using ev ks pk b by force
  qed
qed

text \<open>\<open>cleanup\<close> removes exactly the expired batches, from both indexes, after calling the eviction
  callback on each of them.\<close>

lemma cleanup_ok:
  assumes "cleanup s = (Inr u, s')" "bs_ok s"
  shows "bs_ok s' \<and> bs_env s s' \<and> batches (bkv s') = alive (cs_TotalAmount (bs_cs s)) (batches (bkv s)) \<and>
    (\<exists>es. bs_out s' = bs_out s @ es \<and>
      (\<forall>i. EvictFn i \<in> set es \<longleftrightarrow> (\<exists>b. batches (bkv s) i = Some b \<and> b_Value b \<le> cs_TotalAmount (bs_cs s))))"
proof -
  let ?T = "cs_TotalAmount (bs_cs s)" and ?m = "bkv s"
  have ok: "index_ok ?m" and so: "st_ok (bs_store s)" using assms(2) by (simp_all add: bs_ok_def)
  obtain ks s1 ev s2 where it: "bs_iterate s valueKeyPrefix = (Inr ks, s1)"
    and sc: "cleanup_scan s1 ks [] = (Inr ev, s2)" and ea: "evict_all s2 ev = (Inr u, s')"
    using assms(1) by (auto simp: cleanup_def bindE_Inr)
  note E = scan_expired(2) [OF it sc assms(2)]
  note e = evict_all_ok [OF ea]
  have s2: "bkv s2 = ?m" "bs_out s2 = bs_out s" "bs_env s s2"
    using scan_expired(1) [OF it sc assms(2)] by (simp_all add: bs_reads_def)
  have r: "bkv s' = ?m |` (- (\<Union>b\<in>set ev. batch_keys b))" using e s2 by simp
  have Eb: "b \<in> set ev \<Longrightarrow> batches ?m (b_ID b) = Some b" for b using E by blast
  note ir = index_ok_restrict [OF ok Eb r]
  have "batches (bkv s') i = alive ?T (batches ?m) i" for i
    using ir(1) E batches_ok(2) [OF ok, of i] by (cases "batches ?m i") (auto simp: alive_def)
  then have "batches (bkv s') = alive ?T (batches ?m)" by blast
  moreover have env: "bs_env s s'" using e s2 bs_env_trans by blast
  moreover have "bs_ok s'" using ir(2) env so by (simp add: bs_ok_def bs_env_def)
  moreover have "EvictFn j \<in> set (concat (map (evict_calls x) ev)) \<longleftrightarrow> (\<exists>b. batches ?m j = Some b \<and> b_Value b \<le> ?T)" for x j
  proof -
    have "EvictFn j \<in> set (concat (map (evict_calls x) ev)) \<longleftrightarrow> (\<exists>b\<in>set ev. b_ID b = j)"
      by (auto simp: evict_calls_def)
    then show ?thesis using E batches_ok(2) [OF ok] by metis
  qed
  moreover have "bs_out s' = bs_out s @ concat (map (evict_calls (bs_hasExpiry s2)) ev)" using e s2 by simp
  ultimately show ?thesis by blast
qed

lemma index_ok_insert:
  assumes ok: "index_ok m" and b: "batch_ok b" "batches m (b_ID b) = None" "valueKey (b_Value b) (b_ID b) = Some k"
    and m': "m' = m(batchKey (b_ID b) \<mapsto> VBatch (batch_bytes b), k \<mapsto> VNil)"
  shows "index_ok m'" "batches m' = (batches m)(b_ID b \<mapsto> b)"
proof -
  have k: "prefix valueKeyPrefix k" "k \<noteq> batchKey i" for i
    using prefix_valueKey [OF b(3)] prefixes_disjoint prefix_batchKey by blast+
  show bt: "batches m' = (batches m)(b_ID b \<mapsto> b)"
    using k(2) b(1) by (auto simp: m' batches_upd fun_eq_iff batch_UnmarshalBinary_bytes)
  have "m' l \<noteq> None \<longleftrightarrow> (\<exists>c. batches m' (b_ID c) = Some c \<and> valueKey (b_Value c) (b_ID c) = Some l)"
    if l: "prefix valueKeyPrefix l" for l
  proof -
    have "l \<noteq> batchKey (b_ID b)" using l prefixes_disjoint prefix_batchKey by blast
    then have "m' l \<noteq> None \<longleftrightarrow> l = k \<or> m l \<noteq> None" by (simp add: m')
    moreover have "m l \<noteq> None \<longleftrightarrow> (\<exists>c. batches m (b_ID c) = Some c \<and> valueKey (b_Value c) (b_ID c) = Some l)"
      using ok l unfolding index_ok_def by blast
    moreover have "batches m' (b_ID c) = Some c \<longleftrightarrow> c = b \<or> batches m (b_ID c) = Some c" for c
      unfolding bt using b(2) by auto
    ultimately show ?thesis using b(3) by auto
  qed
  moreover have "\<exists>c. batch_ok c \<and> l = batchKey (b_ID c) \<and> v = VBatch (batch_bytes c)"
    if "m' l = Some v" "prefix batchKeyPrefix l" for l v
  proof -
    have "l \<noteq> k" using that(2) k(1) prefixes_disjoint by blast
    with that ok b(1) show ?thesis unfolding index_ok_def m' by (auto split: if_splits)
  qed
  ultimately show "index_ok m'" unfolding index_ok_def by blast
qed

section \<open>Radius\<close>

lemma decode_values_ok:
  assumes "decode_values m ks = Inr bs" "index_ok m" "\<And>k. k \<in> set ks \<Longrightarrow> prefix batchKeyPrefix k"
  shows "map (\<lambda>b. batchKey (b_ID b)) bs = ks \<and> (\<forall>b\<in>set bs. batches m (b_ID b) = Some b)"
  using assms
proof (induction ks arbitrary: bs)
  case (Cons k ks)
  then obtain v b bs' where v: "m k = Some v" "decode_batch v = Inr b" "decode_values m ks = Inr bs'" "bs = b # bs'"
    by (auto split: option.splits sum.splits)
  obtain c where c: "batch_ok c" "k = batchKey (b_ID c)" "v = VBatch (batch_bytes c)"
    using Cons.prems(2,3) v(1) unfolding index_ok_def by (metis list.set_intros(1))
  then have "c = b" using v(2) by (simp add: decode_batch_def batch_UnmarshalBinary_bytes)
  with Cons c v batches_Some show ?case by simp
qed simp

definition radius_ok :: "batchstore \<Rightarrow> bool" where
  "radius_ok s \<longleftrightarrow> (\<exists>bs. distinct bs \<and> set bs = ran (batches (bkv s)) \<and>
     bs_radius s = (if total_commitment bs > bs_capacity s
       then bs_log2ratio s (total_commitment bs) (bs_capacity s) else 0) \<and>
     bkv s reserveRadiusKey = Some (VRadius (bs_radius s)))"

lemma computeRadius_ok:
  assumes "computeRadius s = (Inr u, s')" "bs_ok s"
  shows "bs_ok s' \<and> bs_env s s' \<and> batches (bkv s') = batches (bkv s) \<and> bs_out s' = bs_out s \<and> radius_ok s'"
proof -
  obtain ks s1 bs where it: "bs_iterate s batchKeyPrefix = (Inr ks, s1)"
    and dv: "decode_values (bkv s1) ks = Inr bs"
    and p: "bs_put (s1\<lparr>bs_radius := (if total_commitment bs > bs_capacity s1
        then bs_log2ratio s1 (total_commitment bs) (bs_capacity s1) else 0)\<rparr>) reserveRadiusKey
      (VRadius (if total_commitment bs > bs_capacity s1
        then bs_log2ratio s1 (total_commitment bs) (bs_capacity s1) else 0)) = (Inr u, s')"
    using assms(1) by (auto simp: computeRadius_def bs_Iterate_def bindE_Inr Let_def bkv_def)
  have ok: "index_ok (bkv s)" and so: "st_ok (bs_store s)" using assms(2) by (simp_all add: bs_ok_def)
  note i = bs_iterate_ok [OF it]
  have s1: "bkv s1 = bkv s" "bs_env s s1" "bs_out s1 = bs_out s" using i by (simp_all add: bs_reads_def)
  have ks: "set ks = {k. prefix batchKeyPrefix k \<and> bkv s k \<noteq> None}" "distinct ks"
    using i so by (auto simp: st_ok_def bkv_def)
  note d = decode_values_ok [OF dv [unfolded s1(1)] ok]
  have db: "map (\<lambda>b. batchKey (b_ID b)) bs = ks" "\<forall>b\<in>set bs. batches (bkv s) (b_ID b) = Some b" using d ks by auto
  have "distinct bs" using db(1) ks(2) by (metis distinct_map)
  moreover have "set bs = ran (batches (bkv s))"
  proof (intro equalityI subsetI)
    fix b assume "b \<in> ran (batches (bkv s))"
    then obtain j where j: "batches (bkv s) j = Some b" by (auto simp: ran_def)
    then have "bkv s (batchKey j) \<noteq> None" using batches_None [OF ok, of j] by simp
    then have "batchKey j \<in> set ks" using ks by simp
    then obtain c where "c \<in> set bs" "b_ID c = j" using db(1) by auto
    then show "b \<in> set bs" using db(2) j by auto
  qed (use db(2) in \<open>auto simp: ran_def\<close>)
  moreover note po = bs_put_ok [OF p]
  have kv: "bkv s' = (bkv s)(reserveRadiusKey \<mapsto> VRadius (bs_radius s'))" using po s1 by (simp add: bkv_def)
  note io = index_ok_other [OF ok, of reserveRadiusKey "VRadius (bs_radius s')", simplified]
  have env: "bs_env s s'" using po s1 by (auto simp: bs_env_def)
  ultimately have "radius_ok s'"
    unfolding radius_ok_def using kv io po env s1 by (intro exI [of _ bs]) (auto simp: bs_env_def)
  then show ?thesis using kv io env so po s1 by (simp add: bs_ok_def bs_env_def)
qed

section \<open>Saving, updating and the chain state\<close>

definition evicts :: "int \<Rightarrow> (bytes \<rightharpoonup> Batch) \<Rightarrow> batchstore \<Rightarrow> batchstore \<Rightarrow> bool" where
  "evicts t B s s' \<longleftrightarrow> (\<exists>es. bs_out s' = bs_out s @ es \<and>
     (\<forall>i. EvictFn i \<in> set es \<longleftrightarrow> (\<exists>b. B i = Some b \<and> b_Value b \<le> t)))"

text \<open>What \<open>saveBatch\<close> leaves behind once the batch itself is stored: \<open>m\<close> is the store without it.\<close>

lemma saveBatch_ok:
  assumes sv: "saveBatch s b = (Inr u, s')" and m: "index_ok m" "batches m (b_ID b) = None" and b: "batch_ok b"
    and s: "bkv s = m(batchKey (b_ID b) \<mapsto> VBatch (batch_bytes b))" "st_ok (bs_store s)"
  shows "bs_ok s' \<and> bs_env s s' \<and> radius_ok s' \<and>
    batches (bkv s') = alive (cs_TotalAmount (bs_cs s)) ((batches m)(b_ID b \<mapsto> b)) \<and>
    evicts (cs_TotalAmount (bs_cs s)) ((batches m)(b_ID b \<mapsto> b)) s s'"
proof -
  obtain k s1 s2 where k: "valueKey (b_Value b) (b_ID b) = Some k" and p: "bs_put s k VNil = (Inr (), s1)"
    and c: "cleanup s1 = (Inr (), s2)" and r: "computeRadius s2 = (Inr u, s')"
    using sv by (auto simp: saveBatch_def bindE_Inr split: option.splits)
  note po = bs_put_ok [OF p]
  have "bkv s1 = m(batchKey (b_ID b) \<mapsto> VBatch (batch_bytes b), k \<mapsto> VNil)" using po s by simp
  note ins = index_ok_insert [OF m(1) b m(2) k this]
  have "bs_ok s1" using ins po s by (simp add: bs_ok_def bs_env_def)
  note co = cleanup_ok [OF c this, unfolded ins(2)]
  have cs: "bs_cs s1 = bs_cs s" using po by (simp add: bs_env_def)
  have ro: "bs_ok s' \<and> bs_env s2 s' \<and> batches (bkv s') = batches (bkv s2) \<and> bs_out s' = bs_out s2 \<and> radius_ok s'"
    using computeRadius_ok [OF r] co by blast
  have "bs_env s s'" using po co ro bs_env_trans by blast
  moreover have "evicts (cs_TotalAmount (bs_cs s)) ((batches m)(b_ID b \<mapsto> b)) s s'"
    unfolding evicts_def using conjunct2 [OF conjunct2 [OF conjunct2 [OF co]]] ro po cs by metis
  ultimately show ?thesis using co ro cs by metis
qed

lemma bs_Save_stored:
  assumes "bs_Save s b = (Inr u, s')" "bs_ok s" "batch_ok b"
  shows "batches (bkv s) (b_ID b) = None \<and> bs_ok s' \<and> radius_ok s' \<and> GetChainState s' = GetChainState s \<and>
    batches (bkv s') = alive (cs_TotalAmount (bs_cs s)) ((batches (bkv s))(b_ID b \<mapsto> b)) \<and>
    evicts (cs_TotalAmount (bs_cs s)) ((batches (bkv s))(b_ID b \<mapsto> b)) s s'"
proof -
  obtain s1 s2 where g: "bs_Get s (b_ID b) = (Inl (BsStore ErrNotFound), s1)"
    and p: "bs_put s1 (batchKey (b_ID b)) (VBatch (batch_bytes b)) = (Inr (), s2)"
    and sv: "saveBatch s2 b = (Inr u, s')"
    using assms(1)
    by (auto simp: bs_Save_def put_batch_def batch_MarshalBinary_ok [OF assms(3)] bindE_Inr
        split: prod.splits sum.splits bs_error.splits store_error.splits)
  have ok: "index_ok (bkv s)" "st_ok (bs_store s)" using assms(2) by (simp_all add: bs_ok_def)
  have rd: "bs_reads s s1" using bs_Get_reads [OF g] .
  have none: "batches (bkv s) (b_ID b) = None" using bs_Get_value(2) [OF g] batches_None [OF ok(1)] by simp
  note po = bs_put_ok [OF p]
  have s2: "bkv s2 = (bkv s)(batchKey (b_ID b) \<mapsto> VBatch (batch_bytes b))" "st_ok (bs_store s2)"
    "bs_cs s2 = bs_cs s" "bs_out s2 = bs_out s"
    using po rd ok by (simp_all add: bs_reads_def bs_env_def)
  from saveBatch_ok [OF sv ok(1) none assms(3) s2(1,2)] none s2(3,4) show ?thesis
    by (simp add: evicts_def bs_env_def GetChainState_def)
qed

text \<open>A successful \<open>Save\<close> had a new identifier, keeps the two indexes consistent, stores the
  batch unless it has already expired, evicts exactly the expired batches (calling the eviction
  callback for each of them and for no other) and leaves the radius computed from what remains.\<close>

lemma bs_Save_correct:
  assumes "bs_Save s b = (Inr u, s')" "bs_ok s" "batch_ok b"
  shows "batches (bkv s) (b_ID b) = None \<and> bs_ok s' \<and> radius_ok s' \<and> GetChainState s' = GetChainState s \<and>
    batches (bkv s') = alive (cs_TotalAmount (bs_cs s)) ((batches (bkv s))(b_ID b \<mapsto> b)) \<and>
    evicts (cs_TotalAmount (bs_cs s)) ((batches (bkv s))(b_ID b \<mapsto> b)) s s'"
  using assms by (rule bs_Save_stored)

lemma index_ok_remove:
  assumes "index_ok m" "batches m (b_ID b) = Some b" "valueKey (b_Value b) (b_ID b) = Some k"
  shows "index_ok (m(k := None, batchKey (b_ID b) := None))"
    "batches (m(k := None, batchKey (b_ID b) := None)) = (batches m)(b_ID b := None)"
proof -
  let ?m = "m(k := None, batchKey (b_ID b) := None)"
  have m: "?m = m |` (- (\<Union>c\<in>{b}. batch_keys c))"
    using assms(3) by (auto simp: batch_keys_def restrict_map_def fun_eq_iff)
  note rs = index_ok_restrict [OF assms(1) _ m]
  show "index_ok ?m" using rs(2) assms(2) by simp
  show "batches ?m = (batches m)(b_ID b := None)"
  proof
    fix i
    have "batches ?m i = (case batches m i of Some c \<Rightarrow> if c \<in> {b} then None else Some c | None \<Rightarrow> None)"
      using rs(1) assms(2) by simp
    then show "batches ?m i = ((batches m)(b_ID b := None)) i"
      using assms(2) batches_ok(2) [OF assms(1), of i] by (cases "batches m i") auto
  qed
qed

lemma bs_Update_stored:
  assumes "bs_Update s b v d = (Inr b', s')" "bs_ok s" "batches (bkv s) (b_ID b) = Some b" "0 \<le> v" "v < 2 ^ 256"
  shows "b' = b\<lparr>b_Value := v, b_Depth := d\<rparr> \<and> bs_ok s' \<and> radius_ok s' \<and> GetChainState s' = GetChainState s \<and>
    batches (bkv s') = alive (cs_TotalAmount (bs_cs s)) ((batches (bkv s))(b_ID b \<mapsto> b')) \<and>
    evicts (cs_TotalAmount (bs_cs s)) ((batches (bkv s))(b_ID b \<mapsto> b')) s s'"
proof -
  let ?b = "b\<lparr>b_Value := v, b_Depth := d\<rparr>" and ?m = "bkv s"
  have ok: "index_ok ?m" "st_ok (bs_store s)" using assms(2) by (simp_all add: bs_ok_def)
  have bok: "batch_ok b" using batches_ok(1) [OF ok(1) assms(3)] .
  then have b'ok: "batch_ok ?b" using assms(4,5) by (simp add: batch_ok_def)
  obtain s1 s2 s3 k c where g: "bs_Get s (b_ID b) = (Inr c, s1)" and k: "valueKey (b_Value b) (b_ID b) = Some k"
    and dl: "bs_delete s1 k = (Inr (), s2)"
    and p: "bs_put s2 (batchKey (b_ID b)) (VBatch (batch_bytes ?b)) = (Inr (), s3)"
    and sv: "saveBatch s3 ?b = (Inr (), s')" and b': "b' = ?b"
    using assms(1) batch_MarshalBinary_ok [OF b'ok]
    by (auto simp: bs_Update_def put_batch_def bindE_Inr Let_def
        split: prod.splits sum.splits bs_error.splits store_error.splits option.splits)
  have rd: "bs_reads s s1" using bs_Get_reads [OF g] .
  let ?n = "?m(k := None, batchKey (b_ID b) := None)"
  note rs = index_ok_remove [OF ok(1) assms(3) k]
  have s3: "bkv s3 = ?n(batchKey (b_ID ?b) \<mapsto> VBatch (batch_bytes ?b))" "st_ok (bs_store s3)"
    "bs_cs s3 = bs_cs s" "bs_out s3 = bs_out s"
    using bs_delete_ok [OF dl] bs_put_ok [OF p] rd ok(2) by (simp_all add: bs_reads_def bs_env_def)
  have "batches ?n (b_ID ?b) = None" using rs(2) by simp
  from saveBatch_ok [OF sv rs(1) this b'ok s3(1,2)] b' s3(3,4) show ?thesis
    by (simp add: evicts_def rs(2) bs_env_def GetChainState_def)
qed

text \<open>A successful \<open>Update\<close> of a stored batch replaces its value and depth and nothing else, moves
  it in the value index, evicts exactly the batches expired after the change and recomputes the radius.\<close>

lemma bs_Update_correct:
  assumes "bs_Update s b v d = (Inr b', s')" "bs_ok s" "batches (bkv s) (b_ID b) = Some b" "0 \<le> v" "v < 2 ^ 256"
  shows "b' = b\<lparr>b_Value := v, b_Depth := d\<rparr> \<and> bs_ok s' \<and> radius_ok s' \<and> GetChainState s' = GetChainState s \<and>
    batches (bkv s') = alive (cs_TotalAmount (bs_cs s)) ((batches (bkv s))(b_ID b \<mapsto> b')) \<and>
    evicts (cs_TotalAmount (bs_cs s)) ((batches (bkv s))(b_ID b \<mapsto> b')) s s'"
  using assms by (rule bs_Update_stored)

lemma PutChainState_stored:
  assumes "PutChainState s cs = (Inr u, s')" "bs_ok s"
  shows "bs_ok s' \<and> radius_ok s' \<and> GetChainState s' = cs \<and> bkv s' chainStateKey = Some (VChainState cs) \<and>
    batches (bkv s') = alive (cs_TotalAmount cs) (batches (bkv s)) \<and>
    evicts (cs_TotalAmount cs) (batches (bkv s)) s s'"
proof -
  let ?s = "s\<lparr>bs_cs := cs\<rparr>"
  obtain s1 s2 where c: "cleanup ?s = (Inr (), s1)" and r: "computeRadius s1 = (Inr (), s2)"
    and p: "bs_put s2 chainStateKey (VChainState cs) = (Inr u, s')"
    using assms(1) by (auto simp: PutChainState_def bindE_Inr)
  have s: "bs_ok ?s" "bkv ?s = bkv s" using assms(2) by (simp_all add: bs_ok_def bkv_def)
  note co = cleanup_ok [OF c s(1), unfolded s(2)]
  have ro: "bs_ok s2 \<and> bs_env s1 s2 \<and> batches (bkv s2) = batches (bkv s1) \<and> bs_out s2 = bs_out s1 \<and> radius_ok s2"
    using computeRadius_ok [OF r] co by blast
  note po = bs_put_ok [OF p]
  have io: "index_ok (bkv s') \<and> batches (bkv s') = batches (bkv s2)"
    using index_ok_other [of "bkv s2" chainStateKey] ro po by (simp add: bs_ok_def)
  have "radius_ok s'"
    using ro po io by (auto simp: radius_ok_def bs_env_def chainStateKey_def reserveRadiusKey_def)
  moreover have "bs_ok s'" using ro po io by (simp add: bs_ok_def bs_env_def)
  moreover have "bs_cs s' = cs" using co ro po by (simp add: bs_env_def)
  moreover have "evicts (cs_TotalAmount cs) (batches (bkv s)) s s'"
    using conjunct2 [OF conjunct2 [OF conjunct2 [OF co]]] ro po by (simp add: evicts_def)
  ultimately show ?thesis using co ro po io by (simp add: GetChainState_def)
qed

text \<open>C17: storing a chain state evicts exactly the batches whose value it covers, makes it the current
  one, in memory and on disk, and leaves the radius computed from the remaining batches.\<close>

theorem PutChainState_correct:
  assumes "PutChainState s cs = (Inr u, s')" "bs_ok s"
  shows "bs_ok s' \<and> radius_ok s' \<and> GetChainState s' = cs \<and> bkv s' chainStateKey = Some (VChainState cs) \<and>
    batches (bkv s') = alive (cs_TotalAmount cs) (batches (bkv s)) \<and>
    evicts (cs_TotalAmount cs) (batches (bkv s)) s s'"
  using assms by (rule PutChainState_stored)

section \<open>Progress\<close>

text \<open>With a store that does not fail and callbacks that do not fail, the operations succeed.\<close>

definition healthy :: "batchstore \<Rightarrow> bool" where
  "healthy s \<longleftrightarrow> (\<forall>n. \<not> st_fault (bs_store s) n) \<and> (\<forall>e. \<not> bs_fails s e)"

lemma healthy_put: "healthy s \<Longrightarrow> \<exists>s'. bs_put s k v = (Inr (), s') \<and> healthy s'"
  by (simp add: healthy_def bs_put_def st_defs)

lemma healthy_delete: "healthy s \<Longrightarrow> \<exists>s'. bs_delete s k = (Inr (), s') \<and> healthy s'"
  by (simp add: healthy_def bs_delete_def st_defs)

lemma healthy_iterate: "healthy s \<Longrightarrow> \<exists>ks s'. bs_iterate s pre = (Inr ks, s') \<and> healthy s'"
  by (simp add: healthy_def bs_iterate_def st_defs)

lemma healthy_call: "healthy s \<Longrightarrow> \<exists>s'. bs_call s e = (Inr (), s') \<and> healthy s'"
  by (simp add: healthy_def bs_call_def)

lemma healthy_Get:
  assumes "healthy s"
  shows "batches (bkv s) i = Some b \<Longrightarrow> \<exists>s'. bs_Get s i = (Inr b, s') \<and> healthy s'"
    and "bkv s (batchKey i) = None \<Longrightarrow> \<exists>s'. bs_Get s i = (Inl (BsStore ErrNotFound), s') \<and> healthy s'"
  using assms
  by (auto simp: healthy_def bs_Get_def bs_get_def st_defs bkv_def batches_def decode_batch_def
      split: option.splits bs_value.splits)

lemma healthy_scan:
  assumes "healthy s" "index_ok (bkv s)" "\<And>k. k \<in> set ks \<Longrightarrow> prefix valueKeyPrefix k \<and> bkv s k \<noteq> None"
  shows "\<exists>ev' s'. cleanup_scan s ks ev = (Inr ev', s') \<and> healthy s'"
  using assms
proof (induction ks arbitrary: s ev)
  case (Cons k ks)
  note kb = key_batch_ok [OF Cons.prems(2), of k]
  obtain t where t: "bs_Get s (b_ID (key_batch (bkv s) k)) = (Inr (key_batch (bkv s) k), t)" "healthy t"
    using healthy_Get(1) [OF Cons.prems(1)] kb(1) Cons.prems(3) by force
  have "bkv t = bkv s" using bs_Get_reads [OF t(1)] by (simp add: bs_reads_def)
  then have "\<exists>ev' s'. cleanup_scan t ks ev = (Inr ev', s') \<and> healthy s'" for ev
    using Cons.IH [OF t(2)] Cons.prems by simp
  then show ?case using t kb(3) Cons.prems(3) by simp
qed simp

lemma healthy_evict:
  assumes "healthy s" "batch_ok b"
  shows "\<exists>s'. evict_batch s b = (Inr (), s') \<and> healthy s'"
proof -
  obtain s1 where s1: "(if bs_hasExpiry s then bs_call s (HandleStampExpiry (b_ID b)) else (Inr (), s)) = (Inr (), s1)"
    "healthy s1" using healthy_call assms(1) by (cases "bs_hasExpiry s") auto
  obtain s2 where s2: "bs_call s1 (EvictFn (b_ID b)) = (Inr (), s2)" "healthy s2" using healthy_call s1(2) by blast
  obtain k where k: "valueKey (b_Value b) (b_ID b) = Some k" using valueKey_ok [OF assms(2)] by blast
  obtain s3 where s3: "bs_delete s2 k = (Inr (), s3)" "healthy s3" using healthy_delete s2(2) by blast
  show ?thesis using healthy_delete [OF s3(2)] by (simp add: evict_batch_def s1 s2 k s3)
qed

lemma healthy_evict_all:
  "healthy s \<Longrightarrow> \<forall>b\<in>set bs. batch_ok b \<Longrightarrow> \<exists>s'. evict_all s bs = (Inr (), s') \<and> healthy s'"
proof (induction bs arbitrary: s)
  case (Cons b bs)
  obtain t where "evict_batch s b = (Inr (), t)" "healthy t" using healthy_evict Cons.prems by force
  then show ?case using Cons.IH [of t] Cons.prems by simp
qed simp

lemma healthy_cleanup:
  assumes "healthy s" "bs_ok s"
  shows "\<exists>s'. cleanup s = (Inr (), s') \<and> healthy s'"
proof -
  have ok: "index_ok (bkv s)" and so: "st_ok (bs_store s)" using assms(2) by (simp_all add: bs_ok_def)
  obtain ks s1 where it: "bs_iterate s valueKeyPrefix = (Inr ks, s1)" and h1: "healthy s1"
    using healthy_iterate [OF assms(1)] by blast
  note i = bs_iterate_ok [OF it]
  have s1: "bkv s1 = bkv s" "set ks = {k. prefix valueKeyPrefix k \<and> bkv s k \<noteq> None}"
    using i so by (auto simp: bs_reads_def st_ok_def bkv_def)
  obtain ev s2 where sc: "cleanup_scan s1 ks [] = (Inr ev, s2)" and h2: "healthy s2"
    using healthy_scan [OF h1, of ks "[]"] ok s1 by auto
  have "\<forall>b\<in>set ev. batch_ok b" using scan_expired(2) [OF it sc assms(2)] batches_ok(1) [OF ok] by blast
  then show ?thesis using healthy_evict_all [OF h2] by (simp add: cleanup_def it sc)
qed

lemma healthy_decode:
  "index_ok m \<Longrightarrow> \<forall>k\<in>set ks. prefix batchKeyPrefix k \<and> m k \<noteq> None \<Longrightarrow> \<exists>bs. decode_values m ks = Inr bs"
proof (induction ks)
  case (Cons k ks)
  then obtain v where v: "m k = Some v" "prefix batchKeyPrefix k" by auto
  obtain b where "batch_ok b" "v = VBatch (batch_bytes b)"
    using Cons.prems(1) v unfolding index_ok_def by blast
  with Cons v show ?case by (auto simp: decode_batch_def batch_UnmarshalBinary_bytes)
qed simp

lemma healthy_computeRadius:
  assumes "healthy s" "bs_ok s"
  shows "\<exists>s'. computeRadius s = (Inr (), s') \<and> healthy s'"
proof -
  obtain ks s1 where it: "bs_iterate s batchKeyPrefix = (Inr ks, s1)" and h1: "healthy s1"
    using healthy_iterate [OF assms(1)] by blast
  have "bkv s1 = bkv s" "\<forall>k\<in>set ks. prefix batchKeyPrefix k \<and> bkv s k \<noteq> None"
    using bs_iterate_ok [OF it] assms(2) by (auto simp: bs_reads_def st_ok_def bkv_def bs_ok_def)
  then obtain bs where "decode_values (st_kv (bs_store s1)) ks = Inr bs"
    using healthy_decode [of "bkv s" ks] assms(2) by (auto simp: bs_ok_def bkv_def)
  moreover have "healthy (s1\<lparr>bs_radius := r\<rparr>)" for r using h1 by (simp add: healthy_def)
  ultimately show ?thesis
    using healthy_put by (simp add: computeRadius_def bs_Iterate_def it Let_def)
qed

lemma PutChainState_succeeds:
  assumes "healthy s" "bs_ok s"
  shows "\<exists>s'. PutChainState s cs = (Inr (), s') \<and> healthy s'"
proof -
  have h: "healthy (s\<lparr>bs_cs := cs\<rparr>)" "bs_ok (s\<lparr>bs_cs := cs\<rparr>)"
    using assms by (simp_all add: healthy_def bs_ok_def bkv_def)
  obtain s1 where c: "cleanup (s\<lparr>bs_cs := cs\<rparr>) = (Inr (), s1)" "healthy s1" using healthy_cleanup [OF h] by blast
  obtain s2 where r: "computeRadius s1 = (Inr (), s2)" "healthy s2"
    using healthy_computeRadius [OF c(2)] cleanup_ok [OF c(1) h(2)] by blast
  show ?thesis using healthy_put [OF r(2)] by (simp add: PutChainState_def c r)
qed

lemma saveBatch_succeeds:
  assumes "healthy s" "index_ok m" "batches m (b_ID b) = None" and b: "batch_ok b"
    and s: "bkv s = m(batchKey (b_ID b) \<mapsto> VBatch (batch_bytes b))" "st_ok (bs_store s)"
  shows "\<exists>s'. saveBatch s b = (Inr (), s') \<and> healthy s'"
proof -
  obtain k where k: "valueKey (b_Value b) (b_ID b) = Some k" using valueKey_ok [OF b] by blast
  obtain s3 where v: "bs_put s k VNil = (Inr (), s3)" "healthy s3" using healthy_put [OF assms(1)] by blast
  note e = bs_put_ok [OF v(1)]
  have "bkv s3 = m(batchKey (b_ID b) \<mapsto> VBatch (batch_bytes b), k \<mapsto> VNil)" using e s(1) by simp
  note ins = index_ok_insert [OF assms(2) b assms(3) k this]
  have ok3: "bs_ok s3" using ins e s(2) by (simp add: bs_ok_def bs_env_def)
  obtain s4 where c: "cleanup s3 = (Inr (), s4)" "healthy s4" using healthy_cleanup [OF v(2) ok3] by blast
  obtain s5 where r: "computeRadius s4 = (Inr (), s5)" "healthy s5"
    using healthy_computeRadius [OF c(2)] cleanup_ok [OF c(1) ok3] by blast
  show ?thesis using r(2) by (simp add: saveBatch_def k v c r)
qed

lemma bs_Save_succeeds:
  assumes "healthy s" "bs_ok s" and b: "batch_ok b" "batches (bkv s) (b_ID b) = None"
  shows "\<exists>s'. bs_Save s b = (Inr (), s') \<and> healthy s'"
proof -
  have ok: "index_ok (bkv s)" "st_ok (bs_store s)" using assms(2) by (simp_all add: bs_ok_def)
  obtain s1 where g: "bs_Get s (b_ID b) = (Inl (BsStore ErrNotFound), s1)" "healthy s1"
    using healthy_Get(2) [OF assms(1)] b batches_None [OF ok(1)] by blast
  obtain s2 where p: "bs_put s1 (batchKey (b_ID b)) (VBatch (batch_bytes b)) = (Inr (), s2)" "healthy s2"
    using healthy_put [OF g(2)] by blast
  note e = bs_Get_reads [OF g(1)] bs_put_ok [OF p(1)]
  have s2: "bkv s2 = (bkv s)(batchKey (b_ID b) \<mapsto> VBatch (batch_bytes b))" "st_ok (bs_store s2)"
    using e ok(2) by (simp_all add: bs_env_def bs_reads_def)
  show ?thesis
    using saveBatch_succeeds [OF p(2) ok(1) b(2,1) s2] b(1)
    by (simp add: bs_Save_def put_batch_def g p batch_MarshalBinary_ok)
qed

lemma bs_Update_succeeds:
  assumes "healthy s" "bs_ok s" "batches (bkv s) (b_ID b) = Some b" "0 \<le> v" "v < 2 ^ 256"
  shows "\<exists>b' s'. bs_Update s b v d = (Inr b', s') \<and> healthy s'"
proof -
  let ?b = "b\<lparr>b_Value := v, b_Depth := d\<rparr>"
  have ok: "index_ok (bkv s)" "st_ok (bs_store s)" using assms(2) by (simp_all add: bs_ok_def)
  have bok: "batch_ok b" using batches_ok(1) [OF ok(1) assms(3)] .
  then have b'ok: "batch_ok ?b" using assms(4,5) by (simp add: batch_ok_def)
  obtain s1 where g: "bs_Get s (b_ID b) = (Inr b, s1)" "healthy s1" using healthy_Get(1) [OF assms(1,3)] by blast
  obtain k where k: "valueKey (b_Value b) (b_ID b) = Some k" using valueKey_ok [OF bok] by blast
  obtain s2 where dl: "bs_delete s1 k = (Inr (), s2)" "healthy s2" using healthy_delete [OF g(2)] by blast
  obtain s3 where p: "bs_put s2 (batchKey (b_ID b)) (VBatch (batch_bytes ?b)) = (Inr (), s3)" "healthy s3"
    using healthy_put [OF dl(2)] by blast
  note m = index_ok_remove [OF ok(1) assms(3) k]
  have "bkv s3 = ((bkv s)(k := None, batchKey (b_ID b) := None))(batchKey (b_ID ?b) \<mapsto> VBatch (batch_bytes ?b))"
    "st_ok (bs_store s3)"
    using bs_delete_ok [OF dl(1)] bs_put_ok [OF p(1)] bs_Get_reads [OF g(1)] ok(2)
    by (simp_all add: bs_reads_def bs_env_def)
  from saveBatch_succeeds [OF p(2) m(1) _ b'ok this] m(2) show ?thesis
    using b'ok by (auto simp: bs_Update_def put_batch_def g p k dl Let_def batch_MarshalBinary_ok)
qed

text \<open>Without failures of the store or the callbacks, \<open>Save\<close> of a new batch, \<open>Update\<close> of a stored
  one and \<open>PutChainState\<close> always succeed.\<close>

lemma bs_progress:
  assumes "healthy s" "bs_ok s"
  shows "(\<exists>s'. PutChainState s cs = (Inr (), s')) \<and>
    (batch_ok b \<and> batches (bkv s) (b_ID b) = None \<longrightarrow> (\<exists>s'. bs_Save s b = (Inr (), s'))) \<and>
    (batches (bkv s) (b_ID b) = Some b \<and> 0 \<le> v \<and> v < 2 ^ 256 \<longrightarrow> (\<exists>b' s'. bs_Update s b v d = (Inr b', s')))"
  using assms PutChainState_succeeds bs_Save_succeeds bs_Update_succeeds by metis

section \<open>Restart and reset\<close>

text \<open>A batch store opened on the state that \<open>PutChainState\<close> wrote has the same chain state and
  radius as the one that wrote it.\<close>

lemma bs_New_restores:
  assumes "PutChainState s cs = (Inr u, s')" "bs_ok s" "bs_store t = bs_store s'" "bs_New t = (Inr v, t')"
  shows "GetChainState t' = cs \<and> Radius t' = Radius s' \<and> batches (bkv t') = batches (bkv s')"
proof -
  have "bkv s' chainStateKey = Some (VChainState cs)" "radius_ok s'"
    using PutChainState_stored [OF assms(1,2)] by blast+
  then have k: "bkv t chainStateKey = Some (VChainState cs)" "bkv t reserveRadiusKey = Some (VRadius (bs_radius s'))"
    using assms(3) by (auto simp: bkv_def radius_ok_def)
  obtain r1 t1 where g1: "bs_get t chainStateKey = (r1, t1)" by fastforce
  obtain r2 t2 where g2: "bs_get t1 reserveRadiusKey = (r2, t2)" by fastforce
  have b: "bkv t1 = bkv t" "bkv t2 = bkv t" using bs_get_reads [OF g1] bs_get_reads [OF g2] by (simp_all add: bs_reads_def)
  show ?thesis
    using assms(3,4) g1 g2 k b bs_get_value [of t chainStateKey] bs_get_value [of t1 reserveRadiusKey]
    by (auto simp: bs_New_def GetChainState_def Radius_def bkv_def
        split: sum.splits bs_value.splits bs_error.splits store_error.splits)
qed

lemma delete_keys_ok:
  "delete_keys s ks = (Inr u, s') \<Longrightarrow> bkv s' = bkv s |` (- set ks)"
proof (induction s ks rule: delete_keys.induct)
  case (1 s)
  then show ?case by (simp add: restrict_map_def)
next
  case (2 s k ks)
  then obtain s1 where s1: "bs_delete s k = (Inr (), s1)" "delete_keys s1 ks = (Inr u, s')" by (auto simp: bindE_Inr)
  then show ?case using "2.IH" bs_delete_ok [OF s1(1)] by (auto simp: restrict_map_def fun_eq_iff)
qed

text \<open>A successful \<open>Reset\<close> leaves no key of the batch store, touches no other key, and returns the
  chain state and the radius to zero.\<close>

lemma bs_Reset_correct:
  assumes "bs_Reset s = (Inr u, s')" "bs_ok s"
  shows "bkv s' = bkv s |` {k. \<not> prefix ''batchstore_'' k} \<and> batches (bkv s') = Map.empty \<and>
    GetChainState s' = zeroChainState \<and> Radius s' = 0"
proof -
  obtain ks s1 s2 where it: "bs_iterate s ''batchstore_'' = (Inr ks, s1)" and d: "delete_keys s1 ks = (Inr (), s2)"
    and s': "s' = s2\<lparr>bs_cs := zeroChainState, bs_radius := 0\<rparr>"
    using assms(1) by (auto simp: bs_Reset_def bindE_Inr)
  note i = bs_iterate_ok [OF it]
  have "bkv s' = bkv s |` (- set ks)" using delete_keys_ok [OF d] i s' by (simp add: bs_reads_def bkv_def)
  moreover have "set ks = {k. prefix ''batchstore_'' k \<and> bkv s k \<noteq> None}"
    using i assms(2) by (auto simp: bs_ok_def st_ok_def bkv_def)
  ultimately have kv: "bkv s' = bkv s |` {k. \<not> prefix ''batchstore_'' k}"
    by (auto simp: restrict_map_def fun_eq_iff)
  have "prefix ''batchstore_'' (batchKey i)" for i by (simp add: batchKey_def batchKeyPrefix_def)
  then have "batches (bkv s') = Map.empty" unfolding kv by (auto simp: batches_def restrict_map_def fun_eq_iff)
  with kv s' show ?thesis by (simp add: GetChainState_def Radius_def)
qed

text \<open>A batch whose identifier has 32 bytes, whose owner has 20 and whose value is a 256-bit number
  is serialised into 95 bytes from which exactly that batch is read back.\<close>

lemma batch_roundtrip:
  assumes "batch_ok b"
  shows "\<exists>bs. batch_MarshalBinary b = Some bs \<and> length bs = 95 \<and> batch_UnmarshalBinary bs = Some b"
  using assms batch_MarshalBinary_ok batch_UnmarshalBinary_bytes by (auto simp: batch_bytes_def batch_ok_def)

section \<open>A concrete store\<close>

definition demo_batch :: "byte \<Rightarrow> int \<Rightarrow> Batch" where
  "demo_batch n v = \<lparr>b_ID = replicate 31 0 @ [n], b_Value = v, b_Start = 7, b_Owner = replicate 20 1,
     b_Depth = 17, b_BucketDepth = 16, b_Immutable = True\<rparr>"

definition demo_bs :: batchstore where
  "demo_bs = \<lparr>bs_capacity = 4194304, bs_store = \<lparr>st_kv = Map.empty, st_keys = [], st_tick = 0, st_fault = (\<lambda>_. False)\<rparr>,
     bs_cs = \<lparr>cs_Block = 3, cs_TotalAmount = 10, cs_CurrentPrice = 2\<rparr>, bs_radius = 0, bs_hasExpiry = True,
     bs_fails = (\<lambda>_. False), bs_out = [], bs_log2ratio = (\<lambda>_ _. 1)\<rparr>"

lemma demo_bs_ok [simp]: "bs_ok demo_bs" "healthy demo_bs"
  by (simp_all add: bs_ok_def demo_bs_def st_ok_def index_ok_def bkv_def batches_def healthy_def)

lemma demo_batch_ok [simp]: "0 \<le> v \<Longrightarrow> v < 2 ^ 256 \<Longrightarrow> batch_ok (demo_batch n v)"
  by (simp add: batch_ok_def demo_batch_def)

lemma demo_empty [simp]: "batches (bkv demo_bs) i = None"
  by (simp add: demo_bs_def bkv_def batches_def)

definition demo_bs1 :: batchstore where
  "demo_bs1 = snd (bs_Save demo_bs (demo_batch 5 20))"

lemma demo_saved: "bs_Save demo_bs (demo_batch 5 20) = (Inr (), demo_bs1)" "healthy demo_bs1"
  using bs_Save_succeeds [OF demo_bs_ok(2,1), of "demo_batch 5 20"] by (auto simp: demo_bs1_def)

lemma demo_values [simp]: "b_Value (demo_batch n v) = v" "cs_TotalAmount (bs_cs demo_bs) = 10"
  by (simp_all add: demo_batch_def demo_bs_def)

lemma demo_bs1_ok: "bs_ok demo_bs1" "batches (bkv demo_bs1) (b_ID (demo_batch 5 20)) = Some (demo_batch 5 20)"
  using bs_Save_stored [OF demo_saved(1) demo_bs_ok(1) demo_batch_ok] by (simp_all add: alive_def)

text \<open>Here the total amount has passed the value of the batch, which is evicted.\<close>

theorem PutChainState_correct_witness:
  "\<exists>s'. PutChainState demo_bs1 \<lparr>cs_Block = 9, cs_TotalAmount = 20, cs_CurrentPrice = 2\<rparr> = (Inr (), s') \<and>
    batches (bkv s') (b_ID (demo_batch 5 20)) = None \<and> evicts 20 (batches (bkv demo_bs1)) demo_bs1 s'"
proof -
  let ?cs = "\<lparr>cs_Block = 9, cs_TotalAmount = 20, cs_CurrentPrice = 2\<rparr> :: ChainState"
  obtain s' where p: "PutChainState demo_bs1 ?cs = (Inr (), s')"
    using PutChainState_succeeds [OF demo_saved(2) demo_bs1_ok(1)] by blast
  from PutChainState_correct [OF this demo_bs1_ok(1)] show ?thesis
    using demo_bs1_ok(2) p by (simp add: alive_def)
qed

end
