(* ===== verification/Stamps.thy ===== *)
theory Stamps
  imports ItemStore BatchStore
begin

text \<open>
  Postage stamps: \<open>pkg/postage/stampissuer.go\<close> (the issuer with its collision buckets and the record
  of issued stamps), \<open>pkg/postage/stamp.go\<close> (the stamp, its serialisation and its validation) and
  \<open>pkg/postage/stamper.go\<close> (issuing a stamp for a chunk address). The hash, the signature and the
  recovery of the signer are the record \<open>stamp_crypto\<close>. Reading the clock is an argument of the
  operations. A panic of the code (an index or a slice out of range) is the error \<open>PostagePanic\<close>.
\<close>

section \<open>Stamp items\<close>

datatype postage_error =
    errStampItemMarshalBatchIDInvalid
  | errStampItemMarshalChunkAddressInvalid
  | errStampItemUnmarshalInvalidSize
  | ErrOwnerMismatch
  | ErrInvalidIndex
  | ErrStampInvalid
  | ErrBucketMismatch
  | ErrInvalidBatchID
  | ErrInvalidBatchIndex
  | ErrInvalidBatchTimestamp
  | ErrInvalidBatchSignature
  | ErrBucketFull
  | ErrStampNotFound
  | ErrNotUsable
  | ErrStampStore "unit item_error"
  | ErrBatchStore bs_error
  | ErrSigning
  | ErrRecovery
  | PostagePanic

definition StampIndexSize :: nat where "StampIndexSize = 8"
definition StampTimestampSize :: nat where "StampTimestampSize = 8"

definition stampItemSize :: nat where
  "stampItemSize = HashSize + HashSize + StampIndexSize + StampTimestampSize"

record StampItem =
  si_BatchID :: bytes
  si_chunkAddress :: address
  si_BatchIndex :: bytes
  si_BatchTimestamp :: bytes

definition stampItem_ID :: "StampItem \<Rightarrow> string" where
  "stampItem_ID si = bytes_str (si_BatchID si) @ ''/'' @ addr_String (si_chunkAddress si)"

definition stampItem_Namespace :: string where "stampItem_Namespace = ''stampItem''"

definition stampItem_Marshal :: "StampItem \<Rightarrow> postage_error + bytes" where
  "stampItem_Marshal si =
     (if length (si_BatchID si) \<noteq> HashSize then Inl errStampItemMarshalBatchIDInvalid
      else if length (si_chunkAddress si) \<noteq> HashSize then Inl errStampItemMarshalChunkAddressInvalid
      else
        let buf = replicate (stampItemSize + 1) 0;
            l = 0;
            buf = copy_at buf l (take HashSize (si_BatchID si));
            l = l + HashSize;
            buf = copy_at buf l (take HashSize (si_chunkAddress si));
            l = l + HashSize;
            buf = copy_at buf l (take StampIndexSize (si_BatchIndex si));
            l = l + StampIndexSize;
            buf = copy_at buf l (take StampTimestampSize (si_BatchTimestamp si))
        in Inr buf)"

definition stampItem_Unmarshal :: "bytes \<Rightarrow> postage_error + StampItem" where
  "stampItem_Unmarshal bs =
     (if length bs \<noteq> stampItemSize + 1 then Inl errStampItemUnmarshalInvalidSize
      else
        let l0 = 0; l1 = l0 + HashSize; l2 = l1 + HashSize; l3 = l2 + StampIndexSize
        in Inr \<lparr>si_BatchID = slice l0 (l0 + HashSize) bs, si_chunkAddress = slice l1 (l1 + HashSize) bs,
                si_BatchIndex = slice l2 (l2 + StampIndexSize) bs,
                si_BatchTimestamp = slice l3 (l3 + StampTimestampSize) bs\<rparr>)"

text \<open>The item store sees only whether serialisation succeeds.\<close>

definition stampItem_Put :: "leveldb \<Rightarrow> StampItem \<Rightarrow> (unit item_error + unit) \<times> leveldb" where
  "stampItem_Put db si =
     ls_Put db stampItem_Namespace (stampItem_ID si)
       (case stampItem_Marshal si of Inl _ \<Rightarrow> None | Inr bs \<Rightarrow> Some bs)"

definition stampItem_Get :: "leveldb \<Rightarrow> StampItem \<Rightarrow> (unit item_error + StampItem) \<times> leveldb" where
  "stampItem_Get db si =
     ls_Get db stampItem_Namespace (stampItem_ID si)
       (\<lambda>bs. case stampItem_Unmarshal bs of Inl _ \<Rightarrow> None | Inr x \<Rightarrow> Some x)"

section \<open>The issuer\<close>

record stampIssuerData =
  sd_Label :: string
  sd_KeyID :: string
  sd_BatchID :: bytes
  sd_BatchAmount :: int
  sd_BatchDepth :: u8
  sd_BucketDepth :: u8
  sd_Buckets :: "u32 list"
  sd_MaxBucketCount :: u32
  sd_BlockNumber :: u64
  sd_ImmutableFlag :: bool

definition issuerData_Clone :: "stampIssuerData \<Rightarrow> stampIssuerData" where
  "issuerData_Clone s =
     \<lparr>sd_Label = sd_Label s, sd_KeyID = sd_KeyID s, sd_BatchID = sd_BatchID s, sd_BatchAmount = sd_BatchAmount s,
      sd_BatchDepth = sd_BatchDepth s, sd_BucketDepth = sd_BucketDepth s, sd_Buckets = sd_Buckets s,
      sd_MaxBucketCount = 0, sd_BlockNumber = sd_BlockNumber s, sd_ImmutableFlag = sd_ImmutableFlag s\<rparr>"

definition NewStampIssuer ::
    "string \<Rightarrow> string \<Rightarrow> bytes \<Rightarrow> int \<Rightarrow> u8 \<Rightarrow> u8 \<Rightarrow> u64 \<Rightarrow> bool \<Rightarrow> stampIssuerData" where
  "NewStampIssuer label keyID batchID batchAmount batchDepth bucketDepth blockNumber immutableFlag =
     \<lparr>sd_Label = label, sd_KeyID = keyID, sd_BatchID = batchID, sd_BatchAmount = batchAmount,
      sd_BatchDepth = batchDepth, sd_BucketDepth = bucketDepth,
      sd_Buckets = replicate (nat (int64_of (2 ^ unat bucketDepth))) 0, sd_MaxBucketCount = 0,
      sd_BlockNumber = blockNumber, sd_ImmutableFlag = immutableFlag\<rparr>"

definition toBucket :: "u8 \<Rightarrow> address \<Rightarrow> u32 option" where
  "toBucket depth addr =
     (if length addr < 4 then None
      else Some (drop_bit (unat (32 - depth)) (of_nat (be_nat (take 4 addr)))))"

definition indexToBytes :: "u32 \<Rightarrow> u32 \<Rightarrow> bytes" where
  "indexToBytes bucket index = be_put 4 (unat bucket) @ be_put 4 (unat index)"

definition IndexFromBytes :: "bytes \<Rightarrow> u64 option" where
  "IndexFromBytes buf = (if length buf < 8 then None else Some (of_nat (be_nat (take 8 buf))))"

definition BucketIndexFromBytes :: "bytes \<Rightarrow> (u32 \<times> u32) option" where
  "BucketIndexFromBytes buf =
     (case IndexFromBytes buf of
        None \<Rightarrow> None
      | Some index64 \<Rightarrow> Some (ucast (drop_bit 32 index64), ucast index64))"

definition unixTime :: "u64 \<Rightarrow> bytes" where
  "unixTime now = be_put 8 (unat now)"

definition TimestampFromBytes :: "bytes \<Rightarrow> u64 option" where
  "TimestampFromBytes buf = (if length buf < 8 then None else Some (of_nat (be_nat (take 8 buf))))"

definition BucketUpperBound :: "stampIssuerData \<Rightarrow> u32" where
  "BucketUpperBound si = push_bit (unat (sd_BatchDepth si - sd_BucketDepth si)) 1"

definition Utilization :: "stampIssuerData \<Rightarrow> u32" where
  "Utilization si = sd_MaxBucketCount si"

definition increment :: "stampIssuerData \<Rightarrow> address \<Rightarrow> u64 \<Rightarrow> (postage_error + bytes \<times> bytes) \<times> stampIssuerData" where
  "increment si addr now =
     (case toBucket (sd_BucketDepth si) addr of
        None \<Rightarrow> (Inl PostagePanic, si)
      | Some bIdx \<Rightarrow>
          if length (sd_Buckets si) \<le> unat bIdx then (Inl PostagePanic, si)
          else
            let bCnt = sd_Buckets si ! unat bIdx in
            if bCnt = BucketUpperBound si \<and> sd_ImmutableFlag si then (Inl ErrBucketFull, si)
            else
              let bCnt' = (if bCnt = BucketUpperBound si then 0 else bCnt);
                  si = si\<lparr>sd_Buckets := (sd_Buckets si)[unat bIdx := bCnt' + 1]\<rparr>;
                  si = (if sd_Buckets si ! unat bIdx > sd_MaxBucketCount si
                        then si\<lparr>sd_MaxBucketCount := sd_Buckets si ! unat bIdx\<rparr> else si)
              in (Inr (indexToBytes bIdx bCnt', unixTime now), si))"

section \<open>Stamps\<close>

record Stamp =
  s_batchID :: bytes
  s_index :: bytes
  s_timestamp :: bytes
  s_sig :: bytes

record stamp_crypto =
  sc_hash :: "bytes \<Rightarrow> bytes"
  sc_Sign :: "bytes \<Rightarrow> bytes option"
  sc_RecoverAddress :: "bytes \<Rightarrow> bytes \<Rightarrow> bytes option"

definition StampSize :: nat where "StampSize = 113"

definition stamp_MarshalBinary :: "Stamp \<Rightarrow> postage_error + bytes" where
  "stamp_MarshalBinary s =
     (let buf = replicate StampSize 0 in
      if min (length buf) (length (s_batchID s)) \<noteq> 32 then Inl ErrInvalidBatchID
      else let buf = copy_at buf 0 (s_batchID s) in
      if min 8 (length (s_index s)) \<noteq> 8 then Inl ErrInvalidBatchIndex
      else let buf = copy_at buf 32 (take 8 (s_index s)) in
      if min 8 (length (s_timestamp s)) \<noteq> 8 then Inl ErrInvalidBatchTimestamp
      else let buf = copy_at buf 40 (take 8 (s_timestamp s)) in
      if min (StampSize - 48) (length (s_sig s)) \<noteq> 65 then Inl ErrInvalidBatchSignature
      else Inr (copy_at buf 48 (s_sig s)))"

definition stamp_UnmarshalBinary :: "bytes \<Rightarrow> postage_error + Stamp" where
  "stamp_UnmarshalBinary buf =
     (if length buf \<noteq> StampSize then Inl ErrStampInvalid
      else Inr \<lparr>s_batchID = slice 0 32 buf, s_index = slice 32 40 buf, s_timestamp = slice 40 48 buf,
                s_sig = drop 48 buf\<rparr>)"

definition ToSignDigest :: "stamp_crypto \<Rightarrow> bytes \<Rightarrow> bytes \<Rightarrow> bytes \<Rightarrow> bytes \<Rightarrow> bytes" where
  "ToSignDigest C addr batchId index timestamp = sc_hash C (addr @ batchId @ index @ timestamp)"

definition RecoverBatchOwner :: "stamp_crypto \<Rightarrow> address \<Rightarrow> Stamp \<Rightarrow> bytes option" where
  "RecoverBatchOwner C chunkAddr s =
     sc_RecoverAddress C (s_sig s) (ToSignDigest C chunkAddr (s_batchID s) (s_index s) (s_timestamp s))"

text \<open>\<open>None\<close> is success.\<close>

definition stamp_Valid :: "stamp_crypto \<Rightarrow> Stamp \<Rightarrow> address \<Rightarrow> bytes \<Rightarrow> u8 \<Rightarrow> u8 \<Rightarrow> postage_error option" where
  "stamp_Valid C s chunkAddr ownerAddr depth bucketDepth =
     (case RecoverBatchOwner C chunkAddr s of
        None \<Rightarrow> Some ErrRecovery
      | Some signerAddr \<Rightarrow>
        (case BucketIndexFromBytes (s_index s) of
           None \<Rightarrow> Some PostagePanic
         | Some (bucket, index) \<Rightarrow>
           (case toBucket bucketDepth chunkAddr of
              None \<Rightarrow> Some PostagePanic
            | Some b \<Rightarrow>
                if b \<noteq> bucket then Some ErrBucketMismatch
                else if index \<ge> push_bit (unat (depth - bucketDepth)) 1 then Some ErrInvalidIndex
                else if signerAddr \<noteq> ownerAddr then Some ErrOwnerMismatch
                else None)))"

text \<open>The validator looks the batch up; the result is what the chunk is given: the depth, the bucket
  depth and the immutability of the batch.\<close>

definition ValidStamp :: "stamp_crypto \<Rightarrow> batchstore \<Rightarrow> address \<Rightarrow> Stamp \<Rightarrow>
    (postage_error + u8 \<times> u8 \<times> bool) \<times> batchstore" where
  "ValidStamp C bs chunkAddr stamp =
     (case bs_Get bs (s_batchID stamp) of
        (Inl (BsStore ErrNotFound), bs) \<Rightarrow> (Inl ErrStampNotFound, bs)
      | (Inl e, bs) \<Rightarrow> (Inl (ErrBatchStore e), bs)
      | (Inr b, bs) \<Rightarrow>
          (case stamp_Valid C stamp chunkAddr (b_Owner b) (b_Depth b) (b_BucketDepth b) of
             Some e \<Rightarrow> (Inl e, bs)
           | None \<Rightarrow> (Inr (b_Depth b, b_BucketDepth b, b_Immutable b), bs)))"

section \<open>The stamper\<close>

record stamper =
  stm_store :: leveldb
  stm_issuer :: stampIssuerData

definition sign_stamp :: "stamp_crypto \<Rightarrow> stamper \<Rightarrow> address \<Rightarrow> StampItem \<Rightarrow> (postage_error + Stamp) \<times> stamper" where
  "sign_stamp C st addr item =
     (case sc_Sign C (ToSignDigest C addr (sd_BatchID (stm_issuer st)) (si_BatchIndex item) (si_BatchTimestamp item)) of
        None \<Rightarrow> (Inl ErrSigning, st)
      | Some sig \<Rightarrow> (Inr \<lparr>s_batchID = sd_BatchID (stm_issuer st), s_index = si_BatchIndex item,
          s_timestamp = si_BatchTimestamp item, s_sig = sig\<rparr>, st))"

definition stamper_put :: "stamper \<Rightarrow> StampItem \<Rightarrow> (postage_error + unit) \<times> stamper" where
  "stamper_put st item =
     (case stampItem_Put (stm_store st) item of
        (Inl e, db) \<Rightarrow> (Inl (ErrStampStore e), st\<lparr>stm_store := db\<rparr>)
      | (Inr u, db) \<Rightarrow> (Inr u, st\<lparr>stm_store := db\<rparr>))"

definition stamper_Stamp :: "stamp_crypto \<Rightarrow> stamper \<Rightarrow> address \<Rightarrow> u64 \<Rightarrow> (postage_error + Stamp) \<times> stamper" where
  "stamper_Stamp C st addr now =
     (let item = \<lparr>si_BatchID = sd_BatchID (stm_issuer st), si_chunkAddress = addr, si_BatchIndex = [],
                  si_BatchTimestamp = []\<rparr> in
      case stampItem_Get (stm_store st) item of
        (Inr item, db) \<Rightarrow>
          let item = item\<lparr>si_BatchTimestamp := unixTime now\<rparr> in
          bindE (stamper_put (st\<lparr>stm_store := db\<rparr>) item) (\<lambda>_ st. sign_stamp C st addr item)
      | (Inl ItemNotFound, db) \<Rightarrow>
          (case increment (stm_issuer st) addr now of
             (Inl e, is) \<Rightarrow> (Inl e, st\<lparr>stm_store := db, stm_issuer := is\<rparr>)
           | (Inr (batchIndex, batchTimestamp), is) \<Rightarrow>
               let item = item\<lparr>si_BatchIndex := batchIndex, si_BatchTimestamp := batchTimestamp\<rparr> in
               bindE (stamper_put (st\<lparr>stm_store := db, stm_issuer := is\<rparr>) item) (\<lambda>_ st. sign_stamp C st addr item))
      | (Inl e, db) \<Rightarrow> (Inl (ErrStampStore e), st\<lparr>stm_store := db\<rparr>))"

section \<open>Serialisation\<close>

lemmas stamp_sizes = HashSize_def StampIndexSize_def StampTimestampSize_def stampItemSize_def StampSize_def

definition stampItem_ok :: "StampItem \<Rightarrow> bool" where
  "stampItem_ok si \<longleftrightarrow> length (si_BatchID si) = 32 \<and> length (si_chunkAddress si) = 32 \<and>
     length (si_BatchIndex si) = 8 \<and> length (si_BatchTimestamp si) = 8"

lemma stampItem_Marshal_ok:
  assumes "stampItem_ok si"
  shows "stampItem_Marshal si = Inr (si_BatchID si @ si_chunkAddress si @ si_BatchIndex si @ si_BatchTimestamp si @ [0])"
proof -
  have l: "length (si_BatchID si) = 32" "length (si_chunkAddress si) = 32"
     "length (si_BatchIndex si) = 8" "length (si_BatchTimestamp si) = 8" using assms by (simp_all add: stampItem_ok_def)
  let ?a = "si_BatchID si" and ?b = "si_chunkAddress si" and ?c = "si_BatchIndex si" and ?d = "si_BatchTimestamp si"
  have 1: "copy_at (replicate 81 0) 0 ?a = ?a @ replicate 49 0"
    using copy_at_next [of 0 "[]" ?a 32 49] l by simp
  have 2: "copy_at (?a @ replicate 49 0) 32 ?b = (?a @ ?b) @ replicate 17 0"
    using copy_at_next [of 32 ?a ?b 32 17] l by simp
  have 3: "copy_at ((?a @ ?b) @ replicate 17 0) 64 ?c = (?a @ ?b @ ?c) @ replicate 9 0"
    using copy_at_next [of 64 "?a @ ?b" ?c 8 9] l by simp
  have 4: "copy_at ((?a @ ?b @ ?c) @ replicate 9 0) 72 ?d = ?a @ ?b @ ?c @ ?d @ [0]"
    using copy_at_next [of 72 "?a @ ?b @ ?c" ?d 8 1] l by simp
  show ?thesis
    unfolding stampItem_Marshal_def Let_def using l 1 2 3 4 by (simp add: stamp_sizes del: append_assoc)
qed

lemma stampItem_Unmarshal_ok:
  assumes "stampItem_ok si"
  shows "stampItem_Unmarshal (si_BatchID si @ si_chunkAddress si @ si_BatchIndex si @ si_BatchTimestamp si @ [0]) = Inr si"
  using assms by (simp add: stampItem_Unmarshal_def stampItem_ok_def stamp_sizes slice_def Let_def)

definition stamp_ok :: "Stamp \<Rightarrow> bool" where
  "stamp_ok s \<longleftrightarrow> length (s_batchID s) = 32 \<and> length (s_index s) = 8 \<and> length (s_timestamp s) = 8 \<and> length (s_sig s) = 65"

lemma stamp_MarshalBinary_ok:
  assumes "stamp_ok s"
  shows "stamp_MarshalBinary s = Inr (s_batchID s @ s_index s @ s_timestamp s @ s_sig s)"
proof -
  have l: "length (s_batchID s) = 32" "length (s_index s) = 8" "length (s_timestamp s) = 8" "length (s_sig s) = 65"
    using assms by (simp_all add: stamp_ok_def)
  let ?a = "s_batchID s" and ?b = "s_index s" and ?c = "s_timestamp s" and ?d = "s_sig s"
  have 1: "copy_at (replicate 113 0) 0 ?a = ?a @ replicate 81 0"
    using copy_at_next [of 0 "[]" ?a 32 81] l by simp
  have 2: "copy_at (?a @ replicate 81 0) 32 ?b = (?a @ ?b) @ replicate 73 0"
    using copy_at_next [of 32 ?a ?b 8 73] l by simp
  have 3: "copy_at ((?a @ ?b) @ replicate 73 0) 40 ?c = (?a @ ?b @ ?c) @ replicate 65 0"
    using copy_at_next [of 40 "?a @ ?b" ?c 8 65] l by simp
  have 4: "copy_at ((?a @ ?b @ ?c) @ replicate 65 0) 48 ?d = ?a @ ?b @ ?c @ ?d"
    using copy_at_next [of 48 "?a @ ?b @ ?c" ?d 65 0] l by simp
  show ?thesis
    unfolding stamp_MarshalBinary_def Let_def using l 1 2 3 4 by (simp add: stamp_sizes del: append_assoc)
qed

lemma stamp_MarshalBinary_iff: "(\<exists>bs. stamp_MarshalBinary s = Inr bs) \<longleftrightarrow>
    length (s_batchID s) = 32 \<and> 8 \<le> length (s_index s) \<and> 8 \<le> length (s_timestamp s) \<and> 65 \<le> length (s_sig s)"
  by (auto simp: stamp_MarshalBinary_def stamp_sizes min_def Let_def split: if_splits)

section \<open>Indexes\<close>

lemma toBucket_bound:
  assumes "toBucket d addr = Some b" "d \<le> 32"
  shows "unat b < 2 ^ unat d"
proof -
  have d: "unat d \<le> 32" using assms(2) by (simp add: word_le_nat_alt)
  have s: "unat (32 - d) = 32 - unat d" using assms(2) by (simp add: unat_sub)
  let ?w = "of_nat (be_nat (take 4 addr)) :: u32"
  have "unat b = unat ?w div 2 ^ (32 - unat d)" using assms(1) s by (auto simp: toBucket_def unat_drop_bit_eq simp flip: drop_bit_eq_div split: if_splits)
  moreover have "unat ?w < 2 ^ unat d * 2 ^ (32 - unat d)"
    using unsigned_less [of ?w] d by (simp flip: power_add)
  ultimately show ?thesis by (simp add: less_mult_imp_div_less)
qed

lemma BucketIndexFromBytes_indexToBytes [simp]: "BucketIndexFromBytes (indexToBytes b c) = Some (b, c)"
proof -
  have l: "unat b < 4294967296" "unat c < 4294967296" using u32_less [of b] u32_less [of c] by simp_all
  define n where "n = unat b * 4294967296 + unat c"
  have n: "be_nat (indexToBytes b c) = n" using l by (simp add: indexToBytes_def be_nat_append n_def)
  have "n < 2 ^ LENGTH(64)" using l by (simp add: n_def)
  then have w: "unat (of_nat n :: u64) = n" unfolding unat_of_nat by simp
  have d: "n div 4294967296 = unat b" "n mod 4294967296 = unat c" using l by (simp_all add: n_def)
  have "unat (drop_bit 32 (of_nat n :: u64)) = unat b"
    unfolding unat_drop_bit_eq w by (simp add: drop_bit_eq_div d)
  then have "ucast (drop_bit 32 (of_nat n :: u64)) = b"
    by (intro word_unat_eq_iff [THEN iffD2]) (use l in \<open>simp add: unsigned_ucast_eq take_bit_eq_mod\<close>)
  moreover have "ucast (of_nat n :: u64) = c"
    unfolding word_unat_eq_iff unsigned_ucast_eq w by (simp add: take_bit_eq_mod d)
  moreover have "length (indexToBytes b c) = 8" by (simp add: indexToBytes_def)
  ultimately show ?thesis using n by (simp add: BucketIndexFromBytes_def IndexFromBytes_def)
qed

lemma length_indexToBytes [simp]: "length (indexToBytes b c) = 8"
  by (simp add: indexToBytes_def)

lemma indexToBytes_inj [simp]: "indexToBytes b c = indexToBytes b' c' \<longleftrightarrow> b = b' \<and> c = c'"
  by (metis BucketIndexFromBytes_indexToBytes option.inject prod.inject)

section \<open>The issuer invariant\<close>

definition issuer_ok :: "stampIssuerData \<Rightarrow> bool" where
  "issuer_ok d \<longleftrightarrow> length (sd_BatchID d) = 32 \<and> sd_BucketDepth d \<le> 32 \<and> sd_BucketDepth d \<le> sd_BatchDepth d \<and>
     unat (sd_BatchDepth d) < unat (sd_BucketDepth d) + 32 \<and>
     length (sd_Buckets d) = 2 ^ unat (sd_BucketDepth d) \<and> (\<forall>b\<in>set (sd_Buckets d). b \<le> BucketUpperBound d)"

lemma unat_BucketUpperBound:
  "issuer_ok d \<Longrightarrow> unat (BucketUpperBound d) = 2 ^ (unat (sd_BatchDepth d) - unat (sd_BucketDepth d))"
proof -
  assume ok: "issuer_ok d"
  let ?k = "unat (sd_BatchDepth d) - unat (sd_BucketDepth d)"
  have k: "unat (sd_BatchDepth d - sd_BucketDepth d) = ?k" "?k < 32"
    using ok by (auto simp: issuer_ok_def unat_sub)
  have "unat (push_bit ?k (1 :: u32)) = 2 ^ ?k mod 2 ^ 32"
    unfolding unsigned_push_bit_eq by (simp add: take_bit_eq_mod push_bit_eq_mult)
  also have "\<dots> = 2 ^ ?k" using k(2) power_strict_increasing [of ?k 32 "2 :: nat"] by (intro mod_less) simp
  finally show ?thesis using k(1) by (simp add: BucketUpperBound_def)
qed

lemma increment_fail: "increment d addr now = (Inl e, d') \<Longrightarrow> d' = d"
  by (auto simp: increment_def Let_def split: option.splits if_splits)

lemma increment_ok:
  assumes "increment d addr now = (Inr (ix, ts), d')" "issuer_ok d"
  obtains b c where "toBucket (sd_BucketDepth d) addr = Some b" "unat b < length (sd_Buckets d)"
    "ix = indexToBytes b c" "ts = unixTime now" "c < BucketUpperBound d"
    "sd_ImmutableFlag d \<Longrightarrow> c = sd_Buckets d ! unat b"
    "sd_Buckets d' = (sd_Buckets d)[unat b := c + 1]" "unat (c + 1) = unat c + 1"
    "\<exists>n. d' = d\<lparr>sd_Buckets := sd_Buckets d', sd_MaxBucketCount := n\<rparr>" "issuer_ok d'"
proof -
  obtain b where b: "toBucket (sd_BucketDepth d) addr = Some b" "unat b < length (sd_Buckets d)"
    using assms(1) by (fastforce simp: increment_def split: option.splits if_splits)
  define c where "c = (if sd_Buckets d ! unat b = BucketUpperBound d then 0 else sd_Buckets d ! unat b)"
  let ?bs = "(sd_Buckets d)[unat b := c + 1]"
  have self: "d\<lparr>sd_Buckets := ?bs, sd_MaxBucketCount := sd_MaxBucketCount d\<rparr> = d\<lparr>sd_Buckets := ?bs\<rparr>" by (cases d) simp
  have inc: "increment d addr now =
    (if sd_Buckets d ! unat b = BucketUpperBound d \<and> sd_ImmutableFlag d then (Inl ErrBucketFull, d)
     else (Inr (indexToBytes b c, unixTime now),
       if c + 1 > sd_MaxBucketCount d then d\<lparr>sd_Buckets := ?bs, sd_MaxBucketCount := c + 1\<rparr> else d\<lparr>sd_Buckets := ?bs\<rparr>))"
    using b by (simp add: increment_def c_def Let_def)
  have nf: "\<not> (sd_Buckets d ! unat b = BucketUpperBound d \<and> sd_ImmutableFlag d)" using assms(1) unfolding inc by auto
  have r: "ix = indexToBytes b c" "ts = unixTime now"
    "d' = (if c + 1 > sd_MaxBucketCount d then d\<lparr>sd_Buckets := ?bs, sd_MaxBucketCount := c + 1\<rparr> else d\<lparr>sd_Buckets := ?bs\<rparr>)"
    using assms(1) nf unfolding inc by simp_all
  have bs: "sd_Buckets d' = ?bs" unfolding r(3) by simp
  have ex: "\<exists>n. d' = d\<lparr>sd_Buckets := sd_Buckets d', sd_MaxBucketCount := n\<rparr>"
  proof (cases "c + 1 > sd_MaxBucketCount d")
    case True
    then have "d' = d\<lparr>sd_Buckets := ?bs, sd_MaxBucketCount := c + 1\<rparr>" using r(3) by simp
    then show ?thesis unfolding bs by blast
  next
    case False
    then have "d' = d\<lparr>sd_Buckets := ?bs, sd_MaxBucketCount := sd_MaxBucketCount d\<rparr>" using r(3) self by simp
    then show ?thesis unfolding bs by blast
  qed
  have im: "sd_ImmutableFlag d \<Longrightarrow> c = sd_Buckets d ! unat b" using nf by (simp add: c_def)
  have le: "sd_Buckets d ! unat b \<le> BucketUpperBound d" using assms(2) b(2) by (auto simp: issuer_ok_def)
  have pos: "0 < unat (BucketUpperBound d)" using unat_BucketUpperBound [OF assms(2)] by simp
  have c: "c < BucketUpperBound d" using le pos by (auto simp: c_def word_less_nat_alt word_le_nat_alt word_unat_eq_iff)
  then have u: "unat (c + 1) = unat c + 1"
    using u32_less [of "BucketUpperBound d"] by (simp add: unat_word_ariths word_less_nat_alt)
  have "c + 1 \<le> BucketUpperBound d" using c u by (simp add: word_less_nat_alt word_le_nat_alt)
  moreover obtain n where "d' = d\<lparr>sd_Buckets := ?bs, sd_MaxBucketCount := n\<rparr>" using ex bs by auto
  ultimately have "issuer_ok d'"
    using assms(2) set_update_subset_insert [of "sd_Buckets d" "unat b" "c + 1"]
    by (auto simp: issuer_ok_def BucketUpperBound_def)
  with that [OF b r(1,2) c im bs u ex] show thesis by blast
qed

section \<open>The record of issued stamps\<close>

definition item_at :: "leveldb \<Rightarrow> bytes \<Rightarrow> address \<Rightarrow> StampItem option" where
  "item_at db bid addr =
     (case st_kv db (item_key stampItem_Namespace (bytes_str bid @ ''/'' @ addr_String addr)) of
        None \<Rightarrow> None
      | Some bs \<Rightarrow> (case stampItem_Unmarshal bs of Inl _ \<Rightarrow> None | Inr it \<Rightarrow> Some it))"

definition item_ok :: "stampIssuerData \<Rightarrow> address \<Rightarrow> StampItem \<Rightarrow> bool" where
  "item_ok d addr it \<longleftrightarrow> stampItem_ok it \<and> si_BatchID it = sd_BatchID d \<and> si_chunkAddress it = addr \<and>
     (\<exists>b c. toBucket (sd_BucketDepth d) addr = Some b \<and> si_BatchIndex it = indexToBytes b c \<and>
        c < BucketUpperBound d \<and> (sd_ImmutableFlag d \<longrightarrow> c < sd_Buckets d ! unat b))"

definition stamper_inv :: "stamper \<Rightarrow> bool" where
  "stamper_inv st \<longleftrightarrow> (let d = stm_issuer st; at = item_at (stm_store st) (sd_BatchID d) in
     issuer_ok d \<and> (\<forall>a it. at a = Some it \<longrightarrow> item_ok d a it) \<and>
     (sd_ImmutableFlag d \<longrightarrow>
        (\<forall>a a' it it'. at a = Some it \<and> at a' = Some it' \<and> si_BatchIndex it = si_BatchIndex it' \<longrightarrow> a = a')))"

lemma item_at_cong: "st_kv db = st_kv db' \<Longrightarrow> item_at db = item_at db'"
  by (simp add: item_at_def fun_eq_iff)

lemma stampItem_Get_db: "stampItem_Get db it = (r, db') \<Longrightarrow> st_kv db' = st_kv db"
  using ls_Get_db by (fastforce simp: stampItem_Get_def)

lemma stampItem_Get_value:
  assumes "stampItem_Get db it = (r, db')"
  shows "r = Inr x \<Longrightarrow> item_at db (si_BatchID it) (si_chunkAddress it) = Some x"
    "r = Inl ItemNotFound \<Longrightarrow> item_at db (si_BatchID it) (si_chunkAddress it) = None"
proof -
  note v = ls_Get_value [OF assms [unfolded stampItem_Get_def]]
  show "item_at db (si_BatchID it) (si_chunkAddress it) = Some x" if r: "r = Inr x"
  proof -
    obtain w where "st_kv db (item_key stampItem_Namespace (stampItem_ID it)) = Some w"
      "(case stampItem_Unmarshal w of Inl _ \<Rightarrow> None | Inr x \<Rightarrow> Some x) = Some x"
      using v(1) [OF r] by blast
    then show ?thesis by (simp add: item_at_def stampItem_ID_def split: sum.splits)
  qed
  show "r = Inl ItemNotFound \<Longrightarrow> item_at db (si_BatchID it) (si_chunkAddress it) = None"
    using v(2) by (simp add: item_at_def stampItem_ID_def)
qed

lemma stampItem_Put_ok:
  assumes "stampItem_Put db it = (Inr u, db')" "length (si_BatchIndex it) = 8" "length (si_BatchTimestamp it) = 8"
  shows "stampItem_ok it" "item_at db' (si_BatchID it) = (item_at db (si_BatchID it))(si_chunkAddress it \<mapsto> it)"
proof -
  obtain v where m: "(case stampItem_Marshal it of Inl _ \<Rightarrow> None | Inr bs \<Rightarrow> Some bs) = Some v"
    and kv: "st_kv db' = (st_kv db)(item_key stampItem_Namespace (stampItem_ID it) \<mapsto> v)"
    using ls_Put_ok [OF assms(1) [unfolded stampItem_Put_def]] by blast
  show ok: "stampItem_ok it" using m assms(2,3) by (auto simp: stampItem_ok_def stampItem_Marshal_def stamp_sizes split: if_splits)
  have "stampItem_Unmarshal v = Inr it" using m stampItem_Marshal_ok [OF ok] stampItem_Unmarshal_ok [OF ok] by simp
  then show "item_at db' (si_BatchID it) = (item_at db (si_BatchID it))(si_chunkAddress it \<mapsto> it)"
    by (auto simp: item_at_def kv stampItem_ID_def addr_String_def hex_encode_inj fun_eq_iff)
qed

lemma stampItem_Put_fail: "stampItem_Put db it = (Inl e, db') \<Longrightarrow> st_kv db' = st_kv db"
  using ls_Put_fail by (fastforce simp: stampItem_Put_def)

section \<open>Issuing stamps\<close>

definition issuer_same :: "stampIssuerData \<Rightarrow> stampIssuerData \<Rightarrow> bool" where
  "issuer_same d d' \<longleftrightarrow> sd_BatchID d' = sd_BatchID d \<and> sd_BatchDepth d' = sd_BatchDepth d \<and>
     sd_BucketDepth d' = sd_BucketDepth d \<and> sd_ImmutableFlag d' = sd_ImmutableFlag d"

lemma issuer_same_refl [simp]: "issuer_same d d"
  by (simp add: issuer_same_def)

lemma issuer_same_bound: "issuer_same d d' \<Longrightarrow> BucketUpperBound d' = BucketUpperBound d"
  by (simp add: issuer_same_def BucketUpperBound_def)

lemma increment_keeps:
  assumes "increment d addr now = (Inr (ix, ts), d')" "issuer_ok d"
  shows "issuer_same d d'" "issuer_ok d'" "item_ok d a it \<Longrightarrow> item_ok d' a it"
proof -
  obtain b c where i: "toBucket (sd_BucketDepth d) addr = Some b" "unat b < length (sd_Buckets d)"
    "c < BucketUpperBound d" "sd_ImmutableFlag d \<Longrightarrow> c = sd_Buckets d ! unat b"
    "sd_Buckets d' = (sd_Buckets d)[unat b := c + 1]" "unat (c + 1) = unat c + 1"
    "\<exists>n. d' = d\<lparr>sd_Buckets := sd_Buckets d', sd_MaxBucketCount := n\<rparr>" "issuer_ok d'"
    using increment_ok [OF assms] by metis
  obtain X n where "d' = d\<lparr>sd_Buckets := X, sd_MaxBucketCount := n\<rparr>" using i(7) by blast
  then show s: "issuer_same d d'" by (simp add: issuer_same_def)
  show "issuer_ok d'" by (rule i(8))
  have "sd_Buckets d ! k \<le> sd_Buckets d' ! k" if "sd_ImmutableFlag d" for k
    using i(2,4,5,6) that by (auto simp: nth_list_update word_le_nat_alt)
  then show "item_ok d' a it" if "item_ok d a it"
    using that s by (auto simp: item_ok_def issuer_same_def issuer_same_bound [OF s] intro: less_le_trans)
qed

text \<open>The new index is not one of the recorded ones.\<close>

lemma increment_fresh:
  assumes "increment d addr now = (Inr (ix, ts), d')" "issuer_ok d" "sd_ImmutableFlag d" "item_ok d a it"
  shows "si_BatchIndex it \<noteq> ix"
proof -
  obtain b c where "ix = indexToBytes b c" "c = sd_Buckets d ! unat b"
    using increment_ok [OF assms(1,2)] assms(3) by metis
  then show ?thesis using assms(3,4) by (auto simp: item_ok_def)
qed

lemma increment_item:
  assumes "increment d addr now = (Inr (ix, ts), d')" "issuer_ok d" "length addr = 32"
  shows "item_ok d' addr \<lparr>si_BatchID = sd_BatchID d, si_chunkAddress = addr, si_BatchIndex = ix, si_BatchTimestamp = ts\<rparr>"
proof -
  obtain b c where i: "toBucket (sd_BucketDepth d) addr = Some b" "unat b < length (sd_Buckets d)"
    "ix = indexToBytes b c" "ts = unixTime now" "c < BucketUpperBound d"
    "sd_Buckets d' = (sd_Buckets d)[unat b := c + 1]" "unat (c + 1) = unat c + 1"
    using increment_ok [OF assms(1,2)] by metis
  have s: "issuer_same d d'" using increment_keeps(1) [OF assms(1,2)] .
  have "c < sd_Buckets d' ! unat b" using i(2,6,7) by (simp add: word_less_nat_alt)
  then show ?thesis
    using i(1,3,4,5) s assms(2,3) issuer_same_bound [OF s]
    by (auto simp: item_ok_def stampItem_ok_def issuer_same_def issuer_ok_def unixTime_def)
qed

lemma sign_stamp_ok:
  "sign_stamp C st addr it = (r, st') \<Longrightarrow> st' = st \<and> (\<forall>s. r = Inr s \<longrightarrow>
     s_batchID s = sd_BatchID (stm_issuer st) \<and> s_index s = si_BatchIndex it \<and> s_timestamp s = si_BatchTimestamp it \<and>
     sc_Sign C (ToSignDigest C addr (s_batchID s) (s_index s) (s_timestamp s)) = Some (s_sig s))"
  by (auto simp: sign_stamp_def split: option.splits)

text \<open>What a call of \<open>Stamp\<close> can do: change nothing, use up an index without recording it, or record an
  item and return its stamp (or fail to sign it).\<close>

definition signed :: "stamp_crypto \<Rightarrow> bytes \<Rightarrow> address \<Rightarrow> StampItem \<Rightarrow> Stamp \<Rightarrow> bool" where
  "signed C bid addr it s \<longleftrightarrow> s_batchID s = bid \<and> s_index s = si_BatchIndex it \<and> s_timestamp s = si_BatchTimestamp it \<and>
     sc_Sign C (ToSignDigest C addr (s_batchID s) (s_index s) (s_timestamp s)) = Some (s_sig s)"

lemma stamper_Stamp_cases:
  assumes "stamper_Stamp C st addr now = (r, st')" "stamper_inv st"
  obtains
    (lost) e where "r = Inl e" "item_at (stm_store st') = item_at (stm_store st)" "stm_issuer st' = stm_issuer st \<or>
      (\<exists>ix ts. increment (stm_issuer st) addr now = (Inr (ix, ts), stm_issuer st'))"
  | (again) it it' where "item_at (stm_store st) (sd_BatchID (stm_issuer st)) addr = Some it"
      "it' = it\<lparr>si_BatchTimestamp := unixTime now\<rparr>" "stm_issuer st' = stm_issuer st"
      "item_at (stm_store st') (sd_BatchID (stm_issuer st)) =
         (item_at (stm_store st) (sd_BatchID (stm_issuer st)))(addr \<mapsto> it')"
      "\<forall>s. r = Inr s \<longrightarrow> signed C (sd_BatchID (stm_issuer st)) addr it' s"
  | (fresh) ix ts it' where "item_at (stm_store st) (sd_BatchID (stm_issuer st)) addr = None"
      "increment (stm_issuer st) addr now = (Inr (ix, ts), stm_issuer st')" "length addr = 32"
      "it' = \<lparr>si_BatchID = sd_BatchID (stm_issuer st), si_chunkAddress = addr, si_BatchIndex = ix, si_BatchTimestamp = ts\<rparr>"
      "item_at (stm_store st') (sd_BatchID (stm_issuer st)) =
         (item_at (stm_store st) (sd_BatchID (stm_issuer st)))(addr \<mapsto> it')"
      "\<forall>s. r = Inr s \<longrightarrow> signed C (sd_BatchID (stm_issuer st)) addr it' s"
proof -
  let ?d = "stm_issuer st"
  let ?it = "\<lparr>si_BatchID = sd_BatchID ?d, si_chunkAddress = addr, si_BatchIndex = [], si_BatchTimestamp = []\<rparr> :: StampItem"
  obtain q db where g: "stampItem_Get (stm_store st) ?it = (q, db)" by fastforce
  have db: "item_at db = item_at (stm_store st)" using stampItem_Get_db [OF g] by (rule item_at_cong)
  have ok: "issuer_ok ?d" and items: "\<And>a it. item_at (stm_store st) (sd_BatchID ?d) a = Some it \<Longrightarrow> item_ok ?d a it"
    using assms(2) by (auto simp: stamper_inv_def Let_def)
  consider (E) e where "q = Inl e" "e \<noteq> ItemNotFound" | (N) "q = Inl ItemNotFound" | (F) it where "q = Inr it"
    by (cases q) auto
  then show thesis
  proof cases
    case (E e)
    then have "r = Inl (ErrStampStore e)" "st' = st\<lparr>stm_store := db\<rparr>"
      using assms(1) g by (cases e; auto simp: stamper_Stamp_def Let_def)+
    then show thesis using lost db by simp
  next
    case (F it)
    have it: "item_at (stm_store st) (sd_BatchID ?d) addr = Some it" using stampItem_Get_value(1) [OF g F] by simp
    let ?i = "it\<lparr>si_BatchTimestamp := unixTime now\<rparr>"
    note io = items [OF it]
    obtain p db' where p: "stampItem_Put db ?i = (p, db')" by fastforce
    show thesis
    proof (cases p)
      case (Inl e)
      then have "r = Inl (ErrStampStore e)" "st' = st\<lparr>stm_store := db'\<rparr>"
        using assms(1) g F p by (auto simp: stamper_Stamp_def stamper_put_def Let_def)
      moreover have "item_at db' = item_at (stm_store st)"
        using item_at_cong [OF stampItem_Put_fail [OF p [unfolded Inl]]] db by simp
      ultimately show thesis using lost by simp
    next
      case (Inr u)
      then have sg: "sign_stamp C (st\<lparr>stm_store := db'\<rparr>) addr ?i = (r, st')"
        using assms(1) g F p by (simp add: stamper_Stamp_def stamper_put_def Let_def)
      have "item_at db' (sd_BatchID ?d) = (item_at (stm_store st) (sd_BatchID ?d))(addr \<mapsto> ?i)"
        using stampItem_Put_ok(2) [OF p [unfolded Inr]] io db
        by (simp add: item_ok_def stampItem_ok_def unixTime_def)
      then show thesis using sign_stamp_ok [OF sg] by (intro again [OF it refl]) (auto simp: signed_def)
    qed
  next
    case N
    have none: "item_at (stm_store st) (sd_BatchID ?d) addr = None" using stampItem_Get_value(2) [OF g N] by simp
    obtain z d' where inc: "increment ?d addr now = (z, d')" by fastforce
    show thesis
    proof (cases z)
      case (Inl e)
      then have "r = Inl e" "st' = st\<lparr>stm_store := db, stm_issuer := d'\<rparr>"
        using assms(1) g N inc by (auto simp: stamper_Stamp_def Let_def)
      then show thesis using lost [of e] increment_fail [OF inc [unfolded Inl]] db by simp
    next
      case (Inr zz)
      obtain ix ts where zz: "zz = (ix, ts)" by fastforce
      note inc' = inc [unfolded Inr zz]
      let ?i = "\<lparr>si_BatchID = sd_BatchID ?d, si_chunkAddress = addr, si_BatchIndex = ix, si_BatchTimestamp = ts\<rparr> :: StampItem"
      obtain p db' where p: "stampItem_Put db ?i = (p, db')" by fastforce
      show thesis
      proof (cases p)
        case (Inl e)
        then have "r = Inl (ErrStampStore e)" "st' = st\<lparr>stm_issuer := d', stm_store := db'\<rparr>"
          using assms(1) g N p inc' by (auto simp: stamper_Stamp_def stamper_put_def Let_def)
        moreover have "item_at db' = item_at (stm_store st)"
          using item_at_cong [OF stampItem_Put_fail [OF p [unfolded Inl]]] db by simp
        ultimately show thesis using lost inc' by simp
      next
        case (Inr u)
        then have sg: "sign_stamp C (st\<lparr>stm_issuer := d', stm_store := db'\<rparr>) addr ?i = (r, st')"
          using assms(1) g N p inc' by (simp add: stamper_Stamp_def stamper_put_def Let_def)
        obtain b c where "ix = indexToBytes b c" "ts = unixTime now" using increment_ok [OF inc' ok] by metis
        then have l: "length (si_BatchIndex ?i) = 8" "length (si_BatchTimestamp ?i) = 8" by (simp_all add: unixTime_def)
        note po = stampItem_Put_ok [OF p [unfolded Inr] l]
        have len: "length addr = 32" using po(1) by (simp add: stampItem_ok_def)
        note so = sign_stamp_ok [OF sg]
        have bid: "sd_BatchID d' = sd_BatchID ?d" using increment_keeps(1) [OF inc' ok] by (simp add: issuer_same_def)
        show thesis
          by (rule fresh [OF none _ len refl]) (use so po(2) inc' db bid in \<open>auto simp: signed_def\<close>)
      qed
    qed
  qed
qed

lemma stamper_Stamp_inv:
  assumes "stamper_Stamp C st addr now = (r, st')" "stamper_inv st"
  shows "stamper_inv st'" "issuer_same (stm_issuer st) (stm_issuer st')"
    "item_at (stm_store st) (sd_BatchID (stm_issuer st)) a = Some it \<Longrightarrow>
       \<exists>it'. item_at (stm_store st') (sd_BatchID (stm_issuer st)) a = Some it' \<and> si_BatchIndex it' = si_BatchIndex it"
    "r = Inr s \<Longrightarrow> \<exists>it. item_at (stm_store st') (sd_BatchID (stm_issuer st)) addr = Some it \<and>
       signed C (sd_BatchID (stm_issuer st)) addr it s"
proof -
  let ?d = "stm_issuer st" and ?at = "item_at (stm_store st) (sd_BatchID (stm_issuer st))"
  have ok: "issuer_ok ?d" and items: "\<And>a it. ?at a = Some it \<Longrightarrow> item_ok ?d a it"
    and uniq: "sd_ImmutableFlag ?d \<Longrightarrow> ?at a = Some x \<Longrightarrow> ?at b = Some y \<Longrightarrow> si_BatchIndex x = si_BatchIndex y \<Longrightarrow> a = b" for a b x y
    using assms(2) by (auto simp: stamper_inv_def Let_def)
  have "stamper_inv st' \<and> issuer_same ?d (stm_issuer st') \<and>
    (?at a = Some it \<longrightarrow> (\<exists>it'. item_at (stm_store st') (sd_BatchID ?d) a = Some it' \<and> si_BatchIndex it' = si_BatchIndex it)) \<and>
    (r = Inr s \<longrightarrow> (\<exists>it. item_at (stm_store st') (sd_BatchID ?d) addr = Some it \<and> signed C (sd_BatchID ?d) addr it s))"
    using assms
  proof (cases rule: stamper_Stamp_cases)
    case (lost e)
    have "issuer_same ?d (stm_issuer st') \<and> issuer_ok (stm_issuer st') \<and> (\<forall>a it. item_ok ?d a it \<longrightarrow> item_ok (stm_issuer st') a it)"
      using lost(3) increment_keeps [of ?d addr now _ _ "stm_issuer st'"] ok by auto
    then show ?thesis using lost(1,2) items uniq by (auto simp: stamper_inv_def issuer_same_def Let_def)
  next
    case (again i i')
    have "item_ok ?d addr i'" using items [OF again(1)] again(2) by (auto simp: item_ok_def stampItem_ok_def unixTime_def)
    moreover have ix: "si_BatchIndex i' = si_BatchIndex i" using again(2) by simp
    ultimately have "stamper_inv st'"
      unfolding stamper_inv_def Let_def again(3,4) using ok items uniq again(1)
      by (auto split: if_splits)
    then show ?thesis using again ix by auto
  next
    case (fresh ix ts i')
    note k = increment_keeps [OF fresh(2) ok]
    have i': "item_ok (stm_issuer st') addr i'" using increment_item [OF fresh(2) ok fresh(3)] fresh(4) by simp
    have new: "si_BatchIndex x \<noteq> ix" if "sd_ImmutableFlag ?d" "?at b = Some x" for b x
      using increment_fresh [OF fresh(2) ok that(1)] items [OF that(2)] by blast
    have "sd_BatchID (stm_issuer st') = sd_BatchID ?d" "sd_ImmutableFlag (stm_issuer st') = sd_ImmutableFlag ?d"
      using k(1) by (simp_all add: issuer_same_def)
    then have "stamper_inv st'"
      unfolding stamper_inv_def Let_def using fresh(5) k(2,3) i' items uniq new fresh(4)
      by (auto split: if_splits dest: new [THEN not_sym])
    then show ?thesis using fresh(1,5,6) k(1) by auto
  qed
  then show "stamper_inv st'" "issuer_same ?d (stm_issuer st')"
    "?at a = Some it \<Longrightarrow> \<exists>it'. item_at (stm_store st') (sd_BatchID ?d) a = Some it' \<and> si_BatchIndex it' = si_BatchIndex it"
    "r = Inr s \<Longrightarrow> \<exists>it. item_at (stm_store st') (sd_BatchID ?d) addr = Some it \<and> signed C (sd_BatchID ?d) addr it s"
    by blast+
qed

section \<open>Sessions\<close>

text \<open>A stamper at work: it issues stamps, the depth of its batch is increased, and the shared store
  changes under keys of other items.\<close>

record stamp_session =
  ss_stamper :: stamper
  ss_issued :: "(address \<times> Stamp) list"

inductive stamp_step :: "stamp_crypto \<Rightarrow> stamp_session \<Rightarrow> stamp_session \<Rightarrow> bool" for C where
  issue: "stamper_Stamp C (ss_stamper s) addr now = (r, st') \<Longrightarrow>
    stamp_step C s (s\<lparr>ss_stamper := st', ss_issued := ss_issued s @ (case r of Inl _ \<Rightarrow> [] | Inr x \<Rightarrow> [(addr, x)])\<rparr>)"
| dilute: "sd_BatchDepth (stm_issuer (ss_stamper s)) < newDepth \<Longrightarrow>
    unat newDepth < unat (sd_BucketDepth (stm_issuer (ss_stamper s))) + 32 \<Longrightarrow>
    stamp_step C s (s\<lparr>ss_stamper := (ss_stamper s)\<lparr>stm_issuer := (stm_issuer (ss_stamper s))\<lparr>sd_BatchDepth := newDepth\<rparr>\<rparr>\<rparr>)"
| others: "item_at db (sd_BatchID (stm_issuer (ss_stamper s))) =
      item_at (stm_store (ss_stamper s)) (sd_BatchID (stm_issuer (ss_stamper s))) \<Longrightarrow>
    stamp_step C s (s\<lparr>ss_stamper := (ss_stamper s)\<lparr>stm_store := db\<rparr>\<rparr>)"

definition issued_ok :: "stamp_crypto \<Rightarrow> stamper \<Rightarrow> address \<Rightarrow> Stamp \<Rightarrow> bool" where
  "issued_ok C st a x \<longleftrightarrow> s_batchID x = sd_BatchID (stm_issuer st) \<and>
     (\<exists>it. item_at (stm_store st) (sd_BatchID (stm_issuer st)) a = Some it \<and> si_BatchIndex it = s_index x) \<and>
     sc_Sign C (ToSignDigest C a (s_batchID x) (s_index x) (s_timestamp x)) = Some (s_sig x)"

definition session_inv :: "stamp_crypto \<Rightarrow> bytes \<Rightarrow> u8 \<Rightarrow> bool \<Rightarrow> stamp_session \<Rightarrow> bool" where
  "session_inv C bid bd imm s \<longleftrightarrow> stamper_inv (ss_stamper s) \<and> sd_BatchID (stm_issuer (ss_stamper s)) = bid \<and>
     sd_BucketDepth (stm_issuer (ss_stamper s)) = bd \<and> sd_ImmutableFlag (stm_issuer (ss_stamper s)) = imm \<and>
     (\<forall>(a, x) \<in> set (ss_issued s). issued_ok C (ss_stamper s) a x)"

lemma issuer_ok_dilute:
  assumes "issuer_ok d" "sd_BatchDepth d < n" "unat n < unat (sd_BucketDepth d) + 32"
  shows "issuer_ok (d\<lparr>sd_BatchDepth := n\<rparr>)" "BucketUpperBound d \<le> BucketUpperBound (d\<lparr>sd_BatchDepth := n\<rparr>)"
proof -
  let ?d = "d\<lparr>sd_BatchDepth := n\<rparr>"
  have lt: "unat (sd_BucketDepth d) \<le> unat (sd_BatchDepth d)" "unat (sd_BatchDepth d) < unat n"
    using assms(1,2) by (simp_all add: issuer_ok_def word_le_nat_alt word_less_nat_alt)
  have shell: "issuer_ok (?d\<lparr>sd_Buckets := replicate (2 ^ unat (sd_BucketDepth d)) 0\<rparr>)"
    using assms lt by (simp add: issuer_ok_def word_le_nat_alt)
  have "unat (BucketUpperBound ?d) = 2 ^ (unat n - unat (sd_BucketDepth d))"
    using unat_BucketUpperBound [OF shell] by (simp add: BucketUpperBound_def)
  moreover have "(2 :: nat) ^ (unat (sd_BatchDepth d) - unat (sd_BucketDepth d)) \<le> 2 ^ (unat n - unat (sd_BucketDepth d))"
    using lt by (intro power_increasing) auto
  ultimately show le: "BucketUpperBound d \<le> BucketUpperBound ?d"
    using unat_BucketUpperBound [OF assms(1)] by (simp add: word_le_nat_alt)
  show "issuer_ok ?d" using assms le lt by (auto simp: issuer_ok_def word_le_nat_alt intro: order_trans)
qed

lemma session_inv_step:
  assumes "stamp_step C s s'" "session_inv C bid bd imm s"
  shows "session_inv C bid bd imm s'"
  using assms
proof (cases rule: stamp_step.cases)
  case (issue addr now r st')
  have inv: "stamper_inv (ss_stamper s)" "sd_BatchID (stm_issuer (ss_stamper s)) = bid" using assms(2) by (simp_all add: session_inv_def)
  note e = stamper_Stamp_inv [OF issue(2) inv(1)]
  have same: "sd_BatchID (stm_issuer st') = bid" using e(2) inv(2) by (simp add: issuer_same_def)
  have old: "issued_ok C st' a x" if "issued_ok C (ss_stamper s) a x" for a x
    using that e(3) [of a] same inv(2) by (fastforce simp: issued_ok_def)
  have new: "issued_ok C st' addr x" if "r = Inr x" for x
    using e(4) [OF that] same inv(2) by (auto simp: issued_ok_def signed_def)
  show ?thesis
    using assms(2) e(1,2) old new issue(1) by (auto simp: session_inv_def issuer_same_def split: sum.splits)
next
  case (dilute newDepth)
  let ?d = "stm_issuer (ss_stamper s)"
  have inv: "stamper_inv (ss_stamper s)" using assms(2) by (simp add: session_inv_def)
  then have "issuer_ok ?d" by (simp add: stamper_inv_def Let_def)
  note d = issuer_ok_dilute [OF this dilute(2,3)]
  have "item_ok ?d a it \<Longrightarrow> item_ok (?d\<lparr>sd_BatchDepth := newDepth\<rparr>) a it" for a it
    using d(2) by (auto simp: item_ok_def intro: less_le_trans)
  then have "stamper_inv ((ss_stamper s)\<lparr>stm_issuer := ?d\<lparr>sd_BatchDepth := newDepth\<rparr>\<rparr>)"
    using inv d(1) unfolding stamper_inv_def Let_def by simp
  then show ?thesis using assms(2) dilute(1) by (auto simp: session_inv_def issued_ok_def)
next
  case (others db)
  then show ?thesis using assms(2) by (auto simp: session_inv_def issued_ok_def stamper_inv_def Let_def)
qed

definition session_fresh :: "bytes \<Rightarrow> u8 \<Rightarrow> bool \<Rightarrow> stamp_session \<Rightarrow> bool" where
  "session_fresh bid bd imm s \<longleftrightarrow> length bid = 32 \<and> bd \<le> 32 \<and> ss_issued s = [] \<and>
     (\<forall>a. item_at (stm_store (ss_stamper s)) bid a = None) \<and>
     (\<exists>label key amount depth block. bd \<le> depth \<and> unat depth < unat bd + 32 \<and>
        stm_issuer (ss_stamper s) = NewStampIssuer label key bid amount depth bd block imm)"

lemma session_fresh_inv:
  assumes "session_fresh bid bd imm s"
  shows "session_inv C bid bd imm s"
proof -
  obtain label key amount depth block where d: "bd \<le> depth" "unat depth < unat bd + 32"
    "stm_issuer (ss_stamper s) = NewStampIssuer label key bid amount depth bd block imm"
    using assms by (auto simp: session_fresh_def)
  have bd: "unat bd \<le> 32" using assms by (simp add: session_fresh_def word_le_nat_alt)
  have "(2 :: int) ^ unat bd \<le> 2 ^ 32" using bd by (intro power_increasing) auto
  moreover have "- (2 ^ 63) \<le> (2 :: int) ^ unat bd" by (rule order_trans [of _ 0]) auto
  ultimately have "nat (int64_of (2 ^ unat bd)) = 2 ^ unat bd" by (subst int64_of_id) (simp_all add: nat_power_eq)
  then have "issuer_ok (stm_issuer (ss_stamper s))"
    using d assms by (auto simp: issuer_ok_def NewStampIssuer_def session_fresh_def)
  then show ?thesis
    using assms d(3) by (auto simp: session_inv_def stamper_inv_def session_fresh_def NewStampIssuer_def Let_def)
qed

lemma session_reachable: "(stamp_step C)\<^sup>*\<^sup>* s0 s \<Longrightarrow> session_inv C bid bd imm s0 \<Longrightarrow> session_inv C bid bd imm s"
  by (induction rule: rtranclp_induct) (auto intro: session_inv_step)

text \<open>C4: whatever is stamped, in whatever order and with whatever failures of the store and the signer,
  a new issuer of an immutable batch never gives the same index to two different chunks.\<close>

theorem stamps_unique:
  assumes "session_fresh bid bd True s0" "(stamp_step C)\<^sup>*\<^sup>* s0 s"
    "(a, x) \<in> set (ss_issued s)" "(b, y) \<in> set (ss_issued s)" "s_index x = s_index y"
  shows "a = b"
proof -
  have inv: "session_inv C bid bd True s" using session_reachable [OF assms(2) session_fresh_inv [OF assms(1)]] .
  then have io: "issued_ok C (ss_stamper s) a x" "issued_ok C (ss_stamper s) b y"
    and "sd_BatchID (stm_issuer (ss_stamper s)) = bid" using assms(3,4) by (auto simp: session_inv_def)
  then obtain it it' where "item_at (stm_store (ss_stamper s)) bid a = Some it" "si_BatchIndex it = s_index x"
    "item_at (stm_store (ss_stamper s)) bid b = Some it'" "si_BatchIndex it' = s_index y"
    by (auto simp: issued_ok_def)
  with inv assms(5) show ?thesis by (auto simp: session_inv_def stamper_inv_def Let_def)
qed

text \<open>C7: every stamp issued in a session is valid for its chunk, against the owner whose key signs and the
  current depth of the batch.\<close>

theorem stamps_valid:
  assumes "session_fresh bid bd imm s0" "(stamp_step C)\<^sup>*\<^sup>* s0 s" "(a, x) \<in> set (ss_issued s)"
    and signer: "\<And>digest sig. sc_Sign C digest = Some sig \<Longrightarrow> sc_RecoverAddress C sig digest = Some owner"
  shows "stamp_Valid C x a owner (sd_BatchDepth (stm_issuer (ss_stamper s))) bd = None"
proof -
  let ?d = "stm_issuer (ss_stamper s)"
  have inv: "session_inv C bid bd imm s" using session_reachable [OF assms(2) session_fresh_inv [OF assms(1)]] .
  then have io: "issued_ok C (ss_stamper s) a x" using assms(3) by (auto simp: session_inv_def)
  then obtain it where it: "item_at (stm_store (ss_stamper s)) (sd_BatchID ?d) a = Some it" "si_BatchIndex it = s_index x"
    by (auto simp: issued_ok_def)
  have "item_ok ?d a it" using inv it(1) by (auto simp: session_inv_def stamper_inv_def Let_def)
  then obtain b c where bc: "toBucket bd a = Some b" "s_index x = indexToBytes b c" "c < BucketUpperBound ?d"
    using inv it(2) by (auto simp: item_ok_def session_inv_def)
  have "RecoverBatchOwner C a x = Some owner"
    using io signer by (auto simp: RecoverBatchOwner_def issued_ok_def)
  then show ?thesis using bc inv by (auto simp: stamp_Valid_def BucketUpperBound_def session_inv_def)
qed

section \<open>Progress\<close>

definition all_decode :: "leveldb \<Rightarrow> bytes \<Rightarrow> bool" where
  "all_decode db bid \<longleftrightarrow> (\<forall>a. item_at db bid a = None \<longrightarrow>
     st_kv db (item_key stampItem_Namespace (bytes_str bid @ ''/'' @ addr_String a)) = None)"

definition stamper_healthy :: "stamp_crypto \<Rightarrow> stamper \<Rightarrow> bool" where
  "stamper_healthy C st \<longleftrightarrow> (\<forall>n. \<not> st_fault (stm_store st) n) \<and> (\<forall>d. sc_Sign C d \<noteq> None) \<and>
     all_decode (stm_store st) (sd_BatchID (stm_issuer st))"

lemma healthy_stampItem_Get:
  assumes "stamper_healthy C st"
  shows "\<exists>db. stampItem_Get (stm_store st) \<lparr>si_BatchID = sd_BatchID (stm_issuer st), si_chunkAddress = addr,
      si_BatchIndex = [], si_BatchTimestamp = []\<rparr> =
    (case item_at (stm_store st) (sd_BatchID (stm_issuer st)) addr of None \<Rightarrow> Inl ItemNotFound | Some it \<Rightarrow> Inr it, db) \<and>
    (\<forall>n. \<not> st_fault db n)"
proof (cases "item_at (stm_store st) (sd_BatchID (stm_issuer st)) addr")
  case None
  then have "st_kv (stm_store st) (item_key stampItem_Namespace (bytes_str (sd_BatchID (stm_issuer st)) @ ''/'' @ addr_String addr)) = None"
    using assms by (simp add: stamper_healthy_def all_decode_def)
  with assms None show ?thesis
    by (simp add: stampItem_Get_def ls_Get_def st_defs stamper_healthy_def stampItem_ID_def)
next
  case (Some it)
  then show ?thesis using assms
    by (auto simp: stampItem_Get_def ls_Get_def st_defs stamper_healthy_def stampItem_ID_def item_at_def
        split: option.splits sum.splits)
qed

lemma healthy_stampItem_Put:
  assumes "\<forall>n. \<not> st_fault db n" "stampItem_ok it" "all_decode db (si_BatchID it)"
  shows "\<exists>db'. stampItem_Put db it = (Inr (), db') \<and> (\<forall>n. \<not> st_fault db' n) \<and> all_decode db' (si_BatchID it)"
proof -
  obtain db' where p: "stampItem_Put db it = (Inr (), db')" "\<forall>n. \<not> st_fault db' n"
    using assms(1) stampItem_Marshal_ok [OF assms(2)] by (simp add: stampItem_Put_def ls_Put_def st_defs)
  have at: "item_at db' (si_BatchID it) = (item_at db (si_BatchID it))(si_chunkAddress it \<mapsto> it)"
    using stampItem_Put_ok(2) [OF p(1)] assms(2) by (simp add: stampItem_ok_def)
  obtain v where "st_kv db' = (st_kv db)(item_key stampItem_Namespace (stampItem_ID it) \<mapsto> v)"
    using ls_Put_ok [OF p(1) [unfolded stampItem_Put_def]] by blast
  then have "all_decode db' (si_BatchID it)"
    using assms(3) at by (auto simp: all_decode_def stampItem_ID_def addr_String_def hex_encode_inj)
  with p show ?thesis by blast
qed

lemma healthy_sign:
  assumes "stamper_healthy C st"
  shows "\<exists>s. sign_stamp C st' addr it = (Inr s, st')"
proof -
  obtain g where "sc_Sign C (ToSignDigest C addr (sd_BatchID (stm_issuer st')) (si_BatchIndex it) (si_BatchTimestamp it)) = Some g"
    using assms unfolding stamper_healthy_def by blast
  then show ?thesis by (simp add: sign_stamp_def)
qed

lemma increment_outcome:
  assumes "issuer_ok d" "4 \<le> length addr" "increment d addr now = (r, d')"
  shows "(\<exists>ix ts. r = Inr (ix, ts)) \<or>
    (r = Inl ErrBucketFull \<and> sd_ImmutableFlag d \<and>
      (\<exists>b. toBucket (sd_BucketDepth d) addr = Some b \<and> sd_Buckets d ! unat b = BucketUpperBound d))"
proof -
  obtain b where b: "toBucket (sd_BucketDepth d) addr = Some b" using assms(2) by (simp add: toBucket_def)
  have "unat b < length (sd_Buckets d)"
    using toBucket_bound [OF b] assms(1) by (simp add: issuer_ok_def)
  then show ?thesis using assms(3) b by (auto simp: increment_def Let_def split: if_splits)
qed

lemma stamper_Stamp_outcome:
  assumes "stamper_inv st" "stamper_healthy C st" "length addr = 32"
  shows "(\<exists>s st'. stamper_Stamp C st addr now = (Inr s, st') \<and> stamper_healthy C st') \<or>
    (fst (stamper_Stamp C st addr now) = Inl ErrBucketFull \<and> sd_ImmutableFlag (stm_issuer st) \<and>
     item_at (stm_store st) (sd_BatchID (stm_issuer st)) addr = None \<and>
     (\<exists>b. toBucket (sd_BucketDepth (stm_issuer st)) addr = Some b \<and>
        sd_Buckets (stm_issuer st) ! unat b = BucketUpperBound (stm_issuer st)))"
proof -
  let ?d = "stm_issuer st"
  have ok: "issuer_ok ?d" using assms(1) by (simp add: stamper_inv_def Let_def)
  have sg: "sc_Sign C x \<noteq> None" for x using assms(2) by (simp add: stamper_healthy_def)
  obtain db where g: "stampItem_Get (stm_store st) \<lparr>si_BatchID = sd_BatchID ?d, si_chunkAddress = addr,
      si_BatchIndex = [], si_BatchTimestamp = []\<rparr> =
    (case item_at (stm_store st) (sd_BatchID ?d) addr of None \<Rightarrow> Inl ItemNotFound | Some it \<Rightarrow> Inr it, db)"
    and db: "\<forall>n. \<not> st_fault db n" using healthy_stampItem_Get [OF assms(2)] by blast
  have ad: "all_decode db (sd_BatchID ?d)"
    using assms(2) stampItem_Get_db [OF g] item_at_cong [of db "stm_store st"] by (simp add: stamper_healthy_def all_decode_def)
  show ?thesis
  proof (cases "item_at (stm_store st) (sd_BatchID ?d) addr")
    case (Some it)
    let ?i = "it\<lparr>si_BatchTimestamp := unixTime now\<rparr>"
    have io: "item_ok ?d addr it" using assms(1) Some by (simp add: stamper_inv_def Let_def)
    then have "stampItem_ok ?i" "si_BatchID ?i = sd_BatchID ?d" by (auto simp: item_ok_def stampItem_ok_def unixTime_def)
    then obtain db' where p: "stampItem_Put db ?i = (Inr (), db')" "\<forall>n. \<not> st_fault db' n" "all_decode db' (sd_BatchID ?d)"
      using healthy_stampItem_Put [OF db, of ?i] ad by auto
    have "stamper_healthy C (st\<lparr>stm_store := db'\<rparr>)" using p sg by (simp add: stamper_healthy_def)
    then show ?thesis
      using g Some p(1) healthy_sign [OF assms(2), of "st\<lparr>stm_store := db'\<rparr>" addr ?i]
      by (auto simp: stamper_Stamp_def stamper_put_def Let_def)
  next
    case None
    obtain r d' where inc: "increment ?d addr now = (r, d')" by fastforce
    consider (I) ix ts where "r = Inr (ix, ts)" | (F) "r = Inl ErrBucketFull" "sd_ImmutableFlag ?d"
      "\<exists>b. toBucket (sd_BucketDepth ?d) addr = Some b \<and> sd_Buckets ?d ! unat b = BucketUpperBound ?d"
      using increment_outcome [OF ok _ inc] assms(3) by auto
    then show ?thesis
    proof cases
      case (I ix ts)
      let ?i = "\<lparr>si_BatchID = sd_BatchID ?d, si_chunkAddress = addr, si_BatchIndex = ix, si_BatchTimestamp = ts\<rparr> :: StampItem"
      have "stampItem_ok ?i"
        using increment_item [OF inc [unfolded I] ok assms(3)] unfolding item_ok_def by blast
      then obtain db' where p: "stampItem_Put db ?i = (Inr (), db')" "\<forall>n. \<not> st_fault db' n" "all_decode db' (sd_BatchID ?d)"
        using healthy_stampItem_Put [OF db, of ?i] ad by auto
      have "sd_BatchID d' = sd_BatchID ?d" using increment_keeps(1) [OF inc [unfolded I] ok] by (simp add: issuer_same_def)
      then have "stamper_healthy C (st\<lparr>stm_issuer := d', stm_store := db'\<rparr>)" using p sg by (simp add: stamper_healthy_def)
      then show ?thesis
        using g None p(1) I inc healthy_sign [OF assms(2), of "st\<lparr>stm_issuer := d', stm_store := db'\<rparr>" addr ?i]
        by (auto simp: stamper_Stamp_def stamper_put_def Let_def)
    next
      case F
      then show ?thesis using g None inc by (simp add: stamper_Stamp_def Let_def)
    qed
  qed
qed

text \<open>Without failures of the store or the signer, \<open>Stamp\<close> returns a stamp for every chunk address,
  except for a chunk that has none yet when its bucket of an immutable batch is full.\<close>

lemma stamper_progress:
  assumes "stamper_inv st" "stamper_healthy C st" "length addr = 32"
  shows "(\<exists>s st'. stamper_Stamp C st addr now = (Inr s, st')) \<or>
    (fst (stamper_Stamp C st addr now) = Inl ErrBucketFull \<and> sd_ImmutableFlag (stm_issuer st) \<and>
     item_at (stm_store st) (sd_BatchID (stm_issuer st)) addr = None \<and>
     (\<exists>b. toBucket (sd_BucketDepth (stm_issuer st)) addr = Some b \<and>
        sd_Buckets (stm_issuer st) ! unat b = BucketUpperBound (stm_issuer st)))"
  using stamper_Stamp_outcome [OF assms] by blast

section \<open>A concrete session\<close>

definition demo_crypto :: stamp_crypto where
  "demo_crypto = \<lparr>sc_hash = (\<lambda>bs. bs), sc_Sign = Some, sc_RecoverAddress = (\<lambda>sig d. if sig = d then Some [1] else None)\<rparr>"

definition demo_stamper :: "bool \<Rightarrow> stamper" where
  "demo_stamper imm = \<lparr>stm_store = \<lparr>st_kv = Map.empty, st_keys = [], st_tick = 0, st_fault = (\<lambda>_. False)\<rparr>,
     stm_issuer = NewStampIssuer ''l'' ''k'' (replicate 32 9) 5 2 1 7 imm\<rparr>"

definition demo_session0 :: "bool \<Rightarrow> stamp_session" where
  "demo_session0 imm = \<lparr>ss_stamper = demo_stamper imm, ss_issued = []\<rparr>"

lemma demo_fresh: "session_fresh (replicate 32 9) 1 imm (demo_session0 imm)"
  by (auto simp: session_fresh_def demo_session0_def demo_stamper_def item_at_def word_le_nat_alt intro!: exI)

lemma demo_stamper_ok: "stamper_inv (demo_stamper imm)" "stamper_healthy demo_crypto (demo_stamper imm)"
  using session_fresh_inv [OF demo_fresh]
  by (simp_all add: session_inv_def demo_session0_def stamper_healthy_def demo_stamper_def demo_crypto_def all_decode_def)

lemma demo_to_bucket: "toBucket 1 (replicate 32 3) = Some 0" "toBucket 1 (replicate 32 4) = Some 0"
proof -
  have t: "take 4 (replicate 32 x) = [x, x, x, x]" for x :: byte
    by (simp add: eval_nat_numeral)
  have s: "unat (32 - 1 :: u8) = 31" by simp
  show "toBucket 1 (replicate 32 3) = Some 0" "toBucket 1 (replicate 32 4) = Some 0"
    unfolding toBucket_def t s by (simp_all add: drop_bit_eq_div)
qed

lemma demo_first:
  obtains x st where "stamper_Stamp demo_crypto (demo_stamper True) (replicate 32 3) 100 = (Inr x, st)"
    "stamper_healthy demo_crypto st" "stamper_inv st" "sd_BucketDepth (stm_issuer st) = 1"
    "sd_Buckets (stm_issuer st) ! 0 \<noteq> BucketUpperBound (stm_issuer st)"
proof -
  let ?d = "stm_issuer (demo_stamper True)"
  have d: "sd_Buckets ?d ! 0 = 0" "BucketUpperBound ?d = 2" "sd_BucketDepth ?d = 1" "length (sd_Buckets ?d) = 2"
    by (simp_all add: demo_stamper_def NewStampIssuer_def BucketUpperBound_def int64_of_def)
  then obtain x st where x: "stamper_Stamp demo_crypto (demo_stamper True) (replicate 32 3) 100 = (Inr x, st)"
    "stamper_healthy demo_crypto st"
    using stamper_Stamp_outcome [OF demo_stamper_ok, of "replicate 32 3" True 100] demo_to_bucket(1) by auto
  note inv = stamper_Stamp_inv(1,2) [OF x(1) demo_stamper_ok(1)]
  have ok: "issuer_ok ?d" using demo_stamper_ok(1) by (simp add: stamper_inv_def Let_def)
  have "sd_Buckets (stm_issuer st) ! 0 = 1"
    using x(1) demo_stamper_ok(1)
  proof (cases rule: stamper_Stamp_cases)
    case (fresh ix ts it')
    obtain b c where b: "toBucket (sd_BucketDepth ?d) (replicate 32 3) = Some b"
      "sd_Buckets (stm_issuer st) = (sd_Buckets ?d)[unat b := c + 1]" "c < BucketUpperBound ?d"
      "sd_ImmutableFlag ?d \<Longrightarrow> c = sd_Buckets ?d ! unat b"
      using increment_ok [OF fresh(2) ok] by metis
    moreover have "sd_ImmutableFlag ?d" by (simp add: demo_stamper_def NewStampIssuer_def)
    ultimately show ?thesis using d demo_to_bucket(1) by simp
  qed (auto simp: demo_stamper_def item_at_def)
  then show thesis
    using that [OF x inv(1)] inv(2) d issuer_same_bound [OF inv(2)] by (simp add: issuer_same_def)
qed

theorem stamps_valid_witness:
  "\<exists>x st. stamper_Stamp demo_crypto (demo_stamper True) (replicate 32 3) 100 = (Inr x, st) \<and>
     stamp_Valid demo_crypto x (replicate 32 3) [1] (sd_BatchDepth (stm_issuer st)) 1 = None"
proof -
  obtain x st where x: "stamper_Stamp demo_crypto (demo_stamper True) (replicate 32 3) 100 = (Inr x, st)"
    using demo_first by metis
  let ?s = "\<lparr>ss_stamper = st, ss_issued = [(replicate 32 3, x)]\<rparr>"
  have "stamp_step demo_crypto (demo_session0 True) ?s"
    using stamp_step.issue [of demo_crypto "demo_session0 True" "replicate 32 3" 100 "Inr x" st] x by (simp add: demo_session0_def)
  then have "(stamp_step demo_crypto)\<^sup>*\<^sup>* (demo_session0 True) ?s" by blast
  from stamps_valid [OF demo_fresh this, of "replicate 32 3" x "[1]"] x show ?thesis
    by (simp add: demo_crypto_def)
qed

text \<open>Two chunks of the same bucket get different indexes.\<close>

theorem stamps_unique_witness:
  "\<exists>x st y st'. stamper_Stamp demo_crypto (demo_stamper True) (replicate 32 3) 100 = (Inr x, st) \<and>
     stamper_Stamp demo_crypto st (replicate 32 4) 101 = (Inr y, st') \<and> s_index x \<noteq> s_index y"
proof -
  obtain x st where x: "stamper_Stamp demo_crypto (demo_stamper True) (replicate 32 3) 100 = (Inr x, st)"
    "stamper_healthy demo_crypto st" "stamper_inv st" "sd_BucketDepth (stm_issuer st) = 1"
    "sd_Buckets (stm_issuer st) ! 0 \<noteq> BucketUpperBound (stm_issuer st)"
    using demo_first by metis
  obtain y st' where y: "stamper_Stamp demo_crypto st (replicate 32 4) 101 = (Inr y, st')"
    using stamper_Stamp_outcome [OF x(3,2), of "replicate 32 4" 101] x(4,5) demo_to_bucket(2) by auto
  let ?s = "\<lparr>ss_stamper = st, ss_issued = [(replicate 32 3, x)]\<rparr>"
  let ?t = "\<lparr>ss_stamper = st', ss_issued = [(replicate 32 3, x), (replicate 32 4, y)]\<rparr>"
  have "stamp_step demo_crypto (demo_session0 True) ?s"
    using stamp_step.issue [of demo_crypto "demo_session0 True" "replicate 32 3" 100 "Inr x" st] x by (simp add: demo_session0_def)
  moreover have "stamp_step demo_crypto ?s ?t"
    using stamp_step.issue [of demo_crypto ?s "replicate 32 4" 101 "Inr y" st'] y by simp
  ultimately have "(stamp_step demo_crypto)\<^sup>*\<^sup>* (demo_session0 True) ?t" by (meson converse_rtranclp_into_rtranclp r_into_rtranclp)
  from stamps_unique [OF demo_fresh this, of "replicate 32 3" x "replicate 32 4" y] x(1) y show ?thesis
    by (auto simp: replicate_eq_replicate)
qed

text \<open>The 113-byte form of a stamp is a bijection: every well-formed stamp is read back from it, and
  every 113-byte string is the serialisation of the stamp read from it; other lengths are refused.\<close>

lemma stamp_roundtrip:
  "(stamp_ok s \<longrightarrow> (\<exists>bs. stamp_MarshalBinary s = Inr bs \<and> length bs = 113 \<and> stamp_UnmarshalBinary bs = Inr s)) \<and>
   (length bs = 113 \<longrightarrow> (\<exists>t. stamp_UnmarshalBinary bs = Inr t \<and> stamp_ok t \<and> stamp_MarshalBinary t = Inr bs)) \<and>
   (length bs \<noteq> 113 \<longrightarrow> stamp_UnmarshalBinary bs = Inl ErrStampInvalid)"
proof (intro conjI impI)
  assume "stamp_ok s"
  then show "\<exists>bs. stamp_MarshalBinary s = Inr bs \<and> length bs = 113 \<and> stamp_UnmarshalBinary bs = Inr s"
    using stamp_MarshalBinary_ok by (auto simp: stamp_ok_def stamp_UnmarshalBinary_def stamp_sizes slice_def)
next
  assume l: "length bs = 113"
  let ?t = "\<lparr>s_batchID = slice 0 32 bs, s_index = slice 32 40 bs, s_timestamp = slice 40 48 bs, s_sig = drop 48 bs\<rparr>"
  have ok: "stamp_ok ?t" using l by (simp add: stamp_ok_def)
  have "slice 40 48 bs @ drop 48 bs = drop 40 bs" "slice 32 40 bs @ drop 40 bs = drop 32 bs" "slice 0 32 bs @ drop 32 bs = bs"
    using append_take_drop_id [of 8 "drop 40 bs"] append_take_drop_id [of 8 "drop 32 bs"] by (simp_all add: slice_def)
  then have "stamp_MarshalBinary ?t = Inr bs" using stamp_MarshalBinary_ok [OF ok] by simp
  then show "\<exists>t. stamp_UnmarshalBinary bs = Inr t \<and> stamp_ok t \<and> stamp_MarshalBinary t = Inr bs"
    using l ok by (simp add: stamp_UnmarshalBinary_def stamp_sizes)
qed (simp add: stamp_UnmarshalBinary_def stamp_sizes)

end
