(* ===== verification/PostageService.thy ===== *)
theory PostageService
  imports Stamps
begin

text \<open>
  The postage service, \<open>pkg/postage/service.go\<close>: the active stamp issuers, kept in memory and saved
  in the item store. An issuer is serialised by the msgpack package, which is the record
  \<open>issuer_codec\<close>. The issuers are pointers in the code; the operations that change one through its
  pointer change the element of the list. Deletions that the code hands to a goroutine are done in
  the order in which they are handed over.
\<close>

section \<open>Operations\<close>

record issuer_codec =
  ic_Marshal :: "stampIssuerData \<Rightarrow> bytes option"
  ic_Unmarshal :: "bytes \<Rightarrow> stampIssuerData option"

record postage_service =
  ps_store :: leveldb
  ps_issuers :: "stampIssuerData list"

definition blockThreshold :: u64 where "blockThreshold = 10"

definition stampIssuerItem_Namespace :: string where "stampIssuerItem_Namespace = ''StampIssuerItem''"

definition stampIssuerItem_ID :: "stampIssuerData \<Rightarrow> string" where
  "stampIssuerItem_ID st = bytes_str (sd_BatchID st)"

definition service_add :: "postage_service \<Rightarrow> stampIssuerData \<Rightarrow> bool \<times> postage_service" where
  "service_add ps st =
     (if \<exists>v\<in>set (ps_issuers ps). sd_BatchID v = sd_BatchID st then (False, ps)
      else (True, ps\<lparr>ps_issuers := ps_issuers ps @ [st]\<rparr>))"

definition service_save :: "issuer_codec \<Rightarrow> postage_service \<Rightarrow> stampIssuerData \<Rightarrow> (unit item_error + unit) \<times> postage_service" where
  "service_save K ps st =
     (case ls_Put (ps_store ps) stampIssuerItem_Namespace (stampIssuerItem_ID st) (ic_Marshal K st) of
        (r, db) \<Rightarrow> (r, ps\<lparr>ps_store := db\<rparr>))"

definition service_Add :: "issuer_codec \<Rightarrow> postage_service \<Rightarrow> stampIssuerData \<Rightarrow> (unit item_error + unit) \<times> postage_service" where
  "service_Add K ps st =
     (case service_add ps st of
        (False, ps) \<Rightarrow> (Inr (), ps)
      | (True, ps) \<Rightarrow> service_save K ps st)"

definition NewService :: "issuer_codec \<Rightarrow> leveldb \<Rightarrow> unit item_error list \<times> postage_service" where
  "NewService K db =
     (case ls_Iterate db (plain_query stampIssuerItem_Namespace (ic_Unmarshal K) [])
             (\<lambda>result ps. (Inr False, case r_Entry result of None \<Rightarrow> ps | Some issuer \<Rightarrow> snd (service_add ps issuer)))
             \<lparr>ps_store = db, ps_issuers = []\<rparr> of
        (errs, ps, db) \<Rightarrow> (errs, ps\<lparr>ps_store := db\<rparr>))"

definition HandleCreate :: "issuer_codec \<Rightarrow> postage_service \<Rightarrow> Batch \<Rightarrow> int \<Rightarrow> (unit item_error + unit) \<times> postage_service" where
  "HandleCreate K ps b amount =
     service_Add K ps (NewStampIssuer ''recovered'' (bytes_str (b_Owner b)) (b_ID b) amount (b_Depth b) (b_BucketDepth b)
       (b_Start b) (b_Immutable b))"

text \<open>Changing the first issuer of a batch.\<close>

fun first_issuer :: "(stampIssuerData \<Rightarrow> stampIssuerData) \<Rightarrow> bytes \<Rightarrow> stampIssuerData list \<Rightarrow> stampIssuerData list" where
  "first_issuer f bid [] = []"
| "first_issuer f bid (v # vs) = (if sd_BatchID v = bid then f v # vs else v # first_issuer f bid vs)"

definition HandleTopUp :: "postage_service \<Rightarrow> bytes \<Rightarrow> int \<Rightarrow> postage_service" where
  "HandleTopUp ps batchID amount =
     ps\<lparr>ps_issuers := first_issuer (\<lambda>v. v\<lparr>sd_BatchAmount := sd_BatchAmount v + amount\<rparr>) batchID (ps_issuers ps)\<rparr>"

definition HandleDepthIncrease :: "postage_service \<Rightarrow> bytes \<Rightarrow> u8 \<Rightarrow> postage_service" where
  "HandleDepthIncrease ps batchID newDepth =
     ps\<lparr>ps_issuers := first_issuer (\<lambda>v. if newDepth > sd_BatchDepth v then v\<lparr>sd_BatchDepth := newDepth\<rparr> else v)
          batchID (ps_issuers ps)\<rparr>"

definition StampIssuers :: "postage_service \<Rightarrow> stampIssuerData list" where
  "StampIssuers ps = ps_issuers ps"

definition IssuerUsable :: "ChainState \<Rightarrow> stampIssuerData \<Rightarrow> bool" where
  "IssuerUsable cs st \<longleftrightarrow>
     \<not> (cs_Block cs < sd_BlockNumber st \<or> cs_Block cs - sd_BlockNumber st < blockThreshold)"

definition GetStampIssuer :: "postage_service \<Rightarrow> ChainState \<Rightarrow> bytes \<Rightarrow> postage_error + stampIssuerData" where
  "GetStampIssuer ps cs batchID =
     (case find (\<lambda>st. sd_BatchID st = batchID) (ps_issuers ps) of
        None \<Rightarrow> Inl ErrStampNotFound
      | Some st \<Rightarrow> if \<not> IssuerUsable cs st then Inl ErrNotUsable else Inr st)"

fun save_all :: "issuer_codec \<Rightarrow> postage_service \<Rightarrow> stampIssuerData list \<Rightarrow> unit item_error list \<times> postage_service" where
  "save_all K ps [] = ([], ps)"
| "save_all K ps (issuer # is) =
     (case service_save K ps issuer of
        (Inl e, ps) \<Rightarrow> (case save_all K ps is of (errs, ps) \<Rightarrow> (e # errs, ps))
      | (Inr _, ps) \<Rightarrow> save_all K ps is)"

definition ps_Close :: "issuer_codec \<Rightarrow> postage_service \<Rightarrow> unit item_error list \<times> postage_service" where
  "ps_Close K ps = save_all K ps (ps_issuers ps)"

fun remove_first :: "bytes \<Rightarrow> stampIssuerData list \<Rightarrow> stampIssuerData list" where
  "remove_first bid [] = []"
| "remove_first bid (v # vs) = (if sd_BatchID v = bid then vs else v # remove_first bid vs)"

definition removeIssuer :: "postage_service \<Rightarrow> bytes \<Rightarrow> (unit item_error + bool) \<times> postage_service" where
  "removeIssuer ps batchID =
     (case find (\<lambda>st. sd_BatchID st = batchID) (ps_issuers ps) of
        None \<Rightarrow> (Inr False, ps)
      | Some issuer \<Rightarrow>
          (case ls_Delete (ps_store ps) stampIssuerItem_Namespace (stampIssuerItem_ID issuer) of
             (Inl e, db) \<Rightarrow> (Inl e, ps\<lparr>ps_store := db\<rparr>)
           | (Inr _, db) \<Rightarrow> (Inr True, ps\<lparr>ps_store := db, ps_issuers := remove_first batchID (ps_issuers ps)\<rparr>)))"

fun delete_items :: "leveldb \<Rightarrow> StampItem list \<Rightarrow> leveldb" where
  "delete_items db [] = db"
| "delete_items db (it # its) =
     delete_items (snd (ls_Delete db stampItem_Namespace (stampItem_ID it) :: (unit item_error + unit) \<times> leveldb)) its"

definition stampItem_decode :: "bytes \<Rightarrow> StampItem option" where
  "stampItem_decode bs = (case stampItem_Unmarshal bs of Inl _ \<Rightarrow> None | Inr it \<Rightarrow> Some it)"

definition removeStampItems :: "postage_service \<Rightarrow> bytes \<Rightarrow> unit item_error list \<times> postage_service" where
  "removeStampItems ps batchID =
     (case ls_Iterate (ps_store ps) (plain_query stampItem_Namespace stampItem_decode (bytes_str batchID))
             (\<lambda>result its. (Inr False, case r_Entry result of None \<Rightarrow> its | Some it \<Rightarrow> its @ [it])) [] of
        (errs, its, db) \<Rightarrow> (errs, ps\<lparr>ps_store := delete_items db its\<rparr>))"

definition ps_HandleStampExpiry :: "postage_service \<Rightarrow> bytes \<Rightarrow> unit item_error list \<times> postage_service" where
  "ps_HandleStampExpiry ps i =
     (case removeIssuer ps i of
        (Inl e, ps) \<Rightarrow> ([e], ps)
      | (Inr False, ps) \<Rightarrow> ([], ps)
      | (Inr True, ps) \<Rightarrow> removeStampItems ps i)"

section \<open>Invariant\<close>

definition issuer_key :: "bytes \<Rightarrow> string" where
  "issuer_key bid = item_key stampIssuerItem_Namespace (bytes_str bid)"

text \<open>No two issuers have the same batch, and every saved issuer is an active one.\<close>

definition ps_inv :: "postage_service \<Rightarrow> bool" where
  "ps_inv ps \<longleftrightarrow> st_ok (ps_store ps) \<and> distinct (map sd_BatchID (ps_issuers ps)) \<and>
     (\<forall>k. prefix (stampIssuerItem_Namespace @ separator) k \<and> st_kv (ps_store ps) k \<noteq> None \<longrightarrow>
        k \<in> (issuer_key \<circ> sd_BatchID) ` set (ps_issuers ps))"

lemma issuer_key_inj [simp]: "issuer_key a = issuer_key b \<longleftrightarrow> a = b"
  by (simp add: issuer_key_def)

lemma first_issuer_ids:
  "(\<And>v. sd_BatchID (f v) = sd_BatchID v) \<Longrightarrow> map sd_BatchID (first_issuer f bid vs) = map sd_BatchID vs"
  by (induction vs) auto

lemma remove_first_ids: "map sd_BatchID (remove_first bid vs) = remove1 bid (map sd_BatchID vs)"
  by (induction vs) auto

lemma ids_image: "(issuer_key \<circ> sd_BatchID) ` set vs = issuer_key ` set (map sd_BatchID vs)"
  by (simp add: image_comp)

lemma service_add_inv: "ps_inv ps \<Longrightarrow> ps_inv (snd (service_add ps st))"
  by (auto simp: service_add_def ps_inv_def)

lemma service_save_inv:
  assumes "service_save K ps st = (r, ps')" "ps_inv ps" "sd_BatchID st \<in> sd_BatchID ` set (ps_issuers ps)"
  shows "ps_inv ps'" "ps_issuers ps' = ps_issuers ps"
    "r = Inr u \<Longrightarrow> \<exists>v. ic_Marshal K st = Some v \<and> st_kv (ps_store ps') = (st_kv (ps_store ps))(issuer_key (sd_BatchID st) \<mapsto> v)"
    "r = Inl e \<Longrightarrow> st_kv (ps_store ps') = st_kv (ps_store ps)"
proof -
  obtain db where p: "ls_Put (ps_store ps) stampIssuerItem_Namespace (stampIssuerItem_ID st) (ic_Marshal K st) = (r, db)"
    and ps': "ps' = ps\<lparr>ps_store := db\<rparr>" using assms(1) by (auto simp: service_save_def split: prod.splits)
  show "r = Inr u \<Longrightarrow> \<exists>v. ic_Marshal K st = Some v \<and> st_kv (ps_store ps') = (st_kv (ps_store ps))(issuer_key (sd_BatchID st) \<mapsto> v)"
    "r = Inl e \<Longrightarrow> st_kv (ps_store ps') = st_kv (ps_store ps)" "ps_issuers ps' = ps_issuers ps"
    using ls_Put_ok [of "ps_store ps" stampIssuerItem_Namespace "stampIssuerItem_ID st" "ic_Marshal K st" u db]
      ls_Put_fail [of "ps_store ps" stampIssuerItem_Namespace "stampIssuerItem_ID st" "ic_Marshal K st" e db] p ps'
    by (auto simp: issuer_key_def stampIssuerItem_ID_def)
  have "st_ok db \<and> (st_kv db = st_kv (ps_store ps) \<or> (\<exists>v. st_kv db = (st_kv (ps_store ps))(issuer_key (sd_BatchID st) \<mapsto> v)))"
  proof (cases r)
    case (Inl e)
    then show ?thesis using ls_Put_fail [OF p [unfolded Inl]] assms(2) by (simp add: ps_inv_def)
  next
    case (Inr w)
    then show ?thesis using ls_Put_ok [OF p [unfolded Inr]] assms(2)
      by (auto simp: ps_inv_def issuer_key_def stampIssuerItem_ID_def)
  qed
  then show "ps_inv ps'" using assms(2,3) ps' by (auto simp: ps_inv_def split: if_splits)
qed

lemma service_Add_inv: "ps_inv ps \<Longrightarrow> service_Add K ps st = (r, ps') \<Longrightarrow> ps_inv ps'"
  using service_save_inv(1) [of K "ps\<lparr>ps_issuers := ps_issuers ps @ [st]\<rparr>" st r ps'] service_add_inv [of ps st]
  by (auto simp: service_Add_def service_add_def split: if_splits)

lemma removeIssuer_inv:
  assumes "removeIssuer ps bid = (r, ps')" "ps_inv ps"
  shows "ps_inv ps'"
proof (cases "find (\<lambda>st. sd_BatchID st = bid) (ps_issuers ps)")
  case None
  then show ?thesis using assms by (simp add: removeIssuer_def)
next
  case (Some st)
  then have st: "sd_BatchID st = bid" by (auto simp: find_Some_iff)
  obtain q db where d: "ls_Delete (ps_store ps) stampIssuerItem_Namespace (stampIssuerItem_ID st) = (q :: unit item_error + unit, db)"
    by fastforce
  show ?thesis
  proof (cases q)
    case (Inl e)
    then show ?thesis using assms Some d ls_Delete_fail [OF d [unfolded Inl]] by (auto simp: removeIssuer_def ps_inv_def)
  next
    case (Inr u)
    have "st_kv db = (st_kv (ps_store ps))(issuer_key bid := None) \<and> (st_ok (ps_store ps) \<longrightarrow> st_ok db)"
      using ls_Delete_ok [OF _ d [unfolded Inr]] st
      by (simp add: stampIssuerItem_Namespace_def issuer_key_def stampIssuerItem_ID_def)
    moreover have "ps' = ps\<lparr>ps_store := db, ps_issuers := remove_first bid (ps_issuers ps)\<rparr>"
      using assms(1) Some d Inr by (simp add: removeIssuer_def)
    ultimately show ?thesis
      using assms(2) unfolding ps_inv_def ids_image by (auto simp: remove_first_ids)
  qed
qed

text \<open>Two issuers never have the same batch, and every saved issuer is one of the active ones:
  adding, the batch events and expiry all keep this, whether or not the store fails.\<close>

lemma ps_inv_preserved:
  assumes "ps_inv ps"
  shows "ps_inv (snd (service_Add K ps st)) \<and> ps_inv (snd (HandleCreate K ps b amount)) \<and>
    ps_inv (HandleTopUp ps bid amount) \<and> ps_inv (HandleDepthIncrease ps bid d) \<and> ps_inv (snd (removeIssuer ps bid))"
proof -
  have f: "ps_inv (ps\<lparr>ps_issuers := first_issuer f bid (ps_issuers ps)\<rparr>)" if "\<And>v. sd_BatchID (f v) = sd_BatchID v" for f
    using assms first_issuer_ids [OF that] unfolding ps_inv_def ids_image by simp
  have "ps_inv (HandleTopUp ps bid amount)" "ps_inv (HandleDepthIncrease ps bid d)"
    unfolding HandleTopUp_def HandleDepthIncrease_def by (rule f; simp)+
  moreover have "ps_inv (snd (service_Add K ps x))" for x using service_Add_inv [OF assms] by (metis prod.collapse)
  moreover have "ps_inv (snd (removeIssuer ps bid))" using removeIssuer_inv [OF _ assms] by (metis prod.collapse)
  ultimately show ?thesis by (simp add: HandleCreate_def)
qed

section \<open>Expiry\<close>

definition items_decode :: "leveldb \<Rightarrow> bool" where
  "items_decode db \<longleftrightarrow> (\<forall>k v. prefix (stampItem_Namespace @ separator) k \<and> st_kv db k = Some v \<longrightarrow>
     (\<exists>it. stampItem_decode v = Some it \<and> k = item_key stampItem_Namespace (stampItem_ID it)))"

lemma delete_items_healthy:
  assumes "\<forall>n. \<not> st_fault db n" "st_ok db"
  shows "st_kv (delete_items db its) = st_kv db |` (- item_key stampItem_Namespace ` stampItem_ID ` set its) \<and> st_ok (delete_items db its)"
  using assms
proof (induction its arbitrary: db)
  case (Cons it its)
  obtain db1 where d: "ls_Delete db stampItem_Namespace (stampItem_ID it) = (Inr () :: unit item_error + unit, db1)" "\<forall>n. \<not> st_fault db1 n"
    using Cons.prems by (simp add: ls_Delete_def st_defs)
  have k: "st_kv db1 = (st_kv db)(item_key stampItem_Namespace (stampItem_ID it) := None)" "st_ok db1"
    using ls_Delete_ok [OF _ d(1)] Cons.prems by (simp_all add: stampItem_Namespace_def)
  then show ?case using Cons.IH [OF d(2) k(2)] d(1) by (auto simp: restrict_map_def fun_eq_iff)
qed (simp add: restrict_map_def)

lemma fold_collect: "fold (\<lambda>(k, v) its. case u v of None \<Rightarrow> its | Some it \<Rightarrow> its @ [it]) es acc = acc @ List.map_filter (u \<circ> snd) es"
  by (induction es arbitrary: acc) (auto simp: map_filter_def split: option.splits)

lemma plain_entries:
  assumes "query_entries db (plain_query ns u pre) = (Inr es, db')" "st_ok db" "ns \<noteq> []"
  shows "set es = {(k, v). st_kv db k = Some v \<and> prefix (ns @ separator @ pre) k}" "distinct (map fst es)"
    "st_kv db' = st_kv db" "st_ok db'" "st_fault db' = st_fault db"
proof -
  have es: "es = map (\<lambda>k. (k, the (st_kv db k))) (filter (prefix (ns @ separator @ pre)) (st_keys db))"
    and db': "db' = db\<lparr>st_tick := Suc (st_tick db)\<rparr>"
    using assms(1,3) by (auto simp: query_entries_def st_Iterate_def st_step_def split: if_splits)
  show "set es = {(k, v). st_kv db k = Some v \<and> prefix (ns @ separator @ pre) k}" "distinct (map fst es)"
    using assms(2) unfolding es by (auto simp: st_ok_def comp_def)
  show "st_kv db' = st_kv db" "st_ok db'" "st_fault db' = st_fault db" using db' assms(2) by (simp_all add: st_ok_def)
qed

lemma removeStampItems_healthy:
  assumes "\<forall>n. \<not> st_fault (ps_store ps) n" "st_ok (ps_store ps)" "items_decode (ps_store ps)"
  shows "\<exists>db. removeStampItems ps bid = ([], ps\<lparr>ps_store := db\<rparr>) \<and>
    st_kv db = st_kv (ps_store ps) |` {k. \<not> prefix (stampItem_Namespace @ separator @ bytes_str bid) k}"
proof -
  let ?db = "ps_store ps" and ?q = "plain_query stampItem_Namespace stampItem_decode (bytes_str bid)"
  have ns: "stampItem_Namespace \<noteq> []" by (simp add: stampItem_Namespace_def)
  obtain es db where e: "query_entries ?db ?q = (Inr es, db)"
    using assms(1) by (auto simp: query_entries_def st_defs)
  note pe = plain_entries [OF e assms(2) ns]
  have dec: "\<exists>it. stampItem_decode v = Some it \<and> k = item_key stampItem_Namespace (stampItem_ID it)" if "(k, v) \<in> set es" for k v
  proof -
    have "st_kv ?db k = Some v" "prefix (stampItem_Namespace @ separator @ bytes_str bid) k" using that pe(1) by auto
    moreover have "prefix (stampItem_Namespace @ separator) k" using calculation(2) by (auto simp: prefix_def)
    ultimately show ?thesis using assms(3) by (simp add: items_decode_def)
  qed
  let ?fn = "\<lambda>result its. (Inr False :: unit + bool, case r_Entry result of None \<Rightarrow> its | Some it \<Rightarrow> its @ [it])"
  let ?its = "List.map_filter (stampItem_decode \<circ> snd) es"
  have "iterate_loop ?q ?fn es True [] = ([], ?its)"
    using iterate_loop_fold [of ?fn es stampItem_decode stampItem_Namespace "bytes_str bid" "[]"] dec fold_collect [of stampItem_decode es "[]"]
    by (fastforce simp: case_prod_unfold)
  then have r: "removeStampItems ps bid = ([], ps\<lparr>ps_store := delete_items db ?its\<rparr>)"
    by (simp add: removeStampItems_def ls_Iterate_def e)
  have "item_key stampItem_Namespace ` stampItem_ID ` set ?its = fst ` set es"
    using dec by (force simp: map_filter_def)
  moreover have "fst ` set es = {k. prefix (stampItem_Namespace @ separator @ bytes_str bid) k \<and> st_kv ?db k \<noteq> None}"
    using pe(1) by force
  ultimately have "st_kv (delete_items db ?its) = st_kv ?db |` {k. \<not> prefix (stampItem_Namespace @ separator @ bytes_str bid) k}"
    using delete_items_healthy [of db ?its] pe(3-5) assms(1) by (auto simp: restrict_map_def fun_eq_iff)
  with r show ?thesis by blast
qed

lemma remove_first_filter: "distinct (map sd_BatchID vs) \<Longrightarrow> remove_first bid vs = filter (\<lambda>v. sd_BatchID v \<noteq> bid) vs"
  by (induction vs) (auto intro!: filter_True [symmetric], metis image_eqI)

text \<open>Without failures of the store, the expiry of the batch of an active issuer removes that issuer,
  its saved form and the stamp items of the batch, and nothing else; the expiry of any other batch
  changes nothing.\<close>

lemma expiry_correct:
  assumes "ps_inv ps" "items_decode (ps_store ps)" "\<forall>n. \<not> st_fault (ps_store ps) n" "ps_HandleStampExpiry ps bid = (errs, ps')"
  shows "errs = [] \<and> ps_issuers ps' = filter (\<lambda>v. sd_BatchID v \<noteq> bid) (ps_issuers ps) \<and>
    st_kv (ps_store ps') = (if bid \<in> sd_BatchID ` set (ps_issuers ps)
      then st_kv (ps_store ps) |` {k. k \<noteq> issuer_key bid \<and> \<not> prefix (stampItem_Namespace @ separator @ bytes_str bid) k}
      else st_kv (ps_store ps))"
proof (cases "find (\<lambda>st. sd_BatchID st = bid) (ps_issuers ps)")
  case None
  then have "bid \<notin> sd_BatchID ` set (ps_issuers ps)" by (auto simp: find_None_iff)
  moreover have "filter (\<lambda>v. sd_BatchID v \<noteq> bid) (ps_issuers ps) = ps_issuers ps"
    using calculation by (auto simp: filter_id_conv)
  ultimately show ?thesis using None assms(4) by (simp add: ps_HandleStampExpiry_def removeIssuer_def)
next
  case (Some st)
  then have st: "sd_BatchID st = bid" "st \<in> set (ps_issuers ps)" by (auto simp: find_Some_iff)
  obtain db where d: "ls_Delete (ps_store ps) stampIssuerItem_Namespace (stampIssuerItem_ID st) = (Inr () :: unit item_error + unit, db)"
    and db: "\<forall>n. \<not> st_fault db n" using assms(3) by (simp add: ls_Delete_def st_defs)
  have kv: "st_kv db = (st_kv (ps_store ps))(issuer_key bid := None)" "st_ok db"
    using ls_Delete_ok [OF _ d] st assms(1)
    by (simp_all add: stampIssuerItem_Namespace_def issuer_key_def stampIssuerItem_ID_def ps_inv_def)
  let ?ps = "ps\<lparr>ps_store := db, ps_issuers := remove_first bid (ps_issuers ps)\<rparr>"
  have "items_decode (ps_store ?ps)" using assms(2) kv(1) by (simp add: items_decode_def)
  then obtain db' where r: "removeStampItems ?ps bid = ([], ?ps\<lparr>ps_store := db'\<rparr>)"
    "st_kv db' = st_kv db |` {k. \<not> prefix (stampItem_Namespace @ separator @ bytes_str bid) k}"
    using removeStampItems_healthy [of ?ps bid] db kv(2) by auto
  have "removeIssuer ps bid = (Inr True, ?ps)" using Some d by (simp add: removeIssuer_def)
  with assms(4) r(1) have "errs = []" "ps' = ?ps\<lparr>ps_store := db'\<rparr>" by (simp_all add: ps_HandleStampExpiry_def)
  moreover have "bid \<in> sd_BatchID ` set (ps_issuers ps)" using st by force
  ultimately show ?thesis
    using r(2) kv(1) assms(1) remove_first_filter [of "ps_issuers ps" bid]
    by (auto simp: ps_inv_def restrict_map_def fun_eq_iff)
qed

section \<open>Restart\<close>

lemma fold_service_add:
  "distinct (map sd_BatchID (ps_issuers ps @ xs)) \<Longrightarrow>
     fold (\<lambda>x ps. snd (service_add ps x)) xs ps = ps\<lparr>ps_issuers := ps_issuers ps @ xs\<rparr>"
proof (induction xs arbitrary: ps)
  case (Cons x xs)
  have "\<not> (\<exists>v\<in>set (ps_issuers ps). sd_BatchID v = sd_BatchID x)"
  proof
    assume "\<exists>v\<in>set (ps_issuers ps). sd_BatchID v = sd_BatchID x"
    then have "sd_BatchID x \<in> set (map sd_BatchID (ps_issuers ps))" by (metis image_eqI set_map)
    then show False using Cons.prems by simp
  qed
  then have "snd (service_add ps x) = ps\<lparr>ps_issuers := ps_issuers ps @ [x]\<rparr>" unfolding service_add_def by simp
  then show ?case using Cons.IH [of "ps\<lparr>ps_issuers := ps_issuers ps @ [x]\<rparr>"] Cons.prems by simp
qed simp

lemma save_all_ok:
  assumes "save_all K ps vs = ([], ps')" "ps_inv ps" "set vs \<subseteq> set (ps_issuers ps)" "distinct (map sd_BatchID vs)"
  shows "ps_inv ps' \<and> ps_issuers ps' = ps_issuers ps \<and>
    (\<forall>v\<in>set vs. ic_Marshal K v \<noteq> None \<and> st_kv (ps_store ps') (issuer_key (sd_BatchID v)) = ic_Marshal K v) \<and>
    (\<forall>k. k \<notin> (issuer_key \<circ> sd_BatchID) ` set vs \<longrightarrow> st_kv (ps_store ps') k = st_kv (ps_store ps) k)"
  using assms
proof (induction vs arbitrary: ps)
  case (Cons v vs)
  obtain r ps1 where s: "service_save K ps v = (r, ps1)" by fastforce
  then obtain u where r: "r = Inr u" and sa: "save_all K ps1 vs = ([], ps')"
    using Cons.prems(1) by (cases r) (auto split: prod.splits)
  have mem: "sd_BatchID v \<in> sd_BatchID ` set (ps_issuers ps)" using Cons.prems(3) by simp
  note e = service_save_inv [OF s Cons.prems(2) mem]
  obtain w where w: "ic_Marshal K v = Some w" "st_kv (ps_store ps1) = (st_kv (ps_store ps))(issuer_key (sd_BatchID v) \<mapsto> w)"
    using e(3) [OF r] by blast
  have ih: "ps_inv ps' \<and> ps_issuers ps' = ps_issuers ps1 \<and>
    (\<forall>v\<in>set vs. ic_Marshal K v \<noteq> None \<and> st_kv (ps_store ps') (issuer_key (sd_BatchID v)) = ic_Marshal K v) \<and>
    (\<forall>k. k \<notin> (issuer_key \<circ> sd_BatchID) ` set vs \<longrightarrow> st_kv (ps_store ps') k = st_kv (ps_store ps1) k)"
    using Cons.IH [OF sa e(1)] e(2) Cons.prems(3,4) by simp
  have "issuer_key (sd_BatchID v) \<notin> (issuer_key \<circ> sd_BatchID) ` set vs" using Cons.prems(4) by auto
  then have "st_kv (ps_store ps') (issuer_key (sd_BatchID v)) = Some w" using ih w(2) by simp
  then show ?case using ih w e(2) by auto
qed simp

text \<open>C30: a service that is closed without errors and started again on the same store has the same
  issuers, with their data, provided the serialisation of an issuer can be read back.\<close>

theorem service_restart:
  assumes inv: "ps_inv ps" and codec: "\<And>d v. ic_Marshal K d = Some v \<Longrightarrow> ic_Unmarshal K v = Some d"
    and close: "ps_Close K ps = ([], ps1)" and new: "NewService K (ps_store ps1) = ([], ps2)"
  shows "set (StampIssuers ps2) = set (StampIssuers ps) \<and> length (StampIssuers ps2) = length (StampIssuers ps)"
proof -
  let ?ns = stampIssuerItem_Namespace and ?db = "ps_store ps1"
  let ?q = "plain_query ?ns (ic_Unmarshal K) []"
  let ?fn = "\<lambda>result ps. (Inr False :: unit + bool, case r_Entry result of None \<Rightarrow> ps | Some issuer \<Rightarrow> snd (service_add ps issuer))"
  have ns: "?ns \<noteq> []" by (simp add: stampIssuerItem_Namespace_def)
  have dist: "distinct (map sd_BatchID (ps_issuers ps))" using inv by (simp add: ps_inv_def)
  note sv = save_all_ok [OF close [unfolded ps_Close_def] inv subset_refl dist]
  obtain es db where e: "query_entries ?db ?q = (Inr es, db)"
    using new by (auto simp: NewService_def ls_Iterate_def split: prod.splits sum.splits)
  have so: "st_ok ?db" using sv by (simp add: ps_inv_def)
  note pe = plain_entries [OF e so ns]
  have entry: "(k, v) \<in> set es \<longleftrightarrow> (\<exists>d\<in>set (ps_issuers ps). k = issuer_key (sd_BatchID d) \<and> ic_Marshal K d = Some v)" for k v
  proof -
    have es: "(k, v) \<in> set es \<longleftrightarrow> st_kv ?db k = Some v \<and> prefix (?ns @ separator) k" using pe(1) by simp
    have pk: "prefix (?ns @ separator) (issuer_key b)" for b by (simp add: issuer_key_def item_key_def)
    have saved: "st_kv ?db (issuer_key (sd_BatchID d)) = ic_Marshal K d" if "d \<in> set (ps_issuers ps)" for d
      using sv that by blast
    have "\<exists>d\<in>set (ps_issuers ps). k = issuer_key (sd_BatchID d)" if "st_kv ?db k = Some v" "prefix (?ns @ separator) k"
    proof -
      have "k \<in> (issuer_key \<circ> sd_BatchID) ` set (ps_issuers ps1)"
        using sv that unfolding ps_inv_def by (metis option.distinct(1))
      then show ?thesis using sv by auto
    qed
    then show ?thesis unfolding es using pk saved by (metis (no_types))
  qed
  have dec: "ic_Unmarshal K v \<noteq> None" if "(k, v) \<in> set es" for k v using that entry codec by fastforce
  define xs where "xs = map (\<lambda>(k, v). the (ic_Unmarshal K v)) es"
  have xs: "set xs = set (ps_issuers ps)"
  proof -
    have "x \<in> set xs \<longleftrightarrow> (\<exists>k v. (k, v) \<in> set es \<and> the (ic_Unmarshal K v) = x)" for x by (force simp: xs_def)
    also have "(\<exists>k v. (k, v) \<in> set es \<and> the (ic_Unmarshal K v) = x) \<longleftrightarrow> x \<in> set (ps_issuers ps)" for x
      using entry sv codec by (metis option.exhaust_sel option.sel)
    finally show ?thesis by blast
  qed
  have key: "map fst es = map (issuer_key \<circ> sd_BatchID) xs"
    unfolding xs_def using entry codec by (fastforce intro: map_cong)
  have dx: "distinct (map sd_BatchID xs)"
    using pe(2) unfolding key by (metis distinct_map list.map_comp)
  have "iterate_loop ?q ?fn es True \<lparr>ps_store = ?db, ps_issuers = []\<rparr> = ([], fold (\<lambda>x ps. snd (service_add ps x)) xs \<lparr>ps_store = ?db, ps_issuers = []\<rparr>)"
    unfolding xs_def fold_map
    by (subst iterate_loop_fold) (use dec in \<open>force intro!: fold_cong simp: fun_eq_iff\<close>)+
  then have "StampIssuers ps2 = xs"
    using new e fold_service_add [of "\<lparr>ps_store = ?db, ps_issuers = []\<rparr>" xs] dx
    by (auto simp: NewService_def ls_Iterate_def StampIssuers_def)
  moreover have "length xs = length (ps_issuers ps)"
    using xs dx dist by (metis distinct_card distinct_map)
  ultimately show ?thesis using xs by (simp add: StampIssuers_def)
qed

section \<open>A concrete service\<close>

definition demo_issuer :: stampIssuerData where
  "demo_issuer = NewStampIssuer ''l'' ''k'' [9] 5 2 1 7 True"

definition demo_codec :: issuer_codec where
  "demo_codec = \<lparr>ic_Marshal = (\<lambda>d. if d = demo_issuer then Some [1] else None),
     ic_Unmarshal = (\<lambda>v. if v = [1] then Some demo_issuer else None)\<rparr>"

definition demo_service :: postage_service where
  "demo_service = \<lparr>ps_store = \<lparr>st_kv = [issuer_key [9] \<mapsto> [1]], st_keys = [issuer_key [9]], st_tick = 0, st_fault = (\<lambda>_. False)\<rparr>,
     ps_issuers = [demo_issuer]\<rparr>"

lemma demo_issuer_id [simp]: "sd_BatchID demo_issuer = [9]"
  by (simp add: demo_issuer_def NewStampIssuer_def)

lemma demo_service_inv: "ps_inv demo_service"
  by (auto simp: ps_inv_def demo_service_def st_ok_def split: if_splits)

theorem service_restart_witness:
  "StampIssuers (snd (NewService demo_codec (ps_store (snd (ps_Close demo_codec demo_service))))) = [demo_issuer]"
proof -
  have key: "issuer_key [9] = item_key stampIssuerItem_Namespace (bytes_str [9])" by (simp add: issuer_key_def)
  let ?c = "ps_Close demo_codec demo_service"
  have c: "fst ?c = []" "ps_store (snd ?c) = (ps_store demo_service)\<lparr>st_tick := 1\<rparr>"
    by (simp_all add: ps_Close_def service_save_def demo_service_def demo_codec_def ls_Put_def st_defs key stampIssuerItem_ID_def)
  have "prefix (stampIssuerItem_Namespace @ separator) (issuer_key [9])"
    by (simp add: key item_key_def)
  moreover have "stampIssuerItem_Namespace \<noteq> []" by (simp add: stampIssuerItem_Namespace_def)
  moreover have "query_result (plain_query ns u pre) k v =
      (case u v of None \<Rightarrow> None | Some x \<Rightarrow> Some \<lparr>r_ID = k, r_Size = 0, r_Entry = Some x\<rparr>)"
    for ns pre k v and u :: "bytes \<Rightarrow> stampIssuerData option" by (simp add: query_result_def plain_query_def)
  ultimately have n: "fst (NewService demo_codec (ps_store (snd ?c))) = []"
    unfolding c(2)
    by (simp add: NewService_def ls_Iterate_def query_entries_def demo_service_def st_defs demo_codec_def Let_def
        split: prod.splits)
  have codec: "\<And>d v. ic_Marshal demo_codec d = Some v \<Longrightarrow> ic_Unmarshal demo_codec v = Some d"
    by (auto simp: demo_codec_def split: if_splits)
  have "?c = ([], snd ?c)" "NewService demo_codec (ps_store (snd ?c)) = ([], snd (NewService demo_codec (ps_store (snd ?c))))"
    using c(1) n by (metis prod.collapse)+
  from service_restart [OF demo_service_inv codec this] show ?thesis
    by (auto simp: StampIssuers_def demo_service_def length_Suc_conv)
qed

end
