(* ===== verification/BatchService.thy ===== *)
theory BatchService
  imports PostageService
begin

text \<open>
  The batch service, \<open>pkg/postage/batchservice/batchservice.go\<close>: it applies the events of the postage
  contract to the batch store, tells the postage service about the batches of this node, and keeps a
  running checksum of the transactions. The batch store and the listener are reached through their
  interfaces (\<open>postage.Storer\<close>, \<open>postage.BatchEventListener\<close>), records of functions; their contracts
  are the locales below, interpreted on the batch store and the postage service. The hash is the
  field \<open>bsv_hash\<close>; the hasher is the bytes written to it since its last reset. \<open>GetChainState\<close> returns
  a pointer that \<open>UpdatePrice\<close> and \<open>UpdateBlockNumber\<close> change in place before they pass it to
  \<open>PutChainState\<close>, which stores that pointer first: the model passes the changed value.
\<close>

section \<open>Interfaces\<close>

record 's Storer =
  so_GetChainState :: "'s \<Rightarrow> ChainState"
  so_Get :: "'s \<Rightarrow> bytes \<Rightarrow> (bs_error + Batch) \<times> 's"
  so_Save :: "'s \<Rightarrow> Batch \<Rightarrow> (bs_error + unit) \<times> 's"
  so_Update :: "'s \<Rightarrow> Batch \<Rightarrow> int \<Rightarrow> u8 \<Rightarrow> (bs_error + Batch) \<times> 's"
  so_PutChainState :: "'s \<Rightarrow> ChainState \<Rightarrow> (bs_error + unit) \<times> 's"
  so_Reset :: "'s \<Rightarrow> (bs_error + unit) \<times> 's"

record 'l BatchEventListener =
  el_HandleCreate :: "'l \<Rightarrow> Batch \<Rightarrow> int \<Rightarrow> (unit item_error + unit) \<times> 'l"
  el_HandleTopUp :: "'l \<Rightarrow> bytes \<Rightarrow> int \<Rightarrow> 'l"
  el_HandleDepthIncrease :: "'l \<Rightarrow> bytes \<Rightarrow> u8 \<Rightarrow> 'l"

section \<open>The service\<close>

datatype bsv_value = VBool bool | VString string

datatype bsv_error =
    ErrZeroValueBatch
  | BsvStorer bs_error
  | BsvListener "unit item_error"
  | BsvState store_error
  | BsvHex hex_error
  | BsvDecode
  | BsvBackwards
  | BsvPanic

record ('s, 'l) batchService =
  bsv_stateStore :: "bsv_value statestore"
  bsv_storer :: 's
  bsv_owner :: bytes
  bsv_batchListener :: "'l option"
  bsv_hash :: "bytes \<Rightarrow> bytes"
  bsv_checksum :: bytes
  bsv_resync :: bool

definition dirtyDBKey :: string where "dirtyDBKey = ''batchservice_dirty_db''"
definition checksumDBKey :: string where "checksumDBKey = ''batchservice_checksum''"

definition bsv_get :: "('s, 'l) batchService \<Rightarrow> string \<Rightarrow> (store_error + bsv_value) \<times> ('s, 'l) batchService" where
  "bsv_get svc k = (case st_Get (bsv_stateStore svc) k of (r, st) \<Rightarrow> (r, svc\<lparr>bsv_stateStore := st\<rparr>))"

definition bsv_put :: "('s, 'l) batchService \<Rightarrow> string \<Rightarrow> bsv_value \<Rightarrow> (bsv_error + unit) \<times> ('s, 'l) batchService" where
  "bsv_put svc k v =
     (case st_Put (bsv_stateStore svc) k v of
        (Some e, st) \<Rightarrow> (Inl (BsvState e), svc\<lparr>bsv_stateStore := st\<rparr>)
      | (None, st) \<Rightarrow> (Inr (), svc\<lparr>bsv_stateStore := st\<rparr>))"

definition bsv_delete :: "('s, 'l) batchService \<Rightarrow> string \<Rightarrow> (bsv_error + unit) \<times> ('s, 'l) batchService" where
  "bsv_delete svc k =
     (case st_Delete (bsv_stateStore svc) k of
        (Some e, st) \<Rightarrow> (Inl (BsvState e), svc\<lparr>bsv_stateStore := st\<rparr>)
      | (None, st) \<Rightarrow> (Inr (), svc\<lparr>bsv_stateStore := st\<rparr>))"

text \<open>The dirty flag, \<open>false\<close> when it was never written.\<close>

definition bsv_dirty :: "('s, 'l) batchService \<Rightarrow> (bsv_error + bool) \<times> ('s, 'l) batchService" where
  "bsv_dirty svc =
     (case bsv_get svc dirtyDBKey of
        (Inr (VBool d), svc) \<Rightarrow> (Inr d, svc)
      | (Inr _, svc) \<Rightarrow> (Inl BsvDecode, svc)
      | (Inl ErrNotFound, svc) \<Rightarrow> (Inr False, svc)
      | (Inl e, svc) \<Rightarrow> (Inl (BsvState e), svc))"

definition bsv_New :: "('s, 'l) batchService \<Rightarrow> (bsv_error + unit) \<times> ('s, 'l) batchService" where
  "bsv_New svc =
     bindE (bsv_dirty (svc\<lparr>bsv_checksum := []\<rparr>)) (\<lambda>dirty svc.
       if bsv_resync svc then bsv_delete svc checksumDBKey
       else if \<not> dirty then
         (case bsv_get svc checksumDBKey of
            (Inl ErrNotFound, svc) \<Rightarrow> (Inr (), svc)
          | (Inl e, svc) \<Rightarrow> (Inl (BsvState e), svc)
          | (Inr (VString b), svc) \<Rightarrow>
              (case hex_decode b of
                 Inl e \<Rightarrow> (Inl (BsvHex e), svc)
               | Inr s \<Rightarrow> (Inr (), svc\<lparr>bsv_checksum := s\<rparr>))
          | (Inr _, svc) \<Rightarrow> (Inl BsvDecode, svc))
       else (Inr (), svc))"

definition updateChecksum :: "('s, 'l) batchService \<Rightarrow> bytes \<Rightarrow> (bsv_error + string) \<times> ('s, 'l) batchService" where
  "updateChecksum svc txHash =
     (let s = bsv_hash svc (bsv_checksum svc @ txHash);
          svc = svc\<lparr>bsv_checksum := s\<rparr>;
          b = hex_encode s
      in bindE (bsv_put svc checksumDBKey (VString b)) (\<lambda>_ svc. (Inr b, svc)))"

definition bsv_store :: "('s, 'l) batchService \<Rightarrow> (bs_error + 'a) \<times> 's \<Rightarrow> (bsv_error + 'a) \<times> ('s, 'l) batchService" where
  "bsv_store svc r = (case r of (Inl e, st) \<Rightarrow> (Inl (BsvStorer e), svc\<lparr>bsv_storer := st\<rparr>)
     | (Inr x, st) \<Rightarrow> (Inr x, svc\<lparr>bsv_storer := st\<rparr>))"

text \<open>\<open>big.NewInt(0).Div(total, big.NewInt(int64(1 << depth)))\<close>, which panics on a zero divisor.\<close>

definition per_chunk :: "int \<Rightarrow> u8 \<Rightarrow> int option" where
  "per_chunk totalAmount depth =
     (let d = int64_of (2 ^ unat depth) in if d = 0 then None else Some (big_div totalAmount d))"

definition bsv_Create :: "'s Storer \<Rightarrow> 'l BatchEventListener \<Rightarrow> ('s, 'l) batchService \<Rightarrow>
    bytes \<Rightarrow> bytes \<Rightarrow> int \<Rightarrow> int \<Rightarrow> u8 \<Rightarrow> u8 \<Rightarrow> bool \<Rightarrow> bytes \<Rightarrow> (bsv_error + unit) \<times> ('s, 'l) batchService" where
  "bsv_Create S L svc i owner totalAmount normalisedBalance depth bucketDepth immutable txHash =
     (let cs = so_GetChainState S (bsv_storer svc);
          val = cs_TotalAmount cs + cs_CurrentPrice cs in
      if normalisedBalance \<le> val then (Inl ErrZeroValueBatch, svc)
      else
        let batch = \<lparr>b_ID = i, b_Value = normalisedBalance, b_Start = cs_Block cs, b_Owner = owner,
                     b_Depth = depth, b_BucketDepth = bucketDepth, b_Immutable = immutable\<rparr> in
        bindE (bsv_store svc (so_Save S (bsv_storer svc) batch)) (\<lambda>_ svc.
          case per_chunk totalAmount depth of
            None \<Rightarrow> (Inl BsvPanic, svc)
          | Some amount \<Rightarrow>
            bindE (case bsv_batchListener svc of
                     Some l \<Rightarrow> if bsv_owner svc = owner then
                         (case el_HandleCreate L l batch amount of
                            (Inl e, l) \<Rightarrow> (Inl (BsvListener e), svc\<lparr>bsv_batchListener := Some l\<rparr>)
                          | (Inr _, l) \<Rightarrow> (Inr (), svc\<lparr>bsv_batchListener := Some l\<rparr>))
                       else (Inr (), svc)
                   | None \<Rightarrow> (Inr (), svc)) (\<lambda>_ svc.
            bindE (updateChecksum svc txHash) (\<lambda>_ svc. (Inr (), svc)))))"

definition bsv_TopUp :: "'s Storer \<Rightarrow> 'l BatchEventListener \<Rightarrow> ('s, 'l) batchService \<Rightarrow>
    bytes \<Rightarrow> int \<Rightarrow> int \<Rightarrow> bytes \<Rightarrow> (bsv_error + unit) \<times> ('s, 'l) batchService" where
  "bsv_TopUp S L svc i totalAmount normalisedBalance txHash =
     bindE (bsv_store svc (so_Get S (bsv_storer svc) i)) (\<lambda>b svc.
     bindE (bsv_store svc (so_Update S (bsv_storer svc) b normalisedBalance (b_Depth b))) (\<lambda>b svc.
       case per_chunk totalAmount (b_Depth b) of
         None \<Rightarrow> (Inl BsvPanic, svc)
       | Some topUpAmount \<Rightarrow>
           let svc = (case bsv_batchListener svc of
                        Some l \<Rightarrow> if bsv_owner svc = b_Owner b
                          then svc\<lparr>bsv_batchListener := Some (el_HandleTopUp L l i topUpAmount)\<rparr> else svc
                      | None \<Rightarrow> svc)
           in bindE (updateChecksum svc txHash) (\<lambda>_ svc. (Inr (), svc))))"

definition bsv_UpdateDepth :: "'s Storer \<Rightarrow> 'l BatchEventListener \<Rightarrow> ('s, 'l) batchService \<Rightarrow>
    bytes \<Rightarrow> u8 \<Rightarrow> int \<Rightarrow> bytes \<Rightarrow> (bsv_error + unit) \<times> ('s, 'l) batchService" where
  "bsv_UpdateDepth S L svc i depth normalisedBalance txHash =
     bindE (bsv_store svc (so_Get S (bsv_storer svc) i)) (\<lambda>b svc.
     bindE (bsv_store svc (so_Update S (bsv_storer svc) b normalisedBalance depth)) (\<lambda>b svc.
       let svc = (case bsv_batchListener svc of
                    Some l \<Rightarrow> if bsv_owner svc = b_Owner b
                      then svc\<lparr>bsv_batchListener := Some (el_HandleDepthIncrease L l i depth)\<rparr> else svc
                  | None \<Rightarrow> svc)
       in bindE (updateChecksum svc txHash) (\<lambda>_ svc. (Inr (), svc))))"

definition bsv_UpdatePrice :: "'s Storer \<Rightarrow> ('s, 'l) batchService \<Rightarrow> int \<Rightarrow> bytes \<Rightarrow>
    (bsv_error + unit) \<times> ('s, 'l) batchService" where
  "bsv_UpdatePrice S svc price txHash =
     (let cs = (so_GetChainState S (bsv_storer svc))\<lparr>cs_CurrentPrice := price\<rparr> in
      bindE (bsv_store svc (so_PutChainState S (bsv_storer svc) cs)) (\<lambda>_ svc.
      bindE (updateChecksum svc txHash) (\<lambda>_ svc. (Inr (), svc))))"

definition bsv_UpdateBlockNumber :: "'s Storer \<Rightarrow> ('s, 'l) batchService \<Rightarrow> u64 \<Rightarrow>
    (bsv_error + unit) \<times> ('s, 'l) batchService" where
  "bsv_UpdateBlockNumber S svc blockNumber =
     (let cs = so_GetChainState S (bsv_storer svc) in
      if blockNumber = cs_Block cs then (Inr (), svc)
      else if blockNumber < cs_Block cs then (Inl BsvBackwards, svc)
      else
        let diff = uint (blockNumber - cs_Block cs);
            cs = cs\<lparr>cs_TotalAmount := cs_TotalAmount cs + diff * cs_CurrentPrice cs, cs_Block := blockNumber\<rparr>
        in bsv_store svc (so_PutChainState S (bsv_storer svc) cs))"

definition TransactionStart :: "('s, 'l) batchService \<Rightarrow> (bsv_error + unit) \<times> ('s, 'l) batchService" where
  "TransactionStart svc = bsv_put svc dirtyDBKey (VBool True)"

definition TransactionEnd :: "('s, 'l) batchService \<Rightarrow> (bsv_error + unit) \<times> ('s, 'l) batchService" where
  "TransactionEnd svc = bsv_delete svc dirtyDBKey"

text \<open>\<open>Start\<close>: the result is the block from which the listener is asked to listen; \<open>initState\<close> is the
  last block number of the snapshot.\<close>

definition bsv_Start :: "'s Storer \<Rightarrow> ('s, 'l) batchService \<Rightarrow> u64 \<Rightarrow> u64 option \<Rightarrow> (bsv_error + u64) \<times> ('s, 'l) batchService" where
  "bsv_Start S svc startBlock initState =
     bindE (bsv_dirty svc) (\<lambda>dirty svc.
     bindE (if dirty \<or> bsv_resync svc \<or> initState \<noteq> None then
              bindE (bsv_store svc (so_Reset S (bsv_storer svc))) (\<lambda>_ svc. bsv_delete svc dirtyDBKey)
            else (Inr (), svc)) (\<lambda>_ svc.
       let cs = so_GetChainState S (bsv_storer svc);
           startBlock = (if cs_Block cs > startBlock then cs_Block cs else startBlock);
           startBlock = (case initState of
                           Some lastBlock \<Rightarrow> if lastBlock > startBlock then lastBlock else startBlock
                         | None \<Rightarrow> startBlock)
       in (Inr (startBlock + 1), svc)))"

section \<open>What an event does\<close>

datatype batch_event =
    EvCreate bytes bytes int int u8 u8 bool bytes
  | EvTopUp bytes int int bytes
  | EvUpdateDepth bytes u8 int bytes
  | EvUpdatePrice int bytes
  | EvUpdateBlockNumber u64

fun bsv_event :: "'s Storer \<Rightarrow> 'l BatchEventListener \<Rightarrow> ('s, 'l) batchService \<Rightarrow> batch_event \<Rightarrow>
    (bsv_error + unit) \<times> ('s, 'l) batchService" where
  "bsv_event S L svc (EvCreate i ow tot bal d bd imm tx) = bsv_Create S L svc i ow tot bal d bd imm tx"
| "bsv_event S L svc (EvTopUp i tot bal tx) = bsv_TopUp S L svc i tot bal tx"
| "bsv_event S L svc (EvUpdateDepth i d bal tx) = bsv_UpdateDepth S L svc i d bal tx"
| "bsv_event S L svc (EvUpdatePrice price tx) = bsv_UpdatePrice S svc price tx"
| "bsv_event S L svc (EvUpdateBlockNumber n) = bsv_UpdateBlockNumber S svc n"

text \<open>The specification: the chain state and the batches that have not run out, and the effect of an
  event on them (\<open>None\<close> where the event has to be refused).\<close>

record chain_view =
  cv_cs :: ChainState
  cv_batches :: "bytes \<rightharpoonup> Batch"

definition expire :: "chain_view \<Rightarrow> chain_view" where
  "expire v = v\<lparr>cv_batches := alive (cs_TotalAmount (cv_cs v)) (cv_batches v)\<rparr>"

fun spec_event :: "batch_event \<Rightarrow> chain_view \<Rightarrow> chain_view option" where
  "spec_event (EvCreate i ow tot bal d bd imm tx) v =
     (if bal \<le> cs_TotalAmount (cv_cs v) + cs_CurrentPrice (cv_cs v) \<or> cv_batches v i \<noteq> None then None
      else Some (expire (v\<lparr>cv_batches := (cv_batches v)(i \<mapsto>
        \<lparr>b_ID = i, b_Value = bal, b_Start = cs_Block (cv_cs v), b_Owner = ow, b_Depth = d, b_BucketDepth = bd, b_Immutable = imm\<rparr>)\<rparr>)))"
| "spec_event (EvTopUp i tot bal tx) v =
     (case cv_batches v i of None \<Rightarrow> None
      | Some b \<Rightarrow> Some (expire (v\<lparr>cv_batches := (cv_batches v)(i \<mapsto> b\<lparr>b_Value := bal\<rparr>)\<rparr>)))"
| "spec_event (EvUpdateDepth i d bal tx) v =
     (case cv_batches v i of None \<Rightarrow> None
      | Some b \<Rightarrow> Some (expire (v\<lparr>cv_batches := (cv_batches v)(i \<mapsto> b\<lparr>b_Value := bal, b_Depth := d\<rparr>)\<rparr>)))"
| "spec_event (EvUpdatePrice price tx) v = Some (expire (v\<lparr>cv_cs := (cv_cs v)\<lparr>cs_CurrentPrice := price\<rparr>\<rparr>))"
| "spec_event (EvUpdateBlockNumber n) v =
     (if n < cs_Block (cv_cs v) then None
      else if n = cs_Block (cv_cs v) then Some v
      else Some (expire (v\<lparr>cv_cs := (cv_cs v)\<lparr>cs_Block := n,
        cs_TotalAmount := cs_TotalAmount (cv_cs v) + (uint n - uint (cs_Block (cv_cs v))) * cs_CurrentPrice (cv_cs v)\<rparr>\<rparr>)))"

fun event_ok :: "batch_event \<Rightarrow> bool" where
  "event_ok (EvCreate i ow tot bal d bd imm tx) \<longleftrightarrow> length i = 32 \<and> length ow = 20 \<and> 0 \<le> bal \<and> bal < 2 ^ 256"
| "event_ok (EvTopUp i tot bal tx) \<longleftrightarrow> 0 \<le> bal \<and> bal < 2 ^ 256"
| "event_ok (EvUpdateDepth i d bal tx) \<longleftrightarrow> 0 \<le> bal \<and> bal < 2 ^ 256"
| "event_ok (EvUpdatePrice price tx) \<longleftrightarrow> True"
| "event_ok (EvUpdateBlockNumber n) \<longleftrightarrow> True"

lemma updateChecksum_ok:
  assumes "updateChecksum svc tx = (Inr b, svc')"
  shows "bsv_storer svc' = bsv_storer svc" "bsv_batchListener svc' = bsv_batchListener svc" "bsv_hash svc' = bsv_hash svc"
    "bsv_owner svc' = bsv_owner svc" "bsv_checksum svc' = bsv_hash svc (bsv_checksum svc @ tx)"
    "st_kv (bsv_stateStore svc') = (st_kv (bsv_stateStore svc))(checksumDBKey \<mapsto> VString (hex_encode (bsv_checksum svc')))"
  using assms st.put_ok [of "bsv_stateStore svc" checksumDBKey]
  by (auto simp: updateChecksum_def bindE_Inr bsv_put_def Let_def split: prod.splits option.splits)

section \<open>Contracts of the interfaces\<close>

locale postage_storer =
  fixes S :: "'s Storer" and ok :: "'s \<Rightarrow> bool" and content :: "'s \<Rightarrow> bytes \<rightharpoonup> Batch"
  assumes get_same: "so_Get S s i = (r, s') \<Longrightarrow> ok s \<Longrightarrow>
      ok s' \<and> content s' = content s \<and> so_GetChainState S s' = so_GetChainState S s"
    and get_value: "so_Get S s i = (Inr b, s') \<Longrightarrow> ok s \<Longrightarrow> content s i = Some b \<and> b_ID b = i"
    and save_ok: "so_Save S s b = (Inr u, s') \<Longrightarrow> ok s \<Longrightarrow> batch_ok b \<Longrightarrow>
      content s (b_ID b) = None \<and> ok s' \<and> so_GetChainState S s' = so_GetChainState S s \<and>
      content s' = alive (cs_TotalAmount (so_GetChainState S s)) ((content s)(b_ID b \<mapsto> b))"
    and update_ok: "so_Update S s b v d = (Inr b', s') \<Longrightarrow> ok s \<Longrightarrow> content s (b_ID b) = Some b \<Longrightarrow>
      0 \<le> v \<Longrightarrow> v < 2 ^ 256 \<Longrightarrow>
      b' = b\<lparr>b_Value := v, b_Depth := d\<rparr> \<and> ok s' \<and> so_GetChainState S s' = so_GetChainState S s \<and>
      content s' = alive (cs_TotalAmount (so_GetChainState S s)) ((content s)(b_ID b \<mapsto> b'))"
    and put_ok: "so_PutChainState S s cs = (Inr u, s') \<Longrightarrow> ok s \<Longrightarrow>
      ok s' \<and> so_GetChainState S s' = cs \<and> content s' = alive (cs_TotalAmount cs) (content s)"
begin

definition view :: "('s, 'l) batchService \<Rightarrow> chain_view" where
  "view svc = \<lparr>cv_cs = so_GetChainState S (bsv_storer svc), cv_batches = content (bsv_storer svc)\<rparr>"

lemma view_cong: "bsv_storer svc' = bsv_storer svc \<Longrightarrow> view svc' = view svc"
  by (simp add: view_def)

lemma create_refines:
  assumes "bsv_Create S L svc i ow tot bal d bd imm tx = (Inr u, svc')" "ok (bsv_storer svc)"
    "length i = 32" "length ow = 20" "0 \<le> bal" "bal < 2 ^ 256"
  shows "ok (bsv_storer svc') \<and> spec_event (EvCreate i ow tot bal d bd imm tx) (view svc) = Some (view svc')"
proof -
  let ?cs = "so_GetChainState S (bsv_storer svc)"
  let ?b = "\<lparr>b_ID = i, b_Value = bal, b_Start = cs_Block ?cs, b_Owner = ow, b_Depth = d, b_BucketDepth = bd, b_Immutable = imm\<rparr>"
  obtain st where sv: "so_Save S (bsv_storer svc) ?b = (Inr (), st)" and st: "bsv_storer svc' = st"
    and bal: "\<not> bal \<le> cs_TotalAmount ?cs + cs_CurrentPrice ?cs"
    using assms(1)
    by (auto simp: bsv_Create_def bindE_Inr bsv_store_def Let_def dest!: updateChecksum_ok(1)
        split: if_splits sum.splits prod.splits option.splits)
  have "batch_ok ?b" using assms(3-6) by (simp add: batch_ok_def)
  note s = save_ok [OF sv assms(2) this]
  show ?thesis using s bal st by (simp add: view_def expire_def)
qed

lemma topup_refines:
  assumes "bsv_TopUp S L svc i tot bal tx = (Inr u, svc')" "ok (bsv_storer svc)" "0 \<le> bal" "bal < 2 ^ 256"
  shows "ok (bsv_storer svc') \<and> spec_event (EvTopUp i tot bal tx) (view svc) = Some (view svc')"
proof -
  obtain b st b' where g: "so_Get S (bsv_storer svc) i = (Inr b, st)"
    and up: "so_Update S st b bal (b_Depth b) = (Inr b', bsv_storer svc')"
    using assms(1)
    by (auto simp: bsv_TopUp_def bindE_Inr bsv_store_def Let_def dest!: updateChecksum_ok(1)
        split: if_splits sum.splits prod.splits option.splits)
  note gs = get_same [OF g assms(2)] and gv = get_value [OF g assms(2)]
  then show ?thesis using update_ok [OF up _ _ assms(3,4)] by (simp add: view_def expire_def)
qed

lemma depth_refines:
  assumes "bsv_UpdateDepth S L svc i d bal tx = (Inr u, svc')" "ok (bsv_storer svc)" "0 \<le> bal" "bal < 2 ^ 256"
  shows "ok (bsv_storer svc') \<and> spec_event (EvUpdateDepth i d bal tx) (view svc) = Some (view svc')"
proof -
  obtain b st b' where g: "so_Get S (bsv_storer svc) i = (Inr b, st)"
    and up: "so_Update S st b bal d = (Inr b', bsv_storer svc')"
    using assms(1)
    by (auto simp: bsv_UpdateDepth_def bindE_Inr bsv_store_def Let_def dest!: updateChecksum_ok(1)
        split: if_splits sum.splits prod.splits option.splits)
  note gs = get_same [OF g assms(2)] and gv = get_value [OF g assms(2)]
  then show ?thesis using update_ok [OF up _ _ assms(3,4)] by (simp add: view_def expire_def)
qed

lemma price_refines:
  assumes "bsv_UpdatePrice S svc price tx = (Inr u, svc')" "ok (bsv_storer svc)"
  shows "ok (bsv_storer svc') \<and> spec_event (EvUpdatePrice price tx) (view svc) = Some (view svc')"
proof -
  obtain st where "so_PutChainState S (bsv_storer svc) ((so_GetChainState S (bsv_storer svc))\<lparr>cs_CurrentPrice := price\<rparr>) = (Inr (), st)"
    "bsv_storer svc' = st"
    using assms(1)
    by (auto simp: bsv_UpdatePrice_def bindE_Inr bsv_store_def Let_def dest!: updateChecksum_ok(1)
        split: if_splits sum.splits prod.splits option.splits)
  then show ?thesis using put_ok [OF _ assms(2)] by (fastforce simp: view_def expire_def)
qed

lemma block_refines:
  assumes "bsv_UpdateBlockNumber S svc n = (Inr u, svc')" "ok (bsv_storer svc)"
  shows "ok (bsv_storer svc') \<and> spec_event (EvUpdateBlockNumber n) (view svc) = Some (view svc')"
proof -
  let ?cs = "so_GetChainState S (bsv_storer svc)"
  consider "n = cs_Block ?cs" "svc' = svc" | st where "n > cs_Block ?cs" "bsv_storer svc' = st"
      "so_PutChainState S (bsv_storer svc) (?cs\<lparr>cs_TotalAmount := cs_TotalAmount ?cs + uint (n - cs_Block ?cs) * cs_CurrentPrice ?cs, cs_Block := n\<rparr>) = (Inr (), st)"
    using assms(1)
    by (fastforce simp: bsv_UpdateBlockNumber_def bsv_store_def Let_def not_less split: if_splits sum.splits prod.splits)
  then show ?thesis
  proof cases
    case 1
    then show ?thesis using assms(2) by (simp add: view_def)
  next
    case (2 st)
    have "uint (n - cs_Block ?cs) = uint n - uint (cs_Block ?cs)" using 2(1) by (simp add: uint_sub_lem [THEN iffD1] word_le_def word_less_def)
    then show ?thesis using put_ok [OF 2(3) assms(2)] 2 by (auto simp: view_def expire_def)
  qed
qed

lemma event_refines:
  assumes "bsv_event S L svc e = (Inr u, svc')" "ok (bsv_storer svc)" "event_ok e"
  shows "ok (bsv_storer svc') \<and> spec_event e (view svc) = Some (view svc')"
  using assms
proof (cases e)
  case (EvCreate i ow tot bal d bd imm tx)
  then show ?thesis using assms create_refines by fastforce
next
  case (EvTopUp i tot bal tx)
  then show ?thesis using assms topup_refines by fastforce
next
  case (EvUpdateDepth i d bal tx)
  then show ?thesis using assms depth_refines by fastforce
next
  case (EvUpdatePrice price tx)
  then show ?thesis using assms price_refines by fastforce
next
  case (EvUpdateBlockNumber n)
  then show ?thesis using assms block_refines by fastforce
qed

end

locale batch_event_listener =
  fixes L :: "'l BatchEventListener" and inv :: "'l \<Rightarrow> bool"
  assumes create_inv: "inv l \<Longrightarrow> inv (snd (el_HandleCreate L l b n))"
    and topup_inv: "inv l \<Longrightarrow> inv (el_HandleTopUp L l i n)"
    and depth_inv: "inv l \<Longrightarrow> inv (el_HandleDepthIncrease L l i d)"
begin

definition listener_ok :: "('s, 'l) batchService \<Rightarrow> bool" where
  "listener_ok svc \<longleftrightarrow> (\<forall>l. bsv_batchListener svc = Some l \<longrightarrow> inv l)"

lemma bindE_keeps:
  assumes "listener_ok (snd m)" "\<And>x svc. m = (Inr x, svc) \<Longrightarrow> listener_ok svc \<Longrightarrow> listener_ok (snd (f x svc))"
  shows "listener_ok (snd (bindE m f))"
  using assms by (cases m; cases "fst m") auto

lemma checksum_keeps: "listener_ok svc \<Longrightarrow> listener_ok (snd (bindE (updateChecksum svc tx) (\<lambda>_ svc. (Inr (), svc))))"
  by (auto simp: updateChecksum_def bsv_put_def bindE_def listener_ok_def Let_def split: prod.splits sum.splits option.splits)

lemma store_keeps: "listener_ok svc \<Longrightarrow> listener_ok (snd (bsv_store svc q))"
  by (auto simp: bsv_store_def listener_ok_def split: prod.splits sum.splits)

lemma create_keeps:
  assumes "listener_ok svc" "bsv_batchListener svc = Some l"
  shows "listener_ok (snd (case el_HandleCreate L l batch amount of
      (Inl e, l) \<Rightarrow> (Inl (BsvListener e), svc\<lparr>bsv_batchListener := Some l\<rparr>)
    | (Inr _, l) \<Rightarrow> (Inr (), svc\<lparr>bsv_batchListener := Some l\<rparr>)))"
proof -
  have "inv (snd (el_HandleCreate L l batch amount))" using assms create_inv by (simp add: listener_ok_def)
  then show ?thesis by (auto simp: listener_ok_def split: prod.splits sum.splits)
qed

lemma notify_keeps:
  assumes "listener_ok svc" "bsv_batchListener svc = Some l"
  shows "listener_ok (svc\<lparr>bsv_batchListener := Some (el_HandleTopUp L l i n)\<rparr>)"
    "listener_ok (svc\<lparr>bsv_batchListener := Some (el_HandleDepthIncrease L l i d)\<rparr>)"
  using assms topup_inv depth_inv by (simp_all add: listener_ok_def)

lemmas keeps = bindE_keeps checksum_keeps store_keeps create_keeps notify_keeps

lemma event_keeps:
  assumes "listener_ok svc"
  shows "listener_ok (snd (bsv_event S L svc e))"
proof (cases e)
  case (EvCreate i ow tot bal d bd imm tx)
  then show ?thesis using assms by (auto simp: bsv_Create_def Let_def intro!: keeps split: option.split)
next
  case (EvTopUp i tot bal tx)
  then show ?thesis using assms by (auto simp: bsv_TopUp_def Let_def intro!: keeps split: option.split)
next
  case (EvUpdateDepth i d bal tx)
  then show ?thesis using assms by (auto simp: bsv_UpdateDepth_def Let_def intro!: keeps split: option.split)
next
  case (EvUpdatePrice price tx)
  then show ?thesis using assms by (auto simp: bsv_UpdatePrice_def Let_def intro!: keeps)
next
  case (EvUpdateBlockNumber n)
  then show ?thesis using assms by (auto simp: bsv_UpdateBlockNumber_def Let_def intro!: keeps)
qed

end

section \<open>The batch store and the postage service as providers\<close>

definition batchstore_Storer :: "batchstore Storer" where
  "batchstore_Storer = \<lparr>so_GetChainState = GetChainState, so_Get = bs_Get, so_Save = bs_Save, so_Update = bs_Update,
     so_PutChainState = PutChainState, so_Reset = bs_Reset\<rparr>"

definition service_listener :: "issuer_codec \<Rightarrow> postage_service BatchEventListener" where
  "service_listener K = \<lparr>el_HandleCreate = HandleCreate K, el_HandleTopUp = HandleTopUp,
     el_HandleDepthIncrease = HandleDepthIncrease\<rparr>"

lemma bs_Get_contract:
  assumes "bs_Get s i = (r, s')" "bs_ok s"
  shows "bs_ok s' \<and> batches (bkv s') = batches (bkv s) \<and> GetChainState s' = GetChainState s"
  using bs_Get_reads [OF assms(1)] assms(2) by (simp add: bs_reads_def bs_ok_def bs_env_def GetChainState_def)

lemma bs_Get_id:
  assumes "bs_Get s i = (Inr b, s')" "bs_ok s"
  shows "batches (bkv s) i = Some b \<and> b_ID b = i"
  using bs_Get_value(1) [OF assms(1) refl] batches_ok(2) assms(2) by (auto simp: bs_ok_def)

interpretation pst: postage_storer batchstore_Storer bs_ok "\<lambda>s. batches (bkv s)"
proof
  fix s s' :: batchstore and i r
  assume "so_Get batchstore_Storer s i = (r, s')" "bs_ok s"
  then show "bs_ok s' \<and> batches (bkv s') = batches (bkv s) \<and>
      so_GetChainState batchstore_Storer s' = so_GetChainState batchstore_Storer s"
    using bs_Get_contract by (simp add: batchstore_Storer_def)
next
  fix s s' :: batchstore and i b
  assume "so_Get batchstore_Storer s i = (Inr b, s')" "bs_ok s"
  then show "batches (bkv s) i = Some b \<and> b_ID b = i" using bs_Get_id by (simp add: batchstore_Storer_def)
next
  fix s s' :: batchstore and b u
  assume "so_Save batchstore_Storer s b = (Inr u, s')" "bs_ok s" "batch_ok b"
  then show "batches (bkv s) (b_ID b) = None \<and> bs_ok s' \<and>
      so_GetChainState batchstore_Storer s' = so_GetChainState batchstore_Storer s \<and>
      batches (bkv s') = alive (cs_TotalAmount (so_GetChainState batchstore_Storer s)) ((batches (bkv s))(b_ID b \<mapsto> b))"
    using bs_Save_stored [of s b u s'] by (simp add: batchstore_Storer_def GetChainState_def)
next
  fix s s' :: batchstore and b v d b'
  assume "so_Update batchstore_Storer s b v d = (Inr b', s')" "bs_ok s" "batches (bkv s) (b_ID b) = Some b" "0 \<le> v" "v < 2 ^ 256"
  then show "b' = b\<lparr>b_Value := v, b_Depth := d\<rparr> \<and> bs_ok s' \<and>
      so_GetChainState batchstore_Storer s' = so_GetChainState batchstore_Storer s \<and>
      batches (bkv s') = alive (cs_TotalAmount (so_GetChainState batchstore_Storer s)) ((batches (bkv s))(b_ID b \<mapsto> b'))"
    using bs_Update_stored [of s b v d b' s'] by (simp add: batchstore_Storer_def GetChainState_def)
next
  fix s s' :: batchstore and cs u
  assume "so_PutChainState batchstore_Storer s cs = (Inr u, s')" "bs_ok s"
  then show "bs_ok s' \<and> so_GetChainState batchstore_Storer s' = cs \<and> batches (bkv s') = alive (cs_TotalAmount cs) (batches (bkv s))"
    using PutChainState_stored [of s cs u s'] by (simp add: batchstore_Storer_def GetChainState_def)
qed

interpretation psl: batch_event_listener "service_listener K" ps_inv for K
proof
  have f: "ps_inv (ps\<lparr>ps_issuers := first_issuer f bid (ps_issuers ps)\<rparr>)" if "ps_inv ps" "\<And>v. sd_BatchID (f v) = sd_BatchID v" for ps f bid
    using that(1) first_issuer_ids [OF that(2)] unfolding ps_inv_def ids_image by simp
  fix l i n d b
  assume l: "ps_inv l"
  show "ps_inv (snd (el_HandleCreate (service_listener K) l b n))"
    using service_Add_inv [OF l] by (simp add: service_listener_def HandleCreate_def) (metis prod.collapse)
  show "ps_inv (el_HandleTopUp (service_listener K) l i n)"
    by (simp add: service_listener_def HandleTopUp_def) (rule f [OF l], simp)
  show "ps_inv (el_HandleDepthIncrease (service_listener K) l i d)"
    by (simp add: service_listener_def HandleDepthIncrease_def) (rule f [OF l], simp)
qed

section \<open>Sequences of events\<close>

fun bsv_run :: "'s Storer \<Rightarrow> 'l BatchEventListener \<Rightarrow> ('s, 'l) batchService \<Rightarrow> batch_event list \<Rightarrow>
    (bsv_error + unit) \<times> ('s, 'l) batchService" where
  "bsv_run S L svc [] = (Inr (), svc)"
| "bsv_run S L svc (e # es) = bindE (bsv_event S L svc e) (\<lambda>_ svc. bsv_run S L svc es)"

fun spec_run :: "batch_event list \<Rightarrow> chain_view \<Rightarrow> chain_view option" where
  "spec_run [] v = Some v"
| "spec_run (e # es) v = (case spec_event e v of None \<Rightarrow> None | Some v \<Rightarrow> spec_run es v)"

definition bs_view :: "(batchstore, 'l) batchService \<Rightarrow> chain_view" where
  "bs_view svc = \<lparr>cv_cs = GetChainState (bsv_storer svc), cv_batches = batches (bkv (bsv_storer svc))\<rparr>"

lemma bs_view_eq: "pst.view svc = bs_view svc"
  unfolding pst.view_def bs_view_def by (simp add: batchstore_Storer_def)

lemma run_refines:
  assumes "bsv_run batchstore_Storer L svc es = (Inr u, svc')" "bs_ok (bsv_storer svc)" "\<forall>e\<in>set es. event_ok e"
  shows "bs_ok (bsv_storer svc') \<and> spec_run es (bs_view svc) = Some (bs_view svc')"
  using assms
proof (induction es arbitrary: svc)
  case (Cons e es)
  then obtain svc1 where e: "bsv_event batchstore_Storer L svc e = (Inr (), svc1)"
    and es: "bsv_run batchstore_Storer L svc1 es = (Inr u, svc')" by (auto simp: bindE_Inr)
  have "bs_ok (bsv_storer svc1)" "spec_event e (bs_view svc) = Some (bs_view svc1)"
    using pst.event_refines [OF e Cons.prems(2)] Cons.prems(3) by (simp_all add: bs_view_eq)
  then show ?case using Cons.IH [OF es] Cons.prems(3) by simp
qed simp

text \<open>C13: when the service processes a sequence of contract events over the batch store without errors, the
  chain state and the stored batches are exactly those the specification computes from the events.\<close>

theorem batchservice_refines:
  assumes "bsv_run batchstore_Storer L svc es = (Inr u, svc')" "bs_ok (bsv_storer svc)" "\<forall>e\<in>set es. event_ok e"
  shows "bs_ok (bsv_storer svc') \<and> spec_run es (bs_view svc) = Some (bs_view svc')"
  using assms by (rule run_refines)

definition funded :: "chain_view \<Rightarrow> bool" where
  "funded v \<longleftrightarrow> (\<forall>i b. cv_batches v i = Some b \<longrightarrow> cs_TotalAmount (cv_cs v) < b_Value b)"

lemma funded_expire: "funded (expire v)"
  by (auto simp: funded_def expire_def alive_def split: option.splits if_splits)

lemma spec_event_funded:
  assumes "spec_event e v = Some v'" "funded v"
  shows "funded v' \<and> cs_Block (cv_cs v) \<le> cs_Block (cv_cs v')"
proof -
  have "v' = v \<or> (\<exists>w. v' = expire w)" using assms(1) by (cases e) (auto split: if_splits option.splits)
  moreover have "cs_Block (cv_cs v) \<le> cs_Block (cv_cs v')"
    using assms(1) by (cases e) (auto simp: expire_def split: if_splits option.splits)
  ultimately show ?thesis using funded_expire assms(2) by auto
qed

lemma spec_run_funded: "spec_run es v = Some v' \<Longrightarrow> funded v \<Longrightarrow> funded v' \<and> cs_Block (cv_cs v) \<le> cs_Block (cv_cs v')"
proof (induction es arbitrary: v)
  case (Cons e es)
  then obtain w where "spec_event e v = Some w" "spec_run es w = Some v'" by (auto split: option.splits)
  then show ?case using spec_event_funded Cons by fastforce
qed simp

text \<open>C16: starting from a store without expired batches, after any sequence of processed events every
  stored batch still has funds (its value exceeds the total amount), and the block number never went
  back.\<close>

theorem stored_batches_funded:
  assumes "bsv_run batchstore_Storer L svc es = (Inr u, svc')" "bs_ok (bsv_storer svc)" "\<forall>e\<in>set es. event_ok e"
    "funded (bs_view svc)"
  shows "(\<forall>i b. batches (bkv (bsv_storer svc')) i = Some b \<longrightarrow> cs_TotalAmount (GetChainState (bsv_storer svc')) < b_Value b) \<and>
    cs_Block (GetChainState (bsv_storer svc)) \<le> cs_Block (GetChainState (bsv_storer svc'))"
  using run_refines [OF assms(1-3)] spec_run_funded [of es "bs_view svc" "bs_view svc'"] assms(4)
  by (auto simp: funded_def bs_view_def)

section \<open>Checksum\<close>

fun event_tx :: "batch_event \<Rightarrow> bytes list" where
  "event_tx (EvCreate i ow tot bal d bd imm tx) = [tx]"
| "event_tx (EvTopUp i tot bal tx) = [tx]"
| "event_tx (EvUpdateDepth i d bal tx) = [tx]"
| "event_tx (EvUpdatePrice price tx) = [tx]"
| "event_tx (EvUpdateBlockNumber n) = []"

lemma event_checksum:
  assumes "bsv_event S L svc e = (Inr u, svc')"
  shows "bsv_hash svc' = bsv_hash svc \<and> bsv_checksum svc' = fold (\<lambda>tx c. bsv_hash svc (c @ tx)) (event_tx e) (bsv_checksum svc) \<and>
    st_kv (bsv_stateStore svc') checksumDBKey = (if event_tx e = [] then st_kv (bsv_stateStore svc) checksumDBKey
      else Some (VString (hex_encode (bsv_checksum svc'))))"
  using assms
  by (cases e)
    (auto simp: bsv_Create_def bsv_TopUp_def bsv_UpdateDepth_def bsv_UpdatePrice_def bsv_UpdateBlockNumber_def bindE_Inr
      bsv_store_def Let_def updateChecksum_ok(3,5,6) split: if_splits sum.splits prod.splits option.splits)

text \<open>The checksum after a sequence of processed events is the hash chain over their transaction
  hashes, and the stored one is its hexadecimal form.\<close>

lemma checksum_chain:
  assumes "bsv_run S L svc es = (Inr u, svc')"
  shows "bsv_checksum svc' = fold (\<lambda>tx c. bsv_hash svc (c @ tx)) (concat (map event_tx es)) (bsv_checksum svc) \<and>
    (concat (map event_tx es) \<noteq> [] \<longrightarrow>
      st_kv (bsv_stateStore svc') checksumDBKey = Some (VString (hex_encode (bsv_checksum svc'))))"
proof -
  have "bsv_hash svc' = bsv_hash svc \<and>
    bsv_checksum svc' = fold (\<lambda>tx c. bsv_hash svc (c @ tx)) (concat (map event_tx es)) (bsv_checksum svc) \<and>
    st_kv (bsv_stateStore svc') checksumDBKey = (if concat (map event_tx es) = [] then st_kv (bsv_stateStore svc) checksumDBKey
      else Some (VString (hex_encode (bsv_checksum svc'))))"
    using assms
  proof (induction es arbitrary: svc)
    case (Cons e es)
    then obtain svc1 where e: "bsv_event S L svc e = (Inr (), svc1)" and es: "bsv_run S L svc1 es = (Inr u, svc')"
      by (auto simp: bindE_Inr)
    show ?case using event_checksum [OF e] Cons.IH [OF es] by (auto simp del: concat_eq_Nil_conv)
  qed simp
  then show ?thesis by simp
qed

text \<open>\<open>Start\<close> over the batch store: after a crash in the middle of a transaction, on a requested resync
  or with a snapshot, the store is emptied and the dirty mark removed before the chain is followed
  again; otherwise the store is kept. The chain is followed from the block after the largest of the
  requested, the stored and the snapshot block.\<close>

lemma Start_correct:
  assumes "bsv_Start batchstore_Storer svc n init = (Inr first, svc')" "bs_ok (bsv_storer svc)"
  shows "(st_kv (bsv_stateStore svc) dirtyDBKey = Some (VBool True) \<or> bsv_resync svc \<or> init \<noteq> None \<longrightarrow>
      bs_view svc' = \<lparr>cv_cs = zeroChainState, cv_batches = Map.empty\<rparr> \<and> st_kv (bsv_stateStore svc') dirtyDBKey = None) \<and>
    (st_kv (bsv_stateStore svc) dirtyDBKey \<noteq> Some (VBool True) \<and> \<not> bsv_resync svc \<and> init = None \<longrightarrow> bs_view svc' = bs_view svc) \<and>
    first = max (max n (cs_Block (cv_cs (bs_view svc')))) (case init of None \<Rightarrow> 0 | Some m \<Rightarrow> m) + 1"
proof -
  obtain dirty svc1 v svc2 where d: "bsv_dirty svc = (Inr dirty, svc1)"
    and m: "(if dirty \<or> bsv_resync svc1 \<or> init \<noteq> None then
              bindE (bsv_store svc1 (so_Reset batchstore_Storer (bsv_storer svc1))) (\<lambda>_ svc. bsv_delete svc dirtyDBKey)
            else (Inr (), svc1)) = (Inr v, svc2)"
    and f: "(let cs = so_GetChainState batchstore_Storer (bsv_storer svc2); n = (if cs_Block cs > n then cs_Block cs else n);
          n = (case init of Some l \<Rightarrow> if l > n then l else n | None \<Rightarrow> n) in (Inr (n + 1), svc2)) = (Inr first :: bsv_error + u64, svc')"
    using assms(1) unfolding bsv_Start_def bindE_Inr by (auto simp only: intro: that)
  have r: "svc' = svc2" "first = max (max n (cs_Block (GetChainState (bsv_storer svc2)))) (case init of None \<Rightarrow> 0 | Some m \<Rightarrow> m) + 1"
    using f by (auto simp: Let_def batchstore_Storer_def max_def not_less split: option.splits)
  have svc1: "bsv_storer svc1 = bsv_storer svc" "bsv_resync svc1 = bsv_resync svc"
    "dirty \<longleftrightarrow> st_kv (bsv_stateStore svc) dirtyDBKey = Some (VBool True)"
    using d st.get_value [of "bsv_stateStore svc" dirtyDBKey] st.get_missing [of "bsv_stateStore svc" dirtyDBKey]
    by (auto simp: bsv_dirty_def bsv_get_def split: prod.splits sum.splits bsv_value.splits store_error.splits)
  show ?thesis
  proof (cases "dirty \<or> bsv_resync svc1 \<or> init \<noteq> None")
    case True
    then obtain s2 svc3 where rs: "bs_Reset (bsv_storer svc) = (Inr (), s2)" and dl: "bsv_delete (svc1\<lparr>bsv_storer := s2\<rparr>) dirtyDBKey = (Inr (), svc2)"
      using m svc1 by (auto simp: bindE_Inr bsv_store_def batchstore_Storer_def split: sum.splits prod.splits)
    have "bsv_storer svc2 = s2" "st_kv (bsv_stateStore svc2) dirtyDBKey = None"
      using dl st.delete_ok [of "bsv_stateStore svc1" dirtyDBKey] by (auto simp: bsv_delete_def split: prod.splits option.splits)
    then show ?thesis using bs_Reset_correct [OF rs assms(2)] True svc1 r by (auto simp: bs_view_def)
  next
    case False
    then show ?thesis using m svc1 r by (auto simp: bs_view_def)
  qed
qed

section \<open>A concrete run\<close>

definition demo_svc :: "(batchstore, postage_service) batchService" where
  "demo_svc = \<lparr>bsv_stateStore = \<lparr>st_kv = [dirtyDBKey \<mapsto> VBool True], st_keys = [dirtyDBKey], st_tick = 0, st_fault = (\<lambda>_. False)\<rparr>,
     bsv_storer = demo_bs, bsv_owner = [], bsv_batchListener = None, bsv_hash = (\<lambda>bs. take 2 (rev bs)), bsv_checksum = [],
     bsv_resync = False\<rparr>"

definition demo_create :: batch_event where
  "demo_create = EvCreate (replicate 31 0 @ [5]) (replicate 20 1) 1000 20 17 16 True [7]"

lemma demo_create_ok [simp]: "event_ok demo_create" "bs_ok (bsv_storer demo_svc)"
  by (simp_all add: demo_create_def demo_svc_def)

lemma demo_run:
  obtains svc' where "bsv_run batchstore_Storer L demo_svc [demo_create] = (Inr (), svc')"
proof -
  let ?b = "\<lparr>b_ID = replicate 31 0 @ [5], b_Value = 20, b_Start = 3, b_Owner = replicate 20 1, b_Depth = 17,
    b_BucketDepth = 16, b_Immutable = True\<rparr> :: Batch"
  have "batch_ok ?b" by (simp add: batch_ok_def)
  then obtain s' where s: "bs_Save demo_bs ?b = (Inr (), s')" using bs_Save_succeeds [OF demo_bs_ok(2,1)] by auto
  have "GetChainState demo_bs = \<lparr>cs_Block = 3, cs_TotalAmount = 10, cs_CurrentPrice = 2\<rparr>" by (simp add: GetChainState_def demo_bs_def)
  moreover have "per_chunk 1000 17 = Some 0" by (simp add: per_chunk_def int64_of_def big_div_def)
  ultimately show thesis
    using that s
    by (simp add: demo_create_def bsv_Create_def bsv_store_def batchstore_Storer_def demo_svc_def updateChecksum_def bsv_put_def st_defs Let_def)
qed

theorem batchservice_refines_witness:
  "\<exists>svc'. bsv_run batchstore_Storer (service_listener demo_codec) demo_svc [demo_create] = (Inr (), svc') \<and>
     spec_run [demo_create] (bs_view demo_svc) = Some (bs_view svc')"
proof -
  obtain svc' where r: "bsv_run batchstore_Storer (service_listener demo_codec) demo_svc [demo_create] = (Inr (), svc')"
    by (rule demo_run)
  from batchservice_refines [OF r] r show ?thesis by (simp del: bsv_run.simps)
qed

theorem stored_batches_funded_witness:
  "\<exists>svc'. bsv_run batchstore_Storer (service_listener demo_codec) demo_svc [demo_create] = (Inr (), svc') \<and>
     (\<forall>i b. batches (bkv (bsv_storer svc')) i = Some b \<longrightarrow> cs_TotalAmount (GetChainState (bsv_storer svc')) < b_Value b)"
proof -
  obtain svc' where r: "bsv_run batchstore_Storer (service_listener demo_codec) demo_svc [demo_create] = (Inr (), svc')"
    by (rule demo_run)
  have "funded (bs_view demo_svc)" by (simp add: funded_def bs_view_def demo_svc_def)
  from stored_batches_funded [OF r _ _ this] r show ?thesis by (simp del: bsv_run.simps)
qed

end
