(* ===== verification/Mantaray.thy ===== *)
theory Mantaray
  imports Bytes "HOL-Library.AList"
begin

text \<open>
  Manifests: the mantaray trie of \<open>pkg/manifest/mantaray\<close> (\<open>node.go\<close>, \<open>marshal.go\<close>, \<open>persist.go\<close>,
  \<open>walker.go\<close>). A node is its data and its forks, a map from the first byte of an edge to the edge's
  prefix and the node below, here an association list, \<open>None\<close> for the nil map of a node that is only a
  reference. Operations that change nodes in place return the changed node, also when they fail.
  The loader and the saver are functions; the JSON form of the metadata is the record \<open>meta_codec\<close>.
  Cancellation of the context is not modelled. A panic of the code is the error \<open>MtPanic\<close>.
\<close>

section \<open>Nodes\<close>

type_synonym meta = "(string \<times> string) list"

datatype mt_error =
    ErrMtNotFound
  | ErrEmptyPath
  | ErrMetadataTooLarge
  | ErrTooShort
  | ErrInvalidInput
  | ErrInvalidVersionHash
  | ErrInvalidManifest
  | ErrForkBytes
  | ErrNoSaver
  | ErrNoLoader
  | ErrMtLoad
  | ErrMtSave
  | ErrEntrySize
  | ErrReferenceSize
  | MtPanic

record node_data =
  n_type :: u8
  n_refBytesSize :: nat
  n_obfuscationKey :: bytes
  n_ref :: "bytes option"
  n_entry :: bytes
  n_metadata :: meta

datatype node = Node (nd: node_data) (forks: "(byte \<times> bytes \<times> node) list option")

definition nodeTypeValue :: u8 where "nodeTypeValue = 2"
definition nodeTypeEdge :: u8 where "nodeTypeEdge = 4"
definition nodeTypeWithPathSeparator :: u8 where "nodeTypeWithPathSeparator = 8"
definition nodeTypeWithMetadata :: u8 where "nodeTypeWithMetadata = 16"
definition nodeTypeMask :: u8 where "nodeTypeMask = 255"
definition PathSeparator :: byte where "PathSeparator = 47"

definition nodePrefixMaxSize :: nat where "nodePrefixMaxSize = 30"

definition newData :: node_data where
  "newData = \<lparr>n_type = 0, n_refBytesSize = 0, n_obfuscationKey = [], n_ref = None, n_entry = [], n_metadata = []\<rparr>"

definition NewNodeRef :: "bytes \<Rightarrow> node" where
  "NewNodeRef r = Node (newData\<lparr>n_ref := Some r\<rparr>) None"

definition NewNode :: node where
  "NewNode = Node newData (Some [])"

definition IsValueType :: "node \<Rightarrow> bool" where
  "IsValueType n \<longleftrightarrow> n_type (nd n) AND nodeTypeValue = nodeTypeValue"

definition IsEdgeType :: "node \<Rightarrow> bool" where
  "IsEdgeType n \<longleftrightarrow> n_type (nd n) AND nodeTypeEdge = nodeTypeEdge"

definition IsWithPathSeparatorType :: "node \<Rightarrow> bool" where
  "IsWithPathSeparatorType n \<longleftrightarrow> n_type (nd n) AND nodeTypeWithPathSeparator = nodeTypeWithPathSeparator"

definition nodeTypeIsWithMetadataType :: "u8 \<Rightarrow> bool" where
  "nodeTypeIsWithMetadataType t \<longleftrightarrow> t AND nodeTypeWithMetadata = nodeTypeWithMetadata"

definition IsWithMetadataType :: "node \<Rightarrow> bool" where
  "IsWithMetadataType n \<longleftrightarrow> n_type (nd n) AND nodeTypeWithMetadata = nodeTypeWithMetadata"

definition upd_data :: "(node_data \<Rightarrow> node_data) \<Rightarrow> node \<Rightarrow> node" where
  "upd_data f n = Node (f (nd n)) (forks n)"

definition upd_type :: "(u8 \<Rightarrow> u8) \<Rightarrow> node \<Rightarrow> node" where
  "upd_type f = upd_data (\<lambda>d. d\<lparr>n_type := f (n_type d)\<rparr>)"

definition makeValue :: "node \<Rightarrow> node" where "makeValue = upd_type (\<lambda>t. t OR nodeTypeValue)"
definition makeEdge :: "node \<Rightarrow> node" where "makeEdge = upd_type (\<lambda>t. t OR nodeTypeEdge)"
definition makeWithPathSeparator :: "node \<Rightarrow> node" where
  "makeWithPathSeparator = upd_type (\<lambda>t. t OR nodeTypeWithPathSeparator)"
definition makeWithMetadata :: "node \<Rightarrow> node" where
  "makeWithMetadata = upd_type (\<lambda>t. t OR nodeTypeWithMetadata)"
definition makeNotWithPathSeparator :: "node \<Rightarrow> node" where
  "makeNotWithPathSeparator = upd_type (\<lambda>t. (nodeTypeMask XOR nodeTypeWithPathSeparator) AND t)"

definition SetObfuscationKey :: "bytes \<Rightarrow> node \<Rightarrow> node" where
  "SetObfuscationKey key = upd_data (\<lambda>d. d\<lparr>n_obfuscationKey := copy_at (replicate 32 0) 0 key\<rparr>)"

fun index_byte :: "byte \<Rightarrow> bytes \<Rightarrow> nat option" where
  "index_byte x [] = None"
| "index_byte x (y # ys) = (if y = x then Some 0 else map_option Suc (index_byte x ys))"

definition updateIsWithPathSeparator :: "bytes \<Rightarrow> node \<Rightarrow> node" where
  "updateIsWithPathSeparator path n =
     (case index_byte PathSeparator path of
        Some (Suc _) \<Rightarrow> makeWithPathSeparator n
      | _ \<Rightarrow> makeNotWithPathSeparator n)"

fun common :: "bytes \<Rightarrow> bytes \<Rightarrow> bytes" where
  "common (a # as) (b # bs) = (if a = b then a # common as bs else [])"
| "common _ _ = []"

definition fork_at :: "node \<Rightarrow> byte \<Rightarrow> (bytes \<times> node) option" where
  "fork_at n b = (case forks n of None \<Rightarrow> None | Some fs \<Rightarrow> map_of fs b)"

definition set_fork :: "node \<Rightarrow> byte \<Rightarrow> bytes \<times> node \<Rightarrow> node" where
  "set_fork n b f = Node (nd n) (map_option (AList.update b f) (forks n))"

definition del_fork :: "node \<Rightarrow> byte \<Rightarrow> node" where
  "del_fork n b = Node (nd n) (map_option (AList.delete b) (forks n))"

section \<open>Serialisation\<close>

record meta_codec =
  mc_Marshal :: "meta \<Rightarrow> bytes"
  mc_Unmarshal :: "bytes \<Rightarrow> meta option"

definition version01HashString :: string where
  "version01HashString = ''025184789d63635766d78c41900196b57d7400875ebe4d9b5d1e76bd9652a9b7''"
definition version02HashString :: string where
  "version02HashString = ''5768b3b6a7db56d21d1abff40d41cebfc83448fed8d7e9b06ec0d3b073f28f7b''"

definition versionHashSize :: nat where "versionHashSize = 31"
definition nodeObfuscationKeySize :: nat where "nodeObfuscationKeySize = 32"
definition nodeHeaderSize :: nat where "nodeHeaderSize = 64"
definition nodeForkPreReferenceSize :: nat where "nodeForkPreReferenceSize = 32"
definition nodeForkHeaderSize :: nat where "nodeForkHeaderSize = 2"
definition nodeForkMetadataBytesSize :: nat where "nodeForkMetadataBytesSize = 2"

definition initVersion :: "string \<Rightarrow> bytes" where
  "initVersion h = (case hex_decode h of Inl _ \<Rightarrow> [] | Inr b \<Rightarrow> copy_at (replicate versionHashSize 0) 0 b)"

definition version01HashBytes :: bytes where "version01HashBytes = initVersion version01HashString"
definition version02HashBytes :: bytes where "version02HashBytes = initVersion version02HashString"

definition encryptDecrypt :: "bytes \<Rightarrow> bytes \<Rightarrow> bytes" where
  "encryptDecrypt input key = map (\<lambda>i. input ! i XOR key ! (i mod length key)) [0..<length input]"

function xor_blocks :: "bytes \<Rightarrow> bytes \<Rightarrow> bytes" where
  "xor_blocks key bs =
     (if bs = [] then []
      else encryptDecrypt (take nodeObfuscationKeySize bs) key @ xor_blocks key (drop nodeObfuscationKeySize bs))"
  by auto
termination
  by (relation "measure (length \<circ> snd)") (auto simp: nodeObfuscationKeySize_def)

declare xor_blocks.simps [simp del]

type_synonym bitsForBytes = bytes

definition bits_set :: "bitsForBytes \<Rightarrow> byte \<Rightarrow> bitsForBytes" where
  "bits_set bb b = bb[unat (b div 8) := bb ! unat (b div 8) OR push_bit (unat (b mod 8)) 1]"

definition bits_get :: "bitsForBytes \<Rightarrow> byte \<Rightarrow> bool" where
  "bits_get bb b \<longleftrightarrow> drop_bit (unat (b mod 8)) (bb ! unat (b div 8)) AND 1 > 0"

definition bits_iter :: "bitsForBytes \<Rightarrow> byte list" where
  "bits_iter bb = filter (bits_get bb) (map of_nat [0..<256])"

definition bits_fromBytes :: "bytes \<Rightarrow> bitsForBytes" where
  "bits_fromBytes b = copy_at (replicate 32 0) 0 b"

text \<open>A fork as bytes: type, prefix length, padded prefix, reference, and the padded metadata.\<close>

definition pad_metadata :: "bytes \<Rightarrow> bytes" where
  "pad_metadata json =
     (let withSize = length json + nodeForkMetadataBytesSize in
      if withSize < nodeObfuscationKeySize then json @ replicate (nodeObfuscationKeySize - withSize) 10
      else if withSize > nodeObfuscationKeySize
        then json @ replicate (nodeObfuscationKeySize - withSize mod nodeObfuscationKeySize) 10
      else json)"

definition fork_bytes :: "meta_codec \<Rightarrow> bytes \<times> node \<Rightarrow> mt_error + bytes" where
  "fork_bytes K f =
     (case f of (pre, n) \<Rightarrow>
        let r = (case n_ref (nd n) of None \<Rightarrow> [] | Some r \<Rightarrow> r) in
        if length r > 256 then Inl ErrReferenceSize
        else
          let b = [n_type (nd n), of_nat (length pre)] @ copy_at (replicate nodePrefixMaxSize 0) 0 pre @ r in
          if \<not> IsWithMetadataType n then Inr b
          else
            let json = pad_metadata (mc_Marshal K (n_metadata (nd n))) in
            if length json > 65535 then Inl ErrMetadataTooLarge
            else Inr (b @ be_put 2 (length json) @ json))"

fun forks_bytes :: "meta_codec \<Rightarrow> node \<Rightarrow> byte list \<Rightarrow> mt_error + bytes" where
  "forks_bytes K n [] = Inr []"
| "forks_bytes K n (b # bs) =
     (case fork_at n b of
        None \<Rightarrow> Inl MtPanic
      | Some f \<Rightarrow>
          (case fork_bytes K f of
             Inl e \<Rightarrow> Inl e
           | Inr ref \<Rightarrow> (case forks_bytes K n bs of Inl e \<Rightarrow> Inl e | Inr rest \<Rightarrow> Inr (ref @ rest))))"

text \<open>\<open>key\<close> is what the random generator returns when the node has no obfuscation key.\<close>

definition node_MarshalBinary :: "meta_codec \<Rightarrow> bytes \<Rightarrow> node \<Rightarrow> (mt_error + bytes) \<times> node" where
  "node_MarshalBinary K key n =
     (case forks n of
        None \<Rightarrow> (Inl ErrInvalidInput, n)
      | Some fs \<Rightarrow>
          let n = (if n_obfuscationKey (nd n) = [] then upd_data (\<lambda>d. d\<lparr>n_obfuscationKey := key\<rparr>) n else n);
              obfuscationKey = n_obfuscationKey (nd n);
              size = n_refBytesSize (nd n);
              header = copy_at (replicate nodeObfuscationKeySize 0) 0 obfuscationKey @ version02HashBytes @ [of_nat size];
              entry = copy_at (replicate size 0) 0 (n_entry (nd n));
              index = fold (\<lambda>k bb. bits_set bb k) (map fst fs) (replicate 32 0)
          in case forks_bytes K n (bits_iter index) of
               Inl e \<Rightarrow> (Inl e, n)
             | Inr fb \<Rightarrow>
                 let bs = header @ entry @ index @ fb in
                 (Inr (take nodeObfuscationKeySize bs @ xor_blocks obfuscationKey (drop nodeObfuscationKeySize bs)), n))"

definition fork_fromBytes :: "bytes \<Rightarrow> mt_error + bytes \<times> node" where
  "fork_fromBytes b =
     (let prefixLen = unat (b ! 1) in
      if prefixLen = 0 \<or> prefixLen > nodePrefixMaxSize then Inl ErrInvalidManifest
      else Inr (slice nodeForkHeaderSize (nodeForkHeaderSize + prefixLen) b,
                upd_data (\<lambda>d. d\<lparr>n_type := b ! 0\<rparr>) (NewNodeRef (drop nodeForkPreReferenceSize b))))"

definition fork_fromBytes02 :: "meta_codec \<Rightarrow> bytes \<Rightarrow> nat \<Rightarrow> nat \<Rightarrow> mt_error + bytes \<times> node" where
  "fork_fromBytes02 K b refBytesSize metadataBytesSize =
     (let prefixLen = unat (b ! 1) in
      if prefixLen = 0 \<or> prefixLen > nodePrefixMaxSize then Inl ErrInvalidManifest
      else
        let pre = slice nodeForkHeaderSize (nodeForkHeaderSize + prefixLen) b;
            n = upd_data (\<lambda>d. d\<lparr>n_type := b ! 0\<rparr>)
                  (NewNodeRef (slice nodeForkPreReferenceSize (nodeForkPreReferenceSize + refBytesSize) b))
        in if metadataBytesSize > 0 then
             (case mc_Unmarshal K (drop (nodeForkPreReferenceSize + refBytesSize + nodeForkMetadataBytesSize) b) of
                None \<Rightarrow> Inl ErrInvalidManifest
              | Some m \<Rightarrow> Inr (pre, upd_data (\<lambda>d. d\<lparr>n_metadata := m\<rparr>) n))
           else Inr (pre, n))"

text \<open>The two callbacks of the iteration over the index; the forks read before an error stay in the map.\<close>

fun unmarshal_forks01 :: "bytes \<Rightarrow> nat \<Rightarrow> byte list \<Rightarrow> nat \<Rightarrow> (byte \<times> bytes \<times> node) list \<Rightarrow>
    mt_error option \<times> (byte \<times> bytes \<times> node) list" where
  "unmarshal_forks01 data refBytesSize [] offset fs = (None, fs)"
| "unmarshal_forks01 data refBytesSize (b # bs) offset fs =
     (if length data < offset + nodeForkPreReferenceSize + refBytesSize then (Some ErrInvalidManifest, fs)
      else
        case fork_fromBytes (slice offset (offset + nodeForkPreReferenceSize + refBytesSize) data) of
          Inl e \<Rightarrow> (Some e, fs)
        | Inr f \<Rightarrow>
            unmarshal_forks01 data refBytesSize bs (offset + nodeForkPreReferenceSize + refBytesSize) (AList.update b f fs))"

fun unmarshal_forks02 :: "meta_codec \<Rightarrow> bytes \<Rightarrow> nat \<Rightarrow> byte list \<Rightarrow> nat \<Rightarrow> (byte \<times> bytes \<times> node) list \<Rightarrow>
    mt_error option \<times> (byte \<times> bytes \<times> node) list" where
  "unmarshal_forks02 K data refBytesSize [] offset fs = (None, fs)"
| "unmarshal_forks02 K data refBytesSize (b # bs) offset fs =
     (if length data < offset + 1 then (Some ErrInvalidManifest, fs)
      else
        let nodeForkSize = nodeForkPreReferenceSize + refBytesSize in
        if nodeTypeIsWithMetadataType (data ! offset) then
          if length data < offset + nodeForkPreReferenceSize + refBytesSize + nodeForkMetadataBytesSize
          then (Some ErrInvalidManifest, fs)
          else
            let metadataBytesSize = be_nat (slice (offset + nodeForkSize) (offset + nodeForkSize + nodeForkMetadataBytesSize) data);
                nodeForkSize = nodeForkSize + nodeForkMetadataBytesSize + metadataBytesSize
            in if offset + nodeForkSize > length data then (Some ErrInvalidManifest, fs)
               else
                 case fork_fromBytes02 K (slice offset (offset + nodeForkSize) data) refBytesSize metadataBytesSize of
                   Inl e \<Rightarrow> (Some e, fs)
                 | Inr f \<Rightarrow> unmarshal_forks02 K data refBytesSize bs (offset + nodeForkSize) (AList.update b f fs)
        else
          if length data < offset + nodeForkPreReferenceSize + refBytesSize then (Some ErrForkBytes, fs)
          else
            case fork_fromBytes (slice offset (offset + nodeForkSize) data) of
              Inl e \<Rightarrow> (Some e, fs)
            | Inr f \<Rightarrow> unmarshal_forks02 K data refBytesSize bs (offset + nodeForkSize) (AList.update b f fs))"

definition unmarshal01 :: "bytes \<Rightarrow> nat \<Rightarrow> node \<Rightarrow> mt_error option \<times> node" where
  "unmarshal01 data refBytesSize n =
     (let offset = nodeHeaderSize + refBytesSize in
      if length data < offset then (Some MtPanic, n)
      else
        let n = upd_data (\<lambda>d. d\<lparr>n_entry := slice nodeHeaderSize offset data\<rparr>) n;
            bb = bits_fromBytes (drop offset data)
        in (case unmarshal_forks01 data refBytesSize (bits_iter bb) (offset + 32) [] of
              (e, fs) \<Rightarrow> (e, Node (nd n) (Some fs))))"

definition unmarshal02 :: "meta_codec \<Rightarrow> bytes \<Rightarrow> nat \<Rightarrow> node \<Rightarrow> mt_error option \<times> node" where
  "unmarshal02 K data refBytesSize n =
     (let offset = nodeHeaderSize + refBytesSize in
      if length data < offset then (Some MtPanic, n)
      else
        let n = upd_data (\<lambda>d. d\<lparr>n_entry := slice nodeHeaderSize offset data\<rparr>) n in
        if length data < offset + 32 then (Some MtPanic, n)
        else
          let n = (if slice offset (offset + 32) data \<noteq> replicate 32 0 \<and> \<not> IsEdgeType n then makeEdge n else n);
              bb = bits_fromBytes (drop offset data)
          in (case unmarshal_forks02 K data refBytesSize (bits_iter bb) (offset + 32) [] of
                (e, fs) \<Rightarrow> (e, Node (nd n) (Some fs))))"

definition node_UnmarshalBinary :: "meta_codec \<Rightarrow> bytes \<Rightarrow> node \<Rightarrow> mt_error option \<times> node" where
  "node_UnmarshalBinary K data n =
     (if length data < nodeHeaderSize then (Some ErrTooShort, n)
      else
        let key = take nodeObfuscationKeySize data;
            n = upd_data (\<lambda>d. d\<lparr>n_obfuscationKey := key\<rparr>) n;
            data = key @ xor_blocks key (drop nodeObfuscationKeySize data);
            versionHash = slice nodeObfuscationKeySize (nodeObfuscationKeySize + versionHashSize) data;
            refBytesSize = unat (data ! (nodeHeaderSize - 1))
        in if versionHash = version01HashBytes then unmarshal01 data refBytesSize n
           else if versionHash = version02HashBytes then unmarshal02 K data refBytesSize n
           else (Some ErrInvalidVersionHash, n))"

section \<open>Persistence\<close>

type_synonym loader = "(bytes \<Rightarrow> bytes option) option"

definition node_load :: "meta_codec \<Rightarrow> loader \<Rightarrow> node \<Rightarrow> mt_error option \<times> node" where
  "node_load K l n =
     (case n_ref (nd n) of
        None \<Rightarrow> (None, n)
      | Some ref \<Rightarrow>
          (case l of
             None \<Rightarrow> (Some ErrNoLoader, n)
           | Some Load \<Rightarrow>
               (case Load ref of
                  None \<Rightarrow> (Some ErrMtLoad, n)
                | Some b \<Rightarrow> node_UnmarshalBinary K b n)))"

definition ensure_loaded :: "meta_codec \<Rightarrow> loader \<Rightarrow> node \<Rightarrow> mt_error option \<times> node" where
  "ensure_loaded K l n = (case forks n of None \<Rightarrow> node_load K l n | Some _ \<Rightarrow> (None, n))"

record 's saver =
  sv_Save :: "'s \<Rightarrow> bytes \<Rightarrow> bytes option \<times> 's"
  sv_rand :: "'s \<Rightarrow> bytes"

text \<open>\<open>save\<close>: the forks are saved concurrently in the code; here in the order of the map, stopping at the
  first error.\<close>

fun node_save :: "meta_codec \<Rightarrow> 's saver \<Rightarrow> node \<Rightarrow> 's \<Rightarrow> mt_error option \<times> node \<times> 's"
and forks_save :: "meta_codec \<Rightarrow> 's saver \<Rightarrow> (byte \<times> bytes \<times> node) list \<Rightarrow> 's \<Rightarrow>
    mt_error option \<times> (byte \<times> bytes \<times> node) list \<times> 's" where
  "node_save K S (Node d fs) s =
     (case n_ref d of
        Some _ \<Rightarrow> (None, Node d fs, s)
      | None \<Rightarrow>
          (case (case fs of None \<Rightarrow> (None, None, s)
                 | Some l \<Rightarrow> (case forks_save K S l s of (e, l, s) \<Rightarrow> (e, Some l, s))) of
             (Some e, fs, s) \<Rightarrow> (Some e, Node d fs, s)
           | (None, fs, s) \<Rightarrow>
               (case node_MarshalBinary K (sv_rand S s) (Node d fs) of
                  (Inl e, n) \<Rightarrow> (Some e, n, s)
                | (Inr bs, n) \<Rightarrow>
                    (case sv_Save S s bs of
                       (None, s) \<Rightarrow> (Some ErrMtSave, upd_data (\<lambda>d. d\<lparr>n_ref := None\<rparr>) n, s)
                     | (Some ref, s) \<Rightarrow> (None, Node ((nd n)\<lparr>n_ref := Some ref\<rparr>) None, s)))))"
| "forks_save K S [] s = (None, [], s)"
| "forks_save K S ((b, p, n) # fs) s =
     (case node_save K S n s of
        (Some e, n, s) \<Rightarrow> (Some e, (b, p, n) # fs, s)
      | (None, n, s) \<Rightarrow> (case forks_save K S fs s of (e, fs, s) \<Rightarrow> (e, (b, p, n) # fs, s)))"

definition node_Save :: "meta_codec \<Rightarrow> 's saver option \<Rightarrow> node \<Rightarrow> 's \<Rightarrow> mt_error option \<times> node \<times> 's" where
  "node_Save K S n s = (case S of None \<Rightarrow> (Some ErrNoSaver, n, s) | Some S \<Rightarrow> node_save K S n s)"

section \<open>Operations\<close>

text \<open>A fork that was read from its serialisation has a non-empty prefix of at most 30 bytes.\<close>

definition forks_ok :: "(byte \<times> bytes \<times> node) list \<Rightarrow> bool" where
  "forks_ok fs \<longleftrightarrow> distinct (map fst fs) \<and> (\<forall>(b, p, n) \<in> set fs. p \<noteq> [] \<and> length p \<le> 30)"

lemma forks_ok_Nil [simp]: "forks_ok []"
  by (simp add: forks_ok_def)

lemma update_set: "x \<in> set (AList.update b f fs) \<Longrightarrow> x = (b, f) \<or> x \<in> set fs"
  by (induction fs) (auto split: if_splits)

lemma forks_ok_update: "forks_ok fs \<Longrightarrow> p \<noteq> [] \<Longrightarrow> length p \<le> 30 \<Longrightarrow> forks_ok (AList.update b (p, n) fs)"
  by (fastforce simp: forks_ok_def distinct_update dest: update_set)

lemma fork_fromBytes_ok: "fork_fromBytes b = Inr (p, n) \<Longrightarrow> 32 \<le> length b \<Longrightarrow> p \<noteq> [] \<and> length p \<le> 30"
  by (auto simp: fork_fromBytes_def Let_def slice_def nodeForkHeaderSize_def nodePrefixMaxSize_def split: if_splits)

lemma fork_fromBytes02_ok: "fork_fromBytes02 K b r m = Inr (p, n) \<Longrightarrow> 32 \<le> length b \<Longrightarrow> p \<noteq> [] \<and> length p \<le> 30"
  by (auto simp: fork_fromBytes02_def Let_def slice_def nodeForkHeaderSize_def nodePrefixMaxSize_def
      split: if_splits option.splits)

lemma unmarshal_forks01_ok:
  "unmarshal_forks01 data r bs off fs = (e, fs') \<Longrightarrow> forks_ok fs \<Longrightarrow> forks_ok fs'"
proof (induction data r bs off fs rule: unmarshal_forks01.induct)
  case (2 data r b bs off fs)
  then show ?case
    by (fastforce simp: nodeForkPreReferenceSize_def split: if_splits sum.splits prod.splits
        dest!: fork_fromBytes_ok intro: forks_ok_update)
qed simp

lemma unmarshal_forks02_ok:
  "unmarshal_forks02 K data r bs off fs = (e, fs') \<Longrightarrow> forks_ok fs \<Longrightarrow> forks_ok fs'"
proof (induction K data r bs off fs rule: unmarshal_forks02.induct)
  case (2 K data r b bs off fs)
  let ?F = nodeForkPreReferenceSize
  let ?m = "be_nat (slice (off + (?F + r)) (off + (?F + r) + nodeForkMetadataBytesSize) data)"
  let ?S = "?F + r + nodeForkMetadataBytesSize + ?m"
  have F: "?F = 32" by (simp add: nodeForkPreReferenceSize_def)
  have step: "forks_ok (AList.update b f fs)" if "f = (p, n)" "p \<noteq> [] \<and> length p \<le> 30" for f p n
    using that "2.prems"(2) by (simp add: forks_ok_update)
  show ?case
  proof (cases "length data < off + 1")
    case long: False
    show ?thesis
    proof (cases "nodeTypeIsWithMetadataType (data ! off)")
      case meta: True
      show ?thesis
      proof (cases "length data < off + ?F + r + nodeForkMetadataBytesSize \<or> off + ?S > length data")
        case False
        show ?thesis
        proof (cases "fork_fromBytes02 K (slice off (off + ?S) data) r ?m")
          case (Inr f)
          obtain p n where f: "f = (p, n)" by fastforce
          have "32 \<le> length (slice off (off + ?S) data)" using False F by (auto simp: slice_def)
          then have "forks_ok (AList.update b f fs)" using step [OF f] fork_fromBytes02_ok Inr f by blast
          then show ?thesis using "2.IH"(1) [OF long refl meta _ refl refl _ Inr] "2.prems"(1) long meta False Inr
            by (simp add: Let_def)
        qed (use "2.prems" long meta False in \<open>simp add: Let_def\<close>)
      qed (use "2.prems" long meta in \<open>auto simp: Let_def split: if_splits\<close>)
    next
      case plain: False
      show ?thesis
      proof (cases "length data < off + ?F + r")
        case False
        show ?thesis
        proof (cases "fork_fromBytes (slice off (off + (?F + r)) data)")
          case (Inr f)
          obtain p n where f: "f = (p, n)" by fastforce
          have "32 \<le> length (slice off (off + (?F + r)) data)" using False F by (auto simp: slice_def)
          then have "forks_ok (AList.update b f fs)" using step [OF f] fork_fromBytes_ok Inr f by blast
          then show ?thesis using "2.IH"(2) [OF long refl plain False Inr] "2.prems"(1) long plain False Inr
            by (simp add: Let_def)
        qed (use "2.prems" long plain False in \<open>simp add: Let_def\<close>)
      qed (use "2.prems" long plain in \<open>auto simp: Let_def\<close>)
    qed
  qed (use "2.prems" in simp)
qed simp

lemma forks_upd_data [simp]: "forks (upd_data f n) = forks n" "nd (upd_data f n) = f (nd n)"
  by (simp_all add: upd_data_def)

lemma forks_upd_type [simp]: "forks (upd_type f n) = forks n" "nd (upd_type f n) = (nd n)\<lparr>n_type := f (n_type (nd n))\<rparr>"
  by (simp_all add: upd_type_def)

lemma forks_flags [simp]:
  "forks (makeValue n) = forks n" "forks (makeEdge n) = forks n" "forks (makeWithPathSeparator n) = forks n"
  "forks (makeWithMetadata n) = forks n" "forks (makeNotWithPathSeparator n) = forks n" "forks (SetObfuscationKey k n) = forks n"
  "forks (updateIsWithPathSeparator p n) = forks n"
  by (simp_all add: makeValue_def makeEdge_def makeWithPathSeparator_def makeWithMetadata_def makeNotWithPathSeparator_def
      SetObfuscationKey_def updateIsWithPathSeparator_def split: option.split nat.split)

lemma unmarshal_loaded:
  assumes "node_UnmarshalBinary K data n = (e, n')" "forks n = None" "forks n' = Some fs"
  shows "forks_ok fs"
  using assms unmarshal_forks01_ok unmarshal_forks02_ok
  by (fastforce simp: node_UnmarshalBinary_def unmarshal01_def unmarshal02_def Let_def split: if_splits prod.splits)

lemma ensure_loaded_prefix:
  assumes "ensure_loaded K l n = (e, n')" "forks n = None" "fork_at n' b = Some (p, c)"
  shows "p \<noteq> []"
proof -
  obtain fs where fs: "forks n' = Some fs" "map_of fs b = Some (p, c)"
    using assms(3) by (auto simp: fork_at_def split: option.splits)
  have "forks_ok fs"
    using assms fs unmarshal_loaded [of K _ n e n' fs]
    by (auto simp: ensure_loaded_def node_load_def split: option.splits)
  then show ?thesis using fs(2) by (auto simp: forks_ok_def dest!: map_of_SomeD)
qed

lemma ensure_loaded_same: "forks n = Some fs \<Longrightarrow> ensure_loaded K l n = (None, n)"
  by (simp add: ensure_loaded_def)

lemma size_fork: "map_of fs b = Some (p, c) \<Longrightarrow> forks n = Some fs \<Longrightarrow> size c < size n"
proof -
  assume m: "map_of fs b = Some (p, c)" "forks n = Some fs"
  then obtain d where n: "n = Node d (Some fs)" by (cases n) auto
  have "(b, p, c) \<in> set fs" using m(1) by (rule map_of_SomeD)
  then have "size c < size_list (size_prod (\<lambda>_. 0) (size_prod (\<lambda>_. 0) size)) fs"
    by (induction fs) auto
  then show ?thesis by (simp add: n)
qed

definition lookup_weight :: "node \<Rightarrow> nat" where
  "lookup_weight n = (case forks n of None \<Rightarrow> 0 | Some _ \<Rightarrow> size n)"

text \<open>Descending along a fork makes the path shorter, or, along an empty prefix that only a node built in
  memory can have, the node smaller.\<close>

lemma descend_decreases:
  assumes "ensure_loaded K l n = (None, n')" "fork_at n' b = Some (p, c)" "path = b # bs" "length p \<le> length path"
  shows "length (drop (length p) path) < length path \<or>
    length (drop (length p) path) = length path \<and> lookup_weight c < lookup_weight n"
proof (cases "p = []")
  case True
  then obtain fs where fs: "forks n = Some fs" using ensure_loaded_prefix assms(1,2) by (cases "forks n") auto
  then have "map_of fs b = Some (p, c)" using assms(1,2) by (simp add: ensure_loaded_same fork_at_def)
  then have "size c < size n" using size_fork fs by blast
  then show ?thesis using True fs by (auto simp: lookup_weight_def split: option.split)
qed (use assms(3) in auto)

lemma common_length: "length (common a b) \<le> length a" "length (common a b) \<le> length b"
  by (induction a b rule: common.induct) auto

lemma common_take: "common a b = take (length (common a b)) a" "common a b = take (length (common a b)) b"
  by (induction a b rule: common.induct) auto

lemma descend_measure:
  assumes "(None, n') = ensure_loaded K l n" "fork_at n' b = Some (pre, c)" "length (common pre (b # bs)) = length pre"
    "\<not> length (drop (length pre) (b # bs)) < Suc (length bs)"
  shows "length (drop (length pre) (b # bs)) = Suc (length bs)" "lookup_weight c < lookup_weight n"
  using descend_decreases [of K l n n' b pre c "b # bs" bs] assms common_length(2) [of pre "b # bs"] by simp_all

lemma descend_measure':
  assumes "(None, n') = ensure_loaded K l n" "fork_at n' b = Some (pre, c)" "take (length pre) (b # bs) = pre"
    "\<not> length (drop (length pre) (b # bs)) < Suc (length bs)"
  shows "length (drop (length pre) (b # bs)) = Suc (length bs)" "lookup_weight c < lookup_weight n"
  using descend_decreases [of K l n n' b pre c "b # bs" bs] assms arg_cong [OF assms(3), of length] by simp_all

function LookupNode :: "meta_codec \<Rightarrow> loader \<Rightarrow> node \<Rightarrow> bytes \<Rightarrow> (mt_error + node) \<times> node" where
  "LookupNode K l n path =
     (case ensure_loaded K l n of
        (Some e, n) \<Rightarrow> (Inl e, n)
      | (None, n) \<Rightarrow>
          (case path of
             [] \<Rightarrow> (Inr n, n)
           | b # _ \<Rightarrow>
               (case fork_at n b of
                  None \<Rightarrow> (Inl ErrMtNotFound, n)
                | Some (pre, child) \<Rightarrow>
                    let c = common pre path in
                    if length c = length pre then
                      (case LookupNode K l child (drop (length c) path) of
                         (r, child) \<Rightarrow> (r, set_fork n b (pre, child)))
                    else (Inl ErrMtNotFound, n))))"
  by auto
termination
  by (relation "measures [\<lambda>(K, l, n, path). length path, \<lambda>(K, l, n, path). lookup_weight n]")
    (auto simp del: length_drop intro: descend_measure)

declare LookupNode.simps [simp del]

definition node_Lookup :: "meta_codec \<Rightarrow> loader \<Rightarrow> node \<Rightarrow> bytes \<Rightarrow> (mt_error + bytes) \<times> node" where
  "node_Lookup K l n path =
     (case LookupNode K l n path of
        (Inl e, n) \<Rightarrow> (Inl e, n)
      | (Inr node, n) \<Rightarrow>
          if \<not> IsValueType node \<and> length path > 0 then (Inl ErrMtNotFound, n) else (Inr (n_entry (nd node)), n))"

function node_HasPrefix :: "meta_codec \<Rightarrow> loader \<Rightarrow> node \<Rightarrow> bytes \<Rightarrow> (mt_error + bool) \<times> node" where
  "node_HasPrefix K l n path =
     (case ensure_loaded K l n of
        (Some e, n) \<Rightarrow> (Inl e, n)
      | (None, n) \<Rightarrow>
          (case path of
             [] \<Rightarrow> (Inr True, n)
           | b # _ \<Rightarrow>
               (case fork_at n b of
                  None \<Rightarrow> (Inr False, n)
                | Some (pre, child) \<Rightarrow>
                    let c = common pre path in
                    if length c = length pre then
                      (case node_HasPrefix K l child (drop (length c) path) of
                         (r, child) \<Rightarrow> (r, set_fork n b (pre, child)))
                    else if take (length path) pre = path then (Inr True, n)
                    else (Inr False, n))))"
  by auto
termination
  by (relation "measures [\<lambda>(K, l, n, path). length path, \<lambda>(K, l, n, path). lookup_weight n]")
    (auto simp del: length_drop intro: descend_measure)

declare node_HasPrefix.simps [simp del]

function node_Remove :: "meta_codec \<Rightarrow> loader \<Rightarrow> node \<Rightarrow> bytes \<Rightarrow> mt_error option \<times> node" where
  "node_Remove K l n path =
     (case path of
        [] \<Rightarrow> (Some ErrEmptyPath, n)
      | b # _ \<Rightarrow>
          (case ensure_loaded K l n of
             (Some e, n) \<Rightarrow> (Some e, n)
           | (None, n) \<Rightarrow>
               (case fork_at n b of
                  None \<Rightarrow> (Some ErrMtNotFound, n)
                | Some (pre, child) \<Rightarrow>
                    if take (length pre) path \<noteq> pre then (Some ErrMtNotFound, n)
                    else
                      let rest = drop (length pre) path in
                      if rest = [] then (None, del_fork n b)
                      else (case node_Remove K l child rest of
                              (r, child) \<Rightarrow> (r, set_fork n b (pre, child))))))"
  by auto
termination
  by (relation "measures [\<lambda>(K, l, n, path). length path, \<lambda>(K, l, n, path). lookup_weight n]")
    (auto simp del: length_drop intro: descend_measure')

declare node_Remove.simps [simp del]

text \<open>\<open>Add\<close>: the check of the entry's size, the value of a node, the node put in front of a fork that is split.\<close>

definition add_refBytesSize :: "node \<Rightarrow> bytes \<Rightarrow> mt_error + node" where
  "add_refBytesSize n entry =
     (if n_refBytesSize (nd n) = 0 then
        if length entry > 256 then Inl ErrEntrySize
        else if length entry > 0 then Inr (upd_data (\<lambda>d. d\<lparr>n_refBytesSize := length entry\<rparr>) n)
        else Inr n
      else if length entry > 0 \<and> n_refBytesSize (nd n) \<noteq> length entry then Inl ErrEntrySize
      else Inr n)"

definition add_metadata :: "node \<Rightarrow> meta \<Rightarrow> node" where
  "add_metadata n metadata =
     (if length metadata > 0 then makeWithMetadata (upd_data (\<lambda>d. d\<lparr>n_metadata := metadata\<rparr>) n) else n)"

definition add_value :: "node \<Rightarrow> bytes \<Rightarrow> meta \<Rightarrow> node" where
  "add_value n entry metadata =
     upd_data (\<lambda>d. d\<lparr>n_ref := None\<rparr>)
       (add_metadata (makeValue (upd_data (\<lambda>d. d\<lparr>n_entry := entry\<rparr>) n)) metadata)"

definition add_load :: "meta_codec \<Rightarrow> loader \<Rightarrow> node \<Rightarrow> mt_error option \<times> node" where
  "add_load K l n =
     (case forks n of
        Some _ \<Rightarrow> (None, n)
      | None \<Rightarrow>
          (case node_load K l n of
             (Some e, n) \<Rightarrow> (Some e, n)
           | (None, n) \<Rightarrow> (None, upd_data (\<lambda>d. d\<lparr>n_ref := None\<rparr>) n)))"

definition new_child :: "node \<Rightarrow> node" where
  "new_child n =
     (let nn = (if length (n_obfuscationKey (nd n)) > 0 then SetObfuscationKey (n_obfuscationKey (nd n)) NewNode else NewNode)
      in upd_data (\<lambda>d. d\<lparr>n_refBytesSize := n_refBytesSize (nd n)\<rparr>) nn)"

definition put_fork :: "node \<Rightarrow> byte \<Rightarrow> bytes \<times> node \<Rightarrow> mt_error option \<times> node" where
  "put_fork n b f = (if forks n = None then (Some MtPanic, n) else (None, makeEdge (set_fork n b f)))"

definition new_leaf :: "node \<Rightarrow> bytes \<Rightarrow> bytes \<Rightarrow> meta \<Rightarrow> node" where
  "new_leaf n path entry metadata =
     updateIsWithPathSeparator path
       (makeValue (add_metadata (upd_data (\<lambda>d. d\<lparr>n_entry := entry\<rparr>) (new_child n)) metadata))"

text \<open>The fork in the map and the node to add to: the fork's own node, or a new node above it.\<close>

definition split_fork :: "node \<Rightarrow> bytes \<Rightarrow> node \<Rightarrow> bytes \<Rightarrow> bytes \<Rightarrow> node \<times> node" where
  "split_fork n pre child path c =
     (let rest = drop (length c) pre in
      case rest of
        [] \<Rightarrow> (child, child)
      | r # _ \<Rightarrow>
          let child = updateIsWithPathSeparator rest child;
              nn = makeEdge (set_fork (new_child n) r (rest, child));
              nn = (if length path = length c then makeValue nn else nn)
          in (child, nn))"

definition add_weight :: "node \<Rightarrow> bytes \<Rightarrow> nat" where
  "add_weight n path =
     (case forks n of None \<Rightarrow> 1 | Some fs \<Rightarrow>
       (case path of [] \<Rightarrow> 0 | b # _ \<Rightarrow> if map_of fs b = None then 0 else size n + 1))"

lemma size_forks: "forks n = forks m \<Longrightarrow> size n = size m"
  by (cases n; cases m) simp

lemma add_refBytesSize_forks: "add_refBytesSize n entry = Inr n' \<Longrightarrow> forks n' = forks n"
  by (auto simp: add_refBytesSize_def split: if_splits)

lemma add_load_prefix:
  assumes "add_load K l n = (None, n')" "forks n = None" "fork_at n' b = Some (p, c)"
  shows "p \<noteq> []"
proof -
  obtain m where m: "node_load K l n = (None, m)" "forks m = forks n'"
    using assms(1,2) by (auto simp: add_load_def split: prod.splits option.splits)
  show ?thesis
    using ensure_loaded_prefix [of K l n None m b p c] assms(2,3) m by (simp add: ensure_loaded_def fork_at_def)
qed

lemma add_descend_empty:
  assumes "add_load K l n1 = (None, n)" "fork_at n b = Some (pre, ch)" "common pre (b # bs) = []"
    "forks n1 = forks n0" "split_fork n pre ch (b # bs) [] = (ch', nn)"
  shows "add_weight (updateIsWithPathSeparator (b # bs) nn) (b # bs) < add_weight n0 (b # bs)"
proof (cases pre)
  case Nil
  then obtain fs where fs: "forks n1 = Some fs" using add_load_prefix assms(1,2) by (cases "forks n1") auto
  then have n: "n = n1" "map_of fs b = Some (pre, ch)" using assms(1,2) by (simp_all add: add_load_def fork_at_def)
  then have "size ch < size n0" using size_fork [OF n(2), of n0] fs assms(4) by simp
  then show ?thesis using Nil fs n assms(4,5)
    by (auto simp: add_weight_def split_fork_def size_forks [of "updateIsWithPathSeparator (b # bs) nn" nn] split: option.split)
next
  case (Cons r rs)
  then have "r \<noteq> b" using assms(3) by auto
  then have "add_weight (updateIsWithPathSeparator (b # bs) nn) (b # bs) = 0"
    using Cons assms(5) by (auto simp: split_fork_def add_weight_def set_fork_def new_child_def NewNode_def Let_def)
  moreover have "forks n1 = Some fs \<Longrightarrow> map_of fs b \<noteq> None" for fs
    using assms(1,2) by (auto simp: add_load_def fork_at_def)
  ultimately show ?thesis using assms(4) by (auto simp: add_weight_def split: option.split)
qed

lemma add_descend:
  assumes "add_refBytesSize n0 entry = Inr n1" "(None, n) = add_load K l n1" "fork_at n b = Some (pre, ch)"
    "(ch', nn) = split_fork n pre ch (b # bs) (common pre (b # bs))"
    "\<not> length (drop (length (common pre (b # bs))) (b # bs)) < Suc (length bs)"
  shows "length (drop (length (common pre (b # bs))) (b # bs)) = Suc (length bs)"
    "add_weight (updateIsWithPathSeparator (b # bs) nn) (drop (length (common pre (b # bs))) (b # bs)) < add_weight n0 (b # bs)"
proof -
  have c: "common pre (b # bs) = []" using assms(5) by (cases "common pre (b # bs)") auto
  show "length (drop (length (common pre (b # bs))) (b # bs)) = Suc (length bs)" by (simp add: c)
  show "add_weight (updateIsWithPathSeparator (b # bs) nn) (drop (length (common pre (b # bs))) (b # bs)) < add_weight n0 (b # bs)"
    using add_descend_empty [OF assms(2) [symmetric] assms(3) c add_refBytesSize_forks [OF assms(1)], of ch' nn] assms(4)
    by (simp add: c)
qed

function node_Add :: "meta_codec \<Rightarrow> loader \<Rightarrow> node \<Rightarrow> bytes \<Rightarrow> bytes \<Rightarrow> meta \<Rightarrow> mt_error option \<times> node" where
  "node_Add K l n path entry metadata =
     (case add_refBytesSize n entry of
        Inl e \<Rightarrow> (Some e, n)
      | Inr n \<Rightarrow>
          (case path of
             [] \<Rightarrow> (None, add_value n entry metadata)
           | b # _ \<Rightarrow>
               (case add_load K l n of
                  (Some e, n) \<Rightarrow> (Some e, n)
                | (None, n) \<Rightarrow>
                    (case fork_at n b of
                       None \<Rightarrow>
                         if length path > nodePrefixMaxSize then
                           (case node_Add K l (new_child n) (drop nodePrefixMaxSize path) entry metadata of
                              (Some e, _) \<Rightarrow> (Some e, n)
                            | (None, nn) \<Rightarrow>
                                put_fork n b (take nodePrefixMaxSize path,
                                              updateIsWithPathSeparator (take nodePrefixMaxSize path) nn))
                         else put_fork n b (path, new_leaf n path entry metadata)
                     | Some (pre, child) \<Rightarrow>
                         let c = common pre path;
                             (child, nn) = split_fork n pre child path c
                         in (case node_Add K l (updateIsWithPathSeparator path nn) (drop (length c) path) entry metadata of
                               (Some e, nn) \<Rightarrow>
                                 (Some e, set_fork n b (pre, if length c = length pre then nn else child))
                             | (None, nn) \<Rightarrow> put_fork n b (c, nn))))))"
  by auto
termination
  apply (relation "measures [\<lambda>(K, l, n, path, entry, metadata). length path, \<lambda>(K, l, n, path, entry, metadata). add_weight n path]")
    apply simp
   apply (simp add: nodePrefixMaxSize_def)
  apply (auto simp del: length_drop intro: add_descend)
  done

declare node_Add.simps [simp del]

end
