(* ===== verification/MantarayProps.thy ===== *)
theory MantarayProps
  imports Mantaray "HOL-Library.Sublist"
begin

text \<open>
  Properties of the manifest trie: what a path looks up, the well-formed tries (every reference below
  loads, forks start with their key), and the refinement of \<open>Add\<close>, \<open>Remove\<close>, \<open>HasPrefix\<close> to a map from
  paths to entries.
\<close>

section \<open>Lookup as a map\<close>

definition node_view :: "node \<Rightarrow> bool \<times> bytes \<times> meta" where
  "node_view n = (IsValueType n, n_entry (nd n), n_metadata (nd n))"

definition look :: "meta_codec \<Rightarrow> loader \<Rightarrow> node \<Rightarrow> bytes \<Rightarrow> (bool \<times> bytes \<times> meta) option" where
  "look K l n path = (case fst (LookupNode K l n path) of Inl _ \<Rightarrow> None | Inr m \<Rightarrow> Some (node_view m))"

definition value_of :: "(bool \<times> bytes \<times> meta) option \<Rightarrow> (bytes \<times> meta) option" where
  "value_of v = (case v of Some (True, e, m) \<Rightarrow> Some (e, m) | _ \<Rightarrow> None)"

definition contents :: "meta_codec \<Rightarrow> loader \<Rightarrow> node \<Rightarrow> bytes \<Rightarrow> (bytes \<times> meta) option" where
  "contents K l n path = value_of (look K l n path)"

lemma value_of_simps [simp]:
  "value_of None = None" "value_of (Some (v, e, m)) = (if v then Some (e, m) else None)"
  by (simp_all add: value_of_def)

inductive trie :: "meta_codec \<Rightarrow> loader \<Rightarrow> nat \<Rightarrow> node \<Rightarrow> bool" for K l r where
  trieI: "ensure_loaded K l n = (None, n') \<Longrightarrow> forks n' = Some fs \<Longrightarrow> distinct (map fst fs) \<Longrightarrow>
    n_refBytesSize (nd n) \<in> {0, r} \<Longrightarrow>
    (\<And>b p c. (b, p, c) \<in> set fs \<Longrightarrow> (\<exists>ps. p = b # ps) \<and> length p \<le> nodePrefixMaxSize \<and> trie K l r c) \<Longrightarrow>
    trie K l r n"

inductive_cases trieE: "trie K l r n"

inductive ends_unloaded :: "meta_codec \<Rightarrow> loader \<Rightarrow> node \<Rightarrow> bytes \<Rightarrow> bool" for K l where
  here: "forks n = None \<Longrightarrow> ends_unloaded K l n []"
| below: "ensure_loaded K l n = (None, n') \<Longrightarrow> fork_at n' b = Some (pre, c) \<Longrightarrow> prefix pre (b # bs) \<Longrightarrow>
    ends_unloaded K l c (drop (length pre) (b # bs)) \<Longrightarrow> ends_unloaded K l n (b # bs)"

lemma common_prefix: "length (common p q) = length p \<longleftrightarrow> prefix p q" "common p q = p \<longleftrightarrow> prefix p q"
  by (induction p q rule: common.induct) auto

lemma common_split: "p = common p q @ drop (length (common p q)) p" "q = common p q @ drop (length (common p q)) q"
  by (induction p q rule: common.induct) auto

lemma take_prefix: "take (length p) q = p \<longleftrightarrow> prefix p q"
  by (metis append_eq_conv_conj append_take_drop_id prefixI prefixE)

lemma common_max:
  "drop (length (common p q)) p = x # xs \<Longrightarrow> drop (length (common p q)) q = y # ys \<Longrightarrow> x \<noteq> y"
  by (induction p q rule: common.induct) (auto split: if_splits)

lemma look_Nil: "ensure_loaded K l n = (None, n') \<Longrightarrow> look K l n [] = Some (node_view n')"
  by (simp add: look_def LookupNode.simps)

lemma look_Cons:
  "ensure_loaded K l n = (None, n') \<Longrightarrow> look K l n (b # bs) =
     (case fork_at n' b of None \<Rightarrow> None
      | Some (pre, c) \<Rightarrow> if prefix pre (b # bs) then look K l c (drop (length pre) (b # bs)) else None)"
  by (subst look_def, subst LookupNode.simps)
    (auto simp: look_def Let_def common_prefix(1) common_prefix(2) [THEN iffD2] split: option.split prod.split)

section \<open>Nodes that differ only in flags\<close>

definition similar :: "node \<Rightarrow> node \<Rightarrow> bool" where
  "similar n m \<longleftrightarrow> forks n = forks m \<and> node_view n = node_view m \<and> n_ref (nd n) = n_ref (nd m)"

lemma flag_bits: "(t OR nodeTypeEdge) AND nodeTypeValue = t AND nodeTypeValue"
  "(t OR nodeTypeWithPathSeparator) AND nodeTypeValue = t AND nodeTypeValue"
  "(t OR nodeTypeWithMetadata) AND nodeTypeValue = t AND nodeTypeValue"
  "(t OR nodeTypeValue) AND nodeTypeValue = nodeTypeValue"
  by (simp_all add: nodeTypeEdge_def nodeTypeValue_def nodeTypeWithPathSeparator_def nodeTypeWithMetadata_def
      word_ao_dist)

lemma flag_mask: "((nodeTypeMask XOR nodeTypeWithPathSeparator) AND t) AND nodeTypeValue = t AND nodeTypeValue"
  by (simp add: nodeTypeMask_def nodeTypeWithPathSeparator_def nodeTypeValue_def and.commute [of _ t] and.assoc)

lemma view_flags [simp]:
  "node_view (makeEdge n) = node_view n" "node_view (makeWithPathSeparator n) = node_view n"
  "node_view (makeNotWithPathSeparator n) = node_view n"
  "node_view (updateIsWithPathSeparator p n) = node_view n"
  by (auto simp: node_view_def IsValueType_def makeEdge_def makeWithPathSeparator_def makeNotWithPathSeparator_def
      updateIsWithPathSeparator_def flag_bits flag_mask split: option.split nat.split)

lemma data_flags [simp]:
  "n_ref (nd (makeEdge n)) = n_ref (nd n)" "n_refBytesSize (nd (makeEdge n)) = n_refBytesSize (nd n)"
  "n_ref (nd (makeValue n)) = n_ref (nd n)" "n_refBytesSize (nd (makeValue n)) = n_refBytesSize (nd n)"
  "n_ref (nd (updateIsWithPathSeparator p n)) = n_ref (nd n)"
  "n_refBytesSize (nd (updateIsWithPathSeparator p n)) = n_refBytesSize (nd n)"
  by (auto simp: makeEdge_def makeValue_def makeWithPathSeparator_def makeNotWithPathSeparator_def updateIsWithPathSeparator_def
      split: option.split nat.split)

lemma similar_upd:
  "similar n m \<Longrightarrow> similar (upd_data (\<lambda>d. d\<lparr>n_obfuscationKey := k\<rparr>) n) (upd_data (\<lambda>d. d\<lparr>n_obfuscationKey := k\<rparr>) m)"
  by (auto simp: similar_def node_view_def IsValueType_def)

lemma similar_unmarshal01:
  "similar n m \<Longrightarrow> fst (unmarshal01 d r n) = fst (unmarshal01 d r m) \<and> similar (snd (unmarshal01 d r n)) (snd (unmarshal01 d r m))"
  by (auto simp: unmarshal01_def similar_def node_view_def IsValueType_def Let_def split: prod.split)

lemma similar_unmarshal02:
  "similar n m \<Longrightarrow> fst (unmarshal02 K d r n) = fst (unmarshal02 K d r m) \<and> similar (snd (unmarshal02 K d r n)) (snd (unmarshal02 K d r m))"
  by (auto simp: unmarshal02_def similar_def node_view_def IsValueType_def makeEdge_def flag_bits Let_def split: prod.split)

lemma similar_unmarshal:
  assumes "similar n m"
  shows "fst (node_UnmarshalBinary K data n) = fst (node_UnmarshalBinary K data m) \<and>
    similar (snd (node_UnmarshalBinary K data n)) (snd (node_UnmarshalBinary K data m))"
  using assms similar_unmarshal01 [OF similar_upd [OF assms]] similar_unmarshal02 [OF similar_upd [OF assms]]
  by (simp add: node_UnmarshalBinary_def Let_def similar_upd)

lemma similar_loaded:
  assumes "similar n m"
  shows "fst (ensure_loaded K l n) = fst (ensure_loaded K l m)" "similar (snd (ensure_loaded K l n)) (snd (ensure_loaded K l m))"
  using assms similar_unmarshal [OF assms]
  by (auto simp: ensure_loaded_def node_load_def similar_def split: option.split)


lemma look_similar: "similar n m \<Longrightarrow> look K l n q = look K l m q"
proof -
  assume sim: "similar n m"
  obtain e n' m' where n: "ensure_loaded K l n = (e, n')" and m: "ensure_loaded K l m = (e, m')"
    using similar_loaded(1) [OF sim, of K l] by (metis fst_conv surj_pair)
  have s: "similar n' m'" using similar_loaded(2) [OF sim, of K l] n m by simp
  show ?thesis
  proof (cases e)
    case None
    then show ?thesis using n m s
      by (cases q) (simp_all add: look_Nil look_Cons similar_def fork_at_def)
  qed (simp add: look_def LookupNode.simps n m)
qed

lemma trie_similar:
  assumes "trie K l r n" "similar n m" "n_refBytesSize (nd m) \<in> {0, r}"
  shows "trie K l r m"
  using assms(1)
proof (cases rule: trie.cases)
  case (trieI n' fs)
  obtain m' where m: "ensure_loaded K l m = (None, m')" "similar n' m'"
    using similar_loaded [OF assms(2), of K l] trieI(1) by (cases "ensure_loaded K l m") auto
  then show ?thesis using trieI assms(3) trie.trieI [of K l m m' fs r] by (simp add: similar_def)
qed

lemma ends_unloaded_similar:
  assumes "ends_unloaded K l n q" "similar n m"
  shows "ends_unloaded K l m q"
  using assms(1)
proof (cases rule: ends_unloaded.cases)
  case here
  then show ?thesis using assms(2) ends_unloaded.here by (simp add: similar_def)
next
  case (below n' b pre c bs)
  obtain m' where m: "ensure_loaded K l m = (None, m')" "similar n' m'"
    using similar_loaded [OF assms(2), of K l] below(2) by (cases "ensure_loaded K l m") auto
  then show ?thesis using below ends_unloaded.below [of K l m m' b pre c bs] by (simp add: similar_def fork_at_def)
qed

lemma similar_sym: "similar n m \<Longrightarrow> similar m n"
  by (simp add: similar_def)

lemma similar_path [simp]: "similar (updateIsWithPathSeparator p n) n" "similar n (updateIsWithPathSeparator p n)"
  by (simp_all add: similar_def)

lemma similar_makeEdge [simp]: "similar (makeEdge n) n"
  by (simp add: similar_def)

lemma look_path [simp]: "look K l (updateIsWithPathSeparator p n) q = look K l n q"
  by (rule look_similar) simp

section \<open>Loading, once\<close>

text \<open>What \<open>Add\<close> works on: the node after the check of the entry size and the load.\<close>

lemma unmarshal_keeps:
  "n_refBytesSize (nd (snd (node_UnmarshalBinary K data n))) = n_refBytesSize (nd n)"
  by (simp add: node_UnmarshalBinary_def unmarshal01_def unmarshal02_def makeEdge_def Let_def split: prod.split)

lemma load_keeps: "ensure_loaded K l n = (e, n') \<Longrightarrow> n_refBytesSize (nd n') = n_refBytesSize (nd n)"
  using unmarshal_keeps [of K _ n]
  by (auto simp: ensure_loaded_def node_load_def split: option.splits) (metis snd_conv)

lemma loaded_self: "forks n = Some fs \<Longrightarrow> ensure_loaded K l n = (None, n)"
  by (simp add: ensure_loaded_def)

lemma look_upd_ref: "forks n = Some fs \<Longrightarrow> look K l (upd_data (\<lambda>d. d\<lparr>n_ref := x\<rparr>) n) q = look K l n q"
  by (cases q) (simp_all add: look_Nil [OF loaded_self] look_Cons [OF loaded_self] node_view_def IsValueType_def fork_at_def)

definition in_memory :: "meta_codec \<Rightarrow> loader \<Rightarrow> nat \<Rightarrow> node \<Rightarrow> bool" where
  "in_memory K l r n \<longleftrightarrow> trie K l r n \<and> forks n \<noteq> None"

lemma in_memory_iff:
  "in_memory K l r n \<longleftrightarrow> (\<exists>fs. forks n = Some fs \<and> distinct (map fst fs) \<and> n_refBytesSize (nd n) \<in> {0, r} \<and>
     (\<forall>(b, p, c) \<in> set fs. (\<exists>ps. p = b # ps) \<and> length p \<le> nodePrefixMaxSize \<and> trie K l r c))"
  (is "_ \<longleftrightarrow> (\<exists>fs. ?P fs)")
proof
  assume m: "in_memory K l r n"
  then obtain fs where fs: "forks n = Some fs" by (auto simp: in_memory_def)
  have "trie K l r n" using m by (simp add: in_memory_def)
  then have "?P fs" using fs by (cases rule: trie.cases) (auto simp: loaded_self)
  then show "\<exists>fs. ?P fs" ..
next
  assume "\<exists>fs. ?P fs"
  then obtain fs where fs: "?P fs" ..
  then have "trie K l r n" by (intro trie.trieI [of K l n n fs]) (auto simp: loaded_self)
  then show "in_memory K l r n" using fs by (simp add: in_memory_def)
qed

lemma in_memory_fork:
  "in_memory K l r n \<Longrightarrow> fork_at n b = Some (p, c) \<Longrightarrow> (\<exists>ps. p = b # ps) \<and> length p \<le> nodePrefixMaxSize \<and> trie K l r c"
  unfolding in_memory_iff fork_at_def by (auto dest!: map_of_SomeD split: option.splits)

lemma in_memory_set_fork:
  assumes "in_memory K l r n" "trie K l r c" "length p \<le> nodePrefixMaxSize" "p = b # ps"
  shows "in_memory K l r (set_fork n b (p, c))"
proof -
  obtain fs where fs: "forks n = Some fs" "distinct (map fst fs)" "n_refBytesSize (nd n) \<in> {0, r}"
      "\<forall>(b, p, c) \<in> set fs. (\<exists>ps. p = b # ps) \<and> length p \<le> nodePrefixMaxSize \<and> trie K l r c"
    using assms(1) unfolding in_memory_iff by blast
  have "\<forall>(b, p, c) \<in> set (AList.update b (p, c) fs). (\<exists>ps. p = b # ps) \<and> length p \<le> nodePrefixMaxSize \<and> trie K l r c"
    using fs(4) assms(2-4) by (auto dest!: update_set)
  then show ?thesis using fs unfolding in_memory_iff by (simp add: set_fork_def distinct_update)
qed

lemma in_memory_similar: "in_memory K l r n \<Longrightarrow> similar n m \<Longrightarrow> n_refBytesSize (nd m) \<in> {0, r} \<Longrightarrow> in_memory K l r m"
  using trie_similar unfolding in_memory_def similar_def by metis

lemma in_memory_edge: "in_memory K l r (makeEdge n) \<longleftrightarrow> in_memory K l r n"
  unfolding in_memory_iff by simp

lemma fork_at_set: "forks n \<noteq> None \<Longrightarrow> fork_at (set_fork n b f) b' = (if b' = b then Some f else fork_at n b')"
  by (auto simp: fork_at_def set_fork_def update_conv')

lemma add_loaded:
  assumes t: "trie K l r n" and e: "length entry \<in> {0, r}" "r \<le> 256"
  obtains n1 n2 where "add_refBytesSize n entry = Inr n1" "add_load K l n1 = (None, n2)" "in_memory K l r n2"
    "\<And>q. look K l n2 q = look K l n q" "similar n1 n" "n_refBytesSize (nd n1) \<in> {0, r}"
proof -
  have sz: "n_refBytesSize (nd n) \<in> {0, r}" using t by (auto elim: trieE)
  define n1 where "n1 = (if n_refBytesSize (nd n) = 0 \<and> length entry > 0
    then upd_data (\<lambda>d. d\<lparr>n_refBytesSize := length entry\<rparr>) n else n)"
  have n1: "add_refBytesSize n entry = Inr n1" "similar n1 n" "n_refBytesSize (nd n1) \<in> {0, r}"
    using e sz by (auto simp: n1_def add_refBytesSize_def similar_def node_view_def IsValueType_def)
  then have t1: "trie K l r n1" using trie_similar [OF t] similar_sym by blast
  then obtain n' fs where n': "ensure_loaded K l n1 = (None, n')" "forks n' = Some fs" "distinct (map fst fs)"
      "\<And>b p c. (b, p, c) \<in> set fs \<Longrightarrow> (\<exists>ps. p = b # ps) \<and> length p \<le> nodePrefixMaxSize \<and> trie K l r c"
    by (rule trieE) (rule that)
  let ?n2 = "case forks n1 of None \<Rightarrow> upd_data (\<lambda>d. d\<lparr>n_ref := None\<rparr>) n' | Some _ \<Rightarrow> n1"
  have l: "add_load K l n1 = (None, ?n2)"
    using n'(1) by (auto simp: add_load_def ensure_loaded_def split: option.split)
  have "n_refBytesSize (nd n') \<in> {0, r}" using load_keeps [OF n'(1)] n1(3) by simp
  moreover have "n' = n1" if "forks n1 \<noteq> None" using n'(1) that by (auto simp: loaded_self)
  ultimately have "forks ?n2 = Some fs \<and> n_refBytesSize (nd ?n2) \<in> {0, r}"
    using n'(2) by (cases "forks n1") simp_all
  then have m: "in_memory K l r ?n2"
    unfolding in_memory_iff using n'(3,4) by (intro exI [of _ fs]) blast
  have "look K l ?n2 q = look K l n q" for q
  proof -
    have "look K l n' q = look K l n1 q"
      using n' by (cases q) (simp_all add: look_Nil look_Cons loaded_self)
    moreover have "look K l (upd_data (\<lambda>d. d\<lparr>n_ref := None\<rparr>) n') q = look K l n' q"
      by (rule look_upd_ref [OF n'(2)])
    ultimately show ?thesis using look_similar [OF n1(2)] by (simp split: option.split)
  qed
  then show thesis using that n1 l m by blast
qed


section \<open>Add\<close>

definition new_meta :: "(bool \<times> bytes \<times> meta) option \<Rightarrow> meta \<Rightarrow> meta" where
  "new_meta old metadata = (if metadata = [] then (case old of None \<Rightarrow> [] | Some (_, _, m) \<Rightarrow> m) else metadata)"

lemma in_memory_loaded: "in_memory K l r n \<Longrightarrow> ensure_loaded K l n = (None, n)"
  by (auto simp: in_memory_def loaded_self)

lemma contents_Nil: "in_memory K l r n \<Longrightarrow> look K l n [] = Some (node_view n)"
  by (rule look_Nil [OF in_memory_loaded])

lemma view_set_fork [simp]: "node_view (set_fork n b f) = node_view n"
  by (simp add: set_fork_def node_view_def IsValueType_def)

lemma put_fork_ok:
  assumes m: "in_memory K l r n" and c: "trie K l r c" "length p \<le> nodePrefixMaxSize" "p = b # ps"
  shows "\<exists>n'. put_fork n b (p, c) = (None, n') \<and> in_memory K l r n' \<and>
    (\<forall>q. look K l n' q = (if prefix p q then look K l c (drop (length p) q)
       else if q = [] \<or> hd q \<noteq> b then look K l n q else None))"
proof -
  let ?n' = "makeEdge (set_fork n b (p, c))"
  have f: "forks n \<noteq> None" using m by (simp add: in_memory_def)
  have m': "in_memory K l r ?n'" using in_memory_set_fork [OF m c] by (simp add: in_memory_edge)
  have "look K l ?n' q = (if prefix p q then look K l c (drop (length p) q)
       else if q = [] \<or> hd q \<noteq> b then look K l n q else None)" for q
  proof (cases q)
    case Nil
    have "node_view ?n' = node_view n" by simp
    then show ?thesis using Nil c(3) contents_Nil [OF m'] by (simp add: contents_Nil [OF m])
  next
    case (Cons x xs)
    have "fork_at ?n' x = (if x = b then Some (p, c) else fork_at n x)"
      using fork_at_set [OF f, of b "(p, c)" x] by (simp add: fork_at_def)
    then show ?thesis using Cons c(3) look_Cons [OF in_memory_loaded [OF m'], of x xs]
      by (auto simp: look_Cons [OF in_memory_loaded [OF m]])
  qed
  then show ?thesis using m' f by (auto simp: put_fork_def)
qed

lemma look_fork:
  assumes "in_memory K l r n"
  shows "fork_at n b = None \<Longrightarrow> look K l n (b # bs) = None"
    "fork_at n b = Some (p, c) \<Longrightarrow> look K l n (b # bs) = (if prefix p (b # bs) then look K l c (drop (length p) (b # bs)) else None)"
  by (simp_all add: look_Cons [OF in_memory_loaded [OF assms]])

lemma new_child_simps [simp]:
  "forks (new_child n) = Some []" "n_refBytesSize (nd (new_child n)) = n_refBytesSize (nd n)"
  "node_view (new_child n) = (False, [], [])" "n_ref (nd (new_child n)) = None"
  by (simp_all add: new_child_def NewNode_def node_view_def IsValueType_def newData_def SetObfuscationKey_def nodeTypeValue_def Let_def)

lemma look_leaf: "forks n = Some [] \<Longrightarrow> look K l n q = (if q = [] then Some (node_view n) else None)"
  by (cases q) (simp_all add: look_Nil [OF loaded_self] look_Cons [OF loaded_self] fork_at_def)

lemma in_memory_leaf: "forks n = Some [] \<Longrightarrow> n_refBytesSize (nd n) \<in> {0, r} \<Longrightarrow> in_memory K l r n"
  by (simp add: in_memory_iff)

lemma not_ends_leaf: "forks n = Some [] \<Longrightarrow> \<not> ends_unloaded K l n q"
  by (auto simp: loaded_self fork_at_def elim: ends_unloaded.cases)

lemma view_makeValue: "node_view (makeValue n) = (True, n_entry (nd n), n_metadata (nd n))"
  by (simp add: node_view_def IsValueType_def makeValue_def flag_bits)

lemma view_makeValue': "node_view (makeValue n) = (True, snd (node_view n))"
  by (simp add: view_makeValue) (simp add: node_view_def)

lemma data_metadata [simp]:
  "n_entry (nd (add_metadata n m)) = n_entry (nd n)" "n_metadata (nd (add_metadata n m)) = (if m = [] then n_metadata (nd n) else m)"
  "n_refBytesSize (nd (add_metadata n m)) = n_refBytesSize (nd n)" "forks (add_metadata n m) = forks n"
  by (simp_all add: add_metadata_def makeWithMetadata_def)

lemma view_value:
  "node_view (add_value n entry metadata) = (True, entry, if metadata = [] then n_metadata (nd n) else metadata)"
  "node_view (new_leaf n path entry metadata) = (True, entry, metadata)"
  by (simp add: add_value_def add_metadata_def makeValue_def makeWithMetadata_def node_view_def IsValueType_def flag_bits)
    (simp add: new_leaf_def view_makeValue, simp add: new_child_def NewNode_def newData_def SetObfuscationKey_def Let_def)

lemma forks_value [simp]:
  "forks (add_value n entry metadata) = forks n" "forks (new_leaf n path entry metadata) = Some []"
  "n_refBytesSize (nd (add_value n entry metadata)) = n_refBytesSize (nd n)"
  "n_refBytesSize (nd (new_leaf n path entry metadata)) = n_refBytesSize (nd n)"
  by (simp_all add: add_value_def new_leaf_def)

text \<open>The end of the path, a new branch, and a fork that is kept or split.\<close>

definition added :: "meta_codec \<Rightarrow> loader \<Rightarrow> nat \<Rightarrow> bytes \<Rightarrow> bytes \<Rightarrow> meta \<Rightarrow> node \<Rightarrow> node \<Rightarrow> bool" where
  "added K l r path entry metadata n n' \<longleftrightarrow> in_memory K l r n' \<and>
     (\<forall>q. contents K l n' q =
        (if q = path then Some (entry, new_meta (look K l n path) metadata) else contents K l n q))"

lemma added_value:
  assumes "trie K l r n" "forks n = Some fs" "add_refBytesSize n entry = Inr n1" "n_refBytesSize (nd n1) \<in> {0, r}" "similar n1 n"
  shows "added K l r [] entry metadata n (add_value n1 entry metadata)"
proof -
  have m: "in_memory K l r n1" using assms trie_similar similar_sym by (force simp: in_memory_def similar_def)
  have m': "in_memory K l r (add_value n1 entry metadata)" using m assms(4) by (simp add: in_memory_iff)
  have v: "look K l n [] = Some (node_view n1)" using look_similar [OF assms(5)] contents_Nil [OF m] by simp
  have "look K l (add_value n1 entry metadata) (x # xs) = look K l n (x # xs)" for x xs
    using look_similar [OF assms(5), of K l "x # xs"]
    by (simp add: look_Cons [OF in_memory_loaded [OF m']] look_Cons [OF in_memory_loaded [OF m]] fork_at_def)
  then have "contents K l (add_value n1 entry metadata) q =
     (if q = [] then Some (entry, new_meta (look K l n []) metadata) else contents K l n q)" for q
    using contents_Nil [OF m'] v by (cases q) (simp_all add: contents_def view_value new_meta_def node_view_def [of n1])
  then show ?thesis using m' by (simp add: added_def)
qed


lemma added_branch:
  assumes t: "trie K l r n" "length entry \<in> {0, r}" "r \<le> 256"
    and m: "in_memory K l r n2" "\<And>q. look K l n2 q = look K l n q" "fork_at n2 b = None"
    and nn: "added K l r (drop (length p) path) entry metadata n0 nn"
    and n0: "\<And>q. q \<noteq> drop (length p) path \<Longrightarrow> contents K l n0 q = None" "new_meta (look K l n0 (drop (length p) path)) metadata = metadata"
    and p: "p = take nodePrefixMaxSize path" "path = b # bs"
  shows "\<exists>n'. put_fork n2 b (p, nn) = (None, n') \<and> added K l r path entry metadata n n'"
proof -
  have b: "p = b # take 29 bs" using p by (simp add: nodePrefixMaxSize_def take_Cons')
  have tn: "trie K l r nn"
    using nn by (simp add: added_def in_memory_def)
  obtain n' where n': "put_fork n2 b (p, nn) = (None, n')" "in_memory K l r n'"
    "\<And>q. look K l n' q = (if prefix p q then look K l nn (drop (length p) q)
       else if q = [] \<or> hd q \<noteq> b then look K l n2 q else None)"
    using put_fork_ok [OF m(1) tn _ b] p(1) by auto
  have pp: "path = p @ drop (length p) path" using p(1) by (metis append_eq_conv_conj append_take_drop_id)
  have look_b: "look K l n (b # qs) = None" for qs using look_fork(1) [OF m(1,3)] m(2) by metis
  have "contents K l n' q = (if q = path then Some (entry, new_meta (look K l n path) metadata) else contents K l n q)" for q
  proof (cases "prefix p q")
    case True
    then obtain q' where q: "q = p @ q'" by (auto simp: prefix_def)
    then have "contents K l n' q = (if q' = drop (length p) path then Some (entry, metadata) else None)"
      using n'(3) [of q] nn n0 True by (simp add: contents_def added_def)
    moreover have "look K l n q = None" "look K l n path = None" using q b p(2) look_b by simp_all
    moreover have "q = path \<longleftrightarrow> q' = drop (length p) path" using q pp by (metis same_append_eq)
    ultimately show ?thesis by (simp add: contents_def new_meta_def)
  next
    case False
    then have "q \<noteq> path" using pp by (metis prefixI)
    then show ?thesis using False n'(3) [of q] m(2) [of q] look_b by (cases q) (auto simp: contents_def)
  qed
  then show ?thesis using n' by (auto simp: added_def)
qed

lemma common_Cons: "in_memory K l r n \<Longrightarrow> fork_at n b = Some (pre, ch) \<Longrightarrow> \<exists>cs. common pre (b # bs) = b # cs"
  using in_memory_fork by fastforce

lemma kept_fork_ok:
  assumes m: "in_memory K l r n" "fork_at n b = Some (pre, ch)" and path: "path = b # bs" and c: "prefix pre path"
  shows "look K l ch q = look K l n (pre @ q)"
    "look K l ch (drop (length pre) path) = look K l n path"
proof -
  obtain ps where ps: "pre = b # ps" using in_memory_fork [OF m] by blast
  show l: "look K l ch q = look K l n (pre @ q)" for q
    using look_fork(2) [OF m, of "ps @ q"] ps by simp
  show "look K l ch (drop (length pre) path) = look K l n path"
    using l [of "drop (length pre) path"] c by (auto simp: prefix_def)
qed

lemma split_node:
  assumes m: "in_memory K l r n" "fork_at n b = Some (pre, ch)" and path: "path = b # bs"
    and c: "c = common pre path" "\<not> prefix pre path" and s: "split_fork n pre ch path c = (ch', nn)"
  obtains x xs where "drop (length c) pre = x # xs" "in_memory K l r nn" "fork_at nn = [x \<mapsto> (x # xs, ch')]"
    "node_view nn = (drop (length c) path = [], [], [])" "\<And>q. look K l ch' q = look K l ch q"
proof -
  have pre: "pre = c @ drop (length c) pre" using common_split(1) c(1) by blast
  have "drop (length c) pre \<noteq> []"
  proof
    assume "drop (length c) pre = []"
    then have "common pre path = pre" using pre c(1) by simp
    then show False using c(2) by (simp add: common_prefix)
  qed
  then obtain x xs where rest: "drop (length c) pre = x # xs" by (meson neq_Nil_conv)
  let ?b = "set_fork (new_child n) x (x # xs, updateIsWithPathSeparator (x # xs) ch)"
  have ch: "length pre \<le> nodePrefixMaxSize" "trie K l r ch" using in_memory_fork [OF m] by blast+
  have lc: "length path = length c \<longleftrightarrow> drop (length c) path = []"
    using common_length(2) [of pre path] c(1) by (auto simp: le_antisym)
  have nn: "ch' = updateIsWithPathSeparator (x # xs) ch" "nn = (if drop (length c) path = [] then makeValue (makeEdge ?b) else makeEdge ?b)"
    using s rest lc by (simp_all add: split_fork_def Let_def)
  have t: "trie K l r ch'" unfolding nn(1)
    using trie_similar [OF ch(2), of "updateIsWithPathSeparator (x # xs) ch"] ch(2) by (auto elim: trieE)
  have sz: "n_refBytesSize (nd n) \<in> {0, r}" using m(1) by (auto simp: in_memory_iff)
  have len: "length (x # xs) \<le> nodePrefixMaxSize" using rest ch(1) by (metis diff_le_self length_drop le_trans)
  have mb: "in_memory K l r ?b"
    using in_memory_set_fork [OF in_memory_leaf [of "new_child n"] t len refl] sz nn(1) by simp
  have m': "in_memory K l r nn" using mb nn(2) by (simp add: in_memory_iff)
  have f: "fork_at nn = [x \<mapsto> (x # xs, ch')]" using nn by (auto simp: fork_at_def set_fork_def)
  have vb: "node_view (makeEdge ?b) = (False, [], [])" "node_view (new_child n) = (False, [], [])"
    by simp_all
  have v: "node_view nn = (drop (length c) path = [], [], [])"
    using vb nn(2) by (simp add: view_makeValue')
  show thesis using that [OF rest m' f v] nn(1) by simp
qed


lemma split_fork_ok:
  assumes m: "in_memory K l r n" "fork_at n b = Some (pre, ch)" and path: "path = b # bs"
    and c: "c = common pre path" "\<not> prefix pre path" and s: "split_fork n pre ch path c = (ch', nn)"
  shows "in_memory K l r nn" "\<not> ends_unloaded K l nn (drop (length c) path)"
    "new_meta (look K l nn (drop (length c) path)) metadata = new_meta (look K l n path) metadata"
    "q \<noteq> drop (length c) path \<Longrightarrow> contents K l nn q = contents K l n (c @ q)"
proof -
  obtain x xs where nn: "drop (length c) pre = x # xs" "in_memory K l r nn" "fork_at nn = [x \<mapsto> (x # xs, ch')]"
    "node_view nn = (drop (length c) path = [], [], [])" "\<And>q. look K l ch' q = look K l ch q"
    by (rule split_node [OF m path c s]) blast
  obtain cs where cs: "c = b # cs" using common_Cons [OF m] c(1) path by blast
  have pre: "pre = c @ x # xs" using common_split(1) [of pre path] c(1) nn(1) by simp
  have max: "y \<noteq> x" if "drop (length c) path = y # ys" for y ys using common_max nn(1) that c(1) by metis
  have lc: "look K l nn (y # ys) = (if y = x \<and> prefix (x # xs) (y # ys) then look K l ch (drop (length xs) ys) else None)" for y ys
    by (cases "y = x") (simp_all only: look_Cons [OF in_memory_loaded [OF nn(2)]] nn(3,5) fun_upd_same option.case prod.case
        length_Cons drop_Suc_Cons simp_thms if_False if_True fun_upd_other refl not_False_eq_True)
  have ln: "look K l n (c @ q) = (if prefix (x # xs) q then look K l ch (drop (Suc (length xs)) q) else None)" for q
    using look_fork(2) [OF m, of "cs @ q"] cs pre by simp
  have lp: "look K l n path = None" using look_fork(2) [OF m, of bs] c(2) path by simp
  show "in_memory K l r nn" by (rule nn(2))
  show "\<not> ends_unloaded K l nn (drop (length c) path)"
  proof
    assume "ends_unloaded K l nn (drop (length c) path)"
    then show False
    proof (cases rule: ends_unloaded.cases)
      case (below n' b' pre' c' bs')
      then have "n' = nn" using in_memory_loaded [OF nn(2)] by simp
      then show False using below(1,3) nn(3) max [of b' bs'] by (simp split: if_splits)
    qed (use nn(2) in \<open>simp add: in_memory_def\<close>)
  qed
  show "new_meta (look K l nn (drop (length c) path)) metadata = new_meta (look K l n path) metadata"
  proof (cases "drop (length c) path")
    case Nil
    then show ?thesis using contents_Nil [OF nn(2)] nn(4) lp by (simp add: new_meta_def)
  next
    case (Cons y ys)
    then show ?thesis using lc [of y ys] max [OF Cons] lp by simp
  qed
  show "contents K l nn q = contents K l n (c @ q)" if "q \<noteq> drop (length c) path"
  proof (cases q)
    case Nil
    then show ?thesis using that contents_Nil [OF nn(2)] nn(4) ln [of q] by (simp add: contents_def)
  next
    case (Cons y ys)
    have "y = x \<and> prefix (x # xs) (y # ys) \<longleftrightarrow> prefix (x # xs) (y # ys)" by auto
    then have "look K l nn q = look K l n (c @ q)" by (simp only: Cons lc ln length_Cons drop_Suc_Cons)
    then show ?thesis by (simp add: contents_def)
  qed
qed

lemma added_below:
  assumes m: "in_memory K l r n2" "\<And>q. look K l n2 q = look K l n q" "fork_at n2 b = Some (pre, ch)" and path: "path = b # bs"
    and c: "c = common pre path" and nn: "added K l r (drop (length c) path) entry metadata n0 nn"
    and n0: "\<And>q. q \<noteq> drop (length c) path \<Longrightarrow> contents K l n0 q = contents K l n2 (c @ q)"
      "new_meta (look K l n0 (drop (length c) path)) metadata = new_meta (look K l n2 path) metadata"
  shows "\<exists>n'. put_fork n2 b (c, nn) = (None, n') \<and> added K l r path entry metadata n n'"
proof -
  obtain cs where cs: "c = b # cs" using common_Cons [OF m(1,3)] c path by blast
  have pre: "pre = c @ drop (length c) pre" "path = c @ drop (length c) path" using common_split c by blast+
  have tn: "trie K l r nn" using nn by (simp add: added_def in_memory_def)
  have "length c \<le> nodePrefixMaxSize" using in_memory_fork [OF m(1,3)] common_length(1) [of pre path] c by simp
  then obtain n' where n': "put_fork n2 b (c, nn) = (None, n')" "in_memory K l r n'"
    "\<And>q. look K l n' q = (if prefix c q then look K l nn (drop (length c) q)
       else if q = [] \<or> hd q \<noteq> b then look K l n2 q else None)"
    using put_fork_ok [OF m(1) tn _ cs] by blast
  have "contents K l n' q = (if q = path then Some (entry, new_meta (look K l n path) metadata) else contents K l n q)" for q
  proof (cases "prefix c q")
    case True
    then obtain q' where q: "q = c @ q'" by (auto simp: prefix_def)
    have "q = path \<longleftrightarrow> q' = drop (length c) path" using q pre(2) by (metis same_append_eq)
    then show ?thesis using n'(3) [of q] nn n0 True q m(2) by (auto simp: contents_def added_def)
  next
    case False
    then have "q \<noteq> path" "\<not> prefix pre q" using pre by (metis prefixI, metis append_prefixD)
    then show ?thesis
      using False n'(3) [of q] m(2) [of q] look_fork(2) [OF m(1,3)] by (cases q) (auto simp: contents_def)
  qed
  then show ?thesis using n' by (auto simp: added_def)
qed


text \<open>\<open>Add\<close> changes the value of its path and no other, as long as the path does not end at a node that is
  still only a reference.\<close>

lemma Add_step:
  assumes "add_refBytesSize n entry = Inr n1" "add_load K l n1 = (None, n2)" "path = b # bs"
  shows "fork_at n2 b = None \<Longrightarrow> length path > nodePrefixMaxSize \<Longrightarrow>
      node_Add K l (new_child n2) (drop nodePrefixMaxSize path) entry metadata = (None, nn) \<Longrightarrow>
      node_Add K l n path entry metadata =
        put_fork n2 b (take nodePrefixMaxSize path, updateIsWithPathSeparator (take nodePrefixMaxSize path) nn)"
    "fork_at n2 b = None \<Longrightarrow> length path \<le> nodePrefixMaxSize \<Longrightarrow>
      node_Add K l n path entry metadata = put_fork n2 b (path, new_leaf n2 path entry metadata)"
    "fork_at n2 b = Some (pre, ch) \<Longrightarrow> split_fork n2 pre ch path (common pre path) = (ch', n0) \<Longrightarrow>
      node_Add K l (updateIsWithPathSeparator path n0) (drop (length (common pre path)) path) entry metadata = (None, nn) \<Longrightarrow>
      node_Add K l n path entry metadata = put_fork n2 b (common pre path, nn)"
  using assms by (subst node_Add.simps; simp add: Let_def)+

lemma split_fork_kept: "prefix pre path \<Longrightarrow> split_fork n pre ch path (common pre path) = (ch, ch)"
  by (simp add: split_fork_def common_prefix(2) [THEN iffD2])

lemma added_similar: "added K l r p e md n n' \<Longrightarrow> similar n m \<Longrightarrow> added K l r p e md m n'"
  by (simp add: added_def look_similar contents_def)

lemma added_path: "added K l r p e md n nn \<Longrightarrow> added K l r p e md n (updateIsWithPathSeparator p' nn)"
  by (simp add: added_def contents_def in_memory_iff)

lemma new_branch_added:
  "n_refBytesSize (nd n2) \<in> {0, r} \<Longrightarrow> added K l r [] entry metadata (new_child n2) (new_leaf n2 path entry metadata)"
  by (simp add: added_def in_memory_leaf look_leaf contents_def view_value new_meta_def)

lemma not_ends_below:
  assumes "add_refBytesSize n entry = Inr n1" "add_load K l n1 = (None, n2)" "in_memory K l r n2" "similar n1 n"
    "fork_at n2 b = Some (pre, ch)" "\<not> ends_unloaded K l n path" "path = b # bs" "prefix pre path"
  shows "\<not> ends_unloaded K l ch (drop (length pre) path)"
proof
  assume e: "ends_unloaded K l ch (drop (length pre) path)"
  obtain n' where n': "ensure_loaded K l n1 = (None, n')" "forks n' = forks n2"
    using assms(2) by (auto simp: add_load_def ensure_loaded_def split: option.splits prod.splits)
  then have "ends_unloaded K l n1 path"
    using ends_unloaded.below [of K l n1 n' b pre ch bs] assms(5,7,8) e by (simp add: fork_at_def)
  then show False using ends_unloaded_similar assms(4,6) by blast
qed

lemma Add_added:
  assumes "trie K l r n" "\<not> ends_unloaded K l n path" "length entry \<in> {0, r}" "r \<le> 256"
  shows "\<exists>n'. node_Add K l n path entry metadata = (None, n') \<and> added K l r path entry metadata n n'"
  using assms(1,2)
proof (induction path arbitrary: n rule: length_induct)
  case (1 path)
  obtain n1 n2 where n1: "add_refBytesSize n entry = Inr n1" "add_load K l n1 = (None, n2)" "in_memory K l r n2"
    "\<And>q. look K l n2 q = look K l n q" "similar n1 n" "n_refBytesSize (nd n1) \<in> {0, r}"
    by (rule add_loaded [OF "1.prems"(1) assms(3,4)]) blast
  show ?case
  proof (cases path)
    case Nil
    then obtain fs where "forks n = Some fs" using "1.prems"(2) ends_unloaded.here by (cases "forks n") auto
    then show ?thesis using Nil added_value [OF "1.prems"(1) _ n1(1,6,5)] n1(1) by (simp add: node_Add.simps)
  next
    case (Cons b bs)
    note step = Add_step [OF n1(1,2) Cons]
    have sz: "n_refBytesSize (nd n2) \<in> {0, r}" using n1(3) by (auto simp: in_memory_iff)
    show ?thesis
    proof (cases "fork_at n2 b")
      case None
      let ?p = "take nodePrefixMaxSize path" and ?q = "drop (length (take nodePrefixMaxSize path)) path"
      have c: "contents K l (new_child n2) q = None" "new_meta (look K l (new_child n2) ?q) metadata = metadata" for q
        by (simp_all add: look_leaf contents_def new_meta_def)
      note branch = added_branch [OF "1.prems"(1) assms(3,4) n1(3,4) None _ c refl Cons]
      show ?thesis
      proof (cases "length path > nodePrefixMaxSize")
        case True
        then have l: "length ?p = nodePrefixMaxSize" "length ?q < length path" by (simp_all add: nodePrefixMaxSize_def)
        have "trie K l r (new_child n2)" using in_memory_leaf [of "new_child n2"] sz by (simp add: in_memory_def)
        then obtain nn where nn: "node_Add K l (new_child n2) ?q entry metadata = (None, nn)" "added K l r ?q entry metadata (new_child n2) nn"
          using "1.IH" [rule_format, OF l(2), of "new_child n2"] not_ends_leaf [of "new_child n2"] by auto
        have "node_Add K l n path entry metadata = put_fork n2 b (?p, updateIsWithPathSeparator ?p nn)"
          by (rule step(1) [OF None True nn(1) [unfolded l(1)]])
        then show ?thesis using branch [OF added_path [OF nn(2)]] by simp
      next
        case False
        then have p: "?p = path" "?q = []" by simp_all
        have "node_Add K l n path entry metadata = put_fork n2 b (path, new_leaf n2 path entry metadata)"
          by (rule step(2) [OF None]) (use False in simp)
        then show ?thesis
          using branch [of "new_leaf n2 path entry metadata"] new_branch_added [OF sz] p by simp
      qed
    next
      case (Some f)
      obtain pre ch where f: "fork_at n2 b = Some (pre, ch)" using Some by (cases f) simp
      let ?c = "common pre path" and ?q = "drop (length (common pre path)) path"
      obtain ch' n0 where s: "split_fork n2 pre ch path ?c = (ch', n0)" by fastforce
      have l: "length ?q < length path" using common_Cons [OF n1(3) f, of bs] Cons by auto
      have n0: "trie K l r n0 \<and> \<not> ends_unloaded K l n0 ?q \<and>
          new_meta (look K l n0 ?q) metadata = new_meta (look K l n2 path) metadata \<and>
          (\<forall>q. q \<noteq> ?q \<longrightarrow> contents K l n0 q = contents K l n2 (?c @ q))"
      proof (cases "prefix pre path")
        case True
        have "\<not> ends_unloaded K l ch (drop (length pre) path)"
          using "1.prems"(2) not_ends_below [OF n1(1-3,5) f _ Cons True] by blast
        moreover have "n0 = ch" "?c = pre" using s split_fork_kept [OF True, of n2 ch] True by (auto simp: common_prefix(2))
        ultimately show ?thesis
          using kept_fork_ok [OF n1(3) f Cons True] in_memory_fork [OF n1(3) f] by (simp add: contents_def)
      next
        case False
        then show ?thesis using split_fork_ok [OF n1(3) f Cons refl False s] by (simp add: in_memory_def)
      qed
      then have "trie K l r (updateIsWithPathSeparator path n0)" "\<not> ends_unloaded K l (updateIsWithPathSeparator path n0) ?q"
        using trie_similar [of K l r n0] ends_unloaded_similar by (auto elim: trieE)
      then obtain nn where nn: "node_Add K l (updateIsWithPathSeparator path n0) ?q entry metadata = (None, nn)"
          "added K l r ?q entry metadata (updateIsWithPathSeparator path n0) nn"
        using "1.IH" [rule_format, OF l] by blast
      then show ?thesis
        using added_below [OF n1(3,4) f Cons refl added_similar [OF nn(2) similar_path(1)]] n0 step(3) [OF f s nn(1)] by simp
    qed
  qed
qed


section \<open>Remove and HasPrefix\<close>

lemma trie_loaded:
  assumes "trie K l r n"
  obtains n' where "ensure_loaded K l n = (None, n')" "in_memory K l r n'" "\<And>q. look K l n' q = look K l n q"
  using assms
proof (cases rule: trie.cases)
  case (trieI n' fs)
  have m: "in_memory K l r n'"
    unfolding in_memory_iff using trieI load_keeps [OF trieI(1)] by (intro exI [of _ fs]) auto
  have "look K l n' q = look K l n q" for q
    using trieI(1,2) by (cases q) (simp_all add: look_Nil look_Cons loaded_self)
  then show thesis using that trieI(1) m by blast
qed

lemma in_memory_del_fork: "in_memory K l r n \<Longrightarrow> in_memory K l r (del_fork n b)"
  unfolding in_memory_iff by (auto simp: del_fork_def AList.delete_eq distinct_map_filter)

lemma look_set_fork:
  assumes m: "in_memory K l r n" and c: "trie K l r c" "length p \<le> nodePrefixMaxSize" "p = b # ps"
  shows "in_memory K l r (set_fork n b (p, c))"
    "look K l (set_fork n b (p, c)) q = (if prefix p q then look K l c (drop (length p) q)
       else if q = [] \<or> hd q \<noteq> b then look K l n q else None)"
proof -
  show m': "in_memory K l r (set_fork n b (p, c))" by (rule in_memory_set_fork [OF m c])
  have p: "put_fork n b (p, c) = (None, makeEdge (set_fork n b (p, c)))" using m by (simp add: put_fork_def in_memory_def)
  show "look K l (set_fork n b (p, c)) q = (if prefix p q then look K l c (drop (length p) q)
       else if q = [] \<or> hd q \<noteq> b then look K l n q else None)"
    using put_fork_ok [OF m c] look_similar [OF similar_makeEdge, of K l "set_fork n b (p, c)" q] unfolding p by auto
qed

lemma look_del_fork:
  assumes m: "in_memory K l r n"
  shows "look K l (del_fork n b) q = (if q \<noteq> [] \<and> hd q = b then None else look K l n q)"
proof (cases q)
  case Nil
  have "node_view (del_fork n b) = node_view n" by (simp add: del_fork_def node_view_def IsValueType_def)
  then show ?thesis using Nil contents_Nil [OF m] contents_Nil [OF in_memory_del_fork [OF m]] by simp
next
  case (Cons x xs)
  have "fork_at (del_fork n b) x = (if x = b then None else fork_at n x)"
    by (auto simp: fork_at_def del_fork_def delete_conv' split: option.split)
  then show ?thesis
    using Cons by (auto simp: look_Cons [OF in_memory_loaded [OF m]] look_Cons [OF in_memory_loaded [OF in_memory_del_fork [OF m]]])
qed

lemma look_self: "trie K l r n \<Longrightarrow> look K l n [] \<noteq> None"
  by (metis look_Nil option.distinct(1) trieE)

lemma Remove_step:
  assumes "ensure_loaded K l n = (None, n2)" "fork_at n2 b = Some (b # ps, ch)"
  shows "node_Remove K l n (b # ps) = (None, del_fork n2 b)"
    "rest \<noteq> [] \<Longrightarrow> node_Remove K l n (b # ps @ rest) =
       (fst (node_Remove K l ch rest), set_fork n2 b (b # ps, snd (node_Remove K l ch rest)))"
  using assms by (subst node_Remove.simps; simp split: prod.split)+

definition removed :: "meta_codec \<Rightarrow> loader \<Rightarrow> nat \<Rightarrow> bytes \<Rightarrow> node \<Rightarrow> mt_error option \<times> node \<Rightarrow> bool" where
  "removed K l r path n res \<longleftrightarrow> trie K l r (snd res) \<and>
     (if look K l n path = None then fst res = Some ErrMtNotFound \<and> (\<forall>q. look K l (snd res) q = look K l n q)
      else fst res = None \<and> (\<forall>q. look K l (snd res) q = (if prefix path q then None else look K l n q)))"

lemma Remove_removed: "trie K l r n \<Longrightarrow> path \<noteq> [] \<Longrightarrow> removed K l r path n (node_Remove K l n path)"
proof (induction path arbitrary: n rule: length_induct)
  case (1 path)
  obtain n2 where n2: "ensure_loaded K l n = (None, n2)" "in_memory K l r n2" "\<And>q. look K l n2 q = look K l n q"
    by (rule trie_loaded [OF "1.prems"(1)]) blast
  obtain b bs where path: "path = b # bs" using "1.prems"(2) by (cases path) auto
  have t2: "trie K l r n2" using n2(2) by (simp add: in_memory_def)
  show ?case
  proof (cases "fork_at n2 b")
    case None
    then show ?thesis using n2 t2 look_fork(1) [OF n2(2) None, of bs] path
      by (simp add: node_Remove.simps [of K l n] removed_def)
  next
    case (Some f)
    then obtain pre ch where f: "fork_at n2 b = Some (pre, ch)" by (cases f) simp
    have ch: "\<exists>ps. pre = b # ps" "length pre \<le> nodePrefixMaxSize" "trie K l r ch" using in_memory_fork [OF n2(2) f] by blast+
    then obtain ps where ps: "pre = b # ps" by blast
    note l = look_fork(2) [OF n2(2) f]
    show ?thesis
    proof (cases "prefix pre path")
      case False
      then show ?thesis using n2 t2 f l [of bs] path
        by (simp add: node_Remove.simps [of K l n] removed_def take_prefix)
    next
      case True
      then obtain rest where rest: "path = pre @ rest" by (auto simp: prefix_def)
      show ?thesis
      proof (cases "rest = []")
        case True
        then have p: "path = b # ps" using rest ps by simp
        have "look K l n path = look K l ch []" using l [of ps] n2(3) p ps by simp
        then have "look K l n path \<noteq> None" using look_self [OF ch(3)] by simp
        moreover have "look K l (del_fork n2 b) q = (if prefix path q then None else look K l n q)" for q
          using look_del_fork [OF n2(2), of b q] n2(3) [of q] l p ps by (cases q) auto
        ultimately show ?thesis using in_memory_del_fork [OF n2(2), of b] Remove_step(1) [OF n2(1) f [unfolded ps]] p
          by (simp add: removed_def in_memory_def)
      next
        case False
        have r: "removed K l r rest ch (node_Remove K l ch rest)"
          using "1.IH" [rule_format, of rest ch] rest ps False ch(3) by simp
        let ?c = "snd (node_Remove K l ch rest)"
        have t: "trie K l r ?c" using r by (simp add: removed_def)
        have lp: "look K l n (pre @ q) = look K l ch q" for q using l [of "ps @ q"] n2(3) ps by (metis Cons_eq_appendI append_eq_conv_conj prefixI)
        have "look K l (set_fork n2 b (pre, ?c)) q = (if prefix pre q then look K l ?c (drop (length pre) q) else look K l n q)" for q
          using look_set_fork(2) [OF n2(2) t ch(2) ps, of q] n2(3) [of q] l by (cases q) auto
        moreover have "node_Remove K l n path = (fst (node_Remove K l ch rest), set_fork n2 b (pre, ?c))"
          using Remove_step(2) [OF n2(1) f [unfolded ps] False] rest ps by simp
        ultimately show ?thesis
          using r lp rest look_set_fork(1) [OF n2(2) t ch(2) ps] by (auto simp: removed_def in_memory_def prefix_def)
      qed
    qed
  qed
qed


lemma HasPrefix_step:
  assumes "ensure_loaded K l n = (None, n2)" "fork_at n2 b = Some (pre, ch)"
  shows "prefix pre (b # bs) \<Longrightarrow> fst (node_HasPrefix K l n (b # bs)) = fst (node_HasPrefix K l ch (drop (length pre) (b # bs)))"
    "\<not> prefix pre (b # bs) \<Longrightarrow> fst (node_HasPrefix K l n (b # bs)) = Inr (prefix (b # bs) pre)"
proof -
  assume "prefix pre (b # bs)"
  then have c: "common pre (b # bs) = pre" by (simp add: common_prefix)
  show "fst (node_HasPrefix K l n (b # bs)) = fst (node_HasPrefix K l ch (drop (length pre) (b # bs)))"
    by (subst node_HasPrefix.simps) (simp add: assms c Let_def split: prod.split)
next
  assume "\<not> prefix pre (b # bs)"
  then have c: "length (common pre (b # bs)) \<noteq> length pre" by (simp add: common_prefix)
  show "fst (node_HasPrefix K l n (b # bs)) = Inr (prefix (b # bs) pre)"
    using take_prefix [of "b # bs" pre] by (subst node_HasPrefix.simps) (simp add: assms c Let_def)
qed

lemma HasPrefix_look:
  "trie K l r n \<Longrightarrow> fst (node_HasPrefix K l n path) = Inr (\<exists>q. look K l n (path @ q) \<noteq> None)"
proof (induction path arbitrary: n rule: length_induct)
  case (1 path)
  obtain n2 where n2: "ensure_loaded K l n = (None, n2)" "in_memory K l r n2" "\<And>q. look K l n2 q = look K l n q"
    by (rule trie_loaded [OF "1.prems"]) blast
  show ?case
  proof (cases path)
    case Nil
    then show ?thesis using n2(1) look_self [OF "1.prems"] by (auto simp: node_HasPrefix.simps [of K l n])
  next
    case (Cons b bs)
    show ?thesis
    proof (cases "fork_at n2 b")
      case None
      have "look K l n (b # q) = None" for q using look_fork(1) [OF n2(2) None] n2(3) by metis
      then show ?thesis using n2(1) None Cons by (simp add: node_HasPrefix.simps [of K l n])
    next
      case (Some f)
      then obtain pre ch where f: "fork_at n2 b = Some (pre, ch)" by (cases f) simp
      obtain ps where ps: "pre = b # ps" and ch: "trie K l r ch" using in_memory_fork [OF n2(2) f] by blast
      note step = HasPrefix_step [OF n2(1) f]
      have l: "look K l n (b # q) = (if prefix ps q then look K l ch (drop (length ps) q) else None)" for q
        using look_fork(2) [OF n2(2) f, of q] n2(3) ps by simp
      show ?thesis
      proof (cases "prefix pre path")
        case True
        then obtain rest where rest: "bs = ps @ rest" using Cons ps by (auto simp: prefix_def)
        have "fst (node_HasPrefix K l ch rest) = Inr (\<exists>q. look K l ch (rest @ q) \<noteq> None)"
          using "1.IH" Cons rest ch by simp
        then show ?thesis using step(1) [of bs] True Cons rest ps l by simp
      next
        case False
        have "(\<exists>q. look K l n (path @ q) \<noteq> None) \<longleftrightarrow> prefix path pre"
        proof
          assume "\<exists>q. look K l n (path @ q) \<noteq> None"
          then obtain q where "prefix ps (bs @ q)" using l Cons by (metis append_Cons)
          then show "prefix path pre" using False Cons ps by (auto simp: prefix_append)
        next
          assume "prefix path pre"
          then obtain q where "pre = path @ q" by (auto simp: prefix_def)
          then have "look K l n (path @ q) = look K l ch []" using l [of ps] ps by simp
          then show "\<exists>q. look K l n (path @ q) \<noteq> None" using look_self [OF ch] by metis
        qed
        then show ?thesis using step(2) [of bs] False Cons by simp
      qed
    qed
  qed
qed

end
