(* ===== verification/MantaraySave.thy ===== *)
theory MantaraySave
  imports MantarayProps
begin

text \<open>
  The serialisation of manifest nodes and the persistence of manifests: what \<open>MarshalBinary\<close> writes,
  \<open>UnmarshalBinary\<close> reads back, and a saved manifest that is loaded again holds the same entries.
\<close>

section \<open>Obfuscation\<close>

lemma xor_blocks_map:
  assumes "length key = nodeObfuscationKeySize"
  shows "xor_blocks key bs = map (\<lambda>i. bs ! i XOR key ! (i mod nodeObfuscationKeySize)) [0..<length bs]"
proof (induction bs rule: length_induct)
  case (1 bs)
  let ?k = nodeObfuscationKeySize
  have k: "?k > 0" by (simp add: nodeObfuscationKeySize_def)
  show ?case
  proof (cases "bs = []")
    case False
    then have "xor_blocks key (drop ?k bs) = map (\<lambda>i. drop ?k bs ! i XOR key ! (i mod ?k)) [0..<length bs - ?k]"
      using 1 k by simp
    moreover have "xor_blocks key bs = encryptDecrypt (take ?k bs) key @ xor_blocks key (drop ?k bs)"
      using False by (subst xor_blocks.simps) simp
    ultimately have x: "xor_blocks key bs = map (\<lambda>i. take ?k bs ! i XOR key ! (i mod ?k)) [0..<min (length bs) ?k] @
        map (\<lambda>i. drop ?k bs ! i XOR key ! (i mod ?k)) [0..<length bs - ?k]"
      by (simp add: encryptDecrypt_def assms)
    show ?thesis
    proof (rule nth_equalityI)
      show "length (xor_blocks key bs) = length (map (\<lambda>i. bs ! i XOR key ! (i mod ?k)) [0..<length bs])"
        by (simp add: x)
      fix i assume "i < length (xor_blocks key bs)"
      then have i: "i < length bs" by (simp add: x min_def split: if_splits)
      show "xor_blocks key bs ! i = map (\<lambda>i. bs ! i XOR key ! (i mod ?k)) [0..<length bs] ! i"
      proof (cases "i < ?k")
        case False
        then have "(i - ?k) mod ?k = i mod ?k" by (simp add: le_mod_geq)
        then show ?thesis using False i diff_less_mono [of i "length bs" ?k] by (simp add: x nth_append)
      qed (use i in \<open>simp add: x nth_append\<close>)
    qed
  qed (simp add: xor_blocks.simps)
qed

lemma length_xor_blocks [simp]: "length key = nodeObfuscationKeySize \<Longrightarrow> length (xor_blocks key bs) = length bs"
  by (simp add: xor_blocks_map)

lemma xor_blocks_involution: "length key = nodeObfuscationKeySize \<Longrightarrow> xor_blocks key (xor_blocks key bs) = bs"
  by (rule nth_equalityI) (simp_all add: xor_blocks_map xor.assoc)

section \<open>The index of forks\<close>

lemma bits_get_bit: "bits_get bb b \<longleftrightarrow> bit (bb ! unat (b div 8)) (unat (b mod 8))"
proof -
  have "(drop_bit k w AND 1 > 0) \<longleftrightarrow> bit w k" for w :: byte and k
    by (simp add: bit_iff_odd_drop_bit and_one_eq word_greater_zero_iff even_iff_mod_2_eq_zero)
  then show ?thesis by (simp add: bits_get_def)
qed

lemma bits_get_set:
  assumes "length bb = 32"
  shows "bits_get (bits_set bb b) x \<longleftrightarrow> x = b \<or> bits_get bb x"
proof -
  have d: "unat (y div 8) < 32 \<and> unat (y mod 8) < 8" for y :: byte
    using byte_less256 [of y] by (simp add: unat_div unat_mod)
  have eq: "x = b \<longleftrightarrow> unat (x div 8) = unat (b div 8) \<and> unat (x mod 8) = unat (b mod 8)"
    by (metis div_mult_mod_eq word_unat_eq_iff)
  show ?thesis
    using d [of x] d [of b] assms eq
    by (auto simp: bits_get_bit bits_set_def bit_simps nth_list_update)
qed

lemma length_bits_set [simp]: "length (bits_set bb b) = length bb"
  by (simp add: bits_set_def)

lemma length_bits_fold [simp]: "length (fold (\<lambda>k bb. bits_set bb k) ks bb) = length bb"
  by (induction ks arbitrary: bb) simp_all

lemma bits_fold:
  "length bb = 32 \<Longrightarrow> bits_get (fold (\<lambda>k bb. bits_set bb k) ks bb) x \<longleftrightarrow> x \<in> set ks \<or> bits_get bb x"
  by (induction ks arbitrary: bb) (simp, fastforce simp: bits_get_set)

definition all_bytes :: "byte list" where
  "all_bytes = map of_nat [0..<256]"

lemma all_bytes: "distinct all_bytes" "x \<in> set all_bytes"
proof -
  show "distinct all_bytes" by (auto simp: all_bytes_def distinct_map inj_on_def unat_of_nat_byte dest!: arg_cong [where f = unat])
  show "x \<in> set all_bytes" using byte_less256 [of x] by (force simp: all_bytes_def intro: image_eqI [of _ _ "unat x"])
qed

lemma bits_iter_index:
  "bits_iter (fold (\<lambda>k bb. bits_set bb k) ks (replicate 32 0)) = filter (\<lambda>b. b \<in> set ks) all_bytes"
proof -
  have "\<not> bits_get (replicate 32 0) x" for x
    using byte_less256 [of x] by (simp add: bits_get_bit unat_div)
  then have "bits_get (fold (\<lambda>k bb. bits_set bb k) ks (replicate 32 0)) = (\<lambda>b. b \<in> set ks)"
    using bits_fold [of "replicate 32 0" ks] by auto
  then show ?thesis by (simp add: bits_iter_def all_bytes_def)
qed


section \<open>Forks\<close>

text \<open>What is read back of a child: its type, reference and metadata.\<close>

definition stub :: "node \<Rightarrow> node" where
  "stub c = Node (newData\<lparr>n_type := n_type (nd c), n_ref := n_ref (nd c),
     n_metadata := if IsWithMetadataType c then n_metadata (nd c) else []\<rparr>) None"

definition metadata_ok :: "meta_codec \<Rightarrow> node \<Rightarrow> bool" where
  "metadata_ok K c \<longleftrightarrow>
     (if IsWithMetadataType c
      then length (pad_metadata (mc_Marshal K (n_metadata (nd c)))) \<le> 65535 \<and>
        mc_Unmarshal K (pad_metadata (mc_Marshal K (n_metadata (nd c)))) = Some (n_metadata (nd c))
      else n_metadata (nd c) = [])"

definition fork_ok :: "meta_codec \<Rightarrow> nat \<Rightarrow> bytes \<times> node \<Rightarrow> bool" where
  "fork_ok K r f \<longleftrightarrow> fst f \<noteq> [] \<and> length (fst f) \<le> nodePrefixMaxSize \<and> r < 256 \<and> metadata_ok K (snd f) \<and>
     (\<exists>ref. n_ref (nd (snd f)) = Some ref \<and> length ref = r)"

lemmas fork_sizes = nodeForkHeaderSize_def nodeForkPreReferenceSize_def nodePrefixMaxSize_def nodeForkMetadataBytesSize_def

definition fork_header :: "u8 \<Rightarrow> bytes \<Rightarrow> bytes \<Rightarrow> bytes" where
  "fork_header t p ref = [t, of_nat (length p)] @ copy_at (replicate nodePrefixMaxSize 0) 0 p @ ref"

lemma fork_header:
  assumes "p \<noteq> []" "length p \<le> nodePrefixMaxSize"
  shows "length (fork_header t p ref) = nodeForkPreReferenceSize + length ref" "fork_header t p ref ! 0 = t"
    "unat (fork_header t p ref ! 1) = length p"
    "slice nodeForkHeaderSize (nodeForkHeaderSize + length p) (fork_header t p ref @ x) = p"
    "drop nodeForkPreReferenceSize (fork_header t p ref) = ref"
    "slice nodeForkPreReferenceSize (nodeForkPreReferenceSize + length ref) (fork_header t p ref @ x) = ref"
  using assms by (simp_all add: fork_header_def fork_sizes copy_at_def slice_def unat_of_nat_byte drop_Cons')

lemma decode_plain:
  assumes "p \<noteq> []" "length p \<le> nodePrefixMaxSize"
  shows "fork_fromBytes (fork_header t p ref) = Inr (p, upd_data (\<lambda>d. d\<lparr>n_type := t\<rparr>) (NewNodeRef ref))"
  using assms fork_header(4) [OF assms, where x = "[]"] fork_header(3) [OF assms]
  by (simp add: fork_fromBytes_def Let_def fork_header(2,5))

lemma decode_metadata:
  assumes "p \<noteq> []" "length p \<le> nodePrefixMaxSize" "mc_Unmarshal K js = Some m" "k > 0"
  shows "fork_fromBytes02 K (fork_header t p ref @ be_put 2 j @ js) (length ref) k =
    Inr (p, upd_data (\<lambda>d. d\<lparr>n_metadata := m\<rparr>) (upd_data (\<lambda>d. d\<lparr>n_type := t\<rparr>) (NewNodeRef ref)))"
proof -
  let ?b = "fork_header t p ref @ be_put 2 j @ js"
  have "?b ! 0 = t" "unat (?b ! 1) = length p" "drop (nodeForkPreReferenceSize + length ref + nodeForkMetadataBytesSize) ?b = js"
    using fork_header(1,2,3) [OF assms(1,2)] by (simp_all add: nth_append fork_sizes)
  then show ?thesis
    using assms fork_header(4,6) [OF assms(1,2)] by (simp add: fork_fromBytes02_def Let_def)
qed

lemma pad_metadata_pos: "length (pad_metadata js) > 0"
  by (simp add: pad_metadata_def Let_def nodeObfuscationKeySize_def nodeForkMetadataBytesSize_def) auto


lemma upd_stub:
  "IsWithMetadataType c \<Longrightarrow> n_ref (nd c) = Some ref \<Longrightarrow>
     upd_data (\<lambda>d. d\<lparr>n_metadata := n_metadata (nd c)\<rparr>) (upd_data (\<lambda>d. d\<lparr>n_type := n_type (nd c)\<rparr>) (NewNodeRef ref)) = stub c"
  "\<not> IsWithMetadataType c \<Longrightarrow> n_ref (nd c) = Some ref \<Longrightarrow>
     upd_data (\<lambda>d. d\<lparr>n_type := n_type (nd c)\<rparr>) (NewNodeRef ref) = stub c"
  by (simp_all add: stub_def upd_data_def NewNodeRef_def newData_def)

lemma fork_bytes_ok:
  assumes "fork_ok K r (p, c)"
  obtains ref where "n_ref (nd c) = Some ref" "length ref = r"
    "fork_bytes K (p, c) = Inr (fork_header (n_type (nd c)) p ref @
       (if IsWithMetadataType c then
          let js = pad_metadata (mc_Marshal K (n_metadata (nd c))) in be_put 2 (length js) @ js
        else []))"
proof -
  obtain ref where "n_ref (nd c) = Some ref" "length ref = r" using assms by (auto simp: fork_ok_def)
  then show thesis using that [of ref] assms
    by (cases "IsWithMetadataType c") (simp_all add: fork_ok_def fork_bytes_def fork_header_def metadata_ok_def Let_def)
qed

lemma unmarshal_fork_step:
  assumes ok: "fork_ok K r (p, c)" and fb: "fork_bytes K (p, c) = Inr fb"
  shows "unmarshal_forks02 K (front @ fb @ rest) r (b # bs) (length front) fs =
    unmarshal_forks02 K (front @ fb @ rest) r bs (length (front @ fb)) (AList.update b (p, stub c) fs)"
proof -
  obtain ref where ref: "n_ref (nd c) = Some ref" "length ref = r"
    "fork_bytes K (p, c) = Inr (fork_header (n_type (nd c)) p ref @
       (if IsWithMetadataType c then
          let js = pad_metadata (mc_Marshal K (n_metadata (nd c))) in be_put 2 (length js) @ js
        else []))" by (rule fork_bytes_ok [OF ok])
  let ?h = "fork_header (n_type (nd c)) p ref" and ?d = "front @ fb @ rest" and ?o = "length front"
  have p: "p \<noteq> []" "length p \<le> nodePrefixMaxSize" using ok by (simp_all add: fork_ok_def)
  note h = fork_header(1,2) [OF p]
  show ?thesis
  proof (cases "IsWithMetadataType c")
    case True
    let ?js = "pad_metadata (mc_Marshal K (n_metadata (nd c)))"
    have js: "length ?js \<le> 65535" "mc_Unmarshal K ?js = Some (n_metadata (nd c))" using ok True by (simp_all add: fork_ok_def metadata_ok_def)
    have f: "fb = ?h @ be_put 2 (length ?js) @ ?js" using ref(3) fb True by (simp add: Let_def)
    let ?F = "nodeForkPreReferenceSize + r"
    have l: "length fb = ?F + nodeForkMetadataBytesSize + length ?js" using f h ref(2) by (simp add: nodeForkMetadataBytesSize_def)
    have t: "nodeTypeIsWithMetadataType (?d ! ?o)"
      using True h f by (simp add: nodeTypeIsWithMetadataType_def IsWithMetadataType_def nth_append fork_sizes)
    have m: "be_nat (slice (?o + ?F) (?o + ?F + nodeForkMetadataBytesSize) ?d) = length ?js"
      using slice_append [of "?o + ?F" "front @ ?h" "?o + ?F + nodeForkMetadataBytesSize" "be_put 2 (length ?js)" "?js @ rest"]
        h ref(2) js(1) f by (simp add: fork_sizes)
    have "slice ?o (?o + (?F + nodeForkMetadataBytesSize + length ?js)) ?d = fb"
      by (rule slice_append) (simp_all add: l)
    moreover have "fork_fromBytes02 K fb r (length ?js) = Inr (p, stub c)"
      using decode_metadata [OF p js(2) pad_metadata_pos, of "n_type (nd c)" ref "length ?js"] f ref upd_stub(1) [OF True] by simp
    moreover have "nodeForkPreReferenceSize > 0" by (simp add: fork_sizes)
    ultimately show ?thesis using l t m by (simp add: Let_def)
  next
    case False
    then have f: "fb = ?h" using ref(3) fb by simp
    have l: "length fb = nodeForkPreReferenceSize + r" using f h ref(2) by simp
    have t: "\<not> nodeTypeIsWithMetadataType (?d ! ?o)"
      using False h f by (simp add: nodeTypeIsWithMetadataType_def IsWithMetadataType_def nth_append fork_sizes)
    have "slice ?o (?o + (nodeForkPreReferenceSize + r)) ?d = fb" by (rule slice_append) (simp_all add: l)
    moreover have "fork_fromBytes fb = Inr (p, stub c)" using decode_plain [OF p] f upd_stub(2) [OF False ref(1)] by simp
    ultimately show ?thesis using l t by (simp add: Let_def fork_sizes)
  qed
qed


lemma unmarshal_forks_ok:
  assumes "\<And>b. b \<in> set bs \<Longrightarrow> \<exists>p c. fork_at n b = Some (p, c) \<and> fork_ok K r (p, c)"
  shows "\<exists>fb. forks_bytes K n bs = Inr fb \<and>
    (\<forall>front rest fs. unmarshal_forks02 K (front @ fb @ rest) r bs (length front) fs =
       (None, fold (\<lambda>b fs. case fork_at n b of None \<Rightarrow> fs | Some (p, c) \<Rightarrow> AList.update b (p, stub c) fs) bs fs))"
  using assms
proof (induction bs)
  case (Cons b bs)
  obtain p c where f: "fork_at n b = Some (p, c)" "fork_ok K r (p, c)" using Cons.prems by fastforce
  obtain fb where fb: "fork_bytes K (p, c) = Inr fb" using fork_bytes_ok [OF f(2)] by blast
  obtain fbs where fbs: "forks_bytes K n bs = Inr fbs"
    "\<And>front rest fs. unmarshal_forks02 K (front @ fbs @ rest) r bs (length front) fs =
       (None, fold (\<lambda>b fs. case fork_at n b of None \<Rightarrow> fs | Some (p, c) \<Rightarrow> AList.update b (p, stub c) fs) bs fs)"
    using Cons by force
  have "unmarshal_forks02 K (front @ (fb @ fbs) @ rest) r (b # bs) (length front) fs =
       (None, fold (\<lambda>b fs. case fork_at n b of None \<Rightarrow> fs | Some (p, c) \<Rightarrow> AList.update b (p, stub c) fs) (b # bs) fs)" for front rest fs
    using unmarshal_fork_step [OF f(2) fb, of front "fbs @ rest" b bs fs] fbs(2) [of "front @ fb" rest] f(1)
    by (simp del: unmarshal_forks02.simps)
  then show ?case using f(1) fb fbs(1) by (simp del: unmarshal_forks02.simps)
qed simp

lemma map_of_fold_update:
  "map_of (fold (\<lambda>b fs. case F b of None \<Rightarrow> fs | Some (p, c) \<Rightarrow> AList.update b (p, g c) fs) bs fs) x =
     (if x \<in> set bs \<and> F x \<noteq> None then map_option (map_prod (\<lambda>p. p) g) (F x) else map_of fs x)"
  by (induction bs arbitrary: fs) (auto simp: update_conv' split: option.splits)

lemma distinct_fold_update:
  "distinct (map fst fs) \<Longrightarrow>
     distinct (map fst (fold (\<lambda>b fs. case F b of None \<Rightarrow> fs | Some (p, c) \<Rightarrow> AList.update b (p, g c) fs) bs fs))"
  by (induction bs arbitrary: fs) (auto simp: distinct_update split: option.splits)

lemma version_bytes: "length version02HashBytes = versionHashSize" "version02HashBytes \<noteq> version01HashBytes"
  by code_simp+


section \<open>Nodes\<close>

definition reads_back :: "meta_codec \<Rightarrow> bytes \<Rightarrow> node \<Rightarrow> bool" where
  "reads_back K data n \<longleftrightarrow> (\<forall>m. \<exists>m' fs. node_UnmarshalBinary K data m = (None, m') \<and> forks m' = Some fs \<and> distinct (map fst fs) \<and>
     n_entry (nd m') = copy_at (replicate (n_refBytesSize (nd n)) 0) 0 (n_entry (nd n)) \<and>
     fork_at m' = map_option (map_prod (\<lambda>p. p) stub) \<circ> fork_at n \<and>
     IsValueType m' = IsValueType m \<and> n_metadata (nd m') = n_metadata (nd m) \<and>
     n_refBytesSize (nd m') = n_refBytesSize (nd m) \<and> n_ref (nd m') = n_ref (nd m))"

lemma unmarshal02_raw:
  assumes "length (pre :: bytes) = nodeHeaderSize" "length entry = r" "length index = 32"
    "unmarshal_forks02 K (pre @ entry @ index @ fb) r (bits_iter index) (nodeHeaderSize + r + 32) [] = (None, fs)"
  shows "\<exists>m'. unmarshal02 K (pre @ entry @ index @ fb) r m = (None, m') \<and> forks m' = Some fs \<and> n_entry (nd m') = entry \<and>
     IsValueType m' = IsValueType m \<and> n_metadata (nd m') = n_metadata (nd m) \<and>
     n_refBytesSize (nd m') = n_refBytesSize (nd m) \<and> n_ref (nd m') = n_ref (nd m)"
proof -
  let ?d = "pre @ entry @ index @ fb"
  have s: "slice nodeHeaderSize (nodeHeaderSize + r) ?d = entry"
    using assms by (intro slice_append) simp_all
  have b: "bits_fromBytes (drop (nodeHeaderSize + r) ?d) = index"
    using assms by (simp add: bits_fromBytes_def copy_at_def)
  show ?thesis
    using assms b s by (simp add: unmarshal02_def Let_def IsValueType_def makeEdge_def flag_bits)
qed

lemma marshal_ok:
  assumes fs: "forks n = Some fs" "distinct (map fst fs)" "\<forall>(b, p, c) \<in> set fs. fork_ok K r (p, c)"
    and r: "n_refBytesSize (nd n) = r" "r < 256" "length (n_entry (nd n)) \<le> r"
    and key: "length key = nodeObfuscationKeySize" "n_obfuscationKey (nd n) \<in> {[], k}" "length k = nodeObfuscationKeySize"
  shows "\<exists>data k'. node_MarshalBinary K key n = (Inr data, upd_data (\<lambda>d. d\<lparr>n_obfuscationKey := k'\<rparr>) n) \<and> reads_back K data n"
proof -
  let ?k = "if n_obfuscationKey (nd n) = [] then key else n_obfuscationKey (nd n)"
  let ?n = "upd_data (\<lambda>d. d\<lparr>n_obfuscationKey := ?k\<rparr>) n"
  let ?index = "fold (\<lambda>k bb. bits_set bb k) (map fst fs) (replicate 32 0)"
  let ?entry = "copy_at (replicate r 0) 0 (n_entry (nd n))"
  let ?h = "version02HashBytes @ [of_nat r]"
  have k: "length ?k = nodeObfuscationKeySize" using key by auto
  have n: "(if n_obfuscationKey (nd n) = [] then upd_data (\<lambda>d. d\<lparr>n_obfuscationKey := key\<rparr>) n else n) = ?n"
    by (cases n) (simp add: upd_data_def)
  have fa: "fork_at ?n = fork_at n" by (auto simp: fork_at_def)
  have mo: "map_of fs b = Some (p, c) \<Longrightarrow> fork_ok K r (p, c)" for b p c using fs(3) map_of_SomeD by fastforce
  have idx: "set (bits_iter ?index) = fst ` set fs" by (auto simp: bits_iter_index all_bytes)
  have "\<exists>p c. fork_at ?n b = Some (p, c) \<and> fork_ok K r (p, c)" if "b \<in> set (bits_iter ?index)" for b
    using that fs(1) mo [of b] map_of_is_SomeI [OF fs(2)] unfolding fa idx fork_at_def by fastforce
  then obtain fb where fb: "forks_bytes K ?n (bits_iter ?index) = Inr fb"
    "\<And>front rest fs. unmarshal_forks02 K (front @ fb @ rest) r (bits_iter ?index) (length front) fs =
       (None, fold (\<lambda>b fs. case fork_at ?n b of None \<Rightarrow> fs | Some (p, c) \<Rightarrow> AList.update b (p, stub c) fs) (bits_iter ?index) fs)"
    using unmarshal_forks_ok by blast
  let ?raw = "(?k @ ?h) @ ?entry @ ?index @ fb"
  let ?data = "take nodeObfuscationKeySize ?raw @ xor_blocks ?k (drop nodeObfuscationKeySize ?raw)"
  have cp: "copy_at (replicate nodeObfuscationKeySize 0) 0 ?k = ?k" using k by (simp add: copy_at_def)
  have m: "node_MarshalBinary K key n = (Inr ?data, ?n)"
    unfolding node_MarshalBinary_def Let_def n using fs(1) fb(1) r(1) cp by simp
  have raw: "take nodeObfuscationKeySize ?raw = ?k" "drop nodeObfuscationKeySize ?raw = ?h @ ?entry @ ?index @ fb" using k by simp_all
  have "reads_back K ?data n" unfolding reads_back_def
  proof
    fix m
    let ?m = "upd_data (\<lambda>d. d\<lparr>n_obfuscationKey := ?k\<rparr>) m"
    let ?fs = "fold (\<lambda>b fs. case fork_at ?n b of None \<Rightarrow> fs | Some (p, c) \<Rightarrow> AList.update b (p, stub c) fs) (bits_iter ?index) []"
    have hd: "length (?k @ ?h) = nodeHeaderSize" "length ?data = length ?raw"
      using k version_bytes(1) by (simp_all add: nodeHeaderSize_def nodeObfuscationKeySize_def versionHashSize_def)
    have t: "take nodeObfuscationKeySize ?data = ?k" "drop nodeObfuscationKeySize ?data = xor_blocks ?k (?h @ ?entry @ ?index @ fb)"
      unfolding raw using k by simp_all
    have dec: "?k @ xor_blocks ?k (drop nodeObfuscationKeySize ?data) = ?raw"
      unfolding t(2) xor_blocks_involution [OF k] by simp
    have v: "slice nodeObfuscationKeySize (nodeObfuscationKeySize + versionHashSize) ?raw = version02HashBytes"
      using slice_append [of nodeObfuscationKeySize ?k "nodeObfuscationKeySize + versionHashSize" version02HashBytes] k version_bytes(1) by simp
    have sz: "unat (?raw ! (nodeHeaderSize - 1)) = r"
      using k version_bytes(1) r(2)
      by (simp add: nth_append nodeHeaderSize_def nodeObfuscationKeySize_def versionHashSize_def unat_of_nat_byte)
    have U: "node_UnmarshalBinary K ?data m = unmarshal02 K ?raw r ?m"
      unfolding node_UnmarshalBinary_def Let_def t(1) dec v sz using hd version_bytes(2) by simp
    have "length ((?k @ ?h) @ ?entry @ ?index) = nodeHeaderSize + r + 32"
      unfolding length_append [of "?k @ ?h"] hd(1) by simp
    then have "unmarshal_forks02 K ?raw r (bits_iter ?index) (nodeHeaderSize + r + 32) [] = (None, ?fs)"
      using fb(2) [of "(?k @ ?h) @ ?entry @ ?index" "[]" "[]"] by (simp only: append_assoc append_Nil2)
    from unmarshal02_raw [OF hd(1) _ _ this, of ?m] r(3)
    obtain m' where m': "unmarshal02 K ?raw r ?m = (None, m')" "forks m' = Some ?fs" "n_entry (nd m') = ?entry"
      "IsValueType m' = IsValueType m" "n_metadata (nd m') = n_metadata (nd m)"
      "n_refBytesSize (nd m') = n_refBytesSize (nd m)" "n_ref (nd m') = n_ref (nd m)"
      by (auto simp: IsValueType_def)
    have "fork_at m' b = map_option (map_prod (\<lambda>p. p) stub) (fork_at n b)" for b
      using m'(2) map_of_fold_update [where F = "fork_at ?n" and g = stub and bs = "bits_iter ?index" and fs = "[]" and x = b] fs(1)
      unfolding idx fa by (auto simp: fork_at_def map_of_eq_None_iff)
    then have "fork_at m' = map_option (map_prod (\<lambda>p. p) stub) \<circ> fork_at n" by auto
    moreover have "distinct (map fst ?fs)" by (rule distinct_fold_update) simp
    ultimately show "\<exists>m' fs. node_UnmarshalBinary K ?data m = (None, m') \<and> forks m' = Some fs \<and> distinct (map fst fs) \<and>
       n_entry (nd m') = copy_at (replicate (n_refBytesSize (nd n)) 0) 0 (n_entry (nd n)) \<and>
       fork_at m' = map_option (map_prod (\<lambda>p. p) stub) \<circ> fork_at n \<and>
       IsValueType m' = IsValueType m \<and> n_metadata (nd m') = n_metadata (nd m) \<and>
       n_refBytesSize (nd m') = n_refBytesSize (nd m) \<and> n_ref (nd m') = n_ref (nd m)"
      unfolding U using m' r(1) by blast
  qed
  then show ?thesis using m by blast
qed


section \<open>Saving a manifest\<close>

text \<open>A child read back from its parent loads like the child that was saved.\<close>

definition same_ref :: "node \<Rightarrow> node \<Rightarrow> bool" where
  "same_ref n m \<longleftrightarrow> n_type (nd n) = n_type (nd m) \<and> n_metadata (nd n) = n_metadata (nd m) \<and> n_ref (nd n) = n_ref (nd m)"

lemma same_ref_unmarshal01:
  "same_ref n m \<Longrightarrow> fst (unmarshal01 d r n) = None \<Longrightarrow>
     fst (unmarshal01 d r m) = None \<and> similar (snd (unmarshal01 d r n)) (snd (unmarshal01 d r m))"
  by (auto simp: unmarshal01_def same_ref_def similar_def node_view_def IsValueType_def Let_def split: prod.splits if_splits)

lemma same_ref_unmarshal02:
  "same_ref n m \<Longrightarrow> fst (unmarshal02 K d r n) = None \<Longrightarrow>
     fst (unmarshal02 K d r m) = None \<and> similar (snd (unmarshal02 K d r n)) (snd (unmarshal02 K d r m))"
  by (auto simp: unmarshal02_def same_ref_def similar_def node_view_def IsValueType_def makeEdge_def flag_bits Let_def
      split: prod.splits if_splits)

lemma same_ref_unmarshal:
  assumes "same_ref n m" "fst (node_UnmarshalBinary K data n) = None"
  shows "fst (node_UnmarshalBinary K data m) = None \<and>
    similar (snd (node_UnmarshalBinary K data n)) (snd (node_UnmarshalBinary K data m))"
proof -
  have "same_ref (upd_data (\<lambda>d. d\<lparr>n_obfuscationKey := k\<rparr>) n) (upd_data (\<lambda>d. d\<lparr>n_obfuscationKey := k\<rparr>) m)" for k
    using assms(1) by (simp add: same_ref_def)
  note s = same_ref_unmarshal01 [OF this] same_ref_unmarshal02 [OF this]
  show ?thesis using assms(2) s unfolding node_UnmarshalBinary_def Let_def by (simp split: if_splits)
qed

lemma unmarshal_forks_only:
  assumes "node_UnmarshalBinary K data n = (None, m)" "forks m = Some fs"
  shows "\<exists>m'. node_UnmarshalBinary K data n2 = (None, m') \<and> forks m' = Some fs"
proof -
  have "unmarshal01 d r n = (None, m) \<Longrightarrow> \<exists>m'. unmarshal01 d r n2 = (None, m') \<and> forks m' = forks m" for d r n n2
    by (auto simp: unmarshal01_def Let_def split: prod.splits if_splits)
  moreover have "unmarshal02 K d r n = (None, m) \<Longrightarrow> \<exists>m'. unmarshal02 K d r n2 = (None, m') \<and> forks m' = forks m" for d r n n2
    by (auto simp: unmarshal02_def Let_def split: prod.splits if_splits)
  ultimately show ?thesis using assms unfolding node_UnmarshalBinary_def Let_def by (force split: if_splits)
qed

lemma look_same_ref:
  assumes "same_ref n m" "forks n = None" "forks m = None" "trie K l r n" "n_refBytesSize (nd m) \<in> {0, r}"
  shows "look K l m q = look K l n q" "trie K l r m"
proof -
  obtain n' where n': "ensure_loaded K l n = (None, n')" "in_memory K l r n'" "\<And>q. look K l n' q = look K l n q"
    by (rule trie_loaded [OF assms(4)]) blast
  have "n_ref (nd n) \<noteq> None" using n'(1,2) assms(2) by (auto simp: ensure_loaded_def node_load_def in_memory_def split: option.splits)
  then obtain ref L data where ref: "n_ref (nd n) = Some ref" "l = Some L" "L ref = Some data"
    "node_UnmarshalBinary K data n = (None, n')"
    using n'(1) assms(2) by (auto simp: ensure_loaded_def node_load_def split: option.splits)
  obtain m' where m': "node_UnmarshalBinary K data m = (None, m')" "similar n' m'"
    using same_ref_unmarshal [OF assms(1), of K data] ref(4) by (cases "node_UnmarshalBinary K data m") auto
  have "n_ref (nd m) = Some ref" using ref(1) assms(1) by (simp add: same_ref_def)
  then have lm: "ensure_loaded K l m = (None, m')" using m' ref(2,3) assms(3) by (simp add: ensure_loaded_def node_load_def)
  have "n_refBytesSize (nd m') \<in> {0, r}" using load_keeps [OF lm] assms(5) by simp
  then have mm: "in_memory K l r m'" using in_memory_similar n'(2) m'(2) by blast
  have "look K l m q = look K l m' q" using lm in_memory_loaded [OF mm] by (cases q) (simp_all add: look_Nil look_Cons)
  then show "look K l m q = look K l n q" using look_similar [OF m'(2)] n'(3) by simp
  from mm obtain fs where "forks m' = Some fs" "distinct (map fst fs)"
      "\<forall>(b, p, c) \<in> set fs. (\<exists>ps. p = b # ps) \<and> length p \<le> nodePrefixMaxSize \<and> trie K l r c"
    unfolding in_memory_iff by blast
  then show "trie K l r m" using assms(5) by (intro trie.trieI [OF lm]) auto
qed

text \<open>More references in the store leave what is loaded unchanged.\<close>

lemma ensure_loaded_mono:
  "ensure_loaded K (Some L) n = (None, n') \<Longrightarrow> L \<subseteq>\<^sub>m L' \<Longrightarrow> ensure_loaded K (Some L') n = (None, n')"
  by (auto simp: ensure_loaded_def node_load_def map_le_def dom_def split: option.splits)

lemma trie_mono: "trie K (Some L) r n \<Longrightarrow> L \<subseteq>\<^sub>m L' \<Longrightarrow> trie K (Some L') r n"
proof (induction rule: trie.induct)
  case (trieI n n' fs)
  then show ?case by (intro trie.trieI [OF ensure_loaded_mono [OF trieI(1)]]) auto
qed

lemma look_mono: "trie K (Some L) r n \<Longrightarrow> L \<subseteq>\<^sub>m L' \<Longrightarrow> look K (Some L') n q = look K (Some L) n q"
proof (induction q arbitrary: n rule: length_induct)
  case (1 q)
  obtain n' where n': "ensure_loaded K (Some L) n = (None, n')" "in_memory K (Some L) r n'"
    by (rule trie_loaded [OF "1.prems"(1)]) blast
  note l = n'(1) ensure_loaded_mono [OF n'(1) "1.prems"(2)]
  show ?case
  proof (cases q)
    case (Cons b bs)
    have "look K (Some L') c (drop (length p) q) = look K (Some L) c (drop (length p) q)" if "fork_at n' b = Some (p, c)" for p c
      using 1 in_memory_fork [OF n'(2) that] Cons by auto
    then show ?thesis using Cons by (auto simp: look_Cons [OF l(1)] look_Cons [OF l(2)] split: option.split)
  qed (simp add: look_Nil [OF l(1)] look_Nil [OF l(2)])
qed


definition saver_ok :: "'s saver \<Rightarrow> ('s \<Rightarrow> bytes \<Rightarrow> bytes option) \<Rightarrow> nat \<Rightarrow> bool" where
  "saver_ok S ld r \<longleftrightarrow>
     (\<forall>s bs ref s'. sv_Save S s bs = (Some ref, s') \<longrightarrow> length ref = r \<and> ld s' ref = Some bs \<and> ld s \<subseteq>\<^sub>m ld s') \<and>
     (\<forall>s bs s'. sv_Save S s bs = (None, s') \<longrightarrow> ld s \<subseteq>\<^sub>m ld s') \<and>
     (\<forall>s. length (sv_rand S s) = nodeObfuscationKeySize)"

text \<open>What can be saved: nodes in memory whose entries have the size of a reference, above nodes that are
  in the store already.\<close>

inductive savable :: "meta_codec \<Rightarrow> (bytes \<Rightarrow> bytes option) \<Rightarrow> nat \<Rightarrow> node \<Rightarrow> bool" for K L r where
  in_mem: "forks n = Some fs \<Longrightarrow> distinct (map fst fs) \<Longrightarrow> n_ref (nd n) = None \<Longrightarrow> n_refBytesSize (nd n) = r \<Longrightarrow>
    length (n_entry (nd n)) \<le> r \<Longrightarrow> (IsValueType n \<Longrightarrow> length (n_entry (nd n)) = r) \<Longrightarrow>
    length (n_obfuscationKey (nd n)) \<in> {0, nodeObfuscationKeySize} \<Longrightarrow>
    (\<And>b p c. (b, p, c) \<in> set fs \<Longrightarrow>
       (\<exists>ps. p = b # ps) \<and> length p \<le> nodePrefixMaxSize \<and> metadata_ok K c \<and> savable K L r c) \<Longrightarrow>
    savable K L r n"
| stored: "forks n = None \<Longrightarrow> n_ref (nd n) = Some ref \<Longrightarrow> length ref = r \<Longrightarrow> trie K (Some L) r n \<Longrightarrow> savable K L r n"

lemma savable_trie: "savable K L r n \<Longrightarrow> trie K (Some L) r n"
proof (induction rule: savable.induct)
  case (in_mem n fs)
  then show ?case by (intro trie.trieI [OF loaded_self [OF in_mem(1)]]) auto
qed

lemma savable_mono: "savable K L r n \<Longrightarrow> L \<subseteq>\<^sub>m L' \<Longrightarrow> savable K L' r n"
proof (induction rule: savable.induct)
  case (in_mem n fs)
  then show ?case by (intro savable.in_mem) auto
next
  case (stored n ref)
  then show ?case using trie_mono savable.stored by blast
qed

definition saved :: "meta_codec \<Rightarrow> (bytes \<Rightarrow> bytes option) \<Rightarrow> (bytes \<Rightarrow> bytes option) \<Rightarrow> nat \<Rightarrow> node \<Rightarrow> node \<Rightarrow> bool" where
  "saved K L L' r n n' \<longleftrightarrow> forks n' = None \<and> (\<exists>ref. n_ref (nd n') = Some ref \<and> length ref = r) \<and>
     n_type (nd n') = n_type (nd n) \<and> n_metadata (nd n') = n_metadata (nd n) \<and> trie K (Some L') r n' \<and>
     (\<forall>q. contents K (Some L') n' q = contents K (Some L) n q)"

lemma saved_mono:
  assumes "saved K L1 L2 r n n'" "savable K L r n" "L \<subseteq>\<^sub>m L1" "L2 \<subseteq>\<^sub>m L3"
  shows "saved K L L3 r n n'"
  using assms look_mono [OF savable_trie [OF assms(2)] assms(3)] look_mono [of K L2 r n' L3] trie_mono [of K L2 r n' L3]
  by (simp add: saved_def contents_def)

lemma saved_fork_ok:
  assumes "saved K L L' r c c'" "metadata_ok K c" "p \<noteq> []" "length p \<le> nodePrefixMaxSize" "r < 256"
  shows "fork_ok K r (p, c')" "trie K (Some L') r (stub c')" "contents K (Some L') (stub c') q = contents K (Some L) c q"
proof -
  have m: "metadata_ok K c'" using assms(1,2) by (simp add: saved_def metadata_ok_def IsWithMetadataType_def)
  show "fork_ok K r (p, c')" using assms m by (simp add: fork_ok_def saved_def)
  have "same_ref c' (stub c')" using m
    by (auto simp: same_ref_def stub_def newData_def metadata_ok_def split: if_splits)
  from look_same_ref [OF this, of K "Some L'" r] assms(1)
  show "trie K (Some L') r (stub c')" "contents K (Some L') (stub c') q = contents K (Some L) c q"
    by (simp_all add: saved_def stub_def newData_def contents_def)
qed


definition forks_saved :: "meta_codec \<Rightarrow> (bytes \<Rightarrow> bytes option) \<Rightarrow> (bytes \<Rightarrow> bytes option) \<Rightarrow> nat \<Rightarrow>
    (byte \<times> bytes \<times> node) list \<Rightarrow> (byte \<times> bytes \<times> node) list \<Rightarrow> bool" where
  "forks_saved K L L' r = list_all2 (\<lambda>(b, p, c) (b', p', c'). b' = b \<and> p' = p \<and> saved K L L' r c c')"

lemma forks_saved_keys: "forks_saved K L L' r fs fs' \<Longrightarrow> map fst fs' = map fst fs"
  unfolding forks_saved_def by (induction rule: list_all2_induct) auto

lemma forks_saved_at:
  "forks_saved K L L' r fs fs' \<Longrightarrow> rel_option (\<lambda>(p, c) (p', c'). p' = p \<and> saved K L L' r c c') (map_of fs b) (map_of fs' b)"
  unfolding forks_saved_def by (induction rule: list_all2_induct) auto

lemma forks_saved_in: "forks_saved K L L' r fs fs' \<Longrightarrow> (b, p, c') \<in> set fs' \<Longrightarrow> \<exists>c. (b, p, c) \<in> set fs \<and> saved K L L' r c c'"
  unfolding forks_saved_def by (induction rule: list_all2_induct) auto

lemma forks_saved_mono:
  assumes "forks_saved K L1 L2 r fs fs'" "\<And>b p c. (b, p, c) \<in> set fs \<Longrightarrow> savable K L r c" "L \<subseteq>\<^sub>m L1"
  shows "forks_saved K L L2 r fs fs'"
  using assms(1,2) unfolding forks_saved_def
proof (induction rule: list_all2_induct)
  case (Cons x xs y ys)
  then have "list_all2 (\<lambda>(b, p, c) (b', p', c'). b' = b \<and> p' = p \<and> saved K L L2 r c c') xs ys" by auto
  moreover obtain b p c b' p' c' where xy: "x = (b, p, c)" "y = (b', p', c')" by (metis prod_cases3)
  moreover have "saved K L L2 r c c'" using saved_mono [OF _ _ assms(3) map_le_refl] Cons.hyps(1) Cons.prems [of b p c] xy by simp
  ultimately show ?case using Cons.hyps(1) by simp
qed simp

lemma saved_node:
  assumes n: "savable K L r n" "forks n = Some fs" and r: "r < 256" and fs: "forks_saved K L L1 r fs fs'" and L: "L1 \<subseteq>\<^sub>m L2"
    and data: "reads_back K data (Node (nd n) (Some fs'))" "L2 ref = Some data" "length ref = r"
  shows "saved K L L2 r n (Node ((nd n)\<lparr>n_obfuscationKey := k, n_ref := Some ref\<rparr>) None)"
proof -
  let ?n' = "Node ((nd n)\<lparr>n_obfuscationKey := k, n_ref := Some ref\<rparr>) None"
  have n': "distinct (map fst fs)" "n_refBytesSize (nd n) = r" "length (n_entry (nd n)) \<le> r" "IsValueType n \<Longrightarrow> length (n_entry (nd n)) = r"
    and f: "\<And>b p c. (b, p, c) \<in> set fs \<Longrightarrow> (\<exists>ps. p = b # ps) \<and> length p \<le> nodePrefixMaxSize \<and> metadata_ok K c \<and> savable K L r c"
    using n by (cases rule: savable.cases; simp)+
  obtain m gs where m: "node_UnmarshalBinary K data ?n' = (None, m)" "forks m = Some gs" "distinct (map fst gs)"
     "n_entry (nd m) = copy_at (replicate r 0) 0 (n_entry (nd n))"
     "fork_at m = map_option (map_prod (\<lambda>p. p) stub) \<circ> fork_at (Node (nd n) (Some fs'))"
     "IsValueType m = IsValueType n" "n_metadata (nd m) = n_metadata (nd n)" "n_refBytesSize (nd m) = r" "n_ref (nd m) = Some ref"
    using data(1) n'(2) unfolding reads_back_def by (auto dest!: spec [of _ ?n'] simp: IsValueType_def)
  have l: "ensure_loaded K (Some L2) ?n' = (None, m)" using m(1) data(2) by (simp add: ensure_loaded_def node_load_def)
  have at: "fork_at m b = map_option (map_prod (\<lambda>p. p) stub) (map_of fs' b)" for b using m(5) by (simp add: fork_at_def)
  have ch: "(\<exists>ps. p = b # ps) \<and> length p \<le> nodePrefixMaxSize \<and> trie K (Some L2) r c' \<and>
      (\<exists>c. map_of fs b = Some (p, c) \<and> (\<forall>q. contents K (Some L2) c' q = contents K (Some L) c q))"
    if fm: "fork_at m b = Some (p, c')" for b p c'
  proof -
    obtain d' where d': "map_of fs' b = Some (p, d')" "c' = stub d'" using fm [unfolded at] by (cases "map_of fs' b") auto
    then obtain c where c: "map_of fs b = Some (p, c)" "saved K L L1 r c d'" using forks_saved_at [OF fs, of b] by (cases "map_of fs b") auto
    have fc: "\<exists>ps. p = b # ps" "length p \<le> nodePrefixMaxSize" "metadata_ok K c" "savable K L r c" using f map_of_SomeD [OF c(1)] by blast+
    have "saved K L L2 r c d'" using saved_mono [OF c(2) fc(4) map_le_refl L] .
    then show ?thesis using saved_fork_ok(2,3) [of K L L2 r c d' p] fc r c(1) d'(2) by auto
  qed
  have t: "trie K (Some L2) r ?n'"
  proof (rule trie.trieI [OF l m(2,3)])
    fix b p c assume "(b, p, c) \<in> set gs"
    then have "fork_at m b = Some (p, c)" using m(2,3) by (simp add: fork_at_def)
    then show "(\<exists>ps. p = b # ps) \<and> length p \<le> nodePrefixMaxSize \<and> trie K (Some L2) r c" using ch by blast
  qed (use n'(2) in simp)
  have "contents K (Some L2) ?n' q = contents K (Some L) n q" for q
  proof (cases q)
    case Nil
    have "IsValueType n \<Longrightarrow> n_entry (nd m) = n_entry (nd n)" using m(4) n'(4) by (simp add: copy_at_def)
    then show ?thesis using m(6,7) Nil
      by (simp add: contents_def look_Nil [OF l] look_Nil [OF loaded_self [OF n(2)]] node_view_def)
  next
    case (Cons b bs)
    show ?thesis
    proof (cases "fork_at m b")
      case None
      then have "map_of fs b = None" using at forks_saved_at [OF fs, of b] by (cases "map_of fs b") auto
      then show ?thesis using None Cons n(2) by (simp add: contents_def look_Cons [OF l] look_Cons [OF loaded_self [OF n(2)]] fork_at_def)
    next
      case (Some pc)
      obtain p c' where pc: "pc = (p, c')" by fastforce
      then obtain c where c: "map_of fs b = Some (p, c)" "\<And>q. contents K (Some L2) c' q = contents K (Some L) c q"
        using ch Some by blast
      then show ?thesis using Some pc Cons n(2)
        by (simp add: contents_def look_Cons [OF l] look_Cons [OF loaded_self [OF n(2)]] fork_at_def)
    qed
  qed
  then show ?thesis using t data(3) by (simp add: saved_def)
qed


lemma save_ok:
  assumes S: "saver_ok S ld r" and r: "r < 256"
  shows "savable K (ld s) r n \<Longrightarrow>
      \<exists>e n' s'. node_save K S n s = (e, n', s') \<and> ld s \<subseteq>\<^sub>m ld s' \<and>
        (e = None \<and> saved K (ld s) (ld s') r n n' \<or> e = Some ErrMtSave)"
    and "(\<And>b p c. (b, p, c) \<in> set fs \<Longrightarrow> savable K (ld s) r c) \<Longrightarrow>
      \<exists>e fs' s'. forks_save K S fs s = (e, fs', s') \<and> ld s \<subseteq>\<^sub>m ld s' \<and>
        (e = None \<and> forks_saved K (ld s) (ld s') r fs fs' \<or> e = Some ErrMtSave)"
  using S
proof (induction K S n s and K S fs s rule: node_save_forks_save.induct)
  case (1 K S d fs s)
  from "1.prems"(1) show ?case
  proof (cases rule: savable.cases)
    case (in_mem l)
    then have d: "n_ref d = None" "fs = Some l" by simp_all
    have f: "(\<exists>ps. p = b # ps) \<and> length p \<le> nodePrefixMaxSize \<and> metadata_ok K c \<and> savable K (ld s) r c" if "(b, p, c) \<in> set l" for b p c
      using in_mem(8) that by blast
    obtain e l' s1 where l: "forks_save K S l s = (e, l', s1)" "ld s \<subseteq>\<^sub>m ld s1"
      "e = None \<and> forks_saved K (ld s) (ld s1) r l l' \<or> e = Some ErrMtSave"
      using "1.IH" [OF d _ "1.prems"(2)] f by blast
    show ?thesis
    proof (cases e)
      case None
      have fk: "forks_saved K (ld s) (ld s1) r l l'" using l(3) None by simp
      have "fork_ok K r (p, c)" if "(b, p, c) \<in> set l'" for b p c
        using forks_saved_in [OF fk that] f saved_fork_ok(1) r by fastforce
      then have "\<exists>data k'. node_MarshalBinary K (sv_rand S s1) (Node d (Some l')) =
          (Inr data, upd_data (\<lambda>d. d\<lparr>n_obfuscationKey := k'\<rparr>) (Node d (Some l'))) \<and> reads_back K data (Node d (Some l'))"
        using in_mem "1.prems"(2) forks_saved_keys [OF fk] r
        by (intro marshal_ok [where fs = l' and r = r and k = "if n_obfuscationKey d = [] then replicate nodeObfuscationKeySize 0 else n_obfuscationKey d"])
          (auto simp: saver_ok_def)
      then obtain data k where m: "node_MarshalBinary K (sv_rand S s1) (Node d (Some l')) =
          (Inr data, Node (d\<lparr>n_obfuscationKey := k\<rparr>) (Some l'))" "reads_back K data (Node d (Some l'))"
        by (auto simp: upd_data_def)
      obtain x s2 where sv: "sv_Save S s1 data = (x, s2)" by fastforce
      have le: "ld s1 \<subseteq>\<^sub>m ld s2" using sv "1.prems"(2) by (cases x) (auto simp: saver_ok_def)
      then have le': "ld s \<subseteq>\<^sub>m ld s2" using l(2) map_le_trans by blast
      show ?thesis
      proof (cases x)
        case (Some ref)
        then have ref: "ld s2 ref = Some data" "length ref = r" using sv "1.prems"(2) by (auto simp: saver_ok_def)
        have "saved K (ld s) (ld s2) r (Node d fs) (Node (d\<lparr>n_obfuscationKey := k, n_ref := Some ref\<rparr>) None)"
          using saved_node [OF "1.prems"(1) _ r fk le _ ref, of k] d m(2) by simp
        then show ?thesis using d l(1) None m(1) sv Some le' by simp
      qed (use d l(1) None m(1) sv le' in simp)
    qed (use d l in auto)
  next
    case (stored ref)
    then have "saved K (ld s) (ld s) r (Node d fs) (Node d fs)" by (simp add: saved_def)
    then show ?thesis using stored by simp
  qed
next
  case (2 K S s)
  then show ?case by (simp add: forks_saved_def)
next
  case (3 K S b p n fs s)
  obtain e n' s1 where n: "node_save K S n s = (e, n', s1)" "ld s \<subseteq>\<^sub>m ld s1" "e = None \<and> saved K (ld s) (ld s1) r n n' \<or> e = Some ErrMtSave"
    using "3.IH"(1) [OF "3.prems"(1) [of b p n] "3.prems"(2)] by auto
  show ?case
  proof (cases e)
    case None
    have "savable K (ld s1) r c" if "(b, p, c) \<in> set fs" for b p c
      using that by (intro savable_mono [OF "3.prems"(1) n(2), of b p c]) simp
    then obtain e2 fs' s2 where f: "forks_save K S fs s1 = (e2, fs', s2)" "ld s1 \<subseteq>\<^sub>m ld s2"
      "e2 = None \<and> forks_saved K (ld s1) (ld s2) r fs fs' \<or> e2 = Some ErrMtSave"
      using "3.IH"(2) [OF n(1) [symmetric] None refl _ "3.prems"(2)] by blast
    have "forks_saved K (ld s) (ld s2) r ((b, p, n) # fs) ((b, p, n') # fs')" if "e2 = None"
    proof -
      have "savable K (ld s) r n" by (rule "3.prems"(1) [of b p]) simp
      then have "saved K (ld s) (ld s2) r n n'" using saved_mono [OF _ _ map_le_refl f(2)] n(3) None by simp
      moreover have "forks_saved K (ld s) (ld s2) r fs fs'" using f(3) that forks_saved_mono [OF _ _ n(2)] "3.prems"(1) by fastforce
      ultimately show ?thesis by (simp add: forks_saved_def)
    qed
    moreover have "forks_save K S ((b, p, n) # fs) s = (e2, (b, p, n') # fs', s2)" using n(1) f(1) None by simp
    moreover have "ld s \<subseteq>\<^sub>m ld s2" using n(2) f(2) map_le_trans by blast
    ultimately show ?thesis using f(3) by blast
  next
    case (Some x)
    then show ?thesis using n by auto
  qed
qed


section \<open>Manifests built in memory\<close>

definition node_ok :: "meta_codec \<Rightarrow> nat \<Rightarrow> node \<Rightarrow> bool" where
  "node_ok K r n \<longleftrightarrow> metadata_ok K n \<and> n_ref (nd n) = None \<and> n_refBytesSize (nd n) = r \<and> length (n_entry (nd n)) \<le> r \<and>
     length (n_obfuscationKey (nd n)) \<in> {0, nodeObfuscationKeySize} \<and>
     (\<exists>fs. forks n = Some fs \<and> distinct (map fst fs) \<and>
       (\<forall>(b, p, c) \<in> set fs. (\<exists>ps. p = b # ps) \<and> length p \<le> nodePrefixMaxSize \<and> metadata_ok K c \<and> savable K Map.empty r c))"

definition value_ok :: "nat \<Rightarrow> node \<Rightarrow> bool" where
  "value_ok r n \<longleftrightarrow> (IsValueType n \<longrightarrow> length (n_entry (nd n)) = r)"

definition built :: "meta_codec \<Rightarrow> nat \<Rightarrow> node \<Rightarrow> bool" where
  "built K r n \<longleftrightarrow> node_ok K r n \<and> value_ok r n"

lemma built_savable: "built K r n \<longleftrightarrow> savable K Map.empty r n \<and> metadata_ok K n"
proof
  assume b: "built K r n"
  then obtain fs where fs: "forks n = Some fs" "distinct (map fst fs)"
      "\<forall>(b, p, c) \<in> set fs. (\<exists>ps. p = b # ps) \<and> length p \<le> nodePrefixMaxSize \<and> metadata_ok K c \<and> savable K Map.empty r c"
    by (auto simp: built_def node_ok_def)
  then have "savable K Map.empty r n"
    using b by (intro savable.in_mem [OF fs(1)]) (auto simp: built_def node_ok_def value_ok_def)
  then show "savable K Map.empty r n \<and> metadata_ok K n" using b by (simp add: built_def node_ok_def)
next
  assume b: "savable K Map.empty r n \<and> metadata_ok K n"
  then have "savable K Map.empty r n" by simp
  then show "built K r n"
  proof (cases rule: savable.cases)
    case (in_mem fs)
    then show ?thesis using b unfolding built_def node_ok_def value_ok_def by auto
  next
    case (stored ref)
    obtain n' where n': "ensure_loaded K (Some Map.empty) n = (None, n')" by (rule trie_loaded [OF stored(4)]) blast
    then show ?thesis using stored by (simp add: ensure_loaded_def node_load_def)
  qed
qed

lemma metadata_bits: "(t OR nodeTypeEdge) AND nodeTypeWithMetadata = t AND nodeTypeWithMetadata"
  "(t OR nodeTypeWithPathSeparator) AND nodeTypeWithMetadata = t AND nodeTypeWithMetadata"
  "(t OR nodeTypeValue) AND nodeTypeWithMetadata = t AND nodeTypeWithMetadata"
  "(t OR nodeTypeWithMetadata) AND nodeTypeWithMetadata = nodeTypeWithMetadata"
  by (simp_all add: nodeTypeEdge_def nodeTypeValue_def nodeTypeWithPathSeparator_def nodeTypeWithMetadata_def word_ao_dist)

lemma metadata_mask: "((nodeTypeMask XOR nodeTypeWithPathSeparator) AND t) AND nodeTypeWithMetadata = t AND nodeTypeWithMetadata"
  by (simp add: nodeTypeMask_def nodeTypeWithPathSeparator_def nodeTypeWithMetadata_def and.commute [of _ t] and.assoc)

lemma metadata_flags [simp]:
  "metadata_ok K (makeEdge n) = metadata_ok K n" "metadata_ok K (makeValue n) = metadata_ok K n"
  "metadata_ok K (updateIsWithPathSeparator p n) = metadata_ok K n"
  by (auto simp: metadata_ok_def IsWithMetadataType_def makeEdge_def makeValue_def makeWithPathSeparator_def
      makeNotWithPathSeparator_def updateIsWithPathSeparator_def metadata_bits metadata_mask split: option.split nat.split)

lemma entry_flags [simp]:
  "n_entry (nd (makeEdge n)) = n_entry (nd n)" "n_entry (nd (makeValue n)) = n_entry (nd n)"
  "n_entry (nd (updateIsWithPathSeparator p n)) = n_entry (nd n)"
  "n_obfuscationKey (nd (makeEdge n)) = n_obfuscationKey (nd n)" "n_obfuscationKey (nd (makeValue n)) = n_obfuscationKey (nd n)"
  "n_obfuscationKey (nd (updateIsWithPathSeparator p n)) = n_obfuscationKey (nd n)"
  by (auto simp: makeEdge_def makeValue_def makeWithPathSeparator_def makeNotWithPathSeparator_def updateIsWithPathSeparator_def
      split: option.split nat.split)

lemma node_ok_flags [simp]:
  "node_ok K r (makeEdge n) = node_ok K r n" "node_ok K r (makeValue n) = node_ok K r n"
  "node_ok K r (updateIsWithPathSeparator p n) = node_ok K r n"
  by (simp_all add: node_ok_def)

lemma value_ok_flags [simp]:
  "value_ok r (makeEdge n) = value_ok r n" "value_ok r (updateIsWithPathSeparator p n) = value_ok r n"
  using view_flags(1) [of n] view_flags(4) [of p n] by (auto simp: value_ok_def node_view_def)

lemma built_path [simp]: "built K r (updateIsWithPathSeparator p n) = built K r n"
  by (simp add: built_def)

lemma node_ok_set_fork:
  assumes "node_ok K r n" "built K r c" "length p \<le> nodePrefixMaxSize" "p = b # ps"
  shows "node_ok K r (set_fork n b (p, c))"
proof -
  obtain fs where fs: "forks n = Some fs" "distinct (map fst fs)"
      "\<forall>(b, p, c) \<in> set fs. (\<exists>ps. p = b # ps) \<and> length p \<le> nodePrefixMaxSize \<and> metadata_ok K c \<and> savable K Map.empty r c"
    using assms(1) by (auto simp: node_ok_def)
  have "\<forall>(b, p, c) \<in> set (AList.update b (p, c) fs). (\<exists>ps. p = b # ps) \<and> length p \<le> nodePrefixMaxSize \<and> metadata_ok K c \<and> savable K Map.empty r c"
    using fs(3) assms(2-4) by (auto simp: built_savable dest!: update_set)
  then show ?thesis using assms(1) fs
    by (simp add: node_ok_def set_fork_def distinct_update metadata_ok_def IsWithMetadataType_def)
qed

lemma built_put_fork:
  assumes "built K r n" "built K r c" "length p \<le> nodePrefixMaxSize" "p = b # ps" "put_fork n b (p, c) = (e, n')"
  shows "built K r n'"
proof -
  have "n' = makeEdge (set_fork n b (p, c))" using assms(1,5) by (auto simp: put_fork_def built_def node_ok_def split: if_splits)
  moreover have "value_ok r (set_fork n b (p, c)) = value_ok r n" by (simp add: value_ok_def set_fork_def IsValueType_def)
  ultimately show ?thesis using node_ok_set_fork [OF _ assms(2-4), of n] assms(1) by (simp add: built_def)
qed


definition codec_ok :: "meta_codec \<Rightarrow> meta \<Rightarrow> bool" where
  "codec_ok K m \<longleftrightarrow> m = [] \<or>
     length (pad_metadata (mc_Marshal K m)) \<le> 65535 \<and> mc_Unmarshal K (pad_metadata (mc_Marshal K m)) = Some m"

lemma metadata_upd [simp]:
  "metadata_ok K (upd_data (\<lambda>d. d\<lparr>n_ref := x\<rparr>) n) = metadata_ok K n"
  "metadata_ok K (upd_data (\<lambda>d. d\<lparr>n_entry := e\<rparr>) n) = metadata_ok K n"
  by (simp_all add: metadata_ok_def IsWithMetadataType_def)

lemma metadata_add: "metadata_ok K n \<Longrightarrow> codec_ok K m \<Longrightarrow> metadata_ok K (add_metadata n m)"
  by (auto simp: metadata_ok_def codec_ok_def add_metadata_def makeWithMetadata_def IsWithMetadataType_def metadata_bits)

lemma built_value:
  assumes "node_ok K r n" "codec_ok K metadata" "length entry = r"
  shows "built K r (add_value n entry metadata)"
proof -
  let ?n = "makeValue (upd_data (\<lambda>d. d\<lparr>n_entry := entry\<rparr>) n)"
  have m: "metadata_ok K ?n" using assms(1) by (simp add: node_ok_def)
  have "metadata_ok K (add_value n entry metadata)"
    using metadata_add [OF m assms(2)] by (simp add: add_value_def)
  then show ?thesis using assms
    by (simp add: built_def node_ok_def value_ok_def) (simp add: add_value_def add_metadata_def makeValue_def makeWithMetadata_def)
qed

lemma built_new_child:
  assumes "node_ok K r n"
  shows "node_ok K r (new_child n)" "value_ok r (new_child n)"
proof -
  have v: "IsValueType (new_child n) = False" "n_entry (nd (new_child n)) = []" "n_metadata (nd (new_child n)) = []"
    using new_child_simps(3) [of n] by (simp_all add: node_view_def)
  have "n_type (nd (new_child n)) = 0" "length (n_obfuscationKey (nd (new_child n))) \<in> {0, nodeObfuscationKeySize}"
    by (simp_all add: new_child_def NewNode_def newData_def SetObfuscationKey_def nodeObfuscationKeySize_def Let_def)
  then show "node_ok K r (new_child n)" "value_ok r (new_child n)" using assms v
    by (simp_all add: node_ok_def value_ok_def metadata_ok_def IsWithMetadataType_def nodeTypeWithMetadata_def)
qed

lemma built_leaf:
  assumes "node_ok K r n" "codec_ok K metadata" "length entry = r"
  shows "built K r (new_leaf n path entry metadata)"
proof -
  let ?v = "makeValue (add_metadata (upd_data (\<lambda>d. d\<lparr>n_entry := entry\<rparr>) (new_child n)) metadata)"
  have c: "node_ok K r (upd_data (\<lambda>d. d\<lparr>n_entry := entry\<rparr>) (new_child n))"
    using built_new_child(1) [OF assms(1)] assms(3) by (simp add: node_ok_def)
  then have "metadata_ok K ?v" using metadata_add assms(2) by (simp add: node_ok_def)
  then have "built K r ?v" using c assms(3)
    by (simp add: built_def node_ok_def value_ok_def) (simp add: add_metadata_def makeWithMetadata_def)
  then show ?thesis by (simp add: new_leaf_def)
qed


lemma built_fork:
  assumes "built K r n" "fork_at n b = Some (p, c)"
  shows "\<exists>ps. p = b # ps" "length p \<le> nodePrefixMaxSize" "built K r c"
proof -
  obtain fs where fs: "forks n = Some fs"
      "\<forall>(b, p, c) \<in> set fs. (\<exists>ps. p = b # ps) \<and> length p \<le> nodePrefixMaxSize \<and> metadata_ok K c \<and> savable K Map.empty r c"
    using assms(1) by (auto simp: built_def node_ok_def)
  have "(b, p, c) \<in> set fs" using assms(2) fs(1) by (simp add: fork_at_def map_of_SomeD)
  then show "\<exists>ps. p = b # ps" "length p \<le> nodePrefixMaxSize" "built K r c" using fs(2) by (auto simp: built_savable)
qed

lemma common_rest: "\<not> prefix pre path \<Longrightarrow> drop (length (common pre path)) pre \<noteq> []"
  using common_split(1) [of pre path] common_prefix(2) [of pre path] by auto

lemma built_split:
  assumes n: "built K r n" "fork_at n b = Some (pre, ch)" and path: "path = b # bs" "\<not> prefix pre path"
    and s: "split_fork n pre ch path (common pre path) = (ch', nn)"
  shows "node_ok K r nn" "drop (length (common pre path)) path \<noteq> [] \<Longrightarrow> value_ok r nn"
proof -
  let ?c = "common pre path"
  note ch = built_fork(2,3) [OF n]
  have "drop (length ?c) pre \<noteq> []" by (rule common_rest [OF path(2)])
  then obtain x xs where rest: "drop (length ?c) pre = x # xs" by (meson neq_Nil_conv)
  let ?b = "set_fork (new_child n) x (x # xs, updateIsWithPathSeparator (x # xs) ch)"
  have len: "length (x # xs) \<le> nodePrefixMaxSize" using rest ch(1) by (metis diff_le_self length_drop le_trans)
  have b: "node_ok K r ?b" using node_ok_set_fork [OF built_new_child(1) _ len refl] n(1) ch(2) by (simp add: built_def)
  have v: "value_ok r ?b" using built_new_child(2) [of K r n] n(1) by (simp add: built_def value_ok_def set_fork_def IsValueType_def)
  have nn: "nn = (if length path = length ?c then makeValue (makeEdge ?b) else makeEdge ?b)"
    using s rest by (simp add: split_fork_def Let_def)
  show "node_ok K r nn" using nn b by simp
  show "value_ok r nn" if "drop (length ?c) path \<noteq> []" using nn v that by auto
qed


lemma Add_built:
  assumes "codec_ok K metadata" "length entry = r" "0 < r" "r \<le> 256"
  shows "node_ok K r n \<Longrightarrow> (path \<noteq> [] \<Longrightarrow> value_ok r n) \<Longrightarrow> node_Add K l n path entry metadata = (e, n') \<Longrightarrow> e = None \<and> built K r n'"
proof (induction path arbitrary: n e n' rule: length_induct)
  case (1 path)
  obtain fs where fs: "forks n = Some fs" using "1.prems"(1) by (auto simp: node_ok_def)
  have a: "add_refBytesSize n entry = Inr n" "add_load K l n = (None, n)"
    using "1.prems"(1) assms fs by (simp_all add: add_refBytesSize_def node_ok_def add_load_def)
  show ?case
  proof (cases path)
    case Nil
    then show ?thesis using "1.prems" a(1) built_value [OF "1.prems"(1) assms(1,2)] by (auto simp: node_Add.simps)
  next
    case (Cons b bs)
    have n: "built K r n" using "1.prems"(1,2) Cons by (simp add: built_def)
    note step = Add_step [OF a Cons]
    have put: "e' = None" if "put_fork n b f = (e', m)" for f e' m using that fs by (simp add: put_fork_def)
    show ?thesis
    proof (cases "fork_at n b")
      case None
      show ?thesis
      proof (cases "length path > nodePrefixMaxSize")
        case True
        let ?p = "take nodePrefixMaxSize path" and ?q = "drop nodePrefixMaxSize path"
        obtain e1 nn where nn: "node_Add K l (new_child n) ?q entry metadata = (e1, nn)" by fastforce
        have "length ?q < length path" using True by (simp add: nodePrefixMaxSize_def)
        then have r: "e1 = None" "built K r nn" using "1.IH" [rule_format, OF _ built_new_child(1) [OF "1.prems"(1)] _ nn] built_new_child(2) [OF "1.prems"(1)] by blast+
        have p: "?p = b # take 29 bs" using Cons by (simp add: nodePrefixMaxSize_def take_Cons')
        have pf: "put_fork n b (?p, updateIsWithPathSeparator ?p nn) = (e, n')"
          using step(1) [OF None True nn [unfolded r(1)]] "1.prems"(3) by simp
        show ?thesis using built_put_fork [OF n _ _ p pf] r(2) put [OF pf] by simp
      next
        case False
        have pf: "put_fork n b (path, new_leaf n path entry metadata) = (e, n')"
          using step(2) [OF None, of metadata] False "1.prems"(3) by simp
        show ?thesis using built_put_fork [OF n _ _ Cons pf] built_leaf [OF "1.prems"(1) assms(1,2)] put [OF pf] False by simp
      qed
    next
      case (Some f)
      then obtain pre ch where f: "fork_at n b = Some (pre, ch)" by (cases f) simp
      let ?c = "common pre path" and ?q = "drop (length (common pre path)) path"
      obtain ch' n0 where s: "split_fork n pre ch path ?c = (ch', n0)" by fastforce
      obtain ps where ps: "pre = b # ps" using built_fork(1) [OF n f] by blast
      have c: "?c = b # common ps bs" using Cons ps by simp
      have n0: "node_ok K r n0" "?q \<noteq> [] \<Longrightarrow> value_ok r n0"
        using built_split [OF n f Cons _ s] built_fork(3) [OF n f] s split_fork_kept [of pre path n ch]
        by (cases "prefix pre path"; auto simp: built_def)+
      obtain e1 nn where nn: "node_Add K l (updateIsWithPathSeparator path n0) ?q entry metadata = (e1, nn)" by fastforce
      have "length ?q < length path" using c Cons by simp
      then have r: "e1 = None" "built K r nn" using "1.IH" [rule_format, OF _ _ _ nn] n0 by simp_all
      have pf: "put_fork n b (?c, nn) = (e, n')" using step(3) [OF f s nn [unfolded r(1)]] "1.prems"(3) by simp
      have "length ?c \<le> nodePrefixMaxSize" using common_length(1) [of pre path] built_fork(2) [OF n f] by simp
      then show ?thesis using built_put_fork [OF n r(2) _ c pf] put [OF pf] by simp
    qed
  qed
qed


section \<open>From entries to a manifest in the store and back\<close>

lemma LookupNode_error: "trie K l r n \<Longrightarrow> fst (LookupNode K l n q) = Inl e \<Longrightarrow> e = ErrMtNotFound"
proof (induction q arbitrary: n rule: length_induct)
  case (1 q)
  obtain n' where n': "ensure_loaded K l n = (None, n')" "in_memory K l r n'"
    by (rule trie_loaded [OF "1.prems"(1)]) blast
  show ?case
  proof (cases q)
    case (Cons b bs)
    show ?thesis
    proof (cases "fork_at n' b")
      case (Some f)
      then obtain pre ch where f: "fork_at n' b = Some (pre, ch)" by (cases f) simp
      note ch = in_memory_fork [OF n'(2) f]
      then have "length (drop (length (common pre q)) q) < length q" using Cons by auto
      then show ?thesis using "1.IH" [rule_format, of "drop (length (common pre q)) q" ch] ch "1.prems"(2) n'(1) f Cons
        by (auto simp: LookupNode.simps [of K l n] Let_def split: if_splits prod.splits)
    qed (use "1.prems"(2) n'(1) Cons in \<open>simp add: LookupNode.simps [of K l n]\<close>)
  qed (use "1.prems"(2) n'(1) in \<open>simp add: LookupNode.simps [of K l n]\<close>)
qed

lemma Lookup_contents:
  assumes "trie K l r n" "q \<noteq> []"
  shows "fst (node_Lookup K l n q) = (case contents K l n q of None \<Rightarrow> Inl ErrMtNotFound | Some (e, m) \<Rightarrow> Inr e)"
proof -
  obtain x n' where x: "LookupNode K l n q = (x, n')" by fastforce
  show ?thesis
  proof (cases x)
    case (Inl e)
    then show ?thesis using LookupNode_error [OF assms(1), of q e] x by (simp add: node_Lookup_def contents_def look_def)
  next
    case (Inr m)
    then show ?thesis using x assms(2) by (simp add: node_Lookup_def contents_def look_def node_view_def)
  qed
qed

fun node_Adds :: "meta_codec \<Rightarrow> loader \<Rightarrow> node \<Rightarrow> (bytes \<times> bytes \<times> meta) list \<Rightarrow> mt_error option \<times> node" where
  "node_Adds K l n [] = (None, n)"
| "node_Adds K l n ((path, entry, metadata) # adds) =
     (case node_Add K l n path entry metadata of (Some e, n) \<Rightarrow> (Some e, n) | (None, n) \<Rightarrow> node_Adds K l n adds)"

definition entries :: "(bytes \<times> bytes \<times> meta) list \<Rightarrow> bytes \<Rightarrow> bytes option" where
  "entries adds = map_of (rev (map (\<lambda>(p, e, m). (p, e)) adds))"

definition entry_at :: "meta_codec \<Rightarrow> loader \<Rightarrow> node \<Rightarrow> bytes \<Rightarrow> bytes option" where
  "entry_at K l n q = map_option fst (contents K l n q)"

lemma built_in_memory: "built K r n \<Longrightarrow> in_memory K l r n"
proof -
  have "savable K Map.empty r n \<Longrightarrow> forks n \<noteq> None \<and> trie K l r n" for n
  proof (induction rule: savable.induct)
    case (in_mem n fs)
    then show ?case by (auto intro!: trie.trieI [OF loaded_self [OF in_mem(1)]])
  next
    case (stored n ref)
    obtain n' where "ensure_loaded K (Some Map.empty) n = (None, n')" by (rule trie_loaded [OF stored(4)]) blast
    then show ?case using stored by (simp add: ensure_loaded_def node_load_def)
  qed
  then show "built K r n \<Longrightarrow> in_memory K l r n" by (simp add: built_savable in_memory_def)
qed

lemma built_not_unloaded: "ends_unloaded K l n q \<Longrightarrow> \<not> built K r n"
proof (induction rule: ends_unloaded.induct)
  case (here n)
  then show ?case using built_in_memory [of K r n l] by (auto simp: in_memory_def)
next
  case (below n n' b pre c bs)
  show ?case
  proof
    assume b: "built K r n"
    then have "n' = n" using below(1) in_memory_loaded [OF built_in_memory [OF b]] by simp
    then show False using below(2,5) built_fork(3) [OF b] by blast
  qed
qed

lemma built_look: "built K r n \<Longrightarrow> look K l n q = look K l' n q"
proof (induction q arbitrary: n rule: length_induct)
  case (1 q)
  note m = in_memory_loaded [OF built_in_memory [OF "1.prems"]]
  show ?case
  proof (cases q)
    case (Cons b bs)
    have "look K l c (drop (length p) q) = look K l' c (drop (length p) q)" if "fork_at n b = Some (p, c)" for p c
      using "1.IH" [rule_format, of "drop (length p) q" c] built_fork [OF "1.prems" that] Cons by auto
    then show ?thesis using Cons by (auto simp: look_Cons [OF m] split: option.split)
  qed (simp add: look_Nil [OF m])
qed

lemma Adds_built:
  assumes "\<forall>(p, e, m) \<in> set adds. length e = r \<and> codec_ok K m" "0 < r" "r \<le> 256" "built K r n"
  shows "\<exists>n'. node_Adds K l n adds = (None, n') \<and> built K r n' \<and>
    (\<forall>q. entry_at K l n' q = (case entries adds q of None \<Rightarrow> entry_at K l n q | Some e \<Rightarrow> Some e))"
  using assms(1,4)
proof (induction adds arbitrary: n)
  case (Cons a adds)
  obtain p e m where a: "a = (p, e, m)" by (metis prod_cases3)
  then have e: "length e = r" "codec_ok K m" using Cons.prems(1) by auto
  have t: "trie K l r n" using built_in_memory [OF Cons.prems(2)] by (simp add: in_memory_def)
  obtain n1 where n1: "node_Add K l n p e m = (None, n1)" "added K l r p e m n n1"
    using Add_added [OF t _ _ assms(3), of p e m] built_not_unloaded Cons.prems(2) e(1) by blast
  have b1: "built K r n1" using Add_built [OF e(2,1) assms(2,3) _ _ n1(1)] Cons.prems(2) by (simp add: built_def)
  obtain n' where n': "node_Adds K l n1 adds = (None, n')" "built K r n'"
    "\<And>q. entry_at K l n' q = (case entries adds q of None \<Rightarrow> entry_at K l n1 q | Some e \<Rightarrow> Some e)"
    using Cons.IH [OF _ b1] Cons.prems(1) by auto
  have "entry_at K l n1 q = (if q = p then Some e else entry_at K l n q)" for q
    using n1(2) by (simp add: added_def entry_at_def)
  then have "entry_at K l n' q = (case entries (a # adds) q of None \<Rightarrow> entry_at K l n q | Some e \<Rightarrow> Some e)" for q
    using n'(3) [of q] a by (simp add: entries_def map_add_def split: option.split)
  then show ?case using a n1(1) n'(1,2) by simp
qed (simp add: entries_def)


definition sized_root :: "nat \<Rightarrow> node" where
  "sized_root r = upd_data (\<lambda>d. d\<lparr>n_refBytesSize := r\<rparr>) NewNode"

lemma Add_NewNode: "0 < length e \<Longrightarrow> length e \<le> 256 \<Longrightarrow> node_Add K l NewNode p e m = node_Add K l (sized_root (length e)) p e m"
  by (subst (1 2) node_Add.simps) (simp add: add_refBytesSize_def sized_root_def NewNode_def newData_def)

lemma built_sized_root: "built K r (sized_root r)"
  by (simp add: built_def node_ok_def value_ok_def sized_root_def NewNode_def newData_def metadata_ok_def IsWithMetadataType_def
      nodeTypeWithMetadata_def IsValueType_def nodeTypeValue_def)

lemma entry_at_root: "entry_at K l (sized_root r) q = None"
  using look_leaf [of "sized_root r" K l q]
  by (simp add: entry_at_def contents_def sized_root_def NewNode_def newData_def node_view_def IsValueType_def nodeTypeValue_def)

lemma Adds_NewNode:
  assumes "\<forall>(p, e, m) \<in> set adds. length e = r \<and> codec_ok K m" "0 < r" "r \<le> 256" "adds \<noteq> []"
  shows "\<exists>n. node_Adds K l NewNode adds = (None, n) \<and> built K r n \<and> (\<forall>q. entry_at K l n q = entries adds q)"
proof -
  obtain p e m rest where a: "adds = (p, e, m) # rest" using assms(4) by (metis neq_Nil_conv prod_cases3)
  then have e: "length e = r" using assms(1) by simp
  have "node_Adds K l NewNode adds = node_Adds K l (sized_root r) adds"
    using Add_NewNode [of e K l p m] assms(2,3) e a by simp
  moreover have "(case x of None \<Rightarrow> None | Some e \<Rightarrow> Some e) = x" for x :: "bytes option" by (cases x) simp_all
  ultimately show ?thesis
    using Adds_built [OF assms(1-3) built_sized_root, of l] unfolding entry_at_root by simp
qed

lemma contents_NewNodeRef:
  assumes "saved K L L' r n n'" "n_ref (nd n') = Some ref" "q \<noteq> []"
  shows "trie K (Some L') r (NewNodeRef ref)" "contents K (Some L') (NewNodeRef ref) q = contents K (Some L) n q"
proof -
  have t: "trie K (Some L') r n'" "forks n' = None" using assms(1) by (simp_all add: saved_def)
  obtain m fs where m: "ensure_loaded K (Some L') n' = (None, m)" "forks m = Some fs" "distinct (map fst fs)"
     "\<And>b p c. (b, p, c) \<in> set fs \<Longrightarrow> (\<exists>ps. p = b # ps) \<and> length p \<le> nodePrefixMaxSize \<and> trie K (Some L') r c"
    using t(1) by (rule trieE) (rule that)
  then obtain data where d: "L' ref = Some data" "node_UnmarshalBinary K data n' = (None, m)"
    using t(2) assms(2) by (auto simp: ensure_loaded_def node_load_def split: option.splits)
  obtain m' where m': "node_UnmarshalBinary K data (NewNodeRef ref) = (None, m')" "forks m' = Some fs"
    using d(2) m(2) t(2) unmarshal_forks_only [of K data n' m fs "NewNodeRef ref"] by auto
  have l: "ensure_loaded K (Some L') (NewNodeRef ref) = (None, m')"
    using m'(1) d(1) by (simp add: ensure_loaded_def node_load_def NewNodeRef_def)
  show "trie K (Some L') r (NewNodeRef ref)"
    by (rule trie.trieI [OF l m'(2) m(3)]) (use m(4) in \<open>simp_all add: NewNodeRef_def newData_def\<close>)
  have "look K (Some L') (NewNodeRef ref) q = look K (Some L') n' q"
    using assms(3) l m(1,2) m'(2) by (cases q) (simp_all add: look_Cons fork_at_def)
  then show "contents K (Some L') (NewNodeRef ref) q = contents K (Some L) n q" using assms(1) by (simp add: saved_def contents_def)
qed


section \<open>Properties\<close>

text \<open>A codec and a saver for the concrete cases: metadata is empty, the store is a list of blobs addressed
  by one byte.\<close>

definition demo_codec :: meta_codec where
  "demo_codec = \<lparr>mc_Marshal = (\<lambda>_. []), mc_Unmarshal = (\<lambda>_. Some [])\<rparr>"

definition demo_saver :: "bytes list saver" where
  "demo_saver = \<lparr>sv_Save = (\<lambda>s bs. if length s < 256 then (Some [of_nat (length s)], s @ [bs]) else (None, s)),
     sv_rand = (\<lambda>_. replicate nodeObfuscationKeySize 1)\<rparr>"

definition demo_load :: "bytes list \<Rightarrow> bytes \<Rightarrow> bytes option" where
  "demo_load s ref = (case ref of [x] \<Rightarrow> if unat x < length s then Some (s ! unat x) else None | _ \<Rightarrow> None)"

lemma demo_saver_ok: "saver_ok demo_saver demo_load 1"
  unfolding saver_ok_def
proof (intro conjI allI impI)
  fix s bs ref s' assume "sv_Save demo_saver s bs = (Some ref, s')"
  then have "length s < 256" "ref = [of_nat (length s)]" "s' = s @ [bs]" by (auto simp: demo_saver_def split: if_splits)
  then show "length ref = 1" "demo_load s' ref = Some bs" "demo_load s \<subseteq>\<^sub>m demo_load s'"
    by (auto simp: demo_load_def unat_of_nat_byte map_le_def dom_def nth_append split: list.splits if_splits)
qed (auto simp: demo_saver_def split: if_splits)

lemma trie_NewNode: "trie K l r NewNode"
  using in_memory_leaf [of NewNode r K l] by (simp add: in_memory_def NewNode_def newData_def)

text \<open>C25: \<open>Add\<close> on a well-formed manifest, in memory or partly only references, succeeds for an entry that is empty or of the
  manifest's size, which is at most 256, and changes the mapping from paths to entries at its path and nowhere else, whatever forks it
  has to create, descend or split, and the manifest stays well-formed; the path must not end at a node that
  is still only a reference.\<close>

theorem manifest_Add_refines:
  assumes "trie K l r n" "\<not> ends_unloaded K l n path" "length entry \<in> {0, r}" "r \<le> 256"
  shows "\<exists>n'. node_Add K l n path entry metadata = (None, n') \<and> trie K l r n' \<and>
    contents K l n' = (contents K l n)(path \<mapsto> (entry, new_meta (look K l n path) metadata))"
  using Add_added [OF assms, of metadata] by (auto simp: added_def in_memory_def fun_eq_iff)

theorem manifest_Add_refines_witness:
  "\<exists>n'. node_Add demo_codec None NewNode [97, 47] [5] [] = (None, n') \<and> trie demo_codec None 1 n' \<and>
    contents demo_codec None n' = (contents demo_codec None NewNode)([97, 47] \<mapsto>
      ([5], new_meta (look demo_codec None NewNode [97, 47]) []))"
  by (rule manifest_Add_refines [OF trie_NewNode]) (simp_all add: not_ends_leaf NewNode_def)

text \<open>C35: \<open>Remove\<close> of a path that is not empty, on a well-formed manifest: if the path leads to a node it succeeds and removes that
  node's entry and the entries of all paths below it, leaving every other; otherwise it reports not found and
  the manifest holds what it held.\<close>

theorem manifest_Remove_correct:
  assumes "trie K l r n" "path \<noteq> []" "node_Remove K l n path = (e, n')"
  shows "trie K l r n' \<and>
    (if look K l n path = None then e = Some ErrMtNotFound \<and> contents K l n' = contents K l n
     else e = None \<and> contents K l n' = (\<lambda>q. if prefix path q then None else contents K l n q))"
  using Remove_removed [OF assms(1,2)] assms(3) by (auto simp: removed_def contents_def fun_eq_iff)

theorem manifest_Remove_correct_witness:
  "trie demo_codec None 1 NewNode \<and> look demo_codec None NewNode [1] = None \<and>
    fst (node_Remove demo_codec None NewNode [1]) = Some ErrMtNotFound"
  using manifest_Remove_correct [OF trie_NewNode, of "[1]" demo_codec None] look_leaf [of NewNode demo_codec None "[1]"] trie_NewNode
  by (cases "node_Remove demo_codec None NewNode [1]") (simp add: NewNode_def)

text \<open>\<open>HasPrefix\<close> is true exactly when the manifest has a node at or below the path.\<close>

lemma manifest_HasPrefix_iff:
  assumes "trie K l r n"
  shows "fst (node_HasPrefix K l n path) = Inr (\<exists>q. fst (LookupNode K l n (path @ q)) \<notin> range Inl)"
proof -
  have "look K l n p \<noteq> None \<longleftrightarrow> fst (LookupNode K l n p) \<notin> range Inl" for p
    by (cases "fst (LookupNode K l n p)") (auto simp: look_def)
  then show ?thesis using HasPrefix_look [OF assms] by simp
qed

text \<open>C26: A manifest built by a non-empty sequence of \<open>Add\<close>s, all with entries of one size between 1 and 255 bytes that is also the size
  of the saver's references, is saved without error, or with the saver's; then a lookup by a path that is not empty in the manifest that is
  loaded back from the reference alone returns the entry last added at the path and not found if there is none.\<close>

theorem manifest_persists:
  assumes "adds \<noteq> []" "\<forall>(p, e, m) \<in> set adds. length e = r \<and> codec_ok K m" "0 < r" "r < 256" "saver_ok S ld r"
  shows "\<exists>n e n' s'. node_Adds K l NewNode adds = (None, n) \<and> node_Save K (Some S) n s = (e, n', s') \<and>
    (e = Some ErrMtSave \<or> e = None \<and> (\<exists>ref. n_ref (nd n') = Some ref \<and>
      (\<forall>q. q \<noteq> [] \<longrightarrow> fst (node_Lookup K (Some (ld s')) (NewNodeRef ref) q) =
        (case entries adds q of None \<Rightarrow> Inl ErrMtNotFound | Some x \<Rightarrow> Inr x))))"
proof -
  obtain n where n: "node_Adds K l NewNode adds = (None, n)" "built K r n" "\<And>q. entry_at K l n q = entries adds q"
    using Adds_NewNode [OF assms(2,3) _ assms(1)] assms(4) by auto
  have sv: "savable K (ld s) r n" using n(2) savable_mono [of K Map.empty r n "ld s"] by (simp add: built_savable)
  obtain e n' s' where s: "node_save K S n s = (e, n', s')" "e = None \<and> saved K (ld s) (ld s') r n n' \<or> e = Some ErrMtSave"
    using save_ok(1) [OF assms(5,4) sv] by blast
  have "\<exists>ref. n_ref (nd n') = Some ref \<and> (\<forall>q. q \<noteq> [] \<longrightarrow> fst (node_Lookup K (Some (ld s')) (NewNodeRef ref) q) =
        (case entries adds q of None \<Rightarrow> Inl ErrMtNotFound | Some x \<Rightarrow> Inr x))" if v: "saved K (ld s) (ld s') r n n'"
  proof -
    obtain ref where ref: "n_ref (nd n') = Some ref" using v by (auto simp: saved_def)
    have "fst (node_Lookup K (Some (ld s')) (NewNodeRef ref) q) = (case entries adds q of None \<Rightarrow> Inl ErrMtNotFound | Some x \<Rightarrow> Inr x)"
      if q: "q \<noteq> []" for q
    proof -
      have "contents K l n q = contents K (Some (ld s)) n q" by (simp add: contents_def built_look [OF n(2), where l = l and l' = "Some (ld s)"])
      then have "entries adds q = map_option fst (contents K (Some (ld s')) (NewNodeRef ref) q)"
        using contents_NewNodeRef(2) [OF v ref q] n(3) [of q] by (simp add: entry_at_def)
      then show ?thesis using Lookup_contents [OF contents_NewNodeRef(1) [OF v ref q] q]
        by (auto split: option.split prod.split)
    qed
    then show ?thesis using ref by blast
  qed
  then show ?thesis using n(1) s by (auto simp: node_Save_def)
qed

theorem manifest_persists_witness:
  "\<exists>n e n' s'. node_Adds demo_codec None NewNode [([97], [5], [])] = (None, n) \<and>
    node_Save demo_codec (Some demo_saver) n [] = (e, n', s') \<and>
    (e = Some ErrMtSave \<or> e = None \<and> (\<exists>ref. n_ref (nd n') = Some ref \<and>
      (\<forall>q. q \<noteq> [] \<longrightarrow> fst (node_Lookup demo_codec (Some (demo_load s')) (NewNodeRef ref) q) =
        (case entries [([97], [5], [])] q of None \<Rightarrow> Inl ErrMtNotFound | Some x \<Rightarrow> Inr x))))"
  by (rule manifest_persists [OF _ _ _ _ demo_saver_ok]) (simp_all add: codec_ok_def)


text \<open>\<open>Add\<close> at a node that is still only a reference replaces its value without loading it: every path
  below it is lost, and saving the manifest is refused as invalid input.\<close>

lemma Add_on_reference_loses_paths:
  assumes "forks n = None" "n_refBytesSize (nd n) = 0" "length entry \<le> 256"
  shows "\<exists>n'. node_Add K l n [] entry metadata = (None, n') \<and>
    (\<forall>q. q \<noteq> [] \<longrightarrow> fst (node_Lookup K l n' q) = Inl ErrMtNotFound) \<and>
    node_Save K (Some S) n' s = (Some ErrInvalidInput, n', s)"
proof -
  obtain n1 where n1: "add_refBytesSize n entry = Inr n1" "forks n1 = None"
    using assms by (cases "entry = []") (auto simp: add_refBytesSize_def)
  let ?n' = "add_value n1 entry metadata"
  have r: "n_ref (nd ?n') = None" "forks ?n' = None" using n1(2) by (simp_all add: add_value_def)
  have "fst (node_Lookup K l ?n' q) = Inl ErrMtNotFound" if "q \<noteq> []" for q
    using that r by (cases q) (simp_all add: node_Lookup_def LookupNode.simps ensure_loaded_def node_load_def fork_at_def)
  moreover have "node_Save K (Some S) ?n' s = (Some ErrInvalidInput, ?n', s)"
    using r by (cases ?n') (simp add: node_Save_def node_MarshalBinary_def)
  ultimately show ?thesis using n1(1) by (simp add: node_Add.simps)
qed

lemma unmarshal_ref: "n_ref (nd (snd (node_UnmarshalBinary K data n))) = n_ref (nd n)"
  by (simp add: node_UnmarshalBinary_def unmarshal01_def unmarshal02_def makeEdge_def Let_def split: prod.split)

lemma loaded_ref: "ensure_loaded K l n = (e, n') \<Longrightarrow> n_ref (nd n') = n_ref (nd n)"
  using unmarshal_ref [of K _ n] by (auto simp: ensure_loaded_def node_load_def split: option.splits) (metis snd_conv)

text \<open>\<open>Remove\<close> keeps the reference of a node that was saved or loaded before, and \<open>Save\<close> skips a node that
  has one: whatever was removed, nothing is written and the reference is the old one.\<close>

lemma Remove_not_saved:
  assumes "n_ref (nd n) = Some ref"
  shows "node_Save K (Some S) (snd (node_Remove K l n path)) s = (None, snd (node_Remove K l n path), s) \<and>
    n_ref (nd (snd (node_Remove K l n path))) = Some ref"
proof -
  have "n_ref (nd (snd (node_Remove K l n path))) = Some ref"
    using assms loaded_ref [of K l n]
    by (subst node_Remove.simps) (auto simp: Let_def set_fork_def del_fork_def split: list.split prod.split option.split)
  then show ?thesis by (cases "snd (node_Remove K l n path)") (simp add: node_Save_def)
qed

end
