(* ===== verification/Accounting.thy ===== *)
theory Accounting
  imports StateStore Swarm
begin

text \<open>
  The per-peer accounting service (\<open>pkg/accounting/accounting.go\<close>): the in-memory state of
  a peer, the balances kept in the state store, the credit and debit actions, settlement
  decisions and the notifications of the settlement protocols. Amounts are \<open>big.Int\<close>s, so
  unbounded integers. Every handler holds the lock of its peer, which makes it atomic; the
  peer structures are never removed, so a pointer to one is its key in the map. Calls to
  other services (\<open>go a.payFunction\<close>, \<open>p2p.Blocklist\<close>, the price announcements) are
  recorded in order in \<open>ac_out\<close>. Readings of the clock are taken from a schedule, in
  milliseconds. Wrapping an error with a message keeps its identity for \<open>errors.Is\<close>, so
  the model keeps the identity.
\<close>

section \<open>State\<close>

record accountingPeer =
  ap_reservedBalance :: int
  ap_shadowReservedBalance :: int
  ap_refreshReservedBalance :: int
  ap_ghostBalance :: int
  ap_paymentThreshold :: int
  ap_earlyPayment :: int
  ap_paymentThresholdForPeer :: int
  ap_disconnectLimit :: int
  ap_refreshTimestampMilliseconds :: int
  ap_refreshReceivedTimestamp :: int
  ap_paymentOngoing :: bool
  ap_refreshOngoing :: bool
  ap_lastSettlementFailureTimestamp :: int
  ap_connected :: bool
  ap_fullNode :: bool
  ap_totalDebtRepay :: int
  ap_thresholdGrowAt :: int

datatype effect =
    RefreshCall address int
  | PayCall address int
  | AnnounceThreshold address int
  | BlocklistCall address int string

record accounting =
  ac_peers :: "string \<rightharpoonup> accountingPeer"
  ac_store :: "int statestore"
  ac_clock :: "nat \<Rightarrow> int"
  ac_readings :: nat
  ac_out :: "effect list"
  ac_paymentThreshold :: int
  ac_paymentTolerance :: int
  ac_earlyPayment :: int
  ac_disconnectLimit :: int
  ac_payFunction :: bool
  ac_refreshRate :: int
  ac_lightRefreshRate :: int
  ac_minimumPayment :: int
  ac_thresholdGrowStep :: int
  ac_thresholdGrowChange :: int
  ac_lightPaymentThreshold :: int
  ac_lightDisconnectLimit :: int
  ac_lightThresholdGrowStep :: int
  ac_lightThresholdGrowChange :: int

datatype acct_error =
    ErrOverdraft
  | BlockPeerError int
  | ErrPeerNoBalance
  | ErrInvalidValue
  | ErrFailToLock
  | ErrNotConnected
  | ErrSanityCheck
  | StoreError store_error
  | ErrNoPeerInKey
  | HexError hex_error

text \<open>A credit or debit action refers to its peer and records whether it was applied.\<close>

record action =
  act_price :: int
  act_peer :: address
  act_originated :: bool
  act_applied :: bool

definition linearCheckpointNumber :: int where "linearCheckpointNumber = 1800"
definition linearCheckpointStep :: int where "linearCheckpointStep = 100"
definition minimumPaymentDivisor :: int where "minimumPaymentDivisor = 5"
definition failedSettlementInterval :: int where "failedSettlementInterval = 10"

definition balancesPrefix :: string where "balancesPrefix = ''accounting_balance_''"
definition balancesSurplusPrefix :: string where "balancesSurplusPrefix = ''accounting_surplusbalance_''"
definition balancesOriginatedPrefix :: string where
  "balancesOriginatedPrefix = ''accounting_originatedbalance_''"

definition peerBalanceKey :: "address \<Rightarrow> string" where
  "peerBalanceKey peer = balancesPrefix @ addr_String peer"

definition peerSurplusBalanceKey :: "address \<Rightarrow> string" where
  "peerSurplusBalanceKey peer = balancesSurplusPrefix @ addr_String peer"

definition originatedBalanceKey :: "address \<Rightarrow> string" where
  "originatedBalanceKey peer = balancesOriginatedPrefix @ addr_String peer"

definition percentOf :: "int \<Rightarrow> int \<Rightarrow> int" where
  "percentOf percent v = big_div (v * percent) 100"

definition NewAccounting ::
    "int \<Rightarrow> int \<Rightarrow> int \<Rightarrow> int statestore \<Rightarrow> int \<Rightarrow> int \<Rightarrow> (nat \<Rightarrow> int) \<Rightarrow> accounting" where
  "NewAccounting threshold tolerance early store refreshRate lightFactor clock =
     (let lightPaymentThreshold = big_div threshold lightFactor;
          lightRefreshRate = big_div refreshRate lightFactor
      in \<lparr>ac_peers = Map.empty, ac_store = store, ac_clock = clock, ac_readings = 0, ac_out = [],
          ac_paymentThreshold = threshold, ac_paymentTolerance = tolerance, ac_earlyPayment = early,
          ac_disconnectLimit = percentOf (100 + tolerance) threshold,
          ac_payFunction = False, ac_refreshRate = refreshRate,
          ac_lightRefreshRate = big_div refreshRate lightFactor,
          ac_minimumPayment = big_div refreshRate minimumPaymentDivisor,
          ac_thresholdGrowStep = refreshRate * linearCheckpointStep,
          ac_thresholdGrowChange = refreshRate * linearCheckpointNumber,
          ac_lightPaymentThreshold = lightPaymentThreshold,
          ac_lightDisconnectLimit = percentOf (100 + tolerance) lightPaymentThreshold,
          ac_lightThresholdGrowStep = lightRefreshRate * linearCheckpointStep,
          ac_lightThresholdGrowChange = lightRefreshRate * linearCheckpointNumber\<rparr>)"

definition SetPayFunc :: "accounting \<Rightarrow> accounting" where
  "SetPayFunc a = a\<lparr>ac_payFunction := True\<rparr>"

section \<open>Access to peers, store and clock\<close>

definition new_peer :: "accounting \<Rightarrow> accountingPeer" where
  "new_peer a =
     \<lparr>ap_reservedBalance = 0, ap_shadowReservedBalance = 0, ap_refreshReservedBalance = 0,
      ap_ghostBalance = 0, ap_paymentThreshold = ac_paymentThreshold a,
      ap_earlyPayment = percentOf (100 - ac_earlyPayment a) (ac_paymentThreshold a),
      ap_paymentThresholdForPeer = ac_paymentThreshold a, ap_disconnectLimit = ac_disconnectLimit a,
      ap_refreshTimestampMilliseconds = 0, ap_refreshReceivedTimestamp = 0,
      ap_paymentOngoing = False, ap_refreshOngoing = False, ap_lastSettlementFailureTimestamp = 0,
      ap_connected = False, ap_fullNode = False, ap_totalDebtRepay = 0,
      ap_thresholdGrowAt = ac_thresholdGrowStep a\<rparr>"

definition ap :: "accounting \<Rightarrow> address \<Rightarrow> accountingPeer" where
  "ap a peer = (case ac_peers a (addr_String peer) of None \<Rightarrow> new_peer a | Some p \<Rightarrow> p)"

definition ap_upd ::
    "accounting \<Rightarrow> address \<Rightarrow> (accountingPeer \<Rightarrow> accountingPeer) \<Rightarrow> accounting" where
  "ap_upd a peer f = a\<lparr>ac_peers := (ac_peers a)(addr_String peer \<mapsto> f (ap a peer))\<rparr>"

definition getAccountingPeer :: "accounting \<Rightarrow> address \<Rightarrow> accounting" where
  "getAccountingPeer a peer =
     (case ac_peers a (addr_String peer) of None \<Rightarrow> ap_upd a peer id | Some _ \<Rightarrow> a)"

definition emit :: "accounting \<Rightarrow> effect \<Rightarrow> accounting" where
  "emit a e = a\<lparr>ac_out := ac_out a @ [e]\<rparr>"

definition timeNow :: "accounting \<Rightarrow> int \<times> accounting" where
  "timeNow a = (ac_clock a (ac_readings a), a\<lparr>ac_readings := Suc (ac_readings a)\<rparr>)"

definition ac_get :: "accounting \<Rightarrow> string \<Rightarrow> (store_error + int) \<times> accounting" where
  "ac_get a k = (case st_Get (ac_store a) k of (r, st) \<Rightarrow> (r, a\<lparr>ac_store := st\<rparr>))"

definition ac_put :: "accounting \<Rightarrow> string \<Rightarrow> int \<Rightarrow> (acct_error + unit) \<times> accounting" where
  "ac_put a k v =
     (case st_Put (ac_store a) k v of
        (None, st) \<Rightarrow> (Inr (), a\<lparr>ac_store := st\<rparr>)
      | (Some e, st) \<Rightarrow> (Inl (StoreError e), a\<lparr>ac_store := st\<rparr>))"

section \<open>Balances\<close>

definition Balance :: "accounting \<Rightarrow> address \<Rightarrow> (acct_error + int) \<times> accounting" where
  "Balance a peer =
     (case ac_get a (peerBalanceKey peer) of
        (Inl ErrNotFound, a') \<Rightarrow> (Inl ErrPeerNoBalance, a')
      | (Inl e, a') \<Rightarrow> (Inl (StoreError e), a')
      | (Inr v, a') \<Rightarrow> (Inr v, a'))"

definition OriginatedBalance :: "accounting \<Rightarrow> address \<Rightarrow> (acct_error + int) \<times> accounting" where
  "OriginatedBalance a peer =
     (case ac_get a (originatedBalanceKey peer) of
        (Inl ErrNotFound, a') \<Rightarrow> (Inl ErrPeerNoBalance, a')
      | (Inl e, a') \<Rightarrow> (Inl (StoreError e), a')
      | (Inr v, a') \<Rightarrow> (Inr v, a'))"

definition SurplusBalance :: "accounting \<Rightarrow> address \<Rightarrow> (acct_error + int) \<times> accounting" where
  "SurplusBalance a peer =
     (case ac_get a (peerSurplusBalanceKey peer) of
        (Inl ErrNotFound, a') \<Rightarrow> (Inr 0, a')
      | (Inl e, a') \<Rightarrow> (Inl (StoreError e), a')
      | (Inr v, a') \<Rightarrow> (if v < 0 then Inl ErrInvalidValue else Inr v, a'))"

text \<open>Callers that accept a missing balance use the zero returned along with
  \<open>ErrPeerNoBalance\<close>.\<close>

definition orZero :: "(acct_error + int) \<times> accounting \<Rightarrow> (acct_error + int) \<times> accounting" where
  "orZero r = (case r of (Inl ErrPeerNoBalance, a) \<Rightarrow> (Inr 0, a) | _ \<Rightarrow> r)"

definition CompensatedBalance :: "accounting \<Rightarrow> address \<Rightarrow> (acct_error + int) \<times> accounting" where
  "CompensatedBalance a peer =
     bindE (SurplusBalance a peer) (\<lambda>surplus a.
       case Balance a peer of
         (Inl ErrPeerNoBalance, a) \<Rightarrow>
           if surplus = 0 then (Inl ErrPeerNoBalance, a) else (Inr (0 - surplus), a)
       | (Inl e, a) \<Rightarrow> (Inl e, a)
       | (Inr balance, a) \<Rightarrow> (Inr (balance - surplus), a))"

definition shadowBalance :: "accounting \<Rightarrow> address \<Rightarrow> (acct_error + int) \<times> accounting" where
  "shadowBalance a peer =
     (case ac_get a (peerBalanceKey peer) of
        (Inl ErrNotFound, a) \<Rightarrow> (Inr 0, a)
      | (Inl e, a) \<Rightarrow> (Inl (StoreError e), a)
      | (Inr balance, a) \<Rightarrow>
          if balance \<ge> 0 then (Inr 0, a)
          else let negativeBalance = - balance in
            bindE (SurplusBalance a peer) (\<lambda>surplusBalance a.
              let debt = negativeBalance + surplusBalance in
              if debt < ap_shadowReservedBalance (ap a peer) then (Inr 0, a)
              else (Inr (negativeBalance - ap_shadowReservedBalance (ap a peer)), a)))"

definition PeerDebt :: "accounting \<Rightarrow> address \<Rightarrow> (acct_error + int) \<times> accounting" where
  "PeerDebt a peer =
     (let a = getAccountingPeer a peer in
      case ac_get a (peerBalanceKey peer) of
        (Inl ErrIO, a) \<Rightarrow> (Inl (StoreError ErrIO), a)
      | (r, a) \<Rightarrow>
          let balance = (case r of Inl _ \<Rightarrow> 0 | Inr v \<Rightarrow> v);
              peerDebt = balance + ap_shadowReservedBalance (ap a peer)
          in (Inr (if peerDebt < 0 then 0 else peerDebt), a))"

definition peerLatentDebt :: "accounting \<Rightarrow> address \<Rightarrow> (acct_error + int) \<times> accounting" where
  "peerLatentDebt a peer =
     (let a = getAccountingPeer a peer in
      case ac_get a (peerBalanceKey peer) of
        (Inl ErrIO, a) \<Rightarrow> (Inl (StoreError ErrIO), a)
      | (r, a) \<Rightarrow>
          let balance = (case r of Inl _ \<Rightarrow> 0 | Inr v \<Rightarrow> v);
              balance = (if balance < 0 then 0 else balance);
              peerDebt = balance + ap_shadowReservedBalance (ap a peer);
              latent = peerDebt + ap_ghostBalance (ap a peer)
          in (Inr (if latent < 0 then 0 else latent), a))"

definition blocklistUntil :: "accounting \<Rightarrow> address \<Rightarrow> int \<Rightarrow> (acct_error + int) \<times> accounting" where
  "blocklistUntil a peer multiplier =
     bindE (peerLatentDebt a peer) (\<lambda>debt a.
       let debt = (if debt < ac_refreshRate a then ac_refreshRate a else debt);
           additionalDebt = debt + ac_paymentThreshold a;
           multiplyDebt = additionalDebt * multiplier;
           k = big_div multiplyDebt (ac_refreshRate a)
       in (Inr (int64_of k), a))"

text \<open>Durations are nanoseconds in an \<open>int64\<close>.\<close>

definition seconds :: "int \<Rightarrow> int" where
  "seconds n = int64_of (n * 1000000000)"

definition blocklist :: "accounting \<Rightarrow> address \<Rightarrow> int \<Rightarrow> string \<Rightarrow> accounting" where
  "blocklist a peer multiplier reason =
     (case blocklistUntil a peer multiplier of
        (Inl _, a) \<Rightarrow> emit a (BlocklistCall peer (seconds 60) reason)
      | (Inr disconnectFor, a) \<Rightarrow> emit a (BlocklistCall peer (seconds disconnectFor) reason))"


section \<open>Settlement\<close>

text \<open>The monetary settlement of \<open>settle\<close>: not while a payment is under way or shortly after a
  failed one, and never for more than the debt of requests the node originated or than what is
  left of the debt once refreshment and pending debits are taken off.\<close>

definition settle_monetary ::
    "accounting \<Rightarrow> address \<Rightarrow> int \<Rightarrow> (acct_error + unit) \<times> accounting" where
  "settle_monetary a peer now =
     (if \<not> (ac_payFunction a \<and> \<not> ap_paymentOngoing (ap a peer)) then (Inr (), a)
      else
        let differenceInSeconds = now div 1000 - ap_lastSettlementFailureTimestamp (ap a peer) in
        if \<not> differenceInSeconds > failedSettlementInterval then (Inr (), a)
        else bindE (orZero (OriginatedBalance a peer)) (\<lambda>originatedBalance a.
          let paymentAmount = - originatedBalance in
          if paymentAmount < ac_minimumPayment a then (Inr (), a)
          else case timeNow a of (now', a) \<Rightarrow>
            let timeElapsedInSeconds =
                  go_quot (now' - ap_refreshTimestampMilliseconds (ap a peer)) 1000;
                refreshDue = timeElapsedInSeconds * ac_refreshRate a in
            bindE (orZero (Balance a peer)) (\<lambda>currentBalance a.
              let debt = - currentBalance;
                  decreasedDebt = debt - refreshDue;
                  expectedDecreasedDebt = decreasedDebt - ap_shadowReservedBalance (ap a peer);
                  paymentAmount = (if paymentAmount > expectedDecreasedDebt
                    then expectedDecreasedDebt else paymentAmount) in
              if paymentAmount < ac_minimumPayment a then (Inr (), a)
              else (Inr (), emit (ap_upd a peer (\<lambda>p.
                  p\<lparr>ap_paymentOngoing := True,
                    ap_shadowReservedBalance := ap_shadowReservedBalance p + paymentAmount,
                    ap_refreshReservedBalance :=
                      (if ap_refreshOngoing p then ap_refreshReservedBalance p + paymentAmount
                       else ap_refreshReservedBalance p)\<rparr>))
                  (PayCall peer paymentAmount)))))"

definition settle :: "accounting \<Rightarrow> address \<Rightarrow> (acct_error + unit) \<times> accounting" where
  "settle a peer =
     (case timeNow a of (now, a) \<Rightarrow>
      let timeElapsedInMilliseconds = now - ap_refreshTimestampMilliseconds (ap a peer) in
      bindE (shadowBalance a peer) (\<lambda>paymentAmount a.
        if paymentAmount < ac_refreshRate a then (Inr (), a)
        else
          let a = (if timeElapsedInMilliseconds > 999 \<and> \<not> ap_refreshOngoing (ap a peer)
                   then emit (ap_upd a peer (\<lambda>p. p\<lparr>ap_refreshOngoing := True\<rparr>))
                     (RefreshCall peer paymentAmount)
                   else a)
          in settle_monetary a peer now))"

section \<open>Credit actions\<close>

definition getIncreasedExpectedDebt ::
    "accounting \<Rightarrow> address \<Rightarrow> int \<Rightarrow> (acct_error + int \<times> int) \<times> accounting" where
  "getIncreasedExpectedDebt a peer bigPrice =
     (let nextReserved = ap_reservedBalance (ap a peer) + bigPrice in
      bindE (orZero (Balance a peer)) (\<lambda>currentBalance a.
        let currentDebt = - currentBalance;
            currentDebt = (if currentDebt < 0 then 0 else currentDebt);
            expectedDebt = currentDebt + nextReserved in
        bindE (SurplusBalance a peer) (\<lambda>additionalDebt a.
          (Inr (expectedDebt + additionalDebt, currentBalance), a))))"

text \<open>The last step of \<open>PrepareCredit\<close>: the overdraft check and the reservation.\<close>

definition reserve_credit ::
    "accounting \<Rightarrow> address \<Rightarrow> int \<Rightarrow> bool \<Rightarrow> int \<Rightarrow> (acct_error + action) \<times> accounting" where
  "reserve_credit a peer bigPrice originated increasedExpectedDebt =
     (case timeNow a of (now, a) \<Rightarrow>
      let secs = go_quot (now - ap_refreshTimestampMilliseconds (ap a peer)) 1000;
          timeElapsedInSeconds = (if secs > 1 then 1 else secs);
          refreshDue = timeElapsedInSeconds * ac_refreshRate a;
          overdraftLimit = ap_paymentThreshold (ap a peer) + refreshDue in
      if increasedExpectedDebt > overdraftLimit then (Inl ErrOverdraft, a)
      else (Inr \<lparr>act_price = bigPrice, act_peer = peer, act_originated = originated,
                 act_applied = False\<rparr>,
            ap_upd a peer (\<lambda>p. p\<lparr>ap_reservedBalance := ap_reservedBalance p + bigPrice\<rparr>)))"

definition PrepareCredit ::
    "accounting \<Rightarrow> bool \<Rightarrow> address \<Rightarrow> u64 \<Rightarrow> bool \<Rightarrow> (acct_error + action) \<times> accounting" where
  "PrepareCredit a lockOk peer price originated =
     (let a = getAccountingPeer a peer in
      if \<not> lockOk then (Inl ErrFailToLock, a)
      else if \<not> ap_connected (ap a peer) then (Inl ErrNotConnected, a)
      else
        let bigPrice = uint price;
            threshold = ap_earlyPayment (ap a peer) in
        bindE (getIncreasedExpectedDebt a peer bigPrice) (\<lambda>(increasedExpectedDebt, currentBalance) a.
          let reduced = increasedExpectedDebt - ap_shadowReservedBalance (ap a peer) in
          if reduced \<ge> threshold \<and> currentBalance < 0
          then bindE (settle a peer) (\<lambda>_ a.
                 bindE (getIncreasedExpectedDebt a peer bigPrice) (\<lambda>(increasedExpectedDebt, _) a.
                   reserve_credit a peer bigPrice originated increasedExpectedDebt))
          else reserve_credit a peer bigPrice originated increasedExpectedDebt))"

text \<open>Releasing a reservation, with the guard against releasing more than is reserved.\<close>

definition release_reserved :: "accounting \<Rightarrow> address \<Rightarrow> int \<Rightarrow> accounting" where
  "release_reserved a peer price =
     ap_upd a peer (\<lambda>p. p\<lparr>ap_reservedBalance :=
       (if price > ap_reservedBalance p then 0 else ap_reservedBalance p - price)\<rparr>)"

text \<open>The settlement check at the end of \<open>creditAction.Apply\<close>; its error is only logged.\<close>

definition settle_if_early :: "accounting \<Rightarrow> address \<Rightarrow> int \<Rightarrow> accounting" where
  "settle_if_early a peer increasedExpectedDebt =
     (if increasedExpectedDebt - ap_shadowReservedBalance (ap a peer) > ap_earlyPayment (ap a peer)
      then snd (settle a peer) else a)"

text \<open>The part of \<open>creditAction.Apply\<close> for a request the node originated: the originated
  balance follows the balance, but is never further in the negative than the balance.\<close>

definition apply_originated ::
    "accounting \<Rightarrow> address \<Rightarrow> int \<Rightarrow> int \<Rightarrow> int \<Rightarrow> acct_error option \<times> accounting" where
  "apply_originated a peer price nextBalance increasedExpectedDebt =
     (case orZero (OriginatedBalance a peer) of
        (Inl e, a) \<Rightarrow> (Some e, a)
      | (Inr originBalance, a) \<Rightarrow>
        let nextOriginBalance = originBalance - price;
            nextBalance = (if nextBalance > 0 then 0 else nextBalance);
            nextOriginBalance =
              (if nextOriginBalance < nextBalance then nextBalance else nextOriginBalance) in
        (case ac_put a (originatedBalanceKey peer) nextOriginBalance of
           (Inl e, a) \<Rightarrow> (Some e, a)
         | (Inr _, a) \<Rightarrow> (None, settle_if_early a peer increasedExpectedDebt)))"

definition creditApply :: "accounting \<Rightarrow> action \<Rightarrow> (acct_error option \<times> action) \<times> accounting" where
  "creditApply a c =
     (let peer = act_peer c; price = act_price c in
      case getIncreasedExpectedDebt a peer price of
        (Inl e, a) \<Rightarrow> ((Some e, c), a)
      | (Inr (increasedExpectedDebt, currentBalance), a) \<Rightarrow>
        let nextBalance = currentBalance - price in
        (case ac_put a (peerBalanceKey peer) nextBalance of
           (Inl e, a) \<Rightarrow> ((Some e, c), a)
         | (Inr _, a) \<Rightarrow>
           let a = release_reserved a peer price; c = c\<lparr>act_applied := True\<rparr> in
           if \<not> act_originated c
           then ((None, c), settle_if_early a peer increasedExpectedDebt)
           else (case apply_originated a peer price nextBalance increasedExpectedDebt of
                   (r, a) \<Rightarrow> ((r, c), a))))"

definition creditCleanup :: "accounting \<Rightarrow> action \<Rightarrow> accounting" where
  "creditCleanup a c =
     (if act_applied c then a else release_reserved a (act_peer c) (act_price c))"

section \<open>Originated balance\<close>

definition decreaseOriginatedBalanceTo ::
    "accounting \<Rightarrow> address \<Rightarrow> int \<Rightarrow> (acct_error + unit) \<times> accounting" where
  "decreaseOriginatedBalanceTo a peer limit =
     bindE (orZero (OriginatedBalance a peer)) (\<lambda>originatedBalance a.
       let toSet = (if limit > 0 then 0 else limit) in
       if originatedBalance < toSet then ac_put a (originatedBalanceKey peer) toSet
       else (Inr (), a))"

definition decreaseOriginatedBalanceBy ::
    "accounting \<Rightarrow> address \<Rightarrow> int \<Rightarrow> (acct_error + unit) \<times> accounting" where
  "decreaseOriginatedBalanceBy a peer amount =
     bindE (orZero (OriginatedBalance a peer)) (\<lambda>originatedBalance a.
       ac_put a (originatedBalanceKey peer) (originatedBalance + amount))"

section \<open>Notifications\<close>

definition notifyPaymentThresholdUpgrade :: "accounting \<Rightarrow> address \<Rightarrow> accounting" where
  "notifyPaymentThresholdUpgrade a peer =
     (let p = ap a peer;
          growChange = (if ap_fullNode p then ac_thresholdGrowChange a
                        else ac_lightThresholdGrowChange a);
          growAt = (if ap_thresholdGrowAt p \<ge> growChange then ap_thresholdGrowAt p * 2
                    else if ap_fullNode p then ap_thresholdGrowAt p + ac_thresholdGrowStep a
                    else ap_thresholdGrowAt p + ac_lightThresholdGrowStep a);
          refreshRate = (if ap_fullNode p then ac_refreshRate a else ac_lightRefreshRate a);
          given = ap_paymentThresholdForPeer p + refreshRate
      in emit (ap_upd a peer (\<lambda>p. p\<lparr>ap_thresholdGrowAt := growAt,
             ap_paymentThresholdForPeer := given,
             ap_disconnectLimit := percentOf (100 + ac_paymentTolerance a) given\<rparr>))
           (AnnounceThreshold peer given))"

definition NotifyPaymentSent :: "accounting \<Rightarrow> address \<Rightarrow> int \<Rightarrow> bool \<Rightarrow> accounting" where
  "NotifyPaymentSent a peer amount receivedError =
     (let a = getAccountingPeer a peer;
          a = ap_upd a peer (\<lambda>p. p\<lparr>ap_paymentOngoing := False,
                ap_shadowReservedBalance := ap_shadowReservedBalance p - amount\<rparr>) in
      if receivedError
      then (case timeNow a of (now, a) \<Rightarrow>
             ap_upd a peer (\<lambda>p. p\<lparr>ap_lastSettlementFailureTimestamp := now div 1000\<rparr>))
      else (case orZero (Balance a peer) of
          (Inl e, a) \<Rightarrow> a
        | (Inr currentBalance, a) \<Rightarrow>
            (case ac_put a (peerBalanceKey peer) (currentBalance + amount) of
               (Inl e, a) \<Rightarrow> a
             | (Inr _, a) \<Rightarrow> snd (decreaseOriginatedBalanceBy a peer amount))))"

definition NotifyPaymentThreshold :: "accounting \<Rightarrow> address \<Rightarrow> int \<Rightarrow> accounting" where
  "NotifyPaymentThreshold a peer threshold =
     ap_upd (getAccountingPeer a peer) peer (\<lambda>p. p\<lparr>ap_paymentThreshold := threshold,
       ap_earlyPayment := percentOf (100 - ac_earlyPayment a) threshold\<rparr>)"

text \<open>The common start of the two notifications of a settled debt.\<close>

definition register_repay :: "accounting \<Rightarrow> address \<Rightarrow> int \<Rightarrow> accounting" where
  "register_repay a peer amount =
     (let a = getAccountingPeer a peer;
          a = ap_upd a peer (\<lambda>p. p\<lparr>ap_totalDebtRepay := ap_totalDebtRepay p + amount\<rparr>) in
      if ap_totalDebtRepay (ap a peer) > ap_thresholdGrowAt (ap a peer)
      then notifyPaymentThresholdUpgrade a peer else a)"

definition NotifyPaymentReceived ::
    "accounting \<Rightarrow> address \<Rightarrow> int \<Rightarrow> (acct_error + unit) \<times> accounting" where
  "NotifyPaymentReceived a peer amount =
     (let a = register_repay a peer amount in
      bindE (orZero (Balance a peer)) (\<lambda>currentBalance a.
        if currentBalance \<le> 0
        then bindE (SurplusBalance a peer) (\<lambda>surplus a.
               ac_put a (peerSurplusBalanceKey peer) (surplus + amount))
        else
          let newBalance = currentBalance - amount;
              nextBalance = (if newBalance < 0 then 0 else newBalance) in
          bindE (ac_put a (peerBalanceKey peer) nextBalance) (\<lambda>_ a.
            if newBalance < 0
            then bindE (SurplusBalance a peer) (\<lambda>surplus a.
                   ac_put a (peerSurplusBalanceKey peer) (surplus + (amount - currentBalance)))
            else (Inr (), a))))"

datatype refresh_error = RefreshPeerNotFound | RefreshOther

definition NotifyRefreshmentSent ::
    "accounting \<Rightarrow> address \<Rightarrow> int \<Rightarrow> int \<Rightarrow> int \<Rightarrow> int \<Rightarrow> refresh_error option \<Rightarrow> accounting" where
  "NotifyRefreshmentSent a peer attemptedAmount amount timestamp allegedInterval receivedError =
     (let a = getAccountingPeer a peer;
          a = ap_upd a peer (\<lambda>p. p\<lparr>ap_refreshOngoing := False,
                ap_refreshTimestampMilliseconds := timestamp\<rparr>) in
      case receivedError of
        Some RefreshPeerNotFound \<Rightarrow> a
      | Some RefreshOther \<Rightarrow> blocklist a peer 1 ''failed to refresh''
      | None \<Rightarrow>
          let checkAllowance = attemptedAmount - ap_refreshReservedBalance (ap a peer);
              a = ap_upd a peer (\<lambda>p. p\<lparr>ap_refreshReservedBalance := 0\<rparr>);
              checkAllowance =
                (if checkAllowance > attemptedAmount then attemptedAmount else checkAllowance);
              expectedAllowance = allegedInterval * ac_refreshRate a;
              expectedAllowance =
                (if expectedAllowance > checkAllowance then checkAllowance else expectedAllowance) in
          if expectedAllowance > amount
          then blocklist a peer 1 ''failed to meet expectation for allowance''
          else (case orZero (Balance a peer) of
              (Inl e, a) \<Rightarrow> a
            | (Inr currentBalance, a) \<Rightarrow>
                let newBalance = currentBalance + amount in
                (case ac_put a (peerBalanceKey peer) newBalance of
                   (Inl e, a) \<Rightarrow> a
                 | (Inr _, a) \<Rightarrow> snd (decreaseOriginatedBalanceTo a peer newBalance))))"

definition NotifyRefreshmentReceived ::
    "accounting \<Rightarrow> address \<Rightarrow> int \<Rightarrow> int \<Rightarrow> (acct_error + unit) \<times> accounting" where
  "NotifyRefreshmentReceived a peer amount timestamp =
     (let a = register_repay a peer amount in
      bindE (orZero (Balance a peer)) (\<lambda>currentBalance a.
        bindE (ac_put a (peerBalanceKey peer) (currentBalance - amount)) (\<lambda>_ a.
          (Inr (), ap_upd a peer (\<lambda>p. p\<lparr>ap_refreshReceivedTimestamp := timestamp\<rparr>)))))"

section \<open>Debit actions\<close>

definition PrepareDebit ::
    "accounting \<Rightarrow> bool \<Rightarrow> address \<Rightarrow> u64 \<Rightarrow> (acct_error + action) \<times> accounting" where
  "PrepareDebit a lockOk peer price =
     (let a = getAccountingPeer a peer in
      if \<not> lockOk then (Inl ErrFailToLock, a)
      else if \<not> ap_connected (ap a peer) then (Inl ErrNotConnected, a)
      else let bigPrice = uint price in
        (Inr \<lparr>act_price = bigPrice, act_peer = peer, act_originated = False, act_applied = False\<rparr>,
         ap_upd a peer (\<lambda>p. p\<lparr>ap_shadowReservedBalance := ap_shadowReservedBalance p + bigPrice,
           ap_refreshReservedBalance :=
             (if ap_refreshOngoing p then ap_refreshReservedBalance p + bigPrice
              else ap_refreshReservedBalance p)\<rparr>)))"

definition increaseBalance ::
    "accounting \<Rightarrow> address \<Rightarrow> int \<Rightarrow> (acct_error + int) \<times> accounting" where
  "increaseBalance a peer price =
     bindE (SurplusBalance a peer) (\<lambda>surplusBalance a.
       let newSurplusBalance = surplusBalance - price in
       if surplusBalance > 0 \<and> newSurplusBalance \<ge> 0
       then bindE (ac_put a (peerSurplusBalanceKey peer) newSurplusBalance) (\<lambda>_ a. Balance a peer)
       else bindE
         (if surplusBalance > 0
          then let debitIncrease = price - surplusBalance in
            if debitIncrease \<le> 0 then (Inl ErrSanityCheck, a)
            else bindE (ac_put a (peerSurplusBalanceKey peer) 0) (\<lambda>_ a. (Inr debitIncrease, a))
          else (Inr price, a))
         (\<lambda>cost a.
           bindE (orZero (Balance a peer)) (\<lambda>currentBalance a.
             let nextBalance = currentBalance + cost in
             bindE (ac_put a (peerBalanceKey peer) nextBalance) (\<lambda>_ a.
               (Inr nextBalance, snd (decreaseOriginatedBalanceTo a peer nextBalance))))))"

definition debitApply :: "accounting \<Rightarrow> action \<Rightarrow> (acct_error option \<times> action) \<times> accounting" where
  "debitApply a d =
     (let peer = act_peer d in
      case increaseBalance a peer (act_price d) of
        (Inl e, a) \<Rightarrow> ((Some e, d), a)
      | (Inr nextBalance, a) \<Rightarrow>
        let d = d\<lparr>act_applied := True\<rparr>;
            a = ap_upd a peer (\<lambda>p. p\<lparr>ap_shadowReservedBalance :=
                  ap_shadowReservedBalance p - act_price d\<rparr>) in
        (case timeNow a of (now, a) \<Rightarrow>
          let secs = now div 1000 - ap_refreshReceivedTimestamp (ap a peer);
              timeElapsedInSeconds = (if secs > 1 then 1 else secs);
              refreshRate = (if ap_fullNode (ap a peer) then ac_refreshRate a
                             else ac_lightRefreshRate a);
              refreshDue = timeElapsedInSeconds * refreshRate;
              disconnectLimit = ap_disconnectLimit (ap a peer) + refreshDue in
          if nextBalance \<ge> disconnectLimit
          then (case blocklistUntil a peer 1 of
              (Inl _, a) \<Rightarrow> ((Some (BlockPeerError (seconds 10)), d), a)
            | (Inr disconnectFor, a) \<Rightarrow> ((Some (BlockPeerError (seconds disconnectFor)), d), a))
          else ((None, d), a)))"

definition debitCleanup :: "accounting \<Rightarrow> action \<Rightarrow> accounting" where
  "debitCleanup a d =
     (if act_applied d then a
      else
        let peer = act_peer d;
            a = ap_upd a peer (\<lambda>p. p\<lparr>ap_shadowReservedBalance :=
                  ap_shadowReservedBalance p - act_price d,
                  ap_ghostBalance := ap_ghostBalance p + act_price d\<rparr>) in
        if ap_ghostBalance (ap a peer) > ap_disconnectLimit (ap a peer)
        then blocklist a peer 1 ''ghost overdraw'' else a)"

section \<open>Connections\<close>

definition acct_Connect :: "accounting \<Rightarrow> address \<Rightarrow> bool \<Rightarrow> accounting" where
  "acct_Connect a peer fullNode =
     (let a = getAccountingPeer a peer;
          threshold = (if fullNode then ac_paymentThreshold a else ac_lightPaymentThreshold a);
          growStep = (if fullNode then ac_thresholdGrowStep a else ac_lightThresholdGrowStep a);
          limit = (if fullNode then ac_disconnectLimit a else ac_lightDisconnectLimit a);
          a = ap_upd a peer (\<lambda>p. p\<lparr>ap_connected := True, ap_fullNode := fullNode,
                ap_shadowReservedBalance := 0, ap_ghostBalance := 0, ap_reservedBalance := 0,
                ap_refreshReservedBalance := 0, ap_paymentThresholdForPeer := threshold,
                ap_thresholdGrowAt := growStep, ap_disconnectLimit := limit\<rparr>);
          a = snd (ac_put a (peerBalanceKey peer) 0)
      in snd (ac_put a (peerSurplusBalanceKey peer) 0))"

definition acct_Disconnect :: "accounting \<Rightarrow> address \<Rightarrow> accounting" where
  "acct_Disconnect a peer =
     (let a = getAccountingPeer a peer in
      if ap_connected (ap a peer)
      then (case blocklistUntil a peer 1 of (r, a) \<Rightarrow>
             let disconnectFor = (case r of Inl _ \<Rightarrow> 10 | Inr k \<Rightarrow> k);
                 a = ap_upd a peer (\<lambda>p. p\<lparr>ap_connected := False\<rparr>)
             in emit a (BlocklistCall peer (seconds disconnectFor) ''accounting disconnect''))
      else a)"

section \<open>Reports over all peers\<close>

text \<open>\<open>strings.SplitAfter\<close>: the pieces end after each instance of the separator.\<close>

function split_after :: "string \<Rightarrow> string \<Rightarrow> string \<Rightarrow> string list" where
  "split_after sep acc s =
     (if sep \<noteq> [] \<and> prefix sep s
      then (rev acc @ sep) # split_after sep [] (drop (length sep) s)
      else case s of [] \<Rightarrow> [rev acc] | c # cs \<Rightarrow> split_after sep (c # acc) cs)"
  by pat_completeness auto
termination
  by (relation "measure (\<lambda>(sep, acc, s). length s)") (auto simp: prefix_def)

declare split_after.simps [simp del]

definition key_peer :: "string \<Rightarrow> string \<Rightarrow> acct_error + address" where
  "key_peer pre key =
     (case split_after pre [] key of
        [_, rest] \<Rightarrow> (case ParseHexAddress rest of Inl e \<Rightarrow> Inl (HexError e) | Inr addr \<Rightarrow> Inr addr)
      | _ \<Rightarrow> Inl ErrNoPeerInKey)"

definition balanceKeyPeer :: "string \<Rightarrow> acct_error + address" where
  "balanceKeyPeer key = key_peer balancesPrefix key"

definition surplusBalanceKeyPeer :: "string \<Rightarrow> acct_error + address" where
  "surplusBalanceKeyPeer key = key_peer balancesSurplusPrefix key"

definition ac_iterate :: "accounting \<Rightarrow> string \<Rightarrow> (acct_error + string list) \<times> accounting" where
  "ac_iterate a pre =
     (case st_Iterate (ac_store a) pre of
        (Inl e, st) \<Rightarrow> (Inl (StoreError e), a\<lparr>ac_store := st\<rparr>)
      | (Inr ks, st) \<Rightarrow> (Inr ks, a\<lparr>ac_store := st\<rparr>))"

text \<open>The callback the two reports pass to \<open>Iterate\<close>: the peer of the key, and its value if
  the peer has no entry in the result yet.\<close>

fun report_loop ::
    "(string \<Rightarrow> 'e + address)
     \<Rightarrow> ('s \<Rightarrow> address \<Rightarrow> ('e + 'v) \<times> 's)
     \<Rightarrow> string list \<Rightarrow> (string \<rightharpoonup> 'v) \<Rightarrow> 's
     \<Rightarrow> ('e + (string \<rightharpoonup> 'v)) \<times> 's" where
  "report_loop peerOf val [] s a = (Inr s, a)"
| "report_loop peerOf val (key # keys) s a =
     (case peerOf key of
        Inl e \<Rightarrow> (Inl e, a)
      | Inr addr \<Rightarrow>
          if s (addr_String addr) \<noteq> None then report_loop peerOf val keys s a
          else bindE (val a addr) (\<lambda>v a.
                 report_loop peerOf val keys (s(addr_String addr \<mapsto> v)) a))"

definition stored_balance :: "accounting \<Rightarrow> address \<Rightarrow> (acct_error + int) \<times> accounting" where
  "stored_balance a addr =
     (case ac_get a (peerBalanceKey addr) of
        (Inl e, a) \<Rightarrow> (Inl (StoreError e), a) | (Inr v, a) \<Rightarrow> (Inr v, a))"

definition Balances :: "accounting \<Rightarrow> (acct_error + (string \<rightharpoonup> int)) \<times> accounting" where
  "Balances a =
     bindE (ac_iterate a balancesPrefix) (\<lambda>keys a.
       report_loop balanceKeyPeer stored_balance keys Map.empty a)"

definition CompensatedBalances :: "accounting \<Rightarrow> (acct_error + (string \<rightharpoonup> int)) \<times> accounting" where
  "CompensatedBalances a =
     bindE (ac_iterate a balancesPrefix) (\<lambda>keys a.
     bindE (report_loop balanceKeyPeer CompensatedBalance keys Map.empty a) (\<lambda>s a.
     bindE (ac_iterate a balancesSurplusPrefix) (\<lambda>keys a.
       report_loop surplusBalanceKeyPeer CompensatedBalance keys s a)))"

record PeerInfo =
  pi_Balance :: int
  pi_ConsumedBalance :: int
  pi_ThresholdReceived :: int
  pi_ThresholdGiven :: int
  pi_CurrentThresholdReceived :: int
  pi_CurrentThresholdGiven :: int
  pi_SurplusBalance :: int
  pi_ReservedBalance :: int
  pi_ShadowReservedBalance :: int
  pi_GhostBalance :: int

definition peer_info :: "accounting \<Rightarrow> int \<Rightarrow> accountingPeer \<Rightarrow> int \<Rightarrow> int \<Rightarrow> PeerInfo" where
  "peer_info a now p balance surplusBalance =
     (let secs = now div 1000 - ap_refreshReceivedTimestamp p;
          secs = (if secs > 1 then 1 else secs);
          refreshRate = (if ap_fullNode p then ac_refreshRate a else ac_lightRefreshRate a);
          currentThresholdGiven = ap_disconnectLimit p + secs * refreshRate;
          secs = go_quot (now - ap_refreshTimestampMilliseconds p) 1000;
          secs = (if secs > 1 then 1 else secs);
          currentThresholdReceived = ap_paymentThreshold p + secs * ac_refreshRate a
      in \<lparr>pi_Balance = balance - surplusBalance, pi_ConsumedBalance = balance,
          pi_ThresholdReceived = ap_paymentThreshold p,
          pi_ThresholdGiven = ap_paymentThresholdForPeer p,
          pi_CurrentThresholdReceived = currentThresholdReceived,
          pi_CurrentThresholdGiven = currentThresholdGiven,
          pi_SurplusBalance = surplusBalance, pi_ReservedBalance = ap_reservedBalance p,
          pi_ShadowReservedBalance = ap_shadowReservedBalance p,
          pi_GhostBalance = ap_ghostBalance p\<rparr>)"

text \<open>The range over the map of peers visits its keys in any order; the order is an argument.
  \<open>MustParseHexAddress\<close> panics on a key that is not an address.\<close>

fun peer_accounting_loop ::
    "string list \<Rightarrow> (string \<rightharpoonup> PeerInfo) \<Rightarrow> accounting
     \<Rightarrow> (acct_error + (string \<rightharpoonup> PeerInfo)) \<times> accounting" where
  "peer_accounting_loop [] s a = (Inr s, a)"
| "peer_accounting_loop (peer # peers) s a =
     (case ParseHexAddress peer of
        Inl e \<Rightarrow> (Inl (HexError e), a)
      | Inr peerAddress \<Rightarrow>
          bindE (orZero (Balance a peerAddress)) (\<lambda>balance a.
          bindE (SurplusBalance a peerAddress) (\<lambda>surplusBalance a.
            case timeNow a of (now, a) \<Rightarrow>
              peer_accounting_loop peers
                (s(peer \<mapsto> peer_info a now (ap a peerAddress) balance surplusBalance)) a)))"

definition PeerAccounting ::
    "accounting \<Rightarrow> string list \<Rightarrow> (acct_error + (string \<rightharpoonup> PeerInfo)) \<times> accounting" where
  "PeerAccounting a order = peer_accounting_loop order Map.empty a"

end
