(* ===== verification/Cheque.thy ===== *)
theory Cheque
  imports Accounting
begin

text \<open>
  Cheques of the swap settlement (\<open>pkg/settlement/swap/chequebook\<close>): the store of received cheques
  (\<open>chequestore.go\<close>), the chequebook that issues cheques (\<open>chequebook.go\<close>) and the cash-out of received
  cheques (\<open>cashout.go\<close>). The three services share the state store. Calls to contracts, transactions
  and signatures are the record \<open>chain\<close>; a call may fail and its answer depends on the number of calls made
  before, so a theorem covers every behaviour of the chain over time. Ethereum addresses are
  byte lists. The cheques handed to the sending callback are recorded in order.
\<close>

section \<open>State\<close>

type_synonym eth_address = bytes

record Cheque =
  ch_Chequebook :: eth_address
  ch_Beneficiary :: eth_address
  ch_CumulativePayout :: int

record SignedCheque = Cheque +
  ch_Signature :: bytes

record cashoutAction =
  ca_TxHash :: bytes
  ca_Cheque :: SignedCheque

datatype swap_value =
    VCheque SignedCheque
  | VTotal int
  | VEth eth_address
  | VPeer address
  | VFlag
  | VCashout cashoutAction

datatype swap_error =
    ErrNoCheque
  | ErrChequeNotIncreasing
  | ErrChequeInvalid
  | ErrWrongBeneficiary
  | ErrBouncingCheque
  | ErrChequeValueTooLow
  | ErrOutOfFunds
  | ErrInsufficientFunds
  | ErrTransactionReverted
  | SwStore store_error
  | SwDecode
  | SwChain
  | SwSign
  | SwSend
  | ErrNoAddressInKey
  | ErrWrongChequebook
  | ErrUnknownBeneficary
  | ErrNoChequebook
  | SwNoSettlements
  | ErrOldBeneficiary
  | ErrHaveDeduction
  | ErrNegotiateRate
  | ErrNegotiateDeduction
  | ErrNoExchangeHeader
  | ErrNoDeductionHeader
  | ErrNoRate
  | ErrNoDeductionRate
  | ErrDecodeABI
  | ErrSwStream
  | SwAccounting acct_error
  | SwPanic

datatype cashed_event = EventFailed | EventNotFound | EventFound

record CashChequeResult =
  cr_Beneficiary :: eth_address
  cr_Recipient :: eth_address
  cr_Caller :: eth_address
  cr_TotalPayout :: int
  cr_CumulativePayout :: int
  cr_CallerPayout :: int
  cr_Bounced :: bool

datatype tx_status = TxError | TxNotFound | TxPending | TxMined

datatype receipt = ReceiptFailed | Receipt "CashChequeResult option" cashed_event

text \<open>The chain, by number of the call: contract queries, transactions, receipts.\<close>

record chain =
  bc_VerifyChequebook :: "nat \<Rightarrow> eth_address \<Rightarrow> bool"
  bc_Issuer :: "nat \<Rightarrow> eth_address \<Rightarrow> eth_address option"
  bc_Balance :: "nat \<Rightarrow> eth_address \<Rightarrow> int option"
  bc_PaidOut :: "nat \<Rightarrow> eth_address \<Rightarrow> eth_address \<Rightarrow> int option"
  bc_TotalPaidOut :: "nat \<Rightarrow> eth_address \<Rightarrow> int option"
  bc_BalanceOf :: "nat \<Rightarrow> eth_address \<Rightarrow> int option"
  bc_Transfer :: "nat \<Rightarrow> eth_address \<Rightarrow> int \<Rightarrow> bytes option"
  bc_withdraw :: "nat \<Rightarrow> eth_address \<Rightarrow> int \<Rightarrow> bytes option"
  bc_cashChequeBeneficiary :: "nat \<Rightarrow> eth_address \<Rightarrow> eth_address \<Rightarrow> int \<Rightarrow> bytes \<Rightarrow> bytes option"
  bc_TransactionByHash :: "nat \<Rightarrow> bytes \<Rightarrow> tx_status"
  bc_TransactionReceipt :: "nat \<Rightarrow> bytes \<Rightarrow> receipt option"
  bc_WaitForReceipt :: "nat \<Rightarrow> bytes \<Rightarrow> bool option"
  bc_recover :: "SignedCheque \<Rightarrow> eth_address option"
  bc_Sign :: "Cheque \<Rightarrow> bytes option"
  bc_HexToAddress :: "string \<Rightarrow> eth_address"

record swapstate =
  sw_store :: "swap_value statestore"
  sw_calls :: nat
  sw_address :: eth_address
  sw_ownerAddress :: eth_address
  sw_beneficiary :: eth_address
  sw_totalIssuedReserved :: int
  sw_sent :: "SignedCheque list"

definition sw_get :: "swapstate \<Rightarrow> string \<Rightarrow> (swap_error + swap_value option) \<times> swapstate" where
  "sw_get s k =
     (case st_Get (sw_store s) k of
        (Inr v, st) \<Rightarrow> (Inr (Some v), s\<lparr>sw_store := st\<rparr>)
      | (Inl ErrNotFound, st) \<Rightarrow> (Inr None, s\<lparr>sw_store := st\<rparr>)
      | (Inl e, st) \<Rightarrow> (Inl (SwStore e), s\<lparr>sw_store := st\<rparr>))"

definition sw_put :: "swapstate \<Rightarrow> string \<Rightarrow> swap_value \<Rightarrow> (swap_error + unit) \<times> swapstate" where
  "sw_put s k v =
     (case st_Put (sw_store s) k v of
        (Some e, st) \<Rightarrow> (Inl (SwStore e), s\<lparr>sw_store := st\<rparr>)
      | (None, st) \<Rightarrow> (Inr (), s\<lparr>sw_store := st\<rparr>))"

definition sw_delete :: "swapstate \<Rightarrow> string \<Rightarrow> (swap_error + unit) \<times> swapstate" where
  "sw_delete s k =
     (case st_Delete (sw_store s) k of
        (Some e, st) \<Rightarrow> (Inl (SwStore e), s\<lparr>sw_store := st\<rparr>)
      | (None, st) \<Rightarrow> (Inr (), s\<lparr>sw_store := st\<rparr>))"

definition sw_iterate :: "swapstate \<Rightarrow> string \<Rightarrow> (swap_error + string list) \<times> swapstate" where
  "sw_iterate s pre =
     (case st_Iterate (sw_store s) pre of
        (Inl e, st) \<Rightarrow> (Inl (SwStore e), s\<lparr>sw_store := st\<rparr>)
      | (Inr ks, st) \<Rightarrow> (Inr ks, s\<lparr>sw_store := st\<rparr>))"

text \<open>A call to the chain; \<open>None\<close> is an error of the call.\<close>

definition sw_call :: "swapstate \<Rightarrow> (nat \<Rightarrow> 'a option) \<Rightarrow> (swap_error + 'a) \<times> swapstate" where
  "sw_call s f =
     (case f (sw_calls s) of None \<Rightarrow> Inl SwChain | Some x \<Rightarrow> Inr x, s\<lparr>sw_calls := Suc (sw_calls s)\<rparr>)"

section \<open>The cheque store\<close>

definition lastReceivedChequePrefix :: string where
  "lastReceivedChequePrefix = ''swap_chequebook_last_received_cheque_''"

definition lastReceivedChequeKey :: "eth_address \<Rightarrow> string" where
  "lastReceivedChequeKey chequebook = lastReceivedChequePrefix @ ''_'' @ hex_encode chequebook"

definition as_cheque :: "swap_value option \<Rightarrow> swap_error + SignedCheque" where
  "as_cheque v = (case v of None \<Rightarrow> Inl ErrNoCheque | Some (VCheque c) \<Rightarrow> Inr c | Some _ \<Rightarrow> Inl SwDecode)"

definition cs_LastCheque :: "swapstate \<Rightarrow> eth_address \<Rightarrow> (swap_error + SignedCheque) \<times> swapstate" where
  "cs_LastCheque s chequebook =
     bindE (sw_get s (lastReceivedChequeKey chequebook)) (\<lambda>v s. (as_cheque v, s))"

definition last_payout :: "chain \<Rightarrow> swapstate \<Rightarrow> eth_address \<Rightarrow> (swap_error + int) \<times> swapstate" where
  "last_payout C s chequebook =
     bindE (sw_get s (lastReceivedChequeKey chequebook)) (\<lambda>v s.
       case v of
         None \<Rightarrow>
           bindE (sw_call s (\<lambda>t. if bc_VerifyChequebook C t chequebook then Some () else None)) (\<lambda>_ s. (Inr 0, s))
       | Some (VCheque c) \<Rightarrow> (Inr (ch_CumulativePayout c), s)
       | Some _ \<Rightarrow> (Inl SwDecode, s))"

definition cs_ReceiveCheque :: "chain \<Rightarrow> swapstate \<Rightarrow> SignedCheque \<Rightarrow> int \<Rightarrow> int \<Rightarrow> (swap_error + int) \<times> swapstate" where
  "cs_ReceiveCheque C s cheque exchangeRate deduction =
     (let chequebook = ch_Chequebook cheque in
      if ch_Beneficiary cheque \<noteq> sw_beneficiary s then (Inl ErrWrongBeneficiary, s)
      else
        bindE (last_payout C s chequebook) (\<lambda>lastCumulativePayout s.
          let amount = ch_CumulativePayout cheque - lastCumulativePayout in
          if amount \<le> 0 then (Inl ErrChequeNotIncreasing, s)
          else if amount - deduction < exchangeRate then (Inl ErrChequeValueTooLow, s)
          else
            bindE (sw_call s (\<lambda>t. bc_Issuer C t chequebook)) (\<lambda>expectedIssuer s.
              case bc_recover C cheque of
                None \<Rightarrow> (Inl SwSign, s)
              | Some issuer \<Rightarrow>
                  if issuer \<noteq> expectedIssuer then (Inl ErrChequeInvalid, s)
                  else
                    bindE (sw_call s (\<lambda>t. bc_Balance C t chequebook)) (\<lambda>balance s.
                    bindE (sw_call s (\<lambda>t. bc_PaidOut C t chequebook (sw_beneficiary s))) (\<lambda>alreadyPaidOut s.
                      if balance < ch_CumulativePayout cheque - alreadyPaidOut then (Inl ErrBouncingCheque, s)
                      else
                        bindE (sw_put s (lastReceivedChequeKey chequebook) (VCheque cheque)) (\<lambda>_ s.
                          (Inr amount, s)))))))"

definition keyAddress :: "chain \<Rightarrow> string \<Rightarrow> string \<Rightarrow> swap_error + eth_address" where
  "keyAddress C key pre =
     (case split_after pre [] key of [_, rest] \<Rightarrow> Inr (bc_HexToAddress C rest) | _ \<Rightarrow> Inl ErrNoAddressInKey)"

fun last_cheques :: "(string \<Rightarrow> swap_error + eth_address) \<Rightarrow> (swapstate \<Rightarrow> eth_address \<Rightarrow> (swap_error + SignedCheque) \<times> swapstate) \<Rightarrow>
    bool \<Rightarrow> string list \<Rightarrow> (eth_address \<rightharpoonup> SignedCheque) \<Rightarrow> swapstate \<Rightarrow> (swap_error + (eth_address \<rightharpoonup> SignedCheque)) \<times> swapstate" where
  "last_cheques addrOf lastCheque skipMissing [] m s = (Inr m, s)"
| "last_cheques addrOf lastCheque skipMissing (key # keys) m s =
     (case addrOf key of
        Inl e \<Rightarrow> (Inl e, s)
      | Inr a \<Rightarrow>
          if m a \<noteq> None then last_cheques addrOf lastCheque skipMissing keys m s
          else
            (case lastCheque s a of
               (Inl e, s) \<Rightarrow> if skipMissing \<and> e = ErrNoCheque then last_cheques addrOf lastCheque skipMissing keys m s
                            else (Inl e, s)
             | (Inr c, s) \<Rightarrow> last_cheques addrOf lastCheque skipMissing keys (m(a \<mapsto> c)) s))"

definition cs_LastCheques :: "chain \<Rightarrow> swapstate \<Rightarrow> (swap_error + (eth_address \<rightharpoonup> SignedCheque)) \<times> swapstate" where
  "cs_LastCheques C s =
     bindE (sw_iterate s lastReceivedChequePrefix) (\<lambda>keys s.
       last_cheques (\<lambda>key. keyAddress C key (lastReceivedChequePrefix @ ''_'')) cs_LastCheque True keys Map.empty s)"

section \<open>The chequebook\<close>

definition lastIssuedChequeKeyPrefix :: string where
  "lastIssuedChequeKeyPrefix = ''swap_chequebook_last_issued_cheque_''"

definition totalIssuedKey :: string where
  "totalIssuedKey = ''swap_chequebook_total_issued_''"

definition lastIssuedChequeKey :: "eth_address \<Rightarrow> string" where
  "lastIssuedChequeKey beneficiary = lastIssuedChequeKeyPrefix @ hex_encode beneficiary"

definition cb_New :: "swapstate \<Rightarrow> eth_address \<Rightarrow> eth_address \<Rightarrow> swapstate" where
  "cb_New s address owner = s\<lparr>sw_address := address, sw_ownerAddress := owner, sw_totalIssuedReserved := 0\<rparr>"

definition cb_Deposit :: "chain \<Rightarrow> swapstate \<Rightarrow> int \<Rightarrow> (swap_error + bytes) \<times> swapstate" where
  "cb_Deposit C s amount =
     bindE (sw_call s (\<lambda>t. bc_BalanceOf C t (sw_ownerAddress s))) (\<lambda>balance s.
       if balance < amount then (Inl ErrInsufficientFunds, s)
       else sw_call s (\<lambda>t. bc_Transfer C t (sw_address s) amount))"

definition cb_WaitForDeposit :: "chain \<Rightarrow> swapstate \<Rightarrow> bytes \<Rightarrow> (swap_error + unit) \<times> swapstate" where
  "cb_WaitForDeposit C s txHash =
     bindE (sw_call s (\<lambda>t. bc_WaitForReceipt C t txHash)) (\<lambda>ok s.
       if \<not> ok then (Inl ErrTransactionReverted, s) else (Inr (), s))"

definition cb_Balance :: "chain \<Rightarrow> swapstate \<Rightarrow> (swap_error + int) \<times> swapstate" where
  "cb_Balance C s = sw_call s (\<lambda>t. bc_Balance C t (sw_address s))"

definition totalIssued :: "swapstate \<Rightarrow> (swap_error + int) \<times> swapstate" where
  "totalIssued s =
     bindE (sw_get s totalIssuedKey) (\<lambda>v s.
       case v of None \<Rightarrow> (Inr 0, s) | Some (VTotal n) \<Rightarrow> (Inr n, s) | Some _ \<Rightarrow> (Inl SwDecode, s))"

definition AvailableBalance :: "chain \<Rightarrow> swapstate \<Rightarrow> (swap_error + int) \<times> swapstate" where
  "AvailableBalance C s =
     bindE (totalIssued s) (\<lambda>issued s.
     bindE (cb_Balance C s) (\<lambda>balance s.
     bindE (sw_call s (\<lambda>t. bc_TotalPaidOut C t (sw_address s))) (\<lambda>totalPaidOut s.
       (Inr (balance + totalPaidOut - issued), s))))"

definition reserveTotalIssued :: "chain \<Rightarrow> swapstate \<Rightarrow> int \<Rightarrow> (swap_error + int) \<times> swapstate" where
  "reserveTotalIssued C s amount =
     bindE (AvailableBalance C s) (\<lambda>available s.
       if amount > available - sw_totalIssuedReserved s then (Inl ErrOutOfFunds, s)
       else (Inr (available - amount), s\<lparr>sw_totalIssuedReserved := sw_totalIssuedReserved s + amount\<rparr>))"

definition unreserveTotalIssued :: "swapstate \<Rightarrow> int \<Rightarrow> swapstate" where
  "unreserveTotalIssued s amount = s\<lparr>sw_totalIssuedReserved := sw_totalIssuedReserved s - amount\<rparr>"

definition cb_LastCheque :: "swapstate \<Rightarrow> eth_address \<Rightarrow> (swap_error + SignedCheque) \<times> swapstate" where
  "cb_LastCheque s beneficiary =
     bindE (sw_get s (lastIssuedChequeKey beneficiary)) (\<lambda>v s. (as_cheque v, s))"

text \<open>\<open>Issue\<close> after the reservation, in the steps between which other calls can run: reading the last
  cheque, signing and sending, saving the cheque, adding to the total.\<close>

definition issue_payout :: "swapstate \<Rightarrow> eth_address \<Rightarrow> int \<Rightarrow> (swap_error + int) \<times> swapstate" where
  "issue_payout s beneficiary amount =
     (case cb_LastCheque s beneficiary of
        (Inl e, s) \<Rightarrow> if e = ErrNoCheque then (Inr (0 + amount), s) else (Inl e, s)
      | (Inr c, s) \<Rightarrow> (Inr (ch_CumulativePayout c + amount), s))"

definition issue_cheque :: "swapstate \<Rightarrow> eth_address \<Rightarrow> int \<Rightarrow> Cheque" where
  "issue_cheque s beneficiary payout =
     \<lparr>ch_Chequebook = sw_address s, ch_Beneficiary = beneficiary, ch_CumulativePayout = payout\<rparr>"

definition withSignature :: "Cheque \<Rightarrow> bytes \<Rightarrow> SignedCheque" where
  "withSignature c sig = \<lparr>ch_Chequebook = ch_Chequebook c, ch_Beneficiary = ch_Beneficiary c,
     ch_CumulativePayout = ch_CumulativePayout c, ch_Signature = sig\<rparr>"

definition issue_send :: "chain \<Rightarrow> swapstate \<Rightarrow> eth_address \<Rightarrow> int \<Rightarrow> bool \<Rightarrow> (swap_error + Cheque) \<times> swapstate" where
  "issue_send C s beneficiary payout sendOk =
     (let cheque = issue_cheque s beneficiary payout in
      case bc_Sign C cheque of
        None \<Rightarrow> (Inl SwSign, s)
      | Some sig \<Rightarrow>
          if \<not> sendOk then (Inl SwSend, s) else (Inr cheque, s\<lparr>sw_sent := sw_sent s @ [withSignature cheque sig]\<rparr>))"

text \<open>The cheque is stored without its signature.\<close>

definition issue_save :: "swapstate \<Rightarrow> eth_address \<Rightarrow> Cheque \<Rightarrow> (swap_error + unit) \<times> swapstate" where
  "issue_save s beneficiary cheque = sw_put s (lastIssuedChequeKey beneficiary) (VCheque (withSignature cheque []))"

definition issue_total :: "swapstate \<Rightarrow> int \<Rightarrow> (swap_error + unit) \<times> swapstate" where
  "issue_total s amount =
     bindE (totalIssued s) (\<lambda>issued s. sw_put s totalIssuedKey (VTotal (issued + amount)))"

definition Issue :: "chain \<Rightarrow> swapstate \<Rightarrow> eth_address \<Rightarrow> int \<Rightarrow> bool \<Rightarrow> (swap_error + int) \<times> swapstate" where
  "Issue C s beneficiary amount sendOk =
     bindE (reserveTotalIssued C s amount) (\<lambda>availableBalance s.
       case bindE (issue_payout s beneficiary amount) (\<lambda>payout s.
            bindE (issue_send C s beneficiary payout sendOk) (\<lambda>cheque s.
            bindE (issue_save s beneficiary cheque) (\<lambda>_ s. issue_total s amount))) of
         (Inl e, s) \<Rightarrow> (Inl e, unreserveTotalIssued s amount)
       | (Inr _, s) \<Rightarrow> (Inr availableBalance, unreserveTotalIssued s amount))"

definition cb_LastCheques :: "chain \<Rightarrow> swapstate \<Rightarrow> (swap_error + (eth_address \<rightharpoonup> SignedCheque)) \<times> swapstate" where
  "cb_LastCheques C s =
     bindE (sw_iterate s lastIssuedChequeKeyPrefix) (\<lambda>keys s.
       last_cheques (\<lambda>key. keyAddress C key lastIssuedChequeKeyPrefix) cb_LastCheque False keys Map.empty s)"

definition cb_Withdraw :: "chain \<Rightarrow> swapstate \<Rightarrow> int \<Rightarrow> (swap_error + bytes) \<times> swapstate" where
  "cb_Withdraw C s amount =
     bindE (AvailableBalance C s) (\<lambda>available s.
       if available < amount then (Inl ErrInsufficientFunds, s)
       else sw_call s (\<lambda>t. bc_withdraw C t (sw_address s) amount))"

section \<open>Cash-out\<close>

definition cashoutActionKey :: "eth_address \<Rightarrow> string" where
  "cashoutActionKey chequebook = ''swap_cashout_'' @ hex_encode chequebook"

definition co_CashCheque :: "chain \<Rightarrow> swapstate \<Rightarrow> eth_address \<Rightarrow> eth_address \<Rightarrow> (swap_error + bytes) \<times> swapstate" where
  "co_CashCheque C s chequebook recipient =
     bindE (cs_LastCheque s chequebook) (\<lambda>cheque s.
     bindE (sw_call s (\<lambda>t. bc_cashChequeBeneficiary C t chequebook recipient (ch_CumulativePayout cheque) (ch_Signature cheque)))
       (\<lambda>txHash s.
     bindE (sw_put s (cashoutActionKey chequebook) (VCashout \<lparr>ca_TxHash = txHash, ca_Cheque = cheque\<rparr>)) (\<lambda>_ s.
       (Inr txHash, s))))"

record LastCashout =
  lc_TxHash :: bytes
  lc_Cheque :: SignedCheque
  lc_Result :: "CashChequeResult option"
  lc_Reverted :: bool

record CashoutStatus =
  co_Last :: "LastCashout option"
  co_UncashedAmount :: int

definition parseCashChequeBeneficiaryReceipt :: "CashChequeResult option \<Rightarrow> cashed_event \<Rightarrow> swap_error + CashChequeResult" where
  "parseCashChequeBeneficiaryReceipt cashed bounced =
     (case cashed of
        None \<Rightarrow> Inl SwChain
      | Some result \<Rightarrow>
          (case bounced of
             EventFound \<Rightarrow> Inr (result\<lparr>cr_Bounced := True\<rparr>)
           | EventNotFound \<Rightarrow> Inr (result\<lparr>cr_Bounced := False\<rparr>)
           | EventFailed \<Rightarrow> Inl SwChain))"

definition co_CashoutStatus :: "chain \<Rightarrow> swapstate \<Rightarrow> eth_address \<Rightarrow> (swap_error + CashoutStatus) \<times> swapstate" where
  "co_CashoutStatus C s chequebook =
     bindE (cs_LastCheque s chequebook) (\<lambda>cheque s.
     bindE (sw_get s (cashoutActionKey chequebook)) (\<lambda>v s.
       case v of
         None \<Rightarrow> (Inr \<lparr>co_Last = None, co_UncashedAmount = ch_CumulativePayout cheque\<rparr>, s)
       | Some (VCashout action) \<Rightarrow>
           let last = (\<lambda>result reverted. \<lparr>lc_TxHash = ca_TxHash action, lc_Cheque = ca_Cheque action,
                 lc_Result = result, lc_Reverted = reverted\<rparr>);
               pending = (Inr \<lparr>co_Last = Some (last None False),
                 co_UncashedAmount = ch_CumulativePayout cheque - ch_CumulativePayout (ca_Cheque action)\<rparr>)
           in bindE (sw_call s (\<lambda>t. Some (bc_TransactionByHash C t (ca_TxHash action)))) (\<lambda>status s.
                case status of
                  TxError \<Rightarrow> (Inl SwChain, s)
                | TxNotFound \<Rightarrow> (pending, s)
                | TxPending \<Rightarrow> (pending, s)
                | TxMined \<Rightarrow>
                    bindE (sw_call s (\<lambda>t. bc_TransactionReceipt C t (ca_TxHash action))) (\<lambda>receipt s.
                      case receipt of
                        ReceiptFailed \<Rightarrow>
                          bindE (sw_call s (\<lambda>t. bc_PaidOut C t chequebook (ch_Beneficiary cheque))) (\<lambda>paidOut s.
                            (Inr \<lparr>co_Last = Some (last None True),
                              co_UncashedAmount = ch_CumulativePayout cheque - paidOut\<rparr>, s))
                      | Receipt cashed bounced \<Rightarrow>
                          (case parseCashChequeBeneficiaryReceipt cashed bounced of
                             Inl e \<Rightarrow> (Inl e, s)
                           | Inr result \<Rightarrow>
                               (Inr \<lparr>co_Last = Some (last (Some result) False),
                                 co_UncashedAmount = ch_CumulativePayout cheque - cr_CumulativePayout result\<rparr>, s))))
       | Some _ \<Rightarrow> (Inl SwDecode, s)))"


section \<open>What the operations read and write\<close>

definition swkv :: "swapstate \<Rightarrow> string \<rightharpoonup> swap_value" where
  "swkv s = st_kv (sw_store s)"

definition sw_same :: "swapstate \<Rightarrow> swapstate \<Rightarrow> bool" where
  "sw_same s s' \<longleftrightarrow> sw_address s' = sw_address s \<and> sw_ownerAddress s' = sw_ownerAddress s \<and>
     sw_beneficiary s' = sw_beneficiary s \<and> sw_totalIssuedReserved s' = sw_totalIssuedReserved s \<and> sw_sent s' = sw_sent s"

definition sw_reads :: "swapstate \<Rightarrow> swapstate \<Rightarrow> bool" where
  "sw_reads s s' \<longleftrightarrow> sw_same s s' \<and> swkv s' = swkv s"

lemma sw_same_refl [simp]: "sw_same s s" and sw_reads_refl [simp]: "sw_reads s s"
  by (simp_all add: sw_same_def sw_reads_def)

lemma sw_same_trans [trans]: "sw_same s t \<Longrightarrow> sw_same t u \<Longrightarrow> sw_same s u"
  by (simp add: sw_same_def)

lemma sw_reads_trans [trans]: "sw_reads s t \<Longrightarrow> sw_reads t u \<Longrightarrow> sw_reads s u"
  by (simp add: sw_same_def sw_reads_def)

lemma sw_get_reads: "sw_get s k = (r, s') \<Longrightarrow> sw_reads s s' \<and> (\<forall>v. r = Inr v \<longrightarrow> v = swkv s k)"
  using st.get_content [of "sw_store s" k] st.get_value [of "sw_store s" k] st.get_missing [of "sw_store s" k]
  by (auto simp: sw_get_def sw_reads_def sw_same_def swkv_def split: prod.splits sum.splits store_error.splits)

lemma sw_call_reads: "sw_call s f = (r, s') \<Longrightarrow> sw_reads s s' \<and> (\<forall>x. r = Inr x \<longrightarrow> f (sw_calls s) = Some x)"
  by (auto simp: sw_call_def sw_reads_def sw_same_def swkv_def split: option.splits)

lemma sw_put_writes:
  "sw_put s k v = (r, s') \<Longrightarrow> sw_same s s' \<and> swkv s' = (case r of Inl _ \<Rightarrow> swkv s | Inr _ \<Rightarrow> (swkv s)(k \<mapsto> v))"
  using st.put_ok [of "sw_store s" k v] st.put_fail [of "sw_store s" k v]
  by (auto simp: sw_put_def sw_same_def swkv_def split: prod.splits option.splits)

lemma sw_delete_writes:
  "sw_delete s k = (r, s') \<Longrightarrow> sw_same s s' \<and> swkv s' = (case r of Inl _ \<Rightarrow> swkv s | Inr _ \<Rightarrow> (swkv s)(k := None))"
  using st.delete_ok [of "sw_store s" k] st.delete_fail [of "sw_store s" k]
  by (auto simp: sw_delete_def sw_same_def swkv_def split: prod.splits option.splits)

definition received :: "swapstate \<Rightarrow> eth_address \<Rightarrow> int" where
  "received s chequebook = (case swkv s (lastReceivedChequeKey chequebook) of Some (VCheque c) \<Rightarrow> ch_CumulativePayout c | _ \<Rightarrow> 0)"

definition issued :: "swapstate \<Rightarrow> eth_address \<Rightarrow> int" where
  "issued s beneficiary = (case swkv s (lastIssuedChequeKey beneficiary) of Some (VCheque c) \<Rightarrow> ch_CumulativePayout c | _ \<Rightarrow> 0)"

definition total :: "swapstate \<Rightarrow> int" where
  "total s = (case swkv s totalIssuedKey of Some (VTotal n) \<Rightarrow> n | _ \<Rightarrow> 0)"

lemma views_cong: "swkv s' = swkv s \<Longrightarrow> received s' = received s \<and> issued s' = issued s \<and> total s' = total s"
  by (auto simp: received_def issued_def total_def)

lemma hex_inj [simp]: "hex_encode a = hex_encode b \<longleftrightarrow> a = b"
  by (metis hex_decode_encode sum.inject(2))

lemma keys_distinct [simp]:
  "lastReceivedChequeKey a = lastReceivedChequeKey b \<longleftrightarrow> a = b" "lastIssuedChequeKey a = lastIssuedChequeKey b \<longleftrightarrow> a = b"
  "lastReceivedChequeKey a \<noteq> lastIssuedChequeKey b" "lastIssuedChequeKey a \<noteq> lastReceivedChequeKey b"
  "lastReceivedChequeKey a \<noteq> totalIssuedKey" "lastIssuedChequeKey a \<noteq> totalIssuedKey"
  "totalIssuedKey \<noteq> lastReceivedChequeKey a" "totalIssuedKey \<noteq> lastIssuedChequeKey a"
  by (simp_all add: lastReceivedChequeKey_def lastIssuedChequeKey_def lastReceivedChequePrefix_def
      lastIssuedChequeKeyPrefix_def totalIssuedKey_def)

lemma last_payout_reads:
  assumes "last_payout C s cb = (r, s')"
  shows "sw_reads s s'" "r = Inr n \<Longrightarrow> n = received s cb"
proof -
  obtain x s1 where x: "sw_get s (lastReceivedChequeKey cb) = (x, s1)" by fastforce
  note g = sw_get_reads [OF x]
  show "sw_reads s s'" "r = Inr n \<Longrightarrow> n = received s cb"
    using assms x g sw_call_reads [of s1] sw_reads_trans
    by (fastforce simp: last_payout_def received_def bindE_def split: sum.splits option.splits swap_value.splits prod.splits)+
qed

text \<open>Every outcome of \<open>ReceiveCheque\<close>.\<close>

definition cheque_valid :: "chain \<Rightarrow> swapstate \<Rightarrow> SignedCheque \<Rightarrow> bool" where
  "cheque_valid C s c \<longleftrightarrow> ch_Beneficiary c = sw_beneficiary s \<and>
     (\<exists>t issuer. bc_Issuer C t (ch_Chequebook c) = Some issuer \<and> bc_recover C c = Some issuer) \<and>
     (\<exists>t t' b p. bc_Balance C t (ch_Chequebook c) = Some b \<and>
        bc_PaidOut C t' (ch_Chequebook c) (sw_beneficiary s) = Some p \<and> ch_CumulativePayout c - p \<le> b)"

end
