(* ===== verification/ChequeProps.thy ===== *)
theory ChequeProps
  imports Cheque "HOL-Library.Multiset"
begin

text \<open>
  Properties of cheques: what every operation of the cheque store and the chequebook does on every
  outcome, that the amounts credited for received cheques add up to the last cumulative payout, and that
  the chequebook never promises more than its funds, also when \<open>Issue\<close> calls run concurrently.
\<close>

section \<open>Outcomes\<close>

text \<open>A condition on the result and the final state of an operation, and its rules: one for the sequencing,
  one for each primitive operation.\<close>

definition outcome :: "'r \<times> 's \<Rightarrow> ('r \<Rightarrow> 's \<Rightarrow> bool) \<Rightarrow> bool" where
  "outcome m Q = Q (fst m) (snd m)"

lemma outcome_pair [simp]: "outcome (r, s) Q = Q r s"
  by (simp add: outcome_def)

lemma outcome_bindE:
  "outcome m (\<lambda>r s. case r of Inl e \<Rightarrow> Q (Inl e) s | Inr x \<Rightarrow> outcome (f x s) Q) \<Longrightarrow> outcome (bindE m f) Q"
  by (cases m; cases "fst m") (auto simp: outcome_def bindE_def)

lemma outcome_seq:
  assumes "outcome m P" "\<And>e t. P (Inl e) t \<Longrightarrow> Q (Inl e) t" "\<And>x t. P (Inr x) t \<Longrightarrow> outcome (f x t) Q"
  shows "outcome (bindE m f) Q"
  by (rule outcome_bindE) (use assms in \<open>auto simp: outcome_def split: sum.split\<close>)

lemma outcomeD: "outcome m Q \<Longrightarrow> m = (r, s) \<Longrightarrow> Q r s"
  by simp

lemma sw_get_error: "sw_get s k = (Inl e, t) \<Longrightarrow> \<exists>x. e = SwStore x"
  by (auto simp: sw_get_def split: prod.splits sum.splits store_error.splits)

lemma outcome_get:
  assumes "\<And>t e. sw_reads s t \<Longrightarrow> Q (Inl (SwStore e)) t" "\<And>t. sw_reads s t \<Longrightarrow> Q (Inr (swkv s k)) t"
  shows "outcome (sw_get s k) Q"
proof -
  obtain r t where g: "sw_get s k = (r, t)" by fastforce
  then show ?thesis using sw_get_reads [OF g] sw_get_error [of s k] assms by (cases r) auto
qed

lemma outcome_call:
  assumes "\<And>t e. sw_reads s t \<Longrightarrow> Q (Inl e) t" "\<And>t x. sw_reads s t \<Longrightarrow> f (sw_calls s) = Some x \<Longrightarrow> Q (Inr x) t"
  shows "outcome (sw_call s f) Q"
proof -
  obtain r t where g: "sw_call s f = (r, t)" by fastforce
  then show ?thesis using sw_call_reads [OF g] assms by (cases r) auto
qed

lemma outcome_put:
  assumes "\<And>t e. sw_reads s t \<Longrightarrow> Q (Inl e) t" "\<And>t. sw_same s t \<Longrightarrow> swkv t = (swkv s)(k \<mapsto> v) \<Longrightarrow> Q (Inr ()) t"
  shows "outcome (sw_put s k v) Q"
proof -
  obtain r t where g: "sw_put s k v = (r, t)" by fastforce
  then show ?thesis using sw_put_writes [OF g] assms by (cases r) (auto simp: sw_reads_def)
qed

lemma outcome_delete:
  assumes "\<And>t e. sw_reads s t \<Longrightarrow> Q (Inl e) t" "\<And>t. sw_same s t \<Longrightarrow> swkv t = (swkv s)(k := None) \<Longrightarrow> Q (Inr ()) t"
  shows "outcome (sw_delete s k) Q"
proof -
  obtain r t where g: "sw_delete s k = (r, t)" by fastforce
  then show ?thesis using sw_delete_writes [OF g] assms by (cases r) (auto simp: sw_reads_def)
qed

lemma outcome_mono: "outcome m P \<Longrightarrow> (\<And>r s. P r s \<Longrightarrow> Q r s) \<Longrightarrow> outcome m Q"
  by (simp add: outcome_def)

lemma sw_reads_same: "sw_reads s t \<Longrightarrow> sw_same t u \<Longrightarrow> sw_same s u"
  by (simp add: sw_reads_def sw_same_def)

lemma sw_reads_views: "sw_reads s t \<Longrightarrow> swkv t = swkv s \<and> received t = received s \<and> issued t = issued s \<and> total t = total s"
  using views_cong [of t s] by (simp add: sw_reads_def)

lemma sw_reads_total: "sw_reads s t \<Longrightarrow> total t = total s" and sw_reads_sameI: "sw_reads s t \<Longrightarrow> sw_same s t"
  using sw_reads_views [of s t] by (simp_all add: sw_reads_def)

lemma sw_reads_fields:
  "sw_reads s t \<Longrightarrow> sw_address t = sw_address s \<and> sw_beneficiary t = sw_beneficiary s \<and>
     sw_totalIssuedReserved t = sw_totalIssuedReserved s \<and> sw_sent t = sw_sent s"
  by (simp add: sw_reads_def sw_same_def)

lemma outcome_last_payout:
  assumes "\<And>t e. sw_reads s t \<Longrightarrow> Q (Inl e) t" "\<And>t. sw_reads s t \<Longrightarrow> Q (Inr (received s cb)) t"
  shows "outcome (last_payout C s cb) Q"
proof -
  obtain r t where g: "last_payout C s cb = (r, t)" by fastforce
  then show ?thesis using last_payout_reads [OF g] assms by (cases r) auto
qed

section \<open>Received cheques\<close>

lemma ReceiveCheque_outcome:
  "outcome (cs_ReceiveCheque C s c rate ded) (\<lambda>r s'. case r of
      Inl _ \<Rightarrow> sw_reads s s'
    | Inr amount \<Rightarrow> sw_same s s' \<and> swkv s' = (swkv s)(lastReceivedChequeKey (ch_Chequebook c) \<mapsto> VCheque c) \<and>
        amount = ch_CumulativePayout c - received s (ch_Chequebook c) \<and> 0 < amount \<and> rate \<le> amount - ded \<and> cheque_valid C s c)"
proof (cases "ch_Beneficiary c = sw_beneficiary s")
  case ben: True
  let ?cb = "ch_Chequebook c" and ?Q = "\<lambda>r s'. case r of Inl _ \<Rightarrow> sw_reads s s'
    | Inr amount \<Rightarrow> sw_same s s' \<and> swkv s' = (swkv s)(lastReceivedChequeKey (ch_Chequebook c) \<mapsto> VCheque c) \<and>
        amount = ch_CumulativePayout c - received s (ch_Chequebook c) \<and> 0 < amount \<and> rate \<le> amount - ded \<and> cheque_valid C s c"
  let ?a = "ch_CumulativePayout c - received s ?cb"
  have put: "outcome (bindE (sw_put u (lastReceivedChequeKey ?cb) (VCheque c)) (\<lambda>_ s. (Inr ?a, s))) ?Q"
    if "sw_reads s u" "0 < ?a" "rate \<le> ?a - ded" "cheque_valid C s c" for u
    using that sw_reads_trans [OF that(1)] sw_reads_same [OF that(1)] sw_reads_views [OF that(1)]
    by (intro outcome_bindE outcome_put) auto
  have pay: "outcome (bindE (sw_call t (\<lambda>k. bc_Balance C k ?cb)) (\<lambda>balance s.
        bindE (sw_call s (\<lambda>k. bc_PaidOut C k ?cb (sw_beneficiary s))) (\<lambda>alreadyPaidOut s.
          if balance < ch_CumulativePayout c - alreadyPaidOut then (Inl ErrBouncingCheque, s)
          else bindE (sw_put s (lastReceivedChequeKey ?cb) (VCheque c)) (\<lambda>_ s. (Inr ?a, s))))) ?Q"
    if t: "sw_reads s t" "0 < ?a" "rate \<le> ?a - ded" "bc_Issuer C k ?cb = Some i" "bc_recover C c = Some i" for t k i
  proof (intro outcome_bindE outcome_call; simp)
    show "sw_reads s u" if "sw_reads t u" for u using that t(1) sw_reads_trans by blast
    fix u b assume u: "sw_reads t u" "bc_Balance C (sw_calls t) ?cb = Some b"
    show "outcome (bindE (sw_call u (\<lambda>k. bc_PaidOut C k ?cb (sw_beneficiary u))) (\<lambda>alreadyPaidOut s.
          if b < ch_CumulativePayout c - alreadyPaidOut then (Inl ErrBouncingCheque, s)
          else bindE (sw_put s (lastReceivedChequeKey ?cb) (VCheque c)) (\<lambda>_ s. (Inr ?a, s)))) ?Q"
    proof (intro outcome_bindE outcome_call; simp)
      show "sw_reads s v" if "sw_reads u v" for v using that u(1) t(1) sw_reads_trans by blast
      fix v p assume v: "sw_reads u v" "bc_PaidOut C (sw_calls u) ?cb (sw_beneficiary u) = Some p"
      have sv: "sw_reads s v" using v(1) u(1) t(1) sw_reads_trans by blast
      have ub: "sw_beneficiary u = sw_beneficiary s" using sw_reads_fields u(1) t(1) by metis
      have "cheque_valid C s c" if "\<not> b < ch_CumulativePayout c - p"
      proof -
        have "ch_CumulativePayout c - p \<le> b" using that by simp
        then show ?thesis unfolding cheque_valid_def using t(4,5) u(2) v(2) [unfolded ub] ben by blast
      qed
      then show "(b < ch_CumulativePayout c - p \<longrightarrow> sw_reads s v) \<and>
          (\<not> b < ch_CumulativePayout c - p \<longrightarrow>
           outcome (bindE (sw_put v (lastReceivedChequeKey ?cb) (VCheque c)) (\<lambda>_ s. (Inr ?a, s))) ?Q)"
        using sv put [OF sv t(2,3)] by blast
    qed
  qed
  have issuer: "outcome (bindE (sw_call t (\<lambda>k. bc_Issuer C k ?cb)) (\<lambda>expectedIssuer s.
      case bc_recover C c of None \<Rightarrow> (Inl SwSign, s)
      | Some issuer \<Rightarrow> if issuer \<noteq> expectedIssuer then (Inl ErrChequeInvalid, s)
          else bindE (sw_call s (\<lambda>k. bc_Balance C k ?cb)) (\<lambda>balance s.
            bindE (sw_call s (\<lambda>k. bc_PaidOut C k ?cb (sw_beneficiary s))) (\<lambda>alreadyPaidOut s.
              if balance < ch_CumulativePayout c - alreadyPaidOut then (Inl ErrBouncingCheque, s)
              else bindE (sw_put s (lastReceivedChequeKey ?cb) (VCheque c)) (\<lambda>_ s. (Inr ?a, s)))))) ?Q"
    if t: "sw_reads s t" "0 < ?a" "rate \<le> ?a - ded" for t
  proof (intro outcome_bindE outcome_call)
    fix u i assume u: "sw_reads t u" "bc_Issuer C (sw_calls t) ?cb = Some i"
    then have su: "sw_reads s u" using t(1) sw_reads_trans by blast
    then show "case Inr i of Inl e \<Rightarrow> ?Q (Inl e) u | Inr x \<Rightarrow> outcome (case bc_recover C c of None \<Rightarrow> (Inl SwSign, u)
      | Some issuer \<Rightarrow> if issuer \<noteq> x then (Inl ErrChequeInvalid, u)
          else bindE (sw_call u (\<lambda>k. bc_Balance C k ?cb)) (\<lambda>balance s.
            bindE (sw_call s (\<lambda>k. bc_PaidOut C k ?cb (sw_beneficiary s))) (\<lambda>alreadyPaidOut s.
              if balance < ch_CumulativePayout c - alreadyPaidOut then (Inl ErrBouncingCheque, s)
              else bindE (sw_put s (lastReceivedChequeKey ?cb) (VCheque c)) (\<lambda>_ s. (Inr ?a, s))))) ?Q"
      using pay [OF su t(2,3) u(2)] by (simp split: option.split)
  qed (use t(1) sw_reads_trans in auto)
  show ?thesis
    unfolding cs_ReceiveCheque_def Let_def using ben issuer
    by (auto intro!: outcome_bindE outcome_last_payout simp: not_le not_less)
qed (simp add: cs_ReceiveCheque_def)


text \<open>A session of receipts: the amounts accepted, by chequebook, in order.\<close>

fun receive_all :: "chain \<Rightarrow> swapstate \<Rightarrow> (SignedCheque \<times> int \<times> int) list \<Rightarrow> (eth_address \<times> int) list \<times> swapstate" where
  "receive_all C s [] = ([], s)"
| "receive_all C s ((c, rate, ded) # cs) =
     (case cs_ReceiveCheque C s c rate ded of
        (Inl _, s) \<Rightarrow> receive_all C s cs
      | (Inr amount, s) \<Rightarrow> (case receive_all C s cs of (l, s) \<Rightarrow> ((ch_Chequebook c, amount) # l, s)))"

definition earned :: "(eth_address \<times> int) list \<Rightarrow> eth_address \<Rightarrow> int" where
  "earned l cb = sum_list (map snd (filter (\<lambda>x. fst x = cb) l))"

lemma receive_all_earned:
  "receive_all C s cs = (l, s') \<Longrightarrow> (\<forall>x \<in> set l. 0 < snd x) \<and> (\<forall>cb. received s' cb = received s cb + earned l cb)"
proof (induction C s cs arbitrary: l s' rule: receive_all.induct)
  case (2 C s c rate ded cs)
  obtain r s1 where r: "cs_ReceiveCheque C s c rate ded = (r, s1)" by fastforce
  note out = outcomeD [OF ReceiveCheque_outcome r]
  show ?case
  proof (cases r)
    case (Inl e)
    then have "received s1 = received s" using out sw_reads_views [of s s1] by simp
    then show ?thesis using "2.IH"(1) [OF r [symmetric] Inl] "2.prems" r Inl by simp
  next
    case (Inr amount)
    obtain l1 s2 where l1: "receive_all C s1 cs = (l1, s2)" by fastforce
    have eq: "l = (ch_Chequebook c, amount) # l1" "s' = s2" using "2.prems" r Inr l1 by simp_all
    have "received s1 cb = (if cb = ch_Chequebook c then received s cb + amount else received s cb)" for cb
      using out Inr by (auto simp: received_def)
    then show ?thesis using "2.IH"(2) [OF r [symmetric] Inr l1] eq out Inr by (auto simp: earned_def)
  qed
qed (simp add: earned_def)

section \<open>Issued cheques\<close>

lemma outcome_totalIssued:
  assumes "\<And>t e. sw_reads s t \<Longrightarrow> Q (Inl e) t" "\<And>t. sw_reads s t \<Longrightarrow> Q (Inr (total s)) t"
  shows "outcome (totalIssued s) Q"
  unfolding totalIssued_def using assms
  by (intro outcome_bindE outcome_get) (auto simp: total_def split: option.splits swap_value.splits)

lemmas sw_frame = sw_reads_def sw_same_def

definition funds_seen :: "chain \<Rightarrow> eth_address \<Rightarrow> int \<Rightarrow> bool" where
  "funds_seen C address f \<longleftrightarrow> (\<exists>k1 k2 b p. bc_Balance C k1 address = Some b \<and> bc_TotalPaidOut C k2 address = Some p \<and> f = b + p)"

lemma funds_seenI: "bc_Balance C k1 address = Some b \<Longrightarrow> bc_TotalPaidOut C k2 address = Some p \<Longrightarrow> funds_seen C address (b + p)"
  by (auto simp: funds_seen_def)

lemma outcome_AvailableBalance:
  assumes "\<And>t e. sw_reads s t \<Longrightarrow> Q (Inl e) t" "\<And>t f. sw_reads s t \<Longrightarrow> funds_seen C (sw_address s) f \<Longrightarrow> Q (Inr (f - total s)) t"
  shows "outcome (AvailableBalance C s) Q"
  unfolding AvailableBalance_def cb_Balance_def
  apply (rule outcome_bindE, rule outcome_totalIssued, simp_all only: sum.case)
   apply (rule assms(1), assumption)
  apply (rule outcome_bindE, rule outcome_call, simp_all only: sum.case)
   apply (rule assms(1), simp add: sw_frame)
  apply (rule outcome_bindE, rule outcome_call, simp_all only: sum.case outcome_pair)
   apply (rule assms(1), simp add: sw_frame)
  apply (rule assms(2))
   apply (simp add: sw_frame)
  apply (rule funds_seenI)
   apply (simp_all add: sw_frame)
  done

lemma outcome_reserve:
  assumes "\<And>t e. sw_reads s t \<Longrightarrow> Q (Inl e) t"
    "\<And>t f. sw_reads s t \<Longrightarrow> funds_seen C (sw_address s) f \<Longrightarrow> a \<le> f - total s - sw_totalIssuedReserved s \<Longrightarrow>
       Q (Inr (f - total s - a)) (t\<lparr>sw_totalIssuedReserved := sw_totalIssuedReserved s + a\<rparr>)"
  shows "outcome (reserveTotalIssued C s a) Q"
  unfolding reserveTotalIssued_def using assms
  by (intro outcome_bindE outcome_AvailableBalance) (auto simp: sw_frame)


lemma outcome_issue_payout:
  assumes "\<And>t e. sw_reads s t \<Longrightarrow> Q (Inl e) t" "\<And>t. sw_reads s t \<Longrightarrow> Q (Inr (issued s b + a)) t"
  shows "outcome (issue_payout s b a) Q"
proof -
  have "outcome (cb_LastCheque s b) (\<lambda>r t. sw_reads s t \<and> (case r of Inl e \<Rightarrow> e = ErrNoCheque \<longrightarrow> issued s b = 0
      | Inr c \<Rightarrow> ch_CumulativePayout c = issued s b))"
    unfolding cb_LastCheque_def
    by (intro outcome_bindE outcome_get) (auto simp: as_cheque_def issued_def split: option.splits swap_value.splits sum.splits)
  then show ?thesis unfolding issue_payout_def using assms
    by (cases "cb_LastCheque s b"; cases "fst (cb_LastCheque s b)") (auto simp: outcome_def)
qed

lemma outcome_issue_send:
  assumes "\<And>e. Q (Inl e) s" "\<And>sig. bc_Sign C (issue_cheque s b n) = Some sig \<Longrightarrow>
     Q (Inr (issue_cheque s b n)) (s\<lparr>sw_sent := sw_sent s @ [withSignature (issue_cheque s b n) sig]\<rparr>)"
  shows "outcome (issue_send C s b n ok) Q"
  unfolding issue_send_def Let_def using assms by (simp split: option.split)

text \<open>Every outcome of \<open>Issue\<close>: nothing is promised on an error before sending; an error after sending leaves
  the cheque sent but not, or only partly, recorded.\<close>

definition issue_done :: "chain \<Rightarrow> swapstate \<Rightarrow> eth_address \<Rightarrow> int \<Rightarrow> swap_error + int \<Rightarrow> swapstate \<Rightarrow> bool" where
  "issue_done C s b a r s' \<longleftrightarrow>
     (let c = \<lparr>ch_Chequebook = sw_address s, ch_Beneficiary = b, ch_CumulativePayout = issued s b + a\<rparr>;
          saved = (swkv s)(lastIssuedChequeKey b \<mapsto> VCheque (withSignature c []))
      in sw_address s' = sw_address s \<and> sw_totalIssuedReserved s' = sw_totalIssuedReserved s \<and>
         (case r of
            Inr v \<Rightarrow> (\<exists>sig. bc_Sign C c = Some sig \<and> sw_sent s' = sw_sent s @ [withSignature c sig]) \<and>
              swkv s' = saved(totalIssuedKey \<mapsto> VTotal (total s + a)) \<and>
              (\<exists>f. funds_seen C (sw_address s) f \<and> v = f - total s - a \<and> total s + a + sw_totalIssuedReserved s \<le> f)
          | Inl e \<Rightarrow> sw_sent s' = sw_sent s \<and> swkv s' = swkv s \<or>
              (\<exists>sig. bc_Sign C c = Some sig \<and> sw_sent s' = sw_sent s @ [withSignature c sig]) \<and>
              (swkv s' = swkv s \<or> swkv s' = saved)))"

lemma outcome_issue_total:
  assumes "\<And>t e. sw_reads s t \<Longrightarrow> Q (Inl e) t"
    "\<And>t. sw_same s t \<Longrightarrow> swkv t = (swkv s)(totalIssuedKey \<mapsto> VTotal (total s + a)) \<Longrightarrow> Q (Inr ()) t"
  shows "outcome (issue_total s a) Q"
  unfolding issue_total_def
  apply (rule outcome_bindE, rule outcome_totalIssued, simp_all only: sum.case)
   apply (rule assms(1), assumption)
  apply (rule outcome_put)
   apply (rule assms(1), simp add: sw_frame)
  apply (rule assms(2), simp_all add: sw_frame)
  done

lemma Issue_body_outcome:
  fixes s :: swapstate and b a
  defines "c \<equiv> \<lparr>ch_Chequebook = sw_address s, ch_Beneficiary = b, ch_CumulativePayout = issued s b + a\<rparr>"
  defines "saved \<equiv> (swkv s)(lastIssuedChequeKey b \<mapsto> VCheque (withSignature c []))"
  shows "outcome (bindE (issue_payout s b a) (\<lambda>payout s.
            bindE (issue_send C s b payout ok) (\<lambda>cheque s.
            bindE (issue_save s b cheque) (\<lambda>_ s. issue_total s a))))
     (\<lambda>r s'. sw_address s' = sw_address s \<and> sw_totalIssuedReserved s' = sw_totalIssuedReserved s \<and>
        (let sent = (\<exists>sig. bc_Sign C c = Some sig \<and> sw_sent s' = sw_sent s @ [withSignature c sig]) in
         case r of Inr _ \<Rightarrow> sent \<and> swkv s' = saved(totalIssuedKey \<mapsto> VTotal (total s + a))
         | Inl _ \<Rightarrow> sw_sent s' = sw_sent s \<and> swkv s' = swkv s \<or> sent \<and> (swkv s' = swkv s \<or> swkv s' = saved)))"
    (is "outcome _ ?Q")
proof (rule outcome_seq [where P = "\<lambda>r t. sw_reads s t \<and> (\<forall>x. r = Inr x \<longrightarrow> x = issued s b + a)"])
  show "outcome (issue_payout s b a) (\<lambda>r t. sw_reads s t \<and> (\<forall>x. r = Inr x \<longrightarrow> x = issued s b + a))"
    by (rule outcome_issue_payout) simp_all
  show "?Q (Inl e) t" if "sw_reads s t \<and> (\<forall>x. Inl e = Inr x \<longrightarrow> x = issued s b + a)" for t e using that by (simp add: sw_frame)
  fix n t assume nt: "sw_reads s t \<and> (\<forall>x. Inr n = Inr x \<longrightarrow> x = issued s b + a)"
  then have t: "sw_reads s t" and n: "n = issued s b + a" by simp_all
  have c: "issue_cheque t b n = c" using t n by (simp add: issue_cheque_def c_def sw_frame)
  show "outcome (bindE (issue_send C t b n ok) (\<lambda>cheque s. bindE (issue_save s b cheque) (\<lambda>_ s. issue_total s a))) ?Q"
  proof (rule outcome_seq [where P = "\<lambda>r u. case r of Inl _ \<Rightarrow> u = t
      | Inr x \<Rightarrow> x = c \<and> (\<exists>sig. bc_Sign C c = Some sig \<and> u = t\<lparr>sw_sent := sw_sent t @ [withSignature c sig]\<rparr>)"])
    show "outcome (issue_send C t b n ok) (\<lambda>r u. case r of Inl _ \<Rightarrow> u = t
      | Inr x \<Rightarrow> x = c \<and> (\<exists>sig. bc_Sign C c = Some sig \<and> u = t\<lparr>sw_sent := sw_sent t @ [withSignature c sig]\<rparr>))"
      by (rule outcome_issue_send) (simp_all add: c)
    show "?Q (Inl e) u" if "case Inl e of Inl _ \<Rightarrow> u = t | Inr x \<Rightarrow> x = c \<and> (\<exists>sig. bc_Sign C c = Some sig \<and> u = t\<lparr>sw_sent := sw_sent t @ [withSignature c sig]\<rparr>)"
      for e u using that t by (simp add: sw_frame)
    fix x u assume "case Inr x of Inl _ \<Rightarrow> u = t | Inr x \<Rightarrow> x = c \<and> (\<exists>sig. bc_Sign C c = Some sig \<and> u = t\<lparr>sw_sent := sw_sent t @ [withSignature c sig]\<rparr>)"
    then obtain sig where x: "x = c" and sig: "bc_Sign C c = Some sig" and u: "u = t\<lparr>sw_sent := sw_sent t @ [withSignature c sig]\<rparr>" by auto
    have su: "swkv u = swkv s" "sw_sent u = sw_sent s @ [withSignature c sig]" "sw_address u = sw_address s"
      "sw_totalIssuedReserved u = sw_totalIssuedReserved s" using t by (simp_all add: u sw_frame swkv_def)
    show "outcome (bindE (issue_save u b x) (\<lambda>_ s. issue_total s a)) ?Q"
    proof (rule outcome_seq [where P = "\<lambda>r v. sw_same u v \<and> swkv v = (case r of Inl _ \<Rightarrow> swkv s | Inr _ \<Rightarrow> saved)"])
      show "outcome (issue_save u b x) (\<lambda>r v. sw_same u v \<and> swkv v = (case r of Inl _ \<Rightarrow> swkv s | Inr _ \<Rightarrow> saved))"
        unfolding issue_save_def by (rule outcome_put) (simp_all add: su x saved_def sw_reads_def)
      show "?Q (Inl e) v" if "sw_same u v \<and> swkv v = (case Inl e of Inl _ \<Rightarrow> swkv s | Inr _ \<Rightarrow> saved)" for e v
        using that su sig by (simp add: sw_same_def)
      fix y :: unit and v assume v: "sw_same u v \<and> swkv v = (case Inr y of Inl _ \<Rightarrow> swkv s | Inr _ \<Rightarrow> saved)"
      then have "total v = total s" "swkv v = saved" by (simp_all add: total_def saved_def)
      then show "outcome (issue_total v a) ?Q"
        using v su sig by (intro outcome_issue_total) (simp_all add: sw_frame)
    qed
  qed
qed

lemma Issue_outcome: "outcome (Issue C s b a ok) (issue_done C s b a)"
  unfolding Issue_def
proof (rule outcome_seq [where P = "\<lambda>r t. case r of Inl _ \<Rightarrow> sw_reads s t | Inr v \<Rightarrow> (\<exists>u f. sw_reads s u \<and>
    t = u\<lparr>sw_totalIssuedReserved := sw_totalIssuedReserved s + a\<rparr> \<and> funds_seen C (sw_address s) f \<and>
    v = f - total s - a \<and> total s + a + sw_totalIssuedReserved s \<le> f)"])
  show "outcome (reserveTotalIssued C s a) (\<lambda>r t. case r of Inl _ \<Rightarrow> sw_reads s t | Inr v \<Rightarrow> (\<exists>u f. sw_reads s u \<and>
    t = u\<lparr>sw_totalIssuedReserved := sw_totalIssuedReserved s + a\<rparr> \<and> funds_seen C (sw_address s) f \<and>
    v = f - total s - a \<and> total s + a + sw_totalIssuedReserved s \<le> f))"
    by (rule outcome_reserve) (simp, force)
  show "issue_done C s b a (Inl e) t" if "case Inl e of Inl _ \<Rightarrow> sw_reads s t | Inr v \<Rightarrow> (\<exists>u f. sw_reads s u \<and>
    t = u\<lparr>sw_totalIssuedReserved := sw_totalIssuedReserved s + a\<rparr> \<and> funds_seen C (sw_address s) f \<and>
    v = f - total s - a \<and> total s + a + sw_totalIssuedReserved s \<le> f)" for e t
    using that by (simp add: issue_done_def sw_frame)
  fix v t assume "case Inr v of Inl _ \<Rightarrow> sw_reads s t | Inr v \<Rightarrow> (\<exists>u f. sw_reads s u \<and>
    t = u\<lparr>sw_totalIssuedReserved := sw_totalIssuedReserved s + a\<rparr> \<and> funds_seen C (sw_address s) f \<and>
    v = f - total s - a \<and> total s + a + sw_totalIssuedReserved s \<le> f)"
  then obtain u f where u: "sw_reads s u" "t = u\<lparr>sw_totalIssuedReserved := sw_totalIssuedReserved s + a\<rparr>"
    and f: "funds_seen C (sw_address s) f" "v = f - total s - a" "total s + a + sw_totalIssuedReserved s \<le> f" by auto
  have t: "swkv t = swkv s" "sw_address t = sw_address s" "sw_sent t = sw_sent s" "sw_totalIssuedReserved t = sw_totalIssuedReserved s + a"
    using u by (simp_all add: sw_frame swkv_def)
  then have tv: "issued t = issued s" "total t = total s" using views_cong [OF t(1)] by simp_all
  obtain r w where w: "bindE (issue_payout t b a) (\<lambda>payout s. bindE (issue_send C s b payout ok) (\<lambda>cheque s.
            bindE (issue_save s b cheque) (\<lambda>_ s. issue_total s a))) = (r, w)" by fastforce
  note body = outcomeD [OF Issue_body_outcome w]
  show "outcome (case bindE (issue_payout t b a) (\<lambda>payout s. bindE (issue_send C s b payout ok) (\<lambda>cheque s.
            bindE (issue_save s b cheque) (\<lambda>_ s. issue_total s a))) of
         (Inl e, s) \<Rightarrow> (Inl e, unreserveTotalIssued s a)
       | (Inr _, s) \<Rightarrow> (Inr v, unreserveTotalIssued s a)) (issue_done C s b a)"
    unfolding w using body f t(1-4) unfolding tv
    by (cases r) (auto simp: issue_done_def unreserveTotalIssued_def Let_def swkv_def)
qed


section \<open>Concurrent issuing\<close>

text \<open>\<open>Issue\<close> holds the lock of the service only while it reserves, adds to the total and gives the
  reservation back. A call under way is in one of the phases between these; the calls under way
  are a multiset and any of them may make the next step.\<close>

datatype issue_phase = Reserved | Loaded int | Sent Cheque | Saved | Returned

record pending =
  pd_beneficiary :: eth_address
  pd_amount :: int
  pd_phase :: issue_phase

fun issue_next :: "chain \<Rightarrow> bool \<Rightarrow> swapstate \<Rightarrow> eth_address \<Rightarrow> int \<Rightarrow> issue_phase \<Rightarrow> swapstate \<times> issue_phase" where
  "issue_next C ok s b a Reserved =
     (case issue_payout s b a of (Inl _, s) \<Rightarrow> (s, Returned) | (Inr n, s) \<Rightarrow> (s, Loaded n))"
| "issue_next C ok s b a (Loaded n) =
     (case issue_send C s b n ok of (Inl _, s) \<Rightarrow> (s, Returned) | (Inr c, s) \<Rightarrow> (s, Sent c))"
| "issue_next C ok s b a (Sent c) =
     (case issue_save s b c of (Inl _, s) \<Rightarrow> (s, Returned) | (Inr _, s) \<Rightarrow> (s, Saved))"
| "issue_next C ok s b a Saved = (snd (issue_total s a), Returned)"
| "issue_next C ok s b a Returned = (s, Returned)"

inductive issue_step :: "chain \<Rightarrow> swapstate \<times> pending multiset \<Rightarrow> swapstate \<times> pending multiset \<Rightarrow> bool" for C where
  start: "0 \<le> a \<Longrightarrow> reserveTotalIssued C s a = (Inr v, s') \<Longrightarrow>
    issue_step C (s, ps) (s', add_mset \<lparr>pd_beneficiary = b, pd_amount = a, pd_phase = Reserved\<rparr> ps)"
| refused: "reserveTotalIssued C s a = (Inl e, s') \<Longrightarrow> issue_step C (s, ps) (s', ps)"
| advance: "ph \<noteq> Returned \<Longrightarrow> issue_next C ok s b a ph = (s', ph') \<Longrightarrow>
    issue_step C (s, add_mset \<lparr>pd_beneficiary = b, pd_amount = a, pd_phase = ph\<rparr> ps)
      (s', add_mset \<lparr>pd_beneficiary = b, pd_amount = a, pd_phase = ph'\<rparr> ps)"
| finish: "issue_step C (s, add_mset \<lparr>pd_beneficiary = b, pd_amount = a, pd_phase = Returned\<rparr> ps) (unreserveTotalIssued s a, ps)"

inductive_cases issue_stepE: "issue_step C x y"

definition uncounted :: "pending multiset \<Rightarrow> int" where
  "uncounted ps = (\<Sum>p \<in># filter_mset (\<lambda>p. pd_phase p \<noteq> Returned) ps. pd_amount p)"

definition reserved_by :: "pending multiset \<Rightarrow> int" where
  "reserved_by ps = (\<Sum>p \<in># ps. pd_amount p)"

definition issue_inv :: "int \<Rightarrow> eth_address \<Rightarrow> swapstate \<times> pending multiset \<Rightarrow> bool" where
  "issue_inv F addr x \<longleftrightarrow> sw_address (fst x) = addr \<and> (\<forall>p \<in># snd x. 0 \<le> pd_amount p) \<and>
     sw_totalIssuedReserved (fst x) = reserved_by (snd x) \<and> total (fst x) + uncounted (snd x) \<le> F"

lemma uncounted_le: "\<forall>p \<in># ps. 0 \<le> pd_amount p \<Longrightarrow> uncounted ps \<le> reserved_by ps"
  by (induction ps) (auto simp: uncounted_def reserved_by_def)

lemma uncounted_add [simp]: "uncounted (add_mset p ps) = (if pd_phase p = Returned then 0 else pd_amount p) + uncounted ps"
  by (simp add: uncounted_def)

lemma reserved_add [simp]: "reserved_by (add_mset p ps) = pd_amount p + reserved_by ps"
  by (simp add: reserved_by_def)

lemma issue_next_frame:
  assumes "issue_next C ok s b a ph = (s', ph')" "ph \<noteq> Returned"
  shows "sw_address s' = sw_address s \<and> sw_totalIssuedReserved s' = sw_totalIssuedReserved s \<and>
    (total s' = total s \<or> ph' = Returned \<and> total s' = total s + a)"
proof (cases ph)
  case Reserved
  have "outcome (issue_payout s b a) (\<lambda>r t. sw_reads s t)" by (rule outcome_issue_payout) simp_all
  then show ?thesis using assms Reserved sw_reads_views [of s s'] by (auto simp: outcome_def sw_frame split: prod.splits sum.splits)
next
  case (Loaded n)
  have "outcome (issue_send C s b n ok) (\<lambda>r t. swkv t = swkv s \<and> sw_address t = sw_address s \<and> sw_totalIssuedReserved t = sw_totalIssuedReserved s)"
    by (rule outcome_issue_send) (simp_all add: swkv_def)
  then show ?thesis using assms Loaded views_cong [of s' s] by (auto simp: outcome_def split: prod.splits sum.splits)
next
  case (Sent c)
  have "outcome (issue_save s b c) (\<lambda>r t. sw_same s t \<and> total t = total s)"
    unfolding issue_save_def by (rule outcome_put) (blast intro: sw_reads_total sw_reads_sameI, simp add: total_def)
  then show ?thesis using assms Sent by (auto simp: outcome_def sw_same_def split: prod.splits sum.splits)
next
  case Saved
  have "outcome (issue_total s a) (\<lambda>r t. sw_same s t \<and> (total t = total s \<or> total t = total s + a))"
    by (rule outcome_issue_total) (blast intro: sw_reads_total sw_reads_sameI, simp add: total_def)
  then show ?thesis using assms Saved by (auto simp: outcome_def sw_same_def)
qed (use assms in simp)

lemma issue_inv_step:
  assumes "issue_step C x y" "issue_inv F addr x" "\<And>f. funds_seen C addr f \<Longrightarrow> f \<le> F"
  shows "issue_inv F addr y"
  using assms(1)
proof (cases rule: issue_step.cases)
  case (start a s v s' ps b)
  have "outcome (reserveTotalIssued C s a) (\<lambda>r t. sw_address t = sw_address s \<and> total t = total s \<and> (\<forall>v. r = Inr v \<longrightarrow>
      sw_totalIssuedReserved t = sw_totalIssuedReserved s + a \<and> total s + a + sw_totalIssuedReserved s \<le> F))"
  proof (rule outcome_reserve)
    fix t f assume t: "sw_reads s t" "funds_seen C (sw_address s) f" "a \<le> f - total s - sw_totalIssuedReserved s"
    then have "f \<le> F" using assms(2,3) start(1) by (simp add: issue_inv_def)
    then show "sw_address (t\<lparr>sw_totalIssuedReserved := sw_totalIssuedReserved s + a\<rparr>) = sw_address s \<and>
        total (t\<lparr>sw_totalIssuedReserved := sw_totalIssuedReserved s + a\<rparr>) = total s \<and>
        (\<forall>v. Inr (f - total s - a) = Inr v \<longrightarrow> sw_totalIssuedReserved (t\<lparr>sw_totalIssuedReserved := sw_totalIssuedReserved s + a\<rparr>) =
           sw_totalIssuedReserved s + a \<and> total s + a + sw_totalIssuedReserved s \<le> F)"
      using t by (simp add: sw_frame total_def swkv_def)
  qed (blast dest: sw_reads_total sw_reads_fields)
  then show ?thesis using start assms(2) uncounted_le [of ps] by (auto simp: issue_inv_def)
next
  case (refused s a e s' ps)
  have "outcome (reserveTotalIssued C s a) (\<lambda>r t. r \<in> range Inl \<longrightarrow> sw_reads s t)" by (rule outcome_reserve) auto
  then show ?thesis using refused assms(2) sw_reads_views [of s s'] by (auto simp: issue_inv_def sw_frame)
next
  case (advance ph ok s b a s' ph' ps)
  then show ?thesis using issue_next_frame [OF advance(4,3)] assms(2) by (auto simp: issue_inv_def)
next
  case (finish s b a ps)
  then show ?thesis using assms(2) by (auto simp: issue_inv_def unreserveTotalIssued_def total_def swkv_def)
qed


lemma issue_inv_reachable:
  assumes "(issue_step C)\<^sup>*\<^sup>* x y" "issue_inv F addr x" "\<And>f. funds_seen C addr f \<Longrightarrow> f \<le> F"
  shows "issue_inv F addr y"
  using assms by (induction rule: rtranclp_induct) (blast intro: issue_inv_step)+

text \<open>A call of \<open>Issue\<close> that is not interrupted is a run of the steps.\<close>

lemma Issue_run:
  assumes "Issue C s b a ok = (r, s')" "0 \<le> a"
  shows "(issue_step C)\<^sup>*\<^sup>* (s, ps) (s', ps)"
proof -
  let ?P = "\<lambda>ph. add_mset \<lparr>pd_beneficiary = b, pd_amount = a, pd_phase = ph\<rparr> ps"
  have adv: "(issue_step C)\<^sup>*\<^sup>* (u, ?P ph) (s', ps)" if "issue_next C ok u b a ph = (u', ph')" "ph \<noteq> Returned" "(issue_step C)\<^sup>*\<^sup>* (u', ?P ph') (s', ps)" for u ph u' ph'
    using issue_step.advance [OF that(2,1)] that(3) by (rule converse_rtranclp_into_rtranclp)
  have fin: "(issue_step C)\<^sup>*\<^sup>* (u, ?P Returned) (s', ps)" if "s' = unreserveTotalIssued u a" for u
    unfolding that by (rule r_into_rtranclp, rule issue_step.finish)
  obtain x s1 where s1: "reserveTotalIssued C s a = (x, s1)" by fastforce
  show ?thesis
  proof (cases x)
    case (Inl e)
    then show ?thesis using assms(1) s1 issue_step.refused by (auto simp: Issue_def)
  next
    case (Inr v)
    obtain x2 s2 where s2: "issue_payout s1 b a = (x2, s2)" by fastforce
    have start: "issue_step C (s, ps) (s1, ?P Reserved)" using issue_step.start [OF assms(2)] s1 Inr by blast
    have "(issue_step C)\<^sup>*\<^sup>* (s1, ?P Reserved) (s', ps)"
    proof (cases x2)
      case (Inl e)
      then have "s' = unreserveTotalIssued s2 a" using assms(1) s1 Inr s2 by (simp add: Issue_def)
      then show ?thesis by (intro adv [OF _ _ fin [of s2]]) (simp_all add: s2 Inl)
    next
      case n: (Inr n)
      obtain x3 s3 where s3: "issue_send C s2 b n ok = (x3, s3)" by fastforce
      have "(issue_step C)\<^sup>*\<^sup>* (s2, ?P (Loaded n)) (s', ps)"
      proof (cases x3)
        case (Inl e)
        then have "s' = unreserveTotalIssued s3 a" using assms(1) s1 Inr s2 n s3 by (simp add: Issue_def)
        then show ?thesis by (intro adv [OF _ _ fin [of s3]]) (simp_all add: s3 Inl)
      next
        case c: (Inr c)
        obtain x4 s4 where s4: "issue_save s3 b c = (x4, s4)" by fastforce
        have "(issue_step C)\<^sup>*\<^sup>* (s3, ?P (Sent c)) (s', ps)"
        proof (cases x4)
          case (Inl e)
          then have "s' = unreserveTotalIssued s4 a" using assms(1) s1 Inr s2 n s3 c s4 by (simp add: Issue_def)
          then show ?thesis by (intro adv [OF _ _ fin [of s4]]) (simp_all add: s4 Inl)
        next
          case u: (Inr u)
          obtain x5 s5 where s5: "issue_total s4 a = (x5, s5)" by fastforce
          have "s' = unreserveTotalIssued s5 a" using assms(1) s1 Inr s2 n s3 c s4 u s5 by (cases x5) (simp_all add: Issue_def)
          then have "(issue_step C)\<^sup>*\<^sup>* (s4, ?P Saved) (s', ps)" by (intro adv [OF _ _ fin [of s5]]) (simp_all add: s5)
          then show ?thesis by (rule adv [rotated 2]) (simp_all add: s4 u)
        qed
        then show ?thesis by (rule adv [rotated 2]) (simp_all add: s3 c)
      qed
      then show ?thesis by (rule adv [rotated 2]) (simp_all add: s2 n)
    qed
    then show ?thesis using start by (rule converse_rtranclp_into_rtranclp [rotated])
  qed
qed


section \<open>Properties\<close>

definition demo_chain :: chain where
  "demo_chain = \<lparr>bc_VerifyChequebook = (\<lambda>_ _. True), bc_Issuer = (\<lambda>_ _. Some [1]), bc_Balance = (\<lambda>_ _. Some 100),
     bc_PaidOut = (\<lambda>_ _ _. Some 0), bc_TotalPaidOut = (\<lambda>_ _. Some 0), bc_BalanceOf = (\<lambda>_ _. Some 50),
     bc_Transfer = (\<lambda>_ _ _. Some [7]), bc_withdraw = (\<lambda>_ _ _. Some [7]), bc_cashChequeBeneficiary = (\<lambda>_ _ _ _ _. Some [7]),
     bc_TransactionByHash = (\<lambda>_ _. TxPending), bc_TransactionReceipt = (\<lambda>_ _. None), bc_WaitForReceipt = (\<lambda>_ _. Some True),
     bc_recover = (\<lambda>_. Some [1]), bc_Sign = (\<lambda>_. Some [9]), bc_HexToAddress = (\<lambda>_. [])\<rparr>"

definition demo_swap :: "eth_address \<Rightarrow> eth_address \<Rightarrow> swapstate" where
  "demo_swap address beneficiary = \<lparr>sw_store = \<lparr>st_kv = Map.empty, st_keys = [], st_tick = 0, st_fault = (\<lambda>_. False)\<rparr>,
     sw_calls = 0, sw_address = address, sw_ownerAddress = [3], sw_beneficiary = beneficiary, sw_totalIssuedReserved = 0, sw_sent = []\<rparr>"

definition demo_cheque :: "int \<Rightarrow> SignedCheque" where
  "demo_cheque n = \<lparr>ch_Chequebook = [5], ch_Beneficiary = [6], ch_CumulativePayout = n, ch_Signature = [9]\<rparr>"

text \<open>A received cheque is accepted only if it is made out to this node, signed by the issuer of its
  chequebook, covered by the chequebook's balance, and worth, after the deduction, at least the exchange
  rate; the amount returned is the increase over the last cheque of that chequebook and the cheque
  replaces it. A rejected cheque changes nothing that is stored.\<close>

lemma receive_cheque_correct:
  assumes "cs_ReceiveCheque C s c rate ded = (r, s')"
  shows "case r of
      Inl _ \<Rightarrow> swkv s' = swkv s
    | Inr amount \<Rightarrow> swkv s' = (swkv s)(lastReceivedChequeKey (ch_Chequebook c) \<mapsto> VCheque c) \<and>
        amount = ch_CumulativePayout c - received s (ch_Chequebook c) \<and> 0 < amount \<and> rate \<le> amount - ded \<and> cheque_valid C s c"
  using outcomeD [OF ReceiveCheque_outcome assms] by (cases r) (simp_all add: sw_reads_def)

lemma demo_receive: "cs_ReceiveCheque demo_chain (demo_swap [2] [6]) (demo_cheque 30) 5 10 =
    (Inr 30, snd (cs_ReceiveCheque demo_chain (demo_swap [2] [6]) (demo_cheque 30) 5 10))"
  by (simp add: cs_ReceiveCheque_def last_payout_def sw_get_def sw_call_def sw_put_def st_defs demo_chain_def demo_swap_def demo_cheque_def Let_def)

text \<open>C20: Over any sequence of received cheques, with any failures of the store and the chain, the amounts
  accepted from a chequebook are positive and add up to the increase of the cumulative payout of the
  last cheque stored for it: no cheque is credited twice.\<close>

theorem received_cheques_add_up:
  assumes "receive_all C s cs = (l, s')"
  shows "(\<forall>x \<in> set l. 0 < snd x) \<and> (\<forall>cb. earned l cb = received s' cb - received s cb)"
  using receive_all_earned [OF assms] by simp

theorem received_cheques_add_up_witness:
  "\<exists>l s'. receive_all demo_chain (demo_swap [2] [6]) [(demo_cheque 30, 5, 10), (demo_cheque 30, 5, 0)] = (l, s') \<and>
    (\<forall>x \<in> set l. 0 < snd x) \<and> (\<forall>cb. earned l cb = received s' cb - received (demo_swap [2] [6]) cb)"
  using received_cheques_add_up
  by (cases "receive_all demo_chain (demo_swap [2] [6]) [(demo_cheque 30, 5, 10), (demo_cheque 30, 5, 0)]") blast

text \<open>\<open>Issue\<close> sends one signed cheque whose cumulative payout is the last one of the beneficiary plus the
  amount, and records the cheque and the new total; the amount was covered by the funds not yet promised. On an error
  nothing was sent and nothing changed, or the cheque was sent and then saving failed. The reservation is always given back.\<close>

lemma issue_cheque_correct:
  assumes "Issue C s b a ok = (r, s')"
  shows "issue_done C s b a r s'"
  using outcomeD [OF Issue_outcome assms] .

text \<open>C14: However concurrent calls of \<open>Issue\<close> interleave and whichever of their store accesses fail, the total
  issued together with the amounts of the calls still under way never exceeds the funds of the
  chequebook, and the reservation is the sum of the amounts of the calls under way.\<close>

theorem issue_solvent:
  assumes "(issue_step C)\<^sup>*\<^sup>* (s, {#}) (s', ps)" "total s \<le> F" "sw_totalIssuedReserved s = 0"
    "\<And>f. funds_seen C (sw_address s) f \<Longrightarrow> f \<le> F"
  shows "total s' + uncounted ps \<le> F \<and> sw_totalIssuedReserved s' = reserved_by ps"
  using issue_inv_reachable [OF assms(1), of F "sw_address s"] assms(2-4)
  by (simp add: issue_inv_def uncounted_def reserved_by_def)

lemma demo_funds: "funds_seen demo_chain x f \<Longrightarrow> f \<le> 100"
  by (auto simp: funds_seen_def demo_chain_def)

theorem issue_solvent_witness:
  "\<exists>s'. (issue_step demo_chain)\<^sup>*\<^sup>* (demo_swap [2] [6], {#}) (s', {#}) \<and> s' = snd (Issue demo_chain (demo_swap [2] [6]) [8] 40 True) \<and>
    total s' + uncounted {#} \<le> 100 \<and> sw_totalIssuedReserved s' = reserved_by {#}"
proof -
  let ?s = "demo_swap [2] [6]" and ?s' = "snd (Issue demo_chain (demo_swap [2] [6]) [8] 40 True)"
  have run: "(issue_step demo_chain)\<^sup>*\<^sup>* (?s, {#}) (?s', {#})"
    by (rule Issue_run [OF prod.collapse [symmetric]]) simp
  have *: "total ?s \<le> 100" "sw_totalIssuedReserved ?s = 0" by (simp_all add: total_def swkv_def demo_swap_def)
  have "total ?s' + uncounted {#} \<le> 100 \<and> sw_totalIssuedReserved ?s' = reserved_by {#}"
    by (rule issue_solvent [OF run * demo_funds])
  with run show ?thesis by blast
qed

end
