(* ===== verification/AccountingProps.thy ===== *)
theory AccountingProps
  imports Accounting
begin

text \<open>
  Correctness of the accounting service. The first part gives the views of the state the
  properties speak of (the three balances of a peer, its reservations, the payments
  started) and one lemma per handler that states its whole effect on them. The second part
  runs any interleaving of the handlers as a step relation and proves the invariants of the
  reservations and the bound on the debt towards a peer.
\<close>

section \<open>Views of the state\<close>

definition kv :: "accounting \<Rightarrow> string \<rightharpoonup> int" where
  "kv a = st_kv (ac_store a)"

definition bal :: "accounting \<Rightarrow> address \<Rightarrow> int" where
  "bal a p = (case kv a (peerBalanceKey p) of None \<Rightarrow> 0 | Some v \<Rightarrow> v)"

definition sur :: "accounting \<Rightarrow> address \<Rightarrow> int" where
  "sur a p = (case kv a (peerSurplusBalanceKey p) of None \<Rightarrow> 0 | Some v \<Rightarrow> v)"

definition org :: "accounting \<Rightarrow> address \<Rightarrow> int" where
  "org a p = (case kv a (originatedBalanceKey p) of None \<Rightarrow> 0 | Some v \<Rightarrow> v)"

definition cfg :: "accounting \<Rightarrow> accounting" where
  "cfg a = a\<lparr>ac_peers := Map.empty,
     ac_store := \<lparr>st_kv = Map.empty, st_keys = [], st_tick = 0, st_fault = (\<lambda>_. False)\<rparr>,
     ac_readings := 0, ac_out := []\<rparr>"

text \<open>The payments started for a peer, and the views of its reservations.\<close>

fun pays :: "address \<Rightarrow> effect list \<Rightarrow> int" where
  "pays p [] = 0"
| "pays p (PayCall q n # es) = (if p = q then n else 0) + pays p es"
| "pays p (_ # es) = pays p es"

definition res :: "accounting \<Rightarrow> address \<Rightarrow> int" where
  "res a p = ap_reservedBalance (ap a p)"

definition thr :: "accounting \<Rightarrow> address \<Rightarrow> int" where
  "thr a p = ap_paymentThreshold (ap a p)"

definition shd :: "accounting \<Rightarrow> address \<Rightarrow> int" where
  "shd a p = ap_shadowReservedBalance (ap a p) - pays p (ac_out a)"

lemma pays_append [simp]: "pays p (es @ fs) = pays p es + pays p fs"
  by (induction p es rule: pays.induct) auto

definition reads :: "accounting \<Rightarrow> accounting \<Rightarrow> bool" where
  "reads a a' \<longleftrightarrow> ap a' = ap a \<and> cfg a' = cfg a \<and> kv a' = kv a \<and> ac_out a' = ac_out a"

definition same :: "accounting \<Rightarrow> accounting \<Rightarrow> bool" where
  "same a a' \<longleftrightarrow> res a' = res a \<and> thr a' = thr a \<and> shd a' = shd a \<and> kv a' = kv a \<and> cfg a' = cfg a"

lemma same_refl [simp]: "same a a"
  by (simp add: same_def)

lemma same_trans: "same a b \<Longrightarrow> same b c \<Longrightarrow> same a c"
  by (simp add: same_def)

lemma reads_same: "reads a a' \<Longrightarrow> same a a'"
  by (auto simp: reads_def same_def res_def thr_def shd_def fun_eq_iff)

lemma same_bal: "same a a' \<Longrightarrow> bal a' = bal a \<and> sur a' = sur a \<and> org a' = org a"
  by (auto simp: same_def bal_def sur_def org_def fun_eq_iff)

section \<open>Primitive operations\<close>

lemma addr_String_inj: "addr_String p = addr_String q \<longleftrightarrow> p = q"
  by (simp add: addr_String_def hex_encode_inj)

lemma key_simps [simp]:
  "peerBalanceKey p = peerBalanceKey q \<longleftrightarrow> p = q"
  "peerSurplusBalanceKey p = peerSurplusBalanceKey q \<longleftrightarrow> p = q"
  "originatedBalanceKey p = originatedBalanceKey q \<longleftrightarrow> p = q"
  "peerBalanceKey p \<noteq> peerSurplusBalanceKey q" "peerSurplusBalanceKey p \<noteq> peerBalanceKey q"
  "peerBalanceKey p \<noteq> originatedBalanceKey q" "originatedBalanceKey p \<noteq> peerBalanceKey q"
  "peerSurplusBalanceKey p \<noteq> originatedBalanceKey q" "originatedBalanceKey p \<noteq> peerSurplusBalanceKey q"
  by (simp_all add: peerBalanceKey_def peerSurplusBalanceKey_def originatedBalanceKey_def
      balancesPrefix_def balancesSurplusPrefix_def balancesOriginatedPrefix_def addr_String_inj)

lemma cfg_fields:
  assumes "cfg a' = cfg a"
  shows "ac_refreshRate a' = ac_refreshRate a" "ac_lightRefreshRate a' = ac_lightRefreshRate a"
    "ac_paymentThreshold a' = ac_paymentThreshold a" "ac_earlyPayment a' = ac_earlyPayment a"
    "ac_disconnectLimit a' = ac_disconnectLimit a" "ac_thresholdGrowStep a' = ac_thresholdGrowStep a"
    "ac_minimumPayment a' = ac_minimumPayment a" "ac_paymentTolerance a' = ac_paymentTolerance a"
    "ac_thresholdGrowChange a' = ac_thresholdGrowChange a" "ac_clock a' = ac_clock a"
    "ac_payFunction a' = ac_payFunction a"
  using assms by (cases a; cases a'; simp add: cfg_def)+

lemma ap_upd_ap: "ap (ap_upd a q f) = (ap a)(q := f (ap a q))"
  by (auto simp: ap_def ap_upd_def fun_eq_iff addr_String_inj new_peer_def split: option.splits)

lemma ap_upd_simps [simp]:
  "kv (ap_upd a q f) = kv a" "cfg (ap_upd a q f) = cfg a" "ac_out (ap_upd a q f) = ac_out a"
  "ac_refreshRate (ap_upd a q f) = ac_refreshRate a"
  by (simp_all add: kv_def cfg_def ap_upd_def)

lemma ap_store [simp]: "ap (a\<lparr>ac_store := st\<rparr>) = ap a" "ap (a\<lparr>ac_readings := n\<rparr>) = ap a"
  "ap (a\<lparr>ac_out := es\<rparr>) = ap a"
  by (auto simp: ap_def new_peer_def fun_eq_iff split: option.splits)

lemma getAccountingPeer_reads: "reads a (getAccountingPeer a q)"
  by (auto simp: getAccountingPeer_def reads_def ap_upd_ap split: option.splits)

lemma getAccountingPeer_ap [simp]: "ap (getAccountingPeer a q) = ap a"
  "kv (getAccountingPeer a q) = kv a" "cfg (getAccountingPeer a q) = cfg a"
  "ac_out (getAccountingPeer a q) = ac_out a"
  using getAccountingPeer_reads [of a q] by (auto simp: reads_def)

lemma emit_simps [simp]:
  "ap (emit a e) = ap a" "kv (emit a e) = kv a" "cfg (emit a e) = cfg a"
  "ac_out (emit a e) = ac_out a @ [e]"
  by (simp_all add: emit_def kv_def cfg_def)

lemma timeNow_reads: "timeNow a = (n, a') \<Longrightarrow> reads a a'"
  by (auto simp: timeNow_def reads_def kv_def cfg_def)

lemma ac_get_reads: "ac_get a k = (r, a') \<Longrightarrow> reads a a'"
  using st.get_content [of "ac_store a" k]
  by (auto simp: ac_get_def reads_def kv_def cfg_def split: prod.splits)

lemma ac_get_value: "ac_get a k = (Inr v, a') \<Longrightarrow> kv a k = Some v"
  "ac_get a k = (Inl ErrNotFound, a') \<Longrightarrow> kv a k = None"
  using st.get_value st.get_missing
  by (auto simp: ac_get_def kv_def split: prod.splits)

lemma ac_put_ok:
  "ac_put a k v = (Inr u, a') \<Longrightarrow>
     ap a' = ap a \<and> cfg a' = cfg a \<and> ac_out a' = ac_out a \<and> kv a' = (kv a)(k \<mapsto> v)"
  using st.put_ok [of "ac_store a" k v]
  by (auto simp: ac_put_def kv_def cfg_def split: prod.splits option.splits)

lemma ac_put_fail: "ac_put a k v = (Inl e, a') \<Longrightarrow> reads a a'"
  using st.put_fail [of "ac_store a" k v]
  by (auto simp: ac_put_def reads_def kv_def cfg_def split: prod.splits option.splits)

lemma Balance_reads: "Balance a p = (r, a') \<Longrightarrow> reads a a'"
  "OriginatedBalance a p = (r, a') \<Longrightarrow> reads a a'"
  "SurplusBalance a p = (r, a') \<Longrightarrow> reads a a'"
  by (auto simp: Balance_def OriginatedBalance_def SurplusBalance_def dest: ac_get_reads
      split: prod.splits sum.splits store_error.splits)

lemma orZero_snd: "orZero m = (r, a') \<Longrightarrow> snd m = a'"
  by (cases m) (auto simp: orZero_def split: sum.splits acct_error.splits)

lemma orZero_Balance_reads: "orZero (Balance a p) = (r, a') \<Longrightarrow> reads a a'"
  "orZero (OriginatedBalance a p) = (r, a') \<Longrightarrow> reads a a'"
  by (metis orZero_snd Balance_reads prod.collapse)+

lemma Balance_value: "Balance a p = (Inr v, a') \<Longrightarrow> v = bal a p"
  by (auto simp: Balance_def bal_def dest!: ac_get_value split: prod.splits sum.splits store_error.splits)

lemma orZero_Balance_value: "orZero (Balance a p) = (Inr v, a') \<Longrightarrow> v = bal a p"
  by (auto simp: Balance_def orZero_def bal_def dest!: ac_get_value
      split: prod.splits sum.splits store_error.splits)

lemma orZero_Originated_value: "orZero (OriginatedBalance a p) = (Inr v, a') \<Longrightarrow> v = org a p"
  by (auto simp: OriginatedBalance_def orZero_def org_def dest!: ac_get_value
      split: prod.splits sum.splits store_error.splits)

lemma SurplusBalance_value: "SurplusBalance a p = (Inr v, a') \<Longrightarrow> v = sur a p \<and> 0 \<le> v"
  by (auto simp: SurplusBalance_def sur_def dest!: ac_get_value
      split: prod.splits sum.splits store_error.splits if_splits)

lemma put_views:
  assumes "ac_put a k v = (Inr u, a')"
  shows "res a' = res a" "thr a' = thr a" "shd a' = shd a" "cfg a' = cfg a" "ap a' = ap a"
  using ac_put_ok [OF assms] by (auto simp: res_def thr_def shd_def fun_eq_iff)

lemma put_balance:
  "ac_put a (peerBalanceKey p) v = (Inr u, a') \<Longrightarrow>
     bal a' = (bal a)(p := v) \<and> sur a' = sur a \<and> org a' = org a"
  "ac_put a (peerSurplusBalanceKey p) v = (Inr u, a') \<Longrightarrow>
     bal a' = bal a \<and> sur a' = (sur a)(p := v) \<and> org a' = org a"
  "ac_put a (originatedBalanceKey p) v = (Inr u, a') \<Longrightarrow>
     bal a' = bal a \<and> sur a' = sur a \<and> org a' = (org a)(p := v)"
  by (auto dest!: ac_put_ok simp: bal_def sur_def org_def fun_eq_iff)

lemma reads_trans: "reads a b \<Longrightarrow> reads b c \<Longrightarrow> reads a c"
  by (simp add: reads_def)

lemma reads_refl [simp]: "reads a a"
  by (simp add: reads_def)

lemma reads_bind:
  assumes "bindE m f = (r, a')" "reads a (snd m)"
    and "\<And>x s r' s'. m = (Inr x, s) \<Longrightarrow> f x s = (r', s') \<Longrightarrow> reads s s'"
  shows "reads a a'"
  using assms by (cases m; cases "fst m") (auto intro: reads_trans)

lemma same_bind:
  assumes "bindE m f = (r, a')" "same a (snd m)"
    and "\<And>x s r' s'. m = (Inr x, s) \<Longrightarrow> f x s = (r', s') \<Longrightarrow> same s s'"
  shows "same a a'"
  using assms by (cases m; cases "fst m") (auto intro: same_trans)

lemma snd_reads:
  "reads a (snd (Balance a p))" "reads a (snd (OriginatedBalance a p))"
  "reads a (snd (SurplusBalance a p))" "reads a (snd (orZero (Balance a p)))"
  "reads a (snd (orZero (OriginatedBalance a p)))" "reads a (snd (ac_get a k))"
  "reads a (snd (timeNow a))"
  by (metis Balance_reads orZero_Balance_reads ac_get_reads timeNow_reads prod.collapse)+

section \<open>Effect of the handlers on the views\<close>

lemma shadowBalance_reads: "shadowBalance a p = (r, a') \<Longrightarrow> reads a a'"
  unfolding shadowBalance_def Let_def
  by (auto split: prod.splits sum.splits store_error.splits if_splits
      dest!: ac_get_reads Balance_reads intro: reads_trans simp: bindE_def)

lemma peerLatentDebt_reads: "peerLatentDebt a p = (r, a') \<Longrightarrow> reads a a'"
  unfolding peerLatentDebt_def Let_def
  by (auto split: prod.splits sum.splits store_error.splits if_splits
      dest!: ac_get_reads intro: reads_trans getAccountingPeer_reads)

lemma PeerDebt_reads: "PeerDebt a p = (r, a') \<Longrightarrow> reads a a'"
  unfolding PeerDebt_def Let_def
  by (auto split: prod.splits sum.splits store_error.splits if_splits
      dest!: ac_get_reads intro: reads_trans getAccountingPeer_reads)

lemma blocklistUntil_reads: "blocklistUntil a p m = (r, a') \<Longrightarrow> reads a a'"
  by (auto simp: blocklistUntil_def bindE_def Let_def dest!: peerLatentDebt_reads
      split: prod.splits sum.splits)

lemma blocklist_same: "same a (blocklist a p m why)"
proof -
  obtain r a' where r: "blocklistUntil a p m = (r, a')" by fastforce
  then have "reads a a'" by (rule blocklistUntil_reads)
  then show ?thesis using r
    by (cases r) (auto simp: blocklist_def same_def reads_def res_def thr_def shd_def fun_eq_iff)
qed

lemma upd_same:
  assumes "\<And>q. ap_reservedBalance (f q) = ap_reservedBalance q"
    "\<And>q. ap_paymentThreshold (f q) = ap_paymentThreshold q"
    "\<And>q. ap_shadowReservedBalance (f q) = ap_shadowReservedBalance q"
  shows "same a (ap_upd a p f)"
  using assms by (simp add: same_def res_def thr_def shd_def ap_upd_ap fun_eq_iff)

lemma emit_same: "(\<And>q n. e \<noteq> PayCall q n) \<Longrightarrow> same a (emit a e)"
  by (cases e) (auto simp: same_def res_def thr_def shd_def fun_eq_iff)

lemma getAccountingPeer_same: "same a (getAccountingPeer a p)"
  by (rule reads_same [OF getAccountingPeer_reads])

text \<open>The step of \<open>settle\<close> that starts a payment adds it to the shadow reserve.\<close>

lemma pay_same:
  "same a (emit (ap_upd a p (\<lambda>p. p\<lparr>ap_paymentOngoing := True,
      ap_shadowReservedBalance := ap_shadowReservedBalance p + n,
      ap_refreshReservedBalance := r p\<rparr>)) (PayCall p n))"
  by (auto simp: same_def res_def thr_def shd_def ap_upd_ap fun_eq_iff)

lemma same_snd_bind:
  assumes "same a (snd m)" and "\<And>x s. m = (Inr x, s) \<Longrightarrow> same s (snd (f x s))"
  shows "same a (snd (bindE m f))"
  using assms by (cases m; cases "fst m") (auto intro: same_trans)

lemma same_snd_if: "(b \<Longrightarrow> same a (snd x)) \<Longrightarrow> (\<not> b \<Longrightarrow> same a (snd y)) \<Longrightarrow> same a (snd (if b then x else y))"
  by simp

lemma same_snd_pair: "same a s \<Longrightarrow> same a (snd (x, s))"
  by simp

lemma same_snd_time: "(\<And>n s. reads a s \<Longrightarrow> same s (snd (f n s))) \<Longrightarrow>
    same a (snd (case timeNow a of (n, s) \<Rightarrow> f n s))"
  using timeNow_reads [of a] reads_same same_trans by (cases "timeNow a") fastforce

lemma settle_monetary_same: "same a (snd (settle_monetary a p now))"
  unfolding settle_monetary_def Let_def
  by (intro same_snd_time same_snd_bind same_snd_if same_snd_pair pay_same)
     (auto intro: reads_same snd_reads)

lemma settle_same: "same a (snd (settle a p))"
proof -
  have opt: "same s (emit (ap_upd s p (ap_refreshOngoing_update (\<lambda>_. True))) (RefreshCall p n))"
    for s n
    by (intro same_trans [OF upd_same emit_same]) simp_all
  have sh: "same s (snd (shadowBalance s p))" for s
    by (metis reads_same shadowBalance_reads prod.collapse)
  show ?thesis
    unfolding settle_def Let_def
    by (intro same_snd_time same_snd_bind same_snd_if same_snd_pair)
       (auto intro: same_trans [OF opt] settle_monetary_same sh)
qed

lemma getIncreasedExpectedDebt_reads: "getIncreasedExpectedDebt a p n = (r, a') \<Longrightarrow> reads a a'"
  unfolding getIncreasedExpectedDebt_def Let_def
  by (auto simp: bindE_def split: prod.splits sum.splits
      dest!: orZero_Balance_reads Balance_reads intro: reads_trans)

lemma reads_views:
  assumes "reads a a'"
  shows "res a' = res a" "thr a' = thr a" "shd a' = shd a" "cfg a' = cfg a" "bal a' = bal a"
    "sur a' = sur a" "org a' = org a" "ap a' = ap a" "kv a' = kv a"
  using assms
  by (simp_all add: reads_def res_def thr_def shd_def bal_def sur_def org_def fun_eq_iff)

lemma getIncreasedExpectedDebt_value:
  assumes "getIncreasedExpectedDebt a p n = (Inr (d, b), a')"
  shows "b = bal a p \<and> 0 \<le> sur a p \<and> d = max 0 (- bal a p) + res a p + n + sur a p"
proof -
  obtain s u where s: "orZero (Balance a p) = (Inr b, s)" "SurplusBalance s p = (Inr u, a')"
      "d = (if - b < 0 then 0 else - b) + (ap_reservedBalance (ap a p) + n) + u"
    using assms unfolding getIncreasedExpectedDebt_def Let_def by (auto simp: bindE_Inr)
  note rv = reads_views [OF orZero_Balance_reads(1) [OF s(1)]]
  show ?thesis
    using s orZero_Balance_value [OF s(1)] SurplusBalance_value [OF s(2)] rv
    by (auto simp: res_def)
qed

lemma capped_refresh:
  assumes "0 \<le> (r :: int)"
  shows "(if s > 1 then 1 else s) * r \<le> r"
proof (cases "s > 1")
  case False
  then have "s * r \<le> 1 * r" using assms by (intro mult_right_mono) auto
  with False show ?thesis by simp
qed simp

text \<open>The overdraft check of a credit: what is owed, what is reserved and the surplus stay
  within the threshold and one second of refreshment.\<close>

lemma reserve_credit_ok:
  assumes "reserve_credit a p n og d = (Inr c, a')" "0 \<le> ac_refreshRate a"
  shows "res a' = (res a)(p := res a p + n) \<and> thr a' = thr a \<and> shd a' = shd a \<and> kv a' = kv a \<and>
    cfg a' = cfg a \<and> d \<le> thr a p + ac_refreshRate a \<and>
    c = \<lparr>act_price = n, act_peer = p, act_originated = og, act_applied = False\<rparr>"
proof -
  obtain t s where t: "timeNow a = (t, s)" by fastforce
  note rv = reads_views [OF timeNow_reads [OF t]]
  have "ac_refreshRate s = ac_refreshRate a" using cfg_fields(1) [OF rv(4)] .
  with assms t rv capped_refresh [OF assms(2), of "go_quot (t - ap_refreshTimestampMilliseconds (ap a p)) 1000"]
  show ?thesis
    by (auto simp: reserve_credit_def Let_def res_def thr_def shd_def ap_upd_ap fun_eq_iff
        split: if_splits)
qed

lemma reserve_credit_fail:
  assumes "reserve_credit a p n og d = (Inl e, a')"
  shows "same a a' \<and> e = ErrOverdraft"
  using assms reads_same [OF timeNow_reads]
  by (auto simp: reserve_credit_def Let_def split: prod.splits if_splits)

lemma getIncreasedExpectedDebt_same: "same s (snd (getIncreasedExpectedDebt s p n))"
  by (metis getIncreasedExpectedDebt_reads reads_same prod.collapse)

text \<open>\<open>PrepareCredit\<close> either fails early, or reaches the overdraft check with a debt computed
  from the unchanged balances.\<close>

lemma PrepareCredit_cases:
  assumes "PrepareCredit a lk p price og = (r, a')"
  obtains (fail) e where "r = Inl e" "same a a'"
  | (reserve) s s' d b where "lk" "ap_connected (ap a p)" "same a s"
      "getIncreasedExpectedDebt s p (uint price) = (Inr (d, b), s')"
      "reserve_credit s' p (uint price) og d = (r, a')"
proof -
  let ?g = "getAccountingPeer a p" and ?n = "uint price"
  note g = getAccountingPeer_same [of a p]
  show ?thesis
  proof (cases "lk \<and> ap_connected (ap a p)")
    case False
    then show ?thesis using assms g fail by (auto simp: PrepareCredit_def Let_def split: if_splits)
  next
    case True
    obtain x s1 where x: "getIncreasedExpectedDebt ?g p ?n = (x, s1)" by fastforce
    have s1: "same a s1"
      using getIncreasedExpectedDebt_same [of ?g p ?n] x same_trans [OF g] by simp
    show ?thesis
    proof (cases x)
      case (Inl e)
      then show ?thesis using assms True x s1 fail by (auto simp: PrepareCredit_def Let_def)
    next
      case (Inr db)
      then obtain d b where db: "x = Inr (d, b)" by (cases db) auto
      let ?early = "ap_earlyPayment (ap a p) \<le> d - ap_shadowReservedBalance (ap s1 p) \<and> b < 0"
      show ?thesis
      proof (cases ?early)
        case False
        then have "reserve_credit s1 p ?n og d = (r, a')"
          using assms True x db by (auto simp: PrepareCredit_def Let_def)
        then show ?thesis using reserve [OF _ _ g] True x db by simp
      next
        case early: True
        obtain u s2 where u: "settle s1 p = (u, s2)" by fastforce
        have s2: "same a s2" using same_trans [OF s1] settle_same [of s1 p] u by simp
        obtain y s3 where y: "getIncreasedExpectedDebt s2 p ?n = (y, s3)" by fastforce
        have s3: "same a s3"
          using same_trans [OF s2] getIncreasedExpectedDebt_same [of s2 p ?n] y by simp
        have eq: "(r, a') = bindE (u, s2) (\<lambda>_ a. bindE (getIncreasedExpectedDebt a p ?n)
            (\<lambda>(d, _) a. reserve_credit a p ?n og d))"
          using assms True x db early u by (simp add: PrepareCredit_def Let_def)
        show ?thesis
          using eq u y s2 s3 fail reserve [OF _ _ s2] True by (cases u; cases y) auto
      qed
    qed
  qed
qed

lemma PrepareCredit_fail:
  assumes "PrepareCredit a lk p price og = (Inl e, a')"
  shows "same a a'"
  using assms
proof (cases rule: PrepareCredit_cases)
  case (reserve s s' d b)
  then have "same s s'" using getIncreasedExpectedDebt_same [of s p "uint price"] by simp
  then show ?thesis using reserve reserve_credit_fail same_trans by metis
qed simp

lemma PrepareCredit_ok:
  assumes "PrepareCredit a lk p price og = (Inr c, a')" "0 \<le> ac_refreshRate a"
  shows "lk \<and> ap_connected (ap a p) \<and> res a' = (res a)(p := res a p + uint price) \<and> thr a' = thr a \<and>
    shd a' = shd a \<and> kv a' = kv a \<and> cfg a' = cfg a \<and>
    max 0 (- bal a p) + res a' p + sur a p \<le> thr a p + ac_refreshRate a \<and> 0 \<le> sur a p \<and>
    c = \<lparr>act_price = uint price, act_peer = p, act_originated = og, act_applied = False\<rparr>"
  using assms(1)
proof (cases rule: PrepareCredit_cases)
  case (reserve s s' d b)
  have rs: "reads s s'" using getIncreasedExpectedDebt_reads [OF reserve(4)] .
  have as: "same a s'" using same_trans [OF reserve(3) reads_same [OF rs]] .
  have rr: "ac_refreshRate s' = ac_refreshRate a" using as cfg_fields(1) [of s' a] by (simp add: same_def)
  have b: "bal s = bal a" "sur s = sur a" "res s = res a"
    using reserve(3) same_bal [OF reserve(3)] by (simp_all add: same_def)
  from reserve_credit_ok [OF reserve(5)] assms(2) rr
    getIncreasedExpectedDebt_value [OF reserve(4)] as b reserve(1,2)
  show ?thesis by (auto simp: same_def)
qed simp

definition released :: "accounting \<Rightarrow> address \<Rightarrow> int \<Rightarrow> address \<Rightarrow> int" where
  "released a p n = (res a)(p := if n > res a p then 0 else res a p - n)"

lemma release_reserved_views:
  "res (release_reserved a p n) = released a p n" "thr (release_reserved a p n) = thr a"
  "shd (release_reserved a p n) = shd a" "kv (release_reserved a p n) = kv a"
  "cfg (release_reserved a p n) = cfg a"
  by (simp_all add: release_reserved_def released_def res_def thr_def shd_def ap_upd_ap fun_eq_iff)

lemma kv_views: "kv a' = kv a \<Longrightarrow> bal a' = bal a \<and> sur a' = sur a \<and> org a' = org a"
  by (simp add: bal_def sur_def org_def fun_eq_iff)

lemma settle_if_early_same: "same a (settle_if_early a p d)"
  by (simp add: settle_if_early_def settle_same)

lemma apply_originated_views:
  assumes "apply_originated a p n b d = (r, a')"
  shows "res a' = res a \<and> thr a' = thr a \<and> shd a' = shd a \<and> cfg a' = cfg a \<and> bal a' = bal a \<and>
    sur a' = sur a \<and>
    org a' = (if r = None then (org a)(p := max (org a p - n) (min 0 b)) else org a)"
proof -
  obtain z s where z: "orZero (OriginatedBalance a p) = (z, s)" by fastforce
  note rv = reads_views [OF orZero_Balance_reads(2) [OF z]]
  show ?thesis
  proof (cases z)
    case (Inl e)
    with assms z rv show ?thesis by (auto simp: apply_originated_def)
  next
    case (Inr ob)
    let ?v = "max (ob - n) (min 0 b)"
    obtain w s' where w: "ac_put s (originatedBalanceKey p) ?v = (w, s')" by fastforce
    have "(if ob - n < (if b > 0 then 0 else b) then (if b > 0 then 0 else b) else ob - n) = ?v"
      by (simp add: max_def min_def)
    then have eq: "(r, a') = (case w of Inl e \<Rightarrow> (Some e, s') | Inr _ \<Rightarrow> (None, settle_if_early s' p d))"
      using assms z Inr w by (simp add: apply_originated_def Let_def split: sum.splits)
    show ?thesis
    proof (cases w)
      case w': (Inl e)
      with w rv eq reads_views [OF ac_put_fail [of s]] show ?thesis by simp
    next
      case w': (Inr u)
      note p = put_views [OF w [unfolded w']] put_balance(3) [OF w [unfolded w']]
      note sm = settle_if_early_same [of s' p d]
      from orZero_Originated_value [of a p ob s] z Inr eq w' p rv sm same_bal [OF sm]
      show ?thesis by (simp add: same_def)
    qed
  qed
qed

text \<open>Applying a credit: an error before the balance is written changes nothing and leaves the
  action unapplied; afterwards the action is applied, the price is off the balance and the
  reservation is released, whatever happens to the originated balance.\<close>

lemma creditApply_cases:
  assumes "creditApply a c = ((r, c'), a')" "\<not> act_applied c"
  obtains (fail) e where "r = Some e" "c' = c" "same a a'"
  | (applied) "c' = c\<lparr>act_applied := True\<rparr>"
      "res a' = released a (act_peer c) (act_price c)" "thr a' = thr a" "shd a' = shd a"
      "cfg a' = cfg a" "bal a' = (bal a)(act_peer c := bal a (act_peer c) - act_price c)"
      "sur a' = sur a" "\<not> act_originated c \<longrightarrow> r = None"
      "org a' = (if act_originated c \<and> r = None
         then (org a)(act_peer c := max (org a (act_peer c) - act_price c)
           (min 0 (bal a (act_peer c) - act_price c)))
         else org a)"
proof -
  let ?p = "act_peer c" and ?n = "act_price c"
  obtain x s1 where x: "getIncreasedExpectedDebt a ?p ?n = (x, s1)" by fastforce
  note r1 = getIncreasedExpectedDebt_reads [OF x]
  show ?thesis
  proof (cases x)
    case (Inl e)
    then show ?thesis using assms(1) x fail reads_same [OF r1] by (auto simp: creditApply_def Let_def)
  next
    case (Inr db)
    then obtain d b where db: "x = Inr (d, b)" by (cases db) auto
    have b: "b = bal a ?p" using getIncreasedExpectedDebt_value x db by blast
    obtain y s2 where y: "ac_put s1 (peerBalanceKey ?p) (b - ?n) = (y, s2)" by fastforce
    show ?thesis
    proof (cases y)
      case (Inl e)
      then show ?thesis
        using assms(1) x db y fail same_trans [OF reads_same [OF r1] reads_same [OF ac_put_fail]]
        by (auto simp: creditApply_def Let_def)
    next
      case (Inr u)
      note put = put_views [OF y [unfolded Inr]] put_balance(1) [OF y [unfolded Inr]]
      let ?s3 = "release_reserved s2 ?p ?n"
      note v = release_reserved_views [of s2 ?p ?n]
      have s3: "res ?s3 = released a ?p ?n" "thr ?s3 = thr a" "shd ?s3 = shd a" "cfg ?s3 = cfg a"
        "bal ?s3 = (bal a)(?p := bal a ?p - ?n)" "sur ?s3 = sur a" "org ?s3 = org a"
        using v put kv_views [OF v(4)] b reads_views [OF r1] by (simp_all add: released_def)
      show ?thesis
      proof (cases "act_originated c")
        case False
        note sm = settle_if_early_same [of ?s3 ?p d]
        from False have "r = None" "c' = c\<lparr>act_applied := True\<rparr>" "a' = settle_if_early ?s3 ?p d"
          using assms(1) x db y Inr by (auto simp: creditApply_def Let_def)
        then show ?thesis using applied s3 sm same_bal [OF sm] False by (simp add: same_def)
      next
        case True
        then have "apply_originated ?s3 ?p ?n (b - ?n) d = (r, a')" "c' = c\<lparr>act_applied := True\<rparr>"
          using assms(1) x db y Inr by (auto simp: creditApply_def Let_def split: prod.splits)
        then show ?thesis using applied s3 apply_originated_views b True by fastforce
      qed
    qed
  qed
qed

lemma creditCleanup_views:
  assumes "\<not> act_applied c"
  shows "res (creditCleanup a c) = released a (act_peer c) (act_price c)"
    "thr (creditCleanup a c) = thr a" "shd (creditCleanup a c) = shd a"
    "kv (creditCleanup a c) = kv a" "cfg (creditCleanup a c) = cfg a"
  using assms by (simp_all add: creditCleanup_def release_reserved_views)

lemma ap_upd_views:
  "res (ap_upd a p f) = (res a)(p := ap_reservedBalance (f (ap a p)))"
  "thr (ap_upd a p f) = (thr a)(p := ap_paymentThreshold (f (ap a p)))"
  "shd (ap_upd a p f) = (shd a)(p := shd a p +
     (ap_shadowReservedBalance (f (ap a p)) - ap_shadowReservedBalance (ap a p)))"
  "bal (ap_upd a p f) = bal a" "sur (ap_upd a p f) = sur a" "org (ap_upd a p f) = org a"
  by (simp_all add: res_def thr_def shd_def ap_upd_ap bal_def sur_def org_def fun_eq_iff)

lemma res_ap: "ap_reservedBalance (ap a p) = res a p" "ap_paymentThreshold (ap a p) = thr a p"
  by (simp_all add: res_def thr_def)

lemma getAccountingPeer_views [simp]:
  "res (getAccountingPeer a p) = res a" "thr (getAccountingPeer a p) = thr a"
  "shd (getAccountingPeer a p) = shd a" "bal (getAccountingPeer a p) = bal a"
  "sur (getAccountingPeer a p) = sur a" "org (getAccountingPeer a p) = org a"
  using reads_views [OF getAccountingPeer_reads] by simp_all

lemma decreaseOriginatedBalance_views:
  assumes "decreaseOriginatedBalanceTo a p n = (r, a') \<or> decreaseOriginatedBalanceBy a p n = (r, a')"
  shows "ap a' = ap a \<and> res a' = res a \<and> thr a' = thr a \<and> shd a' = shd a \<and> cfg a' = cfg a \<and>
    bal a' = bal a \<and> sur a' = sur a"
proof -
  obtain z s where z: "orZero (OriginatedBalance a p) = (z, s)" by fastforce
  note rv = reads_views [OF orZero_Balance_reads(2) [OF z]]
  have put: "ap t = ap s \<and> res t = res s \<and> thr t = thr s \<and> shd t = shd s \<and> cfg t = cfg s \<and> bal t = bal s \<and> sur t = sur s"
    if "ac_put s (originatedBalanceKey p) v = (u, t)" for v u t
  proof (cases u)
    case (Inl e)
    then show ?thesis using reads_views [OF ac_put_fail] that by simp
  next
    case (Inr x)
    then show ?thesis using put_views put_balance(3) that by metis
  qed
  show ?thesis
    using assms z rv put
    by (cases z) (auto simp: decreaseOriginatedBalanceTo_def decreaseOriginatedBalanceBy_def Let_def
        split: if_splits)
qed

lemma register_repay_same: "same a (register_repay a p n)"
proof -
  let ?s = "ap_upd (getAccountingPeer a p) p (\<lambda>p. p\<lparr>ap_totalDebtRepay := ap_totalDebtRepay p + n\<rparr>)"
  have s: "same a ?s" by (rule same_trans [OF getAccountingPeer_same upd_same]) simp_all
  have "same t (notifyPaymentThresholdUpgrade t p)" for t
    unfolding notifyPaymentThresholdUpgrade_def Let_def
    by (rule same_trans [OF upd_same emit_same]) simp_all
  with s show ?thesis by (auto simp: register_repay_def Let_def intro: same_trans)
qed

text \<open>Adding to the surplus: all or nothing.\<close>

lemma add_surplus:
  assumes "bindE (SurplusBalance a p) (\<lambda>s a. ac_put a (peerSurplusBalanceKey p) (s + n)) = (r, a')"
  shows "res a' = res a \<and> thr a' = thr a \<and> shd a' = shd a \<and> cfg a' = cfg a \<and> org a' = org a \<and> bal a' = bal a \<and>
    sur a' = (if r = Inr () then (sur a)(p := sur a p + n) else sur a)"
proof -
  obtain z s where z: "SurplusBalance a p = (z, s)" by fastforce
  note rv = reads_views [OF Balance_reads(3) [OF z]]
  show ?thesis
  proof (cases z)
    case (Inl e)
    with assms z rv show ?thesis by auto
  next
    case (Inr v)
    then have w: "ac_put s (peerSurplusBalanceKey p) (v + n) = (r, a')" using assms z by simp
    have v: "v = sur a p" using SurplusBalance_value z Inr by blast
    show ?thesis
    proof (cases r)
      case (Inl e)
      with w reads_views [OF ac_put_fail [of s]] rv show ?thesis by simp
    next
      case r: (Inr u)
      with put_views [OF w [unfolded r]] put_balance(2) [OF w [unfolded r]] rv v show ?thesis by simp
    qed
  qed
qed

text \<open>A payment received: the net balance drops by the amount, split between the balance, which
  it does not push below zero, and the surplus.\<close>

lemma NotifyPaymentReceived_cases:
  assumes "NotifyPaymentReceived a p n = (r, a')" "0 \<le> n"
  shows "res a' = res a \<and> thr a' = thr a \<and> shd a' = shd a \<and> cfg a' = cfg a \<and> org a' = org a \<and>
    (\<forall>q. q \<noteq> p \<longrightarrow> bal a' q = bal a q \<and> sur a' q = sur a q) \<and> min 0 (bal a' p) = min 0 (bal a p) \<and>
    (r = Inr () \<longrightarrow> bal a' p - sur a' p = bal a p - sur a p - n \<and> sur a p \<le> sur a' p \<and>
       bal a' p = (if bal a p \<le> 0 then bal a p else max 0 (bal a p - n)))"
proof -
  let ?s = "register_repay a p n"
  note s = register_repay_same [of a p n]
  note s' = same_bal [OF s] s [unfolded same_def]
  obtain z t where z: "orZero (Balance ?s p) = (z, t)" by fastforce
  note rv = reads_views [OF orZero_Balance_reads(1) [OF z]]
  show ?thesis
  proof (cases z)
    case (Inl e)
    with assms z rv s' show ?thesis by (auto simp: NotifyPaymentReceived_def)
  next
    case (Inr b)
    have b: "b = bal a p" using orZero_Balance_value [of ?s p b t] z Inr s' by simp
    show ?thesis
    proof (cases "b \<le> 0")
      case True
      then have "bindE (SurplusBalance t p) (\<lambda>s a. ac_put a (peerSurplusBalanceKey p) (s + n)) = (r, a')"
        using assms z Inr by (simp add: NotifyPaymentReceived_def)
      from add_surplus [OF this] rv s' b True assms(2) show ?thesis by auto
    next
      case False
      let ?nb = "if b - n < 0 then 0 else b - n"
      obtain w u where w: "ac_put t (peerBalanceKey p) ?nb = (w, u)" by fastforce
      have eq: "(r, a') = bindE (w, u) (\<lambda>_ a. if b - n < 0
            then bindE (SurplusBalance a p) (\<lambda>s a. ac_put a (peerSurplusBalanceKey p) (s + (n - b)))
            else (Inr (), a))"
        using assms z Inr w False by (simp add: NotifyPaymentReceived_def Let_def)
      show ?thesis
      proof (cases w)
        case w': (Inl e)
        with eq w reads_views [OF ac_put_fail [of t]] rv s' show ?thesis by simp
      next
        case w': (Inr x)
        note p = put_views [OF w [unfolded w']] put_balance(1) [OF w [unfolded w']]
        show ?thesis
        proof (cases "b - n < 0")
          case True
          then have "bindE (SurplusBalance u p) (\<lambda>s a. ac_put a (peerSurplusBalanceKey p) (s + (n - b))) = (r, a')"
            using eq w' by simp
          from add_surplus [OF this] rv s' b True False assms(2) p show ?thesis by auto
        next
          case f: False
          with eq w' p rv s' b False show ?thesis by auto
        qed
      qed
    qed
  qed
qed

lemma NotifyRefreshmentReceived_cases:
  assumes "NotifyRefreshmentReceived a p n t = (r, a')"
  shows "res a' = res a \<and> thr a' = thr a \<and> shd a' = shd a \<and> cfg a' = cfg a \<and> org a' = org a \<and>
    sur a' = sur a \<and> (bal a' = bal a \<and> r \<noteq> Inr () \<or> bal a' = (bal a)(p := bal a p - n) \<and> r = Inr ())"
proof -
  let ?s = "register_repay a p n"
  note s = register_repay_same [of a p n]
  note s' = same_bal [OF s] s [unfolded same_def]
  obtain z t where z: "orZero (Balance ?s p) = (z, t)" by fastforce
  note rv = reads_views [OF orZero_Balance_reads(1) [OF z]]
  show ?thesis
  proof (cases z)
    case (Inl e)
    with assms z rv s' show ?thesis by (auto simp: NotifyRefreshmentReceived_def)
  next
    case (Inr b)
    obtain w u where w: "ac_put t (peerBalanceKey p) (b - n) = (w, u)" by fastforce
    show ?thesis
    proof (cases w)
      case w': (Inl e)
      with assms z Inr w reads_views [OF ac_put_fail [of t]] rv s' show ?thesis
        by (auto simp: NotifyRefreshmentReceived_def)
    next
      case w': (Inr x)
      note p = put_views [OF w [unfolded w']] put_balance(1) [OF w [unfolded w']]
      from assms z Inr w w' p rv s' orZero_Balance_value [of ?s p b t] show ?thesis
        by (auto simp: NotifyRefreshmentReceived_def ap_upd_views res_ap fun_eq_iff)
    qed
  qed
qed

text \<open>The amount of a settlement is added to the balance, unless the store fails.\<close>

lemma bump_balance:
  assumes "a' = (case orZero (Balance a p) of (Inl e, s) \<Rightarrow> s
      | (Inr b, s) \<Rightarrow> (case ac_put s (peerBalanceKey p) (b + n) of (Inl e, s) \<Rightarrow> s
          | (Inr _, s) \<Rightarrow> snd (g b s)))"
    and g: "\<And>b s. g b s = decreaseOriginatedBalanceTo s p (b + n) \<or> g b s = decreaseOriginatedBalanceBy s p n"
  shows "res a' = res a \<and> thr a' = thr a \<and> shd a' = shd a \<and> cfg a' = cfg a \<and> sur a' = sur a \<and>
    (bal a' = bal a \<or> bal a' = (bal a)(p := bal a p + n))"
proof -
  obtain z t where z: "orZero (Balance a p) = (z, t)" by fastforce
  note rv = reads_views [OF orZero_Balance_reads(1) [OF z]]
  show ?thesis
  proof (cases z)
    case (Inl e)
    with assms z rv show ?thesis by simp
  next
    case (Inr b)
    obtain w u where w: "ac_put t (peerBalanceKey p) (b + n) = (w, u)" by fastforce
    show ?thesis
    proof (cases w)
      case w': (Inl e)
      with assms z Inr w reads_views [OF ac_put_fail [of t]] rv show ?thesis by simp
    next
      case w': (Inr x)
      note p = put_views [OF w [unfolded w']] put_balance(1) [OF w [unfolded w']]
      have "snd (g b u) = a'" using assms z Inr w w' by simp
      then have "decreaseOriginatedBalanceTo u p (b + n) = (fst (g b u), a') \<or>
          decreaseOriginatedBalanceBy u p n = (fst (g b u), a')"
        using g [of b u] by (metis prod.collapse)
      then have "res a' = res u \<and> thr a' = thr u \<and> shd a' = shd u \<and> cfg a' = cfg u \<and> bal a' = bal u \<and> sur a' = sur u"
        using decreaseOriginatedBalance_views by blast
      with p rv orZero_Balance_value [of a p b t] z Inr show ?thesis by simp
    qed
  qed
qed

lemma NotifyPaymentSent_views:
  assumes "a' = NotifyPaymentSent a p n failed"
  shows "res a' = res a \<and> thr a' = thr a \<and> shd a' = (shd a)(p := shd a p - n) \<and> cfg a' = cfg a \<and> sur a' = sur a \<and>
    (bal a' = bal a \<or> \<not> failed \<and> bal a' = (bal a)(p := bal a p + n))"
proof -
  let ?s = "ap_upd (getAccountingPeer a p) p (\<lambda>p. p\<lparr>ap_paymentOngoing := False,
              ap_shadowReservedBalance := ap_shadowReservedBalance p - n\<rparr>)"
  have s: "res ?s = res a" "thr ?s = thr a" "shd ?s = (shd a)(p := shd a p - n)" "cfg ?s = cfg a"
    "sur ?s = sur a" "bal ?s = bal a"
    by (simp_all add: ap_upd_views res_ap fun_eq_iff)
  show ?thesis
  proof (cases failed)
    case True
    obtain t u where t: "timeNow ?s = (t, u)" by fastforce
    note rv = reads_views [OF timeNow_reads [OF t]]
    have "a' = ap_upd u p (\<lambda>p. p\<lparr>ap_lastSettlementFailureTimestamp := t div 1000\<rparr>)"
      using assms True t by (simp add: NotifyPaymentSent_def)
    with rv s show ?thesis by (simp add: ap_upd_views res_ap fun_eq_iff)
  next
    case False
    have "a' = (case orZero (Balance ?s p) of (Inl e, s) \<Rightarrow> s
      | (Inr b, s) \<Rightarrow> (case ac_put s (peerBalanceKey p) (b + n) of (Inl e, s) \<Rightarrow> s
          | (Inr _, s) \<Rightarrow> snd (decreaseOriginatedBalanceBy s p n)))"
      using assms False by (simp add: NotifyPaymentSent_def Let_def)
    from bump_balance [OF this] s False show ?thesis by simp
  qed
qed

lemma blocklist_views:
  "res (blocklist a p m why) = res a" "thr (blocklist a p m why) = thr a"
  "shd (blocklist a p m why) = shd a" "cfg (blocklist a p m why) = cfg a"
  "bal (blocklist a p m why) = bal a" "sur (blocklist a p m why) = sur a"
  using blocklist_same [of a p m why] same_bal [OF blocklist_same [of a p m why]]
  by (simp_all add: same_def)

lemma NotifyRefreshmentSent_views:
  assumes "a' = NotifyRefreshmentSent a p att n ts iv err"
  shows "res a' = res a \<and> thr a' = thr a \<and> shd a' = shd a \<and> cfg a' = cfg a \<and> sur a' = sur a \<and>
    (bal a' = bal a \<or> err = None \<and> bal a' = (bal a)(p := bal a p + n))"
proof -
  let ?s = "ap_upd (getAccountingPeer a p) p (\<lambda>p. p\<lparr>ap_refreshOngoing := False,
                ap_refreshTimestampMilliseconds := ts\<rparr>)"
  let ?t = "ap_upd ?s p (\<lambda>p. p\<lparr>ap_refreshReservedBalance := 0\<rparr>)"
  have s: "res ?s = res a" "thr ?s = thr a" "shd ?s = shd a" "cfg ?s = cfg a" "sur ?s = sur a" "bal ?s = bal a"
    and t: "res ?t = res a" "thr ?t = thr a" "shd ?t = shd a" "cfg ?t = cfg a" "sur ?t = sur a" "bal ?t = bal a"
    by (simp_all add: ap_upd_views res_ap fun_eq_iff ap_upd_ap)
  let ?bump = "(case orZero (Balance ?t p) of (Inl e, s) \<Rightarrow> s
      | (Inr b, s) \<Rightarrow> (case ac_put s (peerBalanceKey p) (b + n) of (Inl e, s) \<Rightarrow> s
          | (Inr _, s) \<Rightarrow> snd (decreaseOriginatedBalanceTo s p (b + n))))"
  have "a' = ?s \<or> a' = blocklist ?s p 1 ''failed to refresh'' \<or>
     a' = blocklist ?t p 1 ''failed to meet expectation for allowance'' \<or> err = None \<and> a' = ?bump"
    using assms unfolding NotifyRefreshmentSent_def Let_def
    by (simp split: option.splits refresh_error.splits if_splits)
  then show ?thesis using s t
      bump_balance [where a = ?t and a' = a' and g = "\<lambda>b s. decreaseOriginatedBalanceTo s p (b + n)"
        and p = p and n = n]
    by (auto simp: blocklist_views)
qed

lemma NotifyPaymentThreshold_views:
  "res (NotifyPaymentThreshold a p t) = res a" "thr (NotifyPaymentThreshold a p t) = (thr a)(p := t)"
  "shd (NotifyPaymentThreshold a p t) = shd a" "cfg (NotifyPaymentThreshold a p t) = cfg a"
  "kv (NotifyPaymentThreshold a p t) = kv a"
  by (simp_all add: NotifyPaymentThreshold_def ap_upd_views res_ap fun_eq_iff)

lemma PrepareDebit_views:
  assumes "PrepareDebit a lk p price = (r, a')"
  shows "res a' = res a \<and> thr a' = thr a \<and> cfg a' = cfg a \<and> kv a' = kv a \<and>
    (case r of Inl _ \<Rightarrow> shd a' = shd a
     | Inr d \<Rightarrow> shd a' = (shd a)(p := shd a p + uint price) \<and>
         d = \<lparr>act_price = uint price, act_peer = p, act_originated = False, act_applied = False\<rparr>)"
  using assms
  by (auto simp: PrepareDebit_def Let_def ap_upd_views res_ap fun_eq_iff split: if_splits)

text \<open>Charging a cost to the balance of a peer, the tail of \<open>increaseBalance\<close>.\<close>

lemma charge_balance:
  assumes "bindE (orZero (Balance a p)) (\<lambda>b a. bindE (ac_put a (peerBalanceKey p) (b + n))
      (\<lambda>_ a. (Inr (b + n), snd (decreaseOriginatedBalanceTo a p (b + n))))) = (r, a')"
  shows "ap a' = ap a \<and> res a' = res a \<and> thr a' = thr a \<and> shd a' = shd a \<and> cfg a' = cfg a \<and> sur a' = sur a \<and>
    (case r of Inl _ \<Rightarrow> bal a' = bal a | Inr b \<Rightarrow> b = bal a p + n \<and> bal a' = (bal a)(p := b))"
proof -
  obtain z t where z: "orZero (Balance a p) = (z, t)" by fastforce
  note rv = reads_views [OF orZero_Balance_reads(1) [OF z]]
  show ?thesis
  proof (cases z)
    case (Inl e)
    with assms z rv show ?thesis by auto
  next
    case (Inr b)
    obtain w u where w: "ac_put t (peerBalanceKey p) (b + n) = (w, u)" by fastforce
    show ?thesis
    proof (cases w)
      case w': (Inl e)
      with assms z Inr w reads_views [OF ac_put_fail [of t]] rv show ?thesis by auto
    next
      case w': (Inr x)
      note p = put_views [OF w [unfolded w']] put_balance(1) [OF w [unfolded w']]
      obtain v s where v: "decreaseOriginatedBalanceTo u p (b + n) = (v, s)" by fastforce
      with assms z Inr w w' have "r = Inr (b + n)" "a' = s" by auto
      with p rv orZero_Balance_value [of a p b t] z Inr decreaseOriginatedBalance_views [OF disjI1 [OF v]]
      show ?thesis by simp
    qed
  qed
qed

lemma put_surplus_cases:
  assumes "ac_put a (peerSurplusBalanceKey p) v = (w, s)"
  shows "ap s = ap a \<and> res s = res a \<and> thr s = thr a \<and> shd s = shd a \<and> cfg s = cfg a \<and> bal s = bal a \<and> org s = org a \<and>
    sur s = (if w = Inr () then (sur a)(p := v) else sur a)"
proof (cases w)
  case (Inl e)
  then show ?thesis using assms reads_views [OF ac_put_fail] by simp
next
  case (Inr u)
  then show ?thesis using assms put_views [of a _ v] put_balance(2) by simp
qed

text \<open>A debit consumes the surplus first; what is left is charged to the balance.\<close>

lemma increaseBalance_cases:
  assumes "increaseBalance a p n = (r, a')" "0 \<le> n"
  shows "ap a' = ap a \<and> res a' = res a \<and> thr a' = thr a \<and> shd a' = shd a \<and> cfg a' = cfg a \<and> bal a p \<le> bal a' p \<and>
    (\<forall>q. q \<noteq> p \<longrightarrow> bal a' q = bal a q \<and> sur a' q = sur a q) \<and>
    (\<forall>b. r = Inr b \<longrightarrow> b = bal a' p \<and> bal a' p - sur a' p = bal a p - sur a p + n \<and>
       sur a' p = max 0 (sur a p - n) \<and> 0 \<le> sur a p)"
proof -
  obtain z s where z: "SurplusBalance a p = (z, s)" by fastforce
  note rv = reads_views [OF Balance_reads(3) [OF z]]
  show ?thesis
  proof (cases z)
    case (Inl e)
    with assms z rv show ?thesis by (auto simp: increaseBalance_def)
  next
    case (Inr v)
    have v: "v = sur a p" "0 \<le> v" using SurplusBalance_value z Inr by blast+
    let ?tail = "\<lambda>c a. bindE (orZero (Balance a p)) (\<lambda>b a. bindE (ac_put a (peerBalanceKey p) (b + c))
        (\<lambda>_ a. (Inr (b + c), snd (decreaseOriginatedBalanceTo a p (b + c)))))"
    consider (cover) "0 < v" "0 \<le> v - n" | (part) "0 < v" "v - n < 0" | (none) "v = 0" using v by linarith
    then show ?thesis
    proof cases
      case cover
      obtain w t where w: "ac_put s (peerSurplusBalanceKey p) (v - n) = (w, t)" by fastforce
      have eq: "(r, a') = bindE (w, t) (\<lambda>_ a. Balance a p)"
        using assms z Inr w cover by (simp add: increaseBalance_def Let_def)
      obtain x u where x: "Balance t p = (x, u)" by fastforce
      note rt = reads_views [OF Balance_reads(1) [OF x]]
      have "(r, a') = (case w of Inl e \<Rightarrow> (Inl e, t) | Inr _ \<Rightarrow> (x, u))"
        using eq x by (simp split: sum.splits)
      with put_surplus_cases [OF w] rv rt Balance_value [of t p _ u] x v cover show ?thesis
        by (auto split: sum.splits)
    next
      case part
      obtain w t where w: "ac_put s (peerSurplusBalanceKey p) 0 = (w, t)" by fastforce
      have eq: "(r, a') = bindE (w, t) (\<lambda>_ a. ?tail (n - v) a)"
        using assms z Inr w part by (simp add: increaseBalance_def Let_def bindE_def split: sum.splits)
      show ?thesis
      proof (cases w)
        case (Inl e)
        with eq put_surplus_cases [OF w] rv show ?thesis by simp
      next
        case w': (Inr u)
        then have "?tail (n - v) t = (r, a')" using eq by simp
        from charge_balance [OF this] put_surplus_cases [OF w] rv v part w' show ?thesis
          by (auto split: sum.splits)
      qed
    next
      case none
      then have "?tail n s = (r, a')" using assms z Inr by (simp add: increaseBalance_def Let_def)
      from charge_balance [OF this] rv v none assms(2) show ?thesis by (auto split: sum.splits)
    qed
  qed
qed

text \<open>Applying a debit: on success or when the peer is over its limit, the action is applied
  and its price leaves the shadow reserve.\<close>

lemma debitApply_cases:
  assumes "debitApply a d = ((r, d'), a')" "\<not> act_applied d" "0 \<le> act_price d"
  shows "res a' = res a \<and> thr a' = thr a \<and> cfg a' = cfg a \<and>
    bal a (act_peer d) \<le> bal a' (act_peer d) \<and> (\<forall>q. q \<noteq> act_peer d \<longrightarrow> bal a' q = bal a q \<and> sur a' q = sur a q) \<and>
    (d' = d \<and> r \<noteq> None \<and> shd a' = shd a \<or>
     d' = d\<lparr>act_applied := True\<rparr> \<and> (r = None \<or> (\<exists>t. r = Some (BlockPeerError t))) \<and>
     shd a' = (shd a)(act_peer d := shd a (act_peer d) - act_price d) \<and>
     bal a' (act_peer d) - sur a' (act_peer d) = bal a (act_peer d) - sur a (act_peer d) + act_price d \<and>
     sur a' (act_peer d) = max 0 (sur a (act_peer d) - act_price d) \<and> 0 \<le> sur a (act_peer d))"
proof -
  let ?p = "act_peer d" and ?n = "act_price d"
  obtain x s1 where x: "increaseBalance a ?p ?n = (x, s1)" by fastforce
  note i = increaseBalance_cases [OF x assms(3)]
  show ?thesis
  proof (cases x)
    case (Inl e)
    then have "r = Some e" "d' = d" "a' = s1" using assms(1) x by (simp_all add: debitApply_def)
    then show ?thesis using i by simp
  next
    case (Inr b)
    let ?s2 = "ap_upd s1 ?p (\<lambda>p. p\<lparr>ap_shadowReservedBalance := ap_shadowReservedBalance p - ?n\<rparr>)"
    obtain t s3 where t: "timeNow ?s2 = (t, s3)" by fastforce
    obtain y s4 where y: "blocklistUntil s3 ?p 1 = (y, s4)" by fastforce
    note rs = reads_views [OF timeNow_reads [OF t]] reads_views [OF blocklistUntil_reads [OF y]]
    have "d' = d\<lparr>act_applied := True\<rparr> \<and> (r = None \<and> a' = s3 \<or> (\<exists>t. r = Some (BlockPeerError t)) \<and> a' = s4)"
      using assms(1) x Inr t y by (auto simp: debitApply_def Let_def split: if_splits sum.splits)
    moreover have "res s = res a \<and> thr s = thr a \<and> cfg s = cfg a \<and> bal s = bal s1 \<and> sur s = sur s1 \<and>
        shd s = (shd a)(?p := shd a ?p - ?n)" if "s = s3 \<or> s = s4" for s
      using rs i that by (elim disjE) (simp_all add: ap_upd_views res_ap fun_eq_iff)
    ultimately have v: "res a' = res a \<and> thr a' = thr a \<and> cfg a' = cfg a \<and> bal a' = bal s1 \<and> sur a' = sur s1 \<and>
        shd a' = (shd a)(?p := shd a ?p - ?n)"
      "d' = d\<lparr>act_applied := True\<rparr> \<and> (r = None \<or> (\<exists>t. r = Some (BlockPeerError t)))"
      by blast+
    from v i Inr show ?thesis by simp
  qed
qed

lemma debitApply_limit:
  assumes "debitApply a d = ((None, d'), a')" "0 \<le> ac_refreshRate a" "0 \<le> ac_lightRefreshRate a"
    "0 \<le> act_price d"
  shows "bal a' (act_peer d) < ap_disconnectLimit (ap a (act_peer d)) +
    (if ap_fullNode (ap a (act_peer d)) then ac_refreshRate a else ac_lightRefreshRate a)"
proof -
  let ?p = "act_peer d" and ?n = "act_price d"
  obtain b s1 where x: "increaseBalance a ?p ?n = (Inr b, s1)"
    using assms(1) by (cases "fst (increaseBalance a ?p ?n)"; cases "increaseBalance a ?p ?n")
      (auto simp: debitApply_def Let_def split: prod.splits)
  note i = increaseBalance_cases [OF x assms(4)]
  let ?s2 = "ap_upd s1 ?p (\<lambda>p. p\<lparr>ap_shadowReservedBalance := ap_shadowReservedBalance p - ?n\<rparr>)"
  obtain t s3 where t: "timeNow ?s2 = (t, s3)" by fastforce
  note rs = reads_views [OF timeNow_reads [OF t]]
  have c: "cfg s3 = cfg a" using rs i by simp
  let ?rate = "if ap_fullNode (ap a ?p) then ac_refreshRate a else ac_lightRefreshRate a"
  let ?u = "t div 1000 - ap_refreshReceivedTimestamp (ap a ?p)"
  have "ap s3 ?p = (ap a ?p)\<lparr>ap_shadowReservedBalance := ap_shadowReservedBalance (ap a ?p) - ?n\<rparr>"
    using rs i by (simp add: ap_upd_ap)
  then have "a' = s3 \<and> b < ap_disconnectLimit (ap a ?p) + (if ?u > 1 then 1 else ?u) * ?rate"
    using assms(1) x t cfg_fields(1,2) [OF c] unfolding debitApply_def Let_def
    by (simp split: if_splits prod.splits sum.splits)
  moreover have "(if ?u > 1 then 1 else ?u) * ?rate \<le> ?rate" using assms(2,3) by (intro capped_refresh) auto
  ultimately show ?thesis using i rs by (simp add: ap_upd_views)
qed

lemma debitCleanup_views:
  assumes "\<not> act_applied d"
  shows "res (debitCleanup a d) = res a" "thr (debitCleanup a d) = thr a"
    "shd (debitCleanup a d) = (shd a)(act_peer d := shd a (act_peer d) - act_price d)"
    "bal (debitCleanup a d) = bal a" "sur (debitCleanup a d) = sur a" "cfg (debitCleanup a d) = cfg a"
  using assms by (simp_all add: debitCleanup_def Let_def blocklist_views ap_upd_views res_ap fun_eq_iff)

lemma Disconnect_same: "same a (acct_Disconnect a p)"
proof -
  obtain r s where r: "blocklistUntil (getAccountingPeer a p) p 1 = (r, s)" by fastforce
  have "same a s"
    using same_trans [OF getAccountingPeer_same reads_same [OF blocklistUntil_reads [OF r]]] .
  moreover have "same s (emit (ap_upd s p (\<lambda>p. p\<lparr>ap_connected := False\<rparr>)) (BlocklistCall p n w))" for n w
    by (rule same_trans [OF upd_same emit_same]) simp_all
  ultimately show ?thesis
    using r getAccountingPeer_same [of a p]
    by (auto simp: acct_Disconnect_def Let_def intro: same_trans)
qed

text \<open>A new connection with a peer resets its reservations, whatever the store does.\<close>

lemma put_any_views:
  "ap (snd (ac_put a k v)) = ap a" "cfg (snd (ac_put a k v)) = cfg a"
  "ac_out (snd (ac_put a k v)) = ac_out a"
  "k' \<noteq> k \<Longrightarrow> kv (snd (ac_put a k v)) k' = kv a k'"
proof -
  obtain r s where r: "ac_put a k v = (r, s)" by fastforce
  have "ap s = ap a \<and> cfg s = cfg a \<and> ac_out s = ac_out a \<and> (k' \<noteq> k \<longrightarrow> kv s k' = kv a k')"
  proof (cases r)
    case (Inl e)
    then show ?thesis using ac_put_fail r by (auto simp: reads_def)
  next
    case (Inr u)
    then show ?thesis using ac_put_ok r by fastforce
  qed
  with r show "ap (snd (ac_put a k v)) = ap a" "cfg (snd (ac_put a k v)) = cfg a"
    "ac_out (snd (ac_put a k v)) = ac_out a" "k' \<noteq> k \<Longrightarrow> kv (snd (ac_put a k v)) k' = kv a k'"
    by simp_all
qed

lemma Connect_other:
  assumes "q \<noteq> p"
  shows "ap (acct_Connect a p full) q = ap a q" "bal (acct_Connect a p full) q = bal a q"
    "shd (acct_Connect a p full) q = shd a q"
    "cfg (acct_Connect a p full) = cfg a"
  using assms by (simp_all add: acct_Connect_def Let_def put_any_views ap_upd_ap bal_def shd_def)

lemma Connect_cfg: "cfg (acct_Connect a p full) = cfg a"
  by (simp add: acct_Connect_def Let_def put_any_views)

lemma Connect_self:
  "res (acct_Connect a p full) p = 0" "thr (acct_Connect a p full) p = thr a p"
  "bal (acct_Connect a p full) p \<in> {0, bal a p}"
  "shd (acct_Connect a p full) p = shd a p - ap_shadowReservedBalance (ap a p)"
proof -
  let ?a = "ap_upd (getAccountingPeer a p) p (\<lambda>q. q\<lparr>ap_connected := True, ap_fullNode := full,
      ap_shadowReservedBalance := 0, ap_ghostBalance := 0, ap_reservedBalance := 0, ap_refreshReservedBalance := 0,
      ap_paymentThresholdForPeer := if full then ac_paymentThreshold (getAccountingPeer a p) else ac_lightPaymentThreshold (getAccountingPeer a p),
      ap_thresholdGrowAt := if full then ac_thresholdGrowStep (getAccountingPeer a p) else ac_lightThresholdGrowStep (getAccountingPeer a p),
      ap_disconnectLimit := if full then ac_disconnectLimit (getAccountingPeer a p) else ac_lightDisconnectLimit (getAccountingPeer a p)\<rparr>)"
  have c: "acct_Connect a p full = snd (ac_put (snd (ac_put ?a (peerBalanceKey p) 0)) (peerSurplusBalanceKey p) 0)"
    by (simp add: acct_Connect_def Let_def)
  have "kv (snd (ac_put ?a (peerBalanceKey p) 0)) (peerBalanceKey p) \<in> {Some 0, kv a (peerBalanceKey p)}"
  proof -
    obtain r s where r: "ac_put ?a (peerBalanceKey p) 0 = (r, s)" by fastforce
    show ?thesis
    proof (cases r)
      case (Inl e)
      then show ?thesis using ac_put_fail r by (auto simp: reads_def)
    next
      case (Inr u)
      then show ?thesis using ac_put_ok r by fastforce
    qed
  qed
  then show "bal (acct_Connect a p full) p \<in> {0, bal a p}" unfolding c by (auto simp: bal_def put_any_views)
  show "res (acct_Connect a p full) p = 0" "thr (acct_Connect a p full) p = thr a p"
    "shd (acct_Connect a p full) p = shd a p - ap_shadowReservedBalance (ap a p)"
    unfolding c by (simp_all add: res_def thr_def shd_def put_any_views ap_upd_ap)
qed

section \<open>Interleavings of the handlers\<close>

text \<open>A session with a peer \<open>p\<close>: any interleaving of the handlers for all peers, with the
  credit and debit actions that are still held by their callers. An action is applied at most
  once and cleaned up at the end, in any order with other events; peers connect and disconnect at
  any time, also while actions are held. \<open>T\<close> bounds the thresholds the peer announces; \<open>se_sent\<close>
  and \<open>se_refreshed\<close> add up the notified payments to the peer and the refreshments accepted from
  it. \<open>Connect\<close> resets the reserved and the shadow reserved balance of the peer although
  actions may be in flight; \<open>se_lost\<close> and \<open>se_wiped\<close> add up what it reset.\<close>

record session =
  se_acct :: accounting
  se_credits :: "action list"
  se_debits :: "action list"
  se_sent :: int
  se_refreshed :: int
  se_lost :: int
  se_wiped :: int

definition at_peer :: "address \<Rightarrow> address \<Rightarrow> int \<Rightarrow> int" where
  "at_peer p q n = (if q = p then n else 0)"

inductive session_step :: "address \<Rightarrow> int \<Rightarrow> session \<Rightarrow> session \<Rightarrow> bool" for p T where
  prepare_credit: "PrepareCredit (se_acct S) lk q price og = (Inr c, a') \<Longrightarrow>
    session_step p T S (S\<lparr>se_acct := a', se_credits := c # se_credits S\<rparr>)"
| prepare_credit_fail: "PrepareCredit (se_acct S) lk q price og = (Inl e, a') \<Longrightarrow>
    session_step p T S (S\<lparr>se_acct := a'\<rparr>)"
| credit_apply: "se_credits S = xs @ c # ys \<Longrightarrow> \<not> act_applied c \<Longrightarrow>
    creditApply (se_acct S) c = ((r, c'), a') \<Longrightarrow>
    session_step p T S (S\<lparr>se_acct := a', se_credits := xs @ c' # ys\<rparr>)"
| credit_cleanup: "se_credits S = xs @ c # ys \<Longrightarrow>
    session_step p T S (S\<lparr>se_acct := creditCleanup (se_acct S) c, se_credits := xs @ ys\<rparr>)"
| prepare_debit: "PrepareDebit (se_acct S) lk q price = (Inr d, a') \<Longrightarrow>
    session_step p T S (S\<lparr>se_acct := a', se_debits := d # se_debits S\<rparr>)"
| prepare_debit_fail: "PrepareDebit (se_acct S) lk q price = (Inl e, a') \<Longrightarrow>
    session_step p T S (S\<lparr>se_acct := a'\<rparr>)"
| debit_apply: "se_debits S = xs @ d # ys \<Longrightarrow> \<not> act_applied d \<Longrightarrow>
    debitApply (se_acct S) d = ((r, d'), a') \<Longrightarrow>
    session_step p T S (S\<lparr>se_acct := a', se_debits := xs @ d' # ys\<rparr>)"
| debit_cleanup: "se_debits S = xs @ d # ys \<Longrightarrow>
    session_step p T S (S\<lparr>se_acct := debitCleanup (se_acct S) d, se_debits := xs @ ys\<rparr>)"
| payment_sent: "0 \<le> n \<Longrightarrow>
    session_step p T S (S\<lparr>se_acct := NotifyPaymentSent (se_acct S) q n failed,
      se_sent := se_sent S + at_peer p q n\<rparr>)"
| payment_received: "0 \<le> n \<Longrightarrow> NotifyPaymentReceived (se_acct S) q n = (r, a') \<Longrightarrow>
    session_step p T S (S\<lparr>se_acct := a'\<rparr>)"
| refreshment_sent: "0 \<le> n \<Longrightarrow>
    session_step p T S (S\<lparr>se_acct := NotifyRefreshmentSent (se_acct S) q att n ts iv err\<rparr>)"
| refreshment_received: "0 \<le> n \<Longrightarrow> NotifyRefreshmentReceived (se_acct S) q n ts = (r, a') \<Longrightarrow>
    session_step p T S (S\<lparr>se_acct := a', se_refreshed := se_refreshed S + at_peer p q n\<rparr>)"
| threshold: "(q = p \<Longrightarrow> t \<le> T) \<Longrightarrow>
    session_step p T S (S\<lparr>se_acct := NotifyPaymentThreshold (se_acct S) q t\<rparr>)"
| connect: "session_step p T S (S\<lparr>se_acct := acct_Connect (se_acct S) q full,
      se_lost := se_lost S + at_peer p q (ap_reservedBalance (ap (se_acct S) q)),
      se_wiped := se_wiped S + at_peer p q (ap_shadowReservedBalance (ap (se_acct S) q))\<rparr>)"
| disconnect: "session_step p T S (S\<lparr>se_acct := acct_Disconnect (se_acct S) q\<rparr>)"

definition pending :: "address \<Rightarrow> action list \<Rightarrow> int" where
  "pending p cs = (\<Sum>c\<leftarrow>cs. if act_peer c = p \<and> \<not> act_applied c then act_price c else 0)"

lemma pending_simps [simp]:
  "pending p [] = 0"
  "pending p (c # cs) = (if act_peer c = p \<and> \<not> act_applied c then act_price c else 0) + pending p cs"
  "pending p (cs @ ds) = pending p cs + pending p ds"
  by (simp_all add: pending_def)

lemma pending_nonneg: "\<forall>c \<in> set cs. 0 \<le> act_price c \<Longrightarrow> 0 \<le> pending p cs"
  by (induction cs) auto

definition owed :: "address \<Rightarrow> session \<Rightarrow> int" where
  "owed p S = max 0 (- bal (se_acct S) p) + pending p (se_credits S)"

text \<open>The invariant of a session that started in \<open>S0\<close>.\<close>

definition session_inv :: "address \<Rightarrow> int \<Rightarrow> session \<Rightarrow> session \<Rightarrow> bool" where
  "session_inv p T S0 S \<longleftrightarrow>
     (\<forall>c \<in> set (se_credits S) \<union> set (se_debits S). 0 \<le> act_price c) \<and>
     0 \<le> res (se_acct S) p \<and> res (se_acct S) p \<le> pending p (se_credits S) \<and>
     pending p (se_credits S) \<le> res (se_acct S) p + se_lost S \<and> 0 \<le> se_lost S \<and>
     shd (se_acct S) p + se_sent S + se_wiped S - pending p (se_debits S) = shd (se_acct S0) p \<and>
     thr (se_acct S) p \<le> T \<and> 0 \<le> se_refreshed S \<and>
     cfg (se_acct S) = cfg (se_acct S0) \<and>
     owed p S \<le> T + ac_refreshRate (se_acct S0) + se_refreshed S + se_lost S"

definition session_start :: "address \<Rightarrow> int \<Rightarrow> session \<Rightarrow> bool" where
  "session_start p T S \<longleftrightarrow> se_credits S = [] \<and> se_debits S = [] \<and> se_sent S = 0 \<and> se_refreshed S = 0 \<and>
     se_lost S = 0 \<and> se_wiped S = 0 \<and> res (se_acct S) p = 0 \<and> 0 \<le> bal (se_acct S) p \<and>
     thr (se_acct S) p \<le> T \<and> 0 \<le> T \<and> 0 \<le> ac_refreshRate (se_acct S)"

lemma session_inv_start: "session_start p T S \<Longrightarrow> session_inv p T S S"
  by (simp add: session_start_def session_inv_def owed_def)

lemma same_inv:
  assumes "session_inv p T S0 S" "same (se_acct S) a'"
  shows "session_inv p T S0 (S\<lparr>se_acct := a'\<rparr>)"
  using assms same_bal [OF assms(2)] by (simp add: session_inv_def owed_def same_def)

text \<open>The reservation of a credit that ends is released, as far as it is still there.\<close>

lemma released_pending:
  assumes "session_inv p T S0 S" "se_credits S = xs @ c # ys" "\<not> act_applied c"
  shows "0 \<le> released (se_acct S) (act_peer c) (act_price c) p \<and>
    released (se_acct S) (act_peer c) (act_price c) p \<le> pending p (xs @ ys) \<and>
    pending p (xs @ ys) \<le> released (se_acct S) (act_peer c) (act_price c) p + se_lost S"
proof -
  have "0 \<le> pending p xs" "0 \<le> pending p ys"
    using assms by (auto simp: session_inv_def intro!: pending_nonneg)
  then show ?thesis using assms by (auto simp: session_inv_def released_def)
qed

lemma inv_credit_apply:
  assumes inv: "session_inv p T S0 S" and c: "se_credits S = xs @ c # ys" "\<not> act_applied c"
    and ap: "creditApply (se_acct S) c = ((r, c'), a')"
  shows "session_inv p T S0 (S\<lparr>se_acct := a', se_credits := xs @ c' # ys\<rparr>)"
  using ap c(2)
proof (cases rule: creditApply_cases)
  case (fail e)
  then show ?thesis using same_inv [OF inv fail(3)] c by (simp add: session_inv_def owed_def)
next
  case applied
  have n: "0 \<le> act_price c" using inv c by (simp add: session_inv_def)
  have "max 0 (- bal a' p) + pending p (xs @ c' # ys) \<le> max 0 (- bal (se_acct S) p) + pending p (se_credits S)"
    using applied n c by auto
  moreover have "pending p (xs @ c' # ys) = pending p (xs @ ys)" using applied by simp
  moreover have "\<forall>c \<in> set (xs @ c' # ys) \<union> set (se_debits S). 0 \<le> act_price c"
    using inv c applied(1) by (auto simp: session_inv_def)
  ultimately show ?thesis using applied released_pending [OF inv c] inv
    unfolding session_inv_def owed_def by (simp del: pending_simps)
qed

lemma inv_credit_cleanup:
  assumes inv: "session_inv p T S0 S" and c: "se_credits S = xs @ c # ys"
  shows "session_inv p T S0 (S\<lparr>se_acct := creditCleanup (se_acct S) c, se_credits := xs @ ys\<rparr>)"
proof (cases "act_applied c")
  case True
  then show ?thesis using inv c by (simp add: creditCleanup_def session_inv_def owed_def)
next
  case False
  have n: "0 \<le> act_price c" using inv c by (simp add: session_inv_def)
  have "pending p (xs @ ys) \<le> pending p (se_credits S)" using c n by simp
  moreover have "\<forall>c \<in> set (xs @ ys) \<union> set (se_debits S). 0 \<le> act_price c" using inv c by (auto simp: session_inv_def)
  ultimately show ?thesis
    using creditCleanup_views [OF False] kv_views [OF creditCleanup_views(4) [OF False]] released_pending [OF inv c False] inv
    unfolding session_inv_def owed_def by (simp del: pending_simps)
qed

lemma inv_debit_apply:
  assumes inv: "session_inv p T S0 S" and d: "se_debits S = xs @ d # ys" "\<not> act_applied d"
    and ap: "debitApply (se_acct S) d = ((r, d'), a')"
  shows "session_inv p T S0 (S\<lparr>se_acct := a', se_debits := xs @ d' # ys\<rparr>)"
proof -
  have n: "0 \<le> act_price d" using inv d by (simp add: session_inv_def)
  note v = debitApply_cases [OF ap d(2) n]
  have "bal (se_acct S) p \<le> bal a' p" using v by (cases "act_peer d = p") simp_all
  moreover have dd: "d' = d \<and> shd a' = shd (se_acct S) \<or> d' = d\<lparr>act_applied := True\<rparr> \<and>
      shd a' = (shd (se_acct S))(act_peer d := shd (se_acct S) (act_peer d) - act_price d)"
    using v by blast
  moreover have "act_price d' = act_price d" using dd by (elim disjE) simp_all
  moreover have "shd a' p - pending p (xs @ d' # ys) = shd (se_acct S) p - pending p (xs @ d # ys)"
    using dd d(2) by (elim disjE) simp_all
  moreover have "res a' = res (se_acct S)" "thr a' = thr (se_acct S)" "cfg a' = cfg (se_acct S)"
    using v by blast+
  ultimately show ?thesis using inv d(1) n unfolding session_inv_def owed_def
    by (simp del: pending_simps) linarith
qed

lemma inv_debit_cleanup:
  assumes inv: "session_inv p T S0 S" and d: "se_debits S = xs @ d # ys"
  shows "session_inv p T S0 (S\<lparr>se_acct := debitCleanup (se_acct S) d, se_debits := xs @ ys\<rparr>)"
proof (cases "act_applied d")
  case True
  then show ?thesis using inv d by (simp add: debitCleanup_def session_inv_def owed_def)
next
  case False
  with debitCleanup_views [OF False] inv d show ?thesis by (auto simp: session_inv_def owed_def)
qed

lemma inv_prepare_credit:
  assumes inv: "session_inv p T S0 S" and rr: "0 \<le> ac_refreshRate (se_acct S0)"
    and c: "PrepareCredit (se_acct S) lk q price og = (Inr c, a')"
  shows "session_inv p T S0 (S\<lparr>se_acct := a', se_credits := c # se_credits S\<rparr>)"
proof -
  have cf: "ac_refreshRate (se_acct S) = ac_refreshRate (se_acct S0)"
    using inv cfg_fields(1) [of "se_acct S" "se_acct S0"] by (simp add: session_inv_def)
  note ok = PrepareCredit_ok [OF c, unfolded cf, OF rr]
  have v: "res a' = (res (se_acct S))(q := res (se_acct S) q + uint price)"
      "thr a' = thr (se_acct S)" "shd a' = shd (se_acct S)" "kv a' = kv (se_acct S)" "cfg a' = cfg (se_acct S)"
      "max 0 (- bal (se_acct S) q) + res a' q + sur (se_acct S) q \<le>
        thr (se_acct S) q + ac_refreshRate (se_acct S0)"
      "c = \<lparr>act_price = uint price, act_peer = q, act_originated = og, act_applied = False\<rparr>"
      "0 \<le> sur (se_acct S) q"
    using ok by blast+
  with v kv_views [OF v(4)] inv show ?thesis
    by (cases "q = p") (auto simp: session_inv_def owed_def)
qed

lemma session_step_inv:
  assumes "session_step p T S S'" "session_inv p T S0 S" "0 \<le> ac_refreshRate (se_acct S0)"
  shows "session_inv p T S0 S'"
  using assms
proof (cases rule: session_step.cases)
  case (prepare_debit lk q price d a')
  with PrepareDebit_views [OF prepare_debit(2)] kv_views [of a' "se_acct S"] assms(2)
  show ?thesis by (auto simp: session_inv_def owed_def)
next
  case (prepare_debit_fail lk q price e a')
  with PrepareDebit_views [OF prepare_debit_fail(2)] kv_views [of a' "se_acct S"] assms(2)
  show ?thesis by (auto simp: session_inv_def owed_def)
next
  case (payment_sent n q failed)
  with NotifyPaymentSent_views [OF refl, of "se_acct S" q n failed] assms(2)
  show ?thesis by (auto simp: session_inv_def owed_def at_peer_def)
next
  case (payment_received n q r a')
  have "min 0 (bal a' p) = min 0 (bal (se_acct S) p)"
    using NotifyPaymentReceived_cases [OF payment_received(3,2)] by (cases "p = q") auto
  then have "max 0 (- bal a' p) = max 0 (- bal (se_acct S) p)" by (auto simp: min_def max_def split: if_splits)
  with NotifyPaymentReceived_cases [OF payment_received(3,2)] assms(2) payment_received(1)
  show ?thesis by (simp add: session_inv_def owed_def)
next
  case (refreshment_sent n q att ts iv err)
  with NotifyRefreshmentSent_views [OF refl, of "se_acct S" q att n ts iv err] assms(2)
  show ?thesis by (auto simp: session_inv_def owed_def)
next
  case (refreshment_received n q ts r a')
  with NotifyRefreshmentReceived_cases [OF refreshment_received(3)] assms(2)
  show ?thesis by (auto simp: session_inv_def owed_def at_peer_def)
next
  case (threshold q t)
  with NotifyPaymentThreshold_views [of "se_acct S" q t] kv_views [OF NotifyPaymentThreshold_views(5), of "se_acct S" q t] assms(2)
  show ?thesis by (auto simp: session_inv_def owed_def)
next
  case (connect q full)
  show ?thesis
  proof (cases "q = p")
    case True
    have "max 0 (- bal (acct_Connect (se_acct S) p full) p) \<le> max 0 (- bal (se_acct S) p)" using Connect_self(3) [of "se_acct S" p full] by auto
    then have "max 0 (- bal (acct_Connect (se_acct S) p full) p) + pending p (se_credits S) \<le>
        T + ac_refreshRate (se_acct S0) + se_refreshed S + (se_lost S + res (se_acct S) p)"
      using assms(2) unfolding session_inv_def owed_def by linarith
    with Connect_self(1,2,4) [of "se_acct S" p full] Connect_cfg [of "se_acct S" p full] assms(2) connect True show ?thesis
      by (simp add: session_inv_def owed_def at_peer_def flip: res_def)
  next
    case False
    with Connect_other [of p q "se_acct S" full] assms(2) connect
    show ?thesis by (auto simp: session_inv_def owed_def res_def thr_def at_peer_def)
  qed
next
  case (disconnect q)
  with same_inv [OF assms(2) Disconnect_same] show ?thesis by simp
qed (use same_inv [OF assms(2) PrepareCredit_fail] inv_prepare_credit inv_credit_apply inv_credit_cleanup
    inv_debit_apply inv_debit_cleanup in \<open>auto\<close>)

lemma session_reachable_inv:
  assumes "(session_step p T)\<^sup>*\<^sup>* S0 S" "session_start p T S0"
  shows "session_inv p T S0 S"
  using assms
proof (induction rule: rtranclp_induct)
  case base
  then show ?case by (rule session_inv_start)
next
  case (step S S')
  then show ?case using session_step_inv by (auto simp: session_start_def)
qed

section \<open>Properties\<close>

text \<open>C1: in every interleaving of credits, debits, settlements, connections, disconnections and store
  failures, what the node owes to a peer together with the credits in flight (and so with the
  reserved balance, which is at most these) never exceeds the largest threshold announced by
  the peer, plus one second of refreshment, plus the refreshments accepted from the peer, plus
  the reservations that \<open>Connect\<close> of this peer reset while credits were in flight. The session
  starts with no actions, no reservation and no debt.\<close>

theorem session_debt_bounded:
  assumes "session_start p T S0" "(session_step p T)\<^sup>*\<^sup>* S0 S"
  shows "max 0 (- bal (se_acct S) p) + pending p (se_credits S) \<le>
      T + ac_refreshRate (se_acct S0) + se_refreshed S + se_lost S \<and>
    max 0 (- bal (se_acct S) p) + res (se_acct S) p \<le>
      T + ac_refreshRate (se_acct S0) + se_refreshed S + se_lost S"
  using session_reachable_inv [OF assms(2,1)] by (simp add: session_inv_def owed_def)

definition demo_store :: "int statestore" where
  "demo_store = \<lparr>st_kv = Map.empty, st_keys = [], st_tick = 0, st_fault = (\<lambda>_. False)\<rparr>"

definition demo_peer :: address where "demo_peer = [7]"

definition demo_acct :: accounting where
  "demo_acct = acct_Connect (NewAccounting 1000 25 50 demo_store 100 10 (\<lambda>n. 12000)) demo_peer True"

definition demo_session :: session where
  "demo_session = \<lparr>se_acct = demo_acct, se_credits = [], se_debits = [], se_sent = 0, se_refreshed = 0, se_lost = 0, se_wiped = 0\<rparr>"

lemma demo_start: "session_start demo_peer 1000 demo_session"
  by code_simp

definition demo_prepared :: session where
  "demo_prepared = (case PrepareCredit demo_acct True demo_peer 30 True of
     (r, a) \<Rightarrow> demo_session\<lparr>se_acct := a, se_credits := [projr r]\<rparr>)"

lemma demo_step: "session_step demo_peer 1000 demo_session demo_prepared"
proof -
  let ?r = "PrepareCredit demo_acct True demo_peer 30 True"
  have "\<not> isl (fst ?r)" by code_simp
  then have "PrepareCredit (se_acct demo_session) True demo_peer 30 True = (Inr (projr (fst ?r)), snd ?r)"
    by (simp add: demo_session_def prod_eq_iff)
  from session_step.prepare_credit [OF this, of demo_peer 1000] show ?thesis
    by (simp add: demo_prepared_def demo_session_def case_prod_beta)
qed

theorem session_debt_bounded_witness:
  "max 0 (- bal (se_acct demo_prepared) demo_peer) + pending demo_peer (se_credits demo_prepared) \<le> 1100 \<and>
   pending demo_peer (se_credits demo_prepared) = 30"
proof -
  have "pending demo_peer (se_credits demo_prepared) = 30" "ac_refreshRate (se_acct demo_session) = 100"
    "se_refreshed demo_prepared = 0" "se_lost demo_prepared = 0"
    by code_simp+
  with session_debt_bounded [OF demo_start r_into_rtranclp [of "session_step demo_peer 1000", OF demo_step]]
  show ?thesis by simp
qed

text \<open>C2: in every such interleaving the reserved balance is at most the sum of the prices of the
  credits still in flight, and falls short of it by at most the reservations that \<open>Connect\<close> of this
  peer reset; so as long as it reset none, it is exactly that sum and releasing a credit never
  exceeds it. The shadow reserve grows by exactly the debits still in flight plus the payments
  started and not yet reported, less what \<open>Connect\<close> of this peer reset of it.\<close>

theorem session_reservations:
  assumes "session_start p T S0" "(session_step p T)\<^sup>*\<^sup>* S0 S"
  shows "0 \<le> ap_reservedBalance (ap (se_acct S) p) \<and>
    ap_reservedBalance (ap (se_acct S) p) \<le> pending p (se_credits S) \<and>
    pending p (se_credits S) \<le> ap_reservedBalance (ap (se_acct S) p) + se_lost S \<and>
    (se_lost S = 0 \<longrightarrow> ap_reservedBalance (ap (se_acct S) p) = pending p (se_credits S) \<and>
      (\<forall>c \<in> set (se_credits S). act_peer c = p \<and> \<not> act_applied c \<longrightarrow>
        act_price c \<le> ap_reservedBalance (ap (se_acct S) p))) \<and>
    ap_shadowReservedBalance (ap (se_acct S) p) - ap_shadowReservedBalance (ap (se_acct S0) p) =
      pending p (se_debits S) +
      (pays p (ac_out (se_acct S)) - pays p (ac_out (se_acct S0)) - se_sent S) - se_wiped S"
proof -
  note inv = session_reachable_inv [OF assms(2,1)]
  have "act_price c \<le> pending p (se_credits S)"
    if c: "c \<in> set (se_credits S)" "act_peer c = p" "\<not> act_applied c" for c
  proof -
    obtain xs ys where xs: "se_credits S = xs @ c # ys" using c(1) by (meson split_list)
    have "0 \<le> pending p xs" "0 \<le> pending p ys"
      using inv xs by (auto simp: session_inv_def intro!: pending_nonneg)
    then show ?thesis using xs c by simp
  qed
  with inv show ?thesis by (auto simp: session_inv_def res_def shd_def)
qed

text \<open>The peer connects anew while the credit is in flight: its reservation is lost.\<close>

definition demo_reconnected :: session where
  "demo_reconnected = demo_prepared\<lparr>se_acct := acct_Connect (se_acct demo_prepared) demo_peer True,
      se_lost := se_lost demo_prepared + at_peer demo_peer demo_peer (ap_reservedBalance (ap (se_acct demo_prepared) demo_peer)),
      se_wiped := se_wiped demo_prepared + at_peer demo_peer demo_peer (ap_shadowReservedBalance (ap (se_acct demo_prepared) demo_peer))\<rparr>"

theorem session_reservations_witness:
  "ap_reservedBalance (ap (se_acct demo_prepared) demo_peer) = pending demo_peer (se_credits demo_prepared) \<and>
   pending demo_peer (se_credits demo_prepared) = 30 \<and>
   ap_reservedBalance (ap (se_acct demo_reconnected) demo_peer) = 0 \<and>
   pending demo_peer (se_credits demo_reconnected) \<le> 30"
proof -
  have v: "pending demo_peer (se_credits demo_prepared) = 30" "se_lost demo_prepared = 0"
    "ap_reservedBalance (ap (se_acct demo_reconnected) demo_peer) = 0" "se_lost demo_reconnected = 30" by code_simp+
  note run = r_into_rtranclp [of "session_step demo_peer 1000", OF demo_step]
  have "session_step demo_peer 1000 demo_prepared demo_reconnected"
    unfolding demo_reconnected_def by (rule session_step.connect)
  from session_reservations [OF demo_start rtranclp.rtrancl_into_rtrancl [OF run this]]
    session_reservations [OF demo_start run] v show ?thesis by simp
qed

text \<open>C3: a successful \<open>PrepareCredit\<close> reserves exactly the price, changes no stored balance, and
  leaves debt, reservations and surplus together within the payment threshold plus one second of
  refreshment; when it fails nothing is reserved and no balance changes.\<close>

theorem prepare_credit_correct:
  assumes "PrepareCredit a lk p price og = (r, a')" "0 \<le> ac_refreshRate a"
  shows "kv a' = kv a \<and> (case r of
     Inr c \<Rightarrow> res a' = (res a)(p := res a p + uint price) \<and> act_price c = uint price \<and> act_peer c = p \<and>
       lk \<and> ap_connected (ap a p) \<and>
       max 0 (- bal a p) + res a' p + sur a p \<le> ap_paymentThreshold (ap a p) + ac_refreshRate a
   | Inl e \<Rightarrow> res a' = res a)"
proof (cases r)
  case (Inl e)
  then show ?thesis using PrepareCredit_fail assms(1) by (simp add: same_def)
next
  case (Inr c)
  from PrepareCredit_ok [OF assms(1) [unfolded Inr] assms(2)] Inr show ?thesis
    by (auto simp: res_ap)
qed

theorem prepare_credit_correct_witness:
  "kv (snd (PrepareCredit demo_acct True demo_peer 30 True)) = kv demo_acct"
proof -
  have "0 \<le> ac_refreshRate demo_acct" by code_simp
  from prepare_credit_correct [OF prod.collapse [symmetric] this] show ?thesis by blast
qed

text \<open>Applying a credit either fails before anything is written, or takes the price off the
  balance and releases the reservation; for a request the node originated the originated balance
  then follows, but never falls below the (negative) balance.\<close>

lemma credit_apply_correct:
  assumes "creditApply a c = ((r, c'), a')" "\<not> act_applied c"
  shows "(r \<noteq> None \<and> c' = c \<and> kv a' = kv a \<and> res a' = res a) \<or>
    (act_applied c' \<and> sur a' = sur a \<and>
     bal a' = (bal a)(act_peer c := bal a (act_peer c) - act_price c) \<and>
     (act_price c \<le> res a (act_peer c) \<longrightarrow>
        res a' = (res a)(act_peer c := res a (act_peer c) - act_price c)) \<and>
     (r = None \<and> act_originated c \<longrightarrow>
        org a' (act_peer c) = max (org a (act_peer c) - act_price c) (min 0 (bal a' (act_peer c)))))"
  using assms
proof (cases rule: creditApply_cases)
  case (fail e)
  then show ?thesis by (simp add: same_def)
next
  case applied
  then show ?thesis by (auto simp: released_def fun_eq_iff)
qed

text \<open>C12: a payment received lowers the net balance (balance minus surplus) by exactly the amount;
  it is used to pay off what the peer owes, never turns the balance negative, and the rest is
  kept as surplus. Other peers and the originated balance are not affected.\<close>

theorem payment_received_correct:
  assumes "NotifyPaymentReceived a p n = (Inr (), a')" "0 \<le> n"
  shows "bal a' p - sur a' p = bal a p - sur a p - n \<and>
    bal a' p = (if bal a p \<le> 0 then bal a p else max 0 (bal a p - n)) \<and> sur a p \<le> sur a' p \<and>
    org a' = org a \<and> (\<forall>q. q \<noteq> p \<longrightarrow> bal a' q = bal a q \<and> sur a' q = sur a q)"
  using NotifyPaymentReceived_cases [OF assms] by blast

theorem payment_received_correct_witness:
  "(case NotifyPaymentReceived demo_acct demo_peer 12 of (r, a') \<Rightarrow> r = Inr () \<and> bal a' demo_peer - sur a' demo_peer = - 12)"
proof -
  have "fst (NotifyPaymentReceived demo_acct demo_peer 12) = Inr ()" "bal demo_acct demo_peer = 0"
    "sur demo_acct demo_peer = 0"
    by code_simp+
  with payment_received_correct [of demo_acct demo_peer 12 "snd (NotifyPaymentReceived demo_acct demo_peer 12)"]
  show ?thesis by (simp add: case_prod_beta prod_eq_iff)
qed

text \<open>C6: a debit that is applied raises the net balance of the peer by exactly the price, using up
  the surplus first; and when no blocklisting is requested the balance stays below the disconnect
  limit plus one second of refreshment.\<close>

theorem debit_apply_correct:
  assumes "debitApply a d = ((r, d'), a')" "\<not> act_applied d" "0 \<le> act_price d"
    "0 \<le> ac_refreshRate a" "0 \<le> ac_lightRefreshRate a"
  shows "(act_applied d' \<longrightarrow>
      bal a' (act_peer d) - sur a' (act_peer d) = bal a (act_peer d) - sur a (act_peer d) + act_price d \<and>
      sur a' (act_peer d) = max 0 (sur a (act_peer d) - act_price d)) \<and>
    (\<not> act_applied d' \<longrightarrow> r \<noteq> None) \<and>
    (r = None \<longrightarrow> bal a' (act_peer d) < ap_disconnectLimit (ap a (act_peer d)) +
      (if ap_fullNode (ap a (act_peer d)) then ac_refreshRate a else ac_lightRefreshRate a)) \<and>
    (\<forall>q. q \<noteq> act_peer d \<longrightarrow> bal a' q = bal a q \<and> sur a' q = sur a q)"
proof -
  have lim: "r = None \<longrightarrow> bal a' (act_peer d) < ap_disconnectLimit (ap a (act_peer d)) +
      (if ap_fullNode (ap a (act_peer d)) then ac_refreshRate a else ac_lightRefreshRate a)"
    using debitApply_limit [of a d d' a'] assms by blast
  note v = debitApply_cases [OF assms(1-3)]
  then have "\<forall>q. q \<noteq> act_peer d \<longrightarrow> bal a' q = bal a q \<and> sur a' q = sur a q" by blast
  moreover have "d' = d \<and> r \<noteq> None \<or> act_applied d' \<and>
      bal a' (act_peer d) - sur a' (act_peer d) = bal a (act_peer d) - sur a (act_peer d) + act_price d \<and>
      sur a' (act_peer d) = max 0 (sur a (act_peer d) - act_price d)"
    using v by (elim conjE disjE) simp_all
  ultimately show ?thesis using lim assms(2) by blast
qed

theorem debit_apply_correct_witness:
  "(case debitApply demo_acct \<lparr>act_price = 40, act_peer = demo_peer, act_originated = False, act_applied = False\<rparr> of
     ((r, d'), a') \<Rightarrow> act_applied d' \<and> bal a' demo_peer - sur a' demo_peer = 40)"
proof -
  let ?d = "\<lparr>act_price = 40, act_peer = demo_peer, act_originated = False, act_applied = False\<rparr>"
  obtain r d' a' where e: "debitApply demo_acct ?d = ((r, d'), a')" by (metis surj_pair)
  have "act_applied (snd (fst (debitApply demo_acct ?d)))" "0 \<le> ac_refreshRate demo_acct"
    "0 \<le> ac_lightRefreshRate demo_acct" "bal demo_acct demo_peer = 0" "sur demo_acct demo_peer = 0"
    by code_simp+
  with debit_apply_correct [OF e] e show ?thesis by simp
qed

section \<open>Settlement amounts and reports\<close>

lemma shadowBalance_value:
  assumes "shadowBalance a p = (Inr n, a')" "0 < n"
  shows "n = - bal a p - ap_shadowReservedBalance (ap a p)"
proof -
  obtain r s where r: "ac_get a (peerBalanceKey p) = (r, s)" by fastforce
  have ap: "ap s = ap a" using ac_get_reads [OF r] by (simp add: reads_def)
  show ?thesis
  proof (cases r)
    case (Inl e)
    with assms r show ?thesis by (cases e) (auto simp: shadowBalance_def)
  next
    case (Inr v)
    obtain z t where z: "SurplusBalance s p = (z, t)" by fastforce
    have "ap t = ap s" using Balance_reads(3) [OF z] by (simp add: reads_def)
    moreover have "bal a p = v" using ac_get_value(1) r Inr by (simp add: bal_def)
    ultimately show ?thesis
      using assms r Inr z ap by (cases z) (auto simp: shadowBalance_def Let_def split: if_splits)
  qed
qed

lemma settle_monetary_out:
  assumes "settle_monetary a p now = (r, a')" "0 \<le> ac_refreshRate a"
    "\<And>k. ap_refreshTimestampMilliseconds (ap a p) \<le> ac_clock a k"
  shows "ac_out a' = ac_out a \<or> (\<exists>n. ac_out a' = ac_out a @ [PayCall p n] \<and> ac_payFunction a \<and>
    \<not> ap_paymentOngoing (ap a p) \<and> ap_paymentOngoing (ap a' p) \<and>
    ac_minimumPayment a \<le> n \<and> n \<le> - org a p \<and> n \<le> - bal a p - ap_shadowReservedBalance (ap a p))"
proof -
  obtain x s1 where x: "orZero (OriginatedBalance a p) = (x, s1)" by fastforce
  note r1 = orZero_Balance_reads(2) [OF x]
  obtain t s2 where t: "timeNow s1 = (t, s2)" by fastforce
  have t': "t = ac_clock s1 (ac_readings s1)" using t by (simp add: timeNow_def)
  note r2 = reads_trans [OF r1 timeNow_reads [OF t]]
  obtain y s3 where y: "orZero (Balance s2 p) = (y, s3)" by fastforce
  note r3 = reads_trans [OF r2 orZero_Balance_reads(1) [OF y]]
  let ?due = "go_quot (t - ap_refreshTimestampMilliseconds (ap a p)) 1000 * ac_refreshRate a"
  have "0 \<le> go_quot (t - ap_refreshTimestampMilliseconds (ap a p)) 1000"
    using assms(3) cfg_fields(10) [of s1 a] reads_views(4) [OF r1] t'
    by (simp add: go_quot_nonneg pos_imp_zdiv_nonneg_iff)
  then have due: "0 \<le> ?due" using assms(2) by simp
  have c2: "ac_refreshRate s2 = ac_refreshRate a" "ac_minimumPayment s1 = ac_minimumPayment a"
    "ac_minimumPayment s3 = ac_minimumPayment a"
    using cfg_fields reads_views(4) r1 r2 r3 by metis+
  note ov = reads_views(8) [OF r1] reads_views(8) [OF r2] reads_views(8) [OF r3]
  have out: "ac_out s1 = ac_out a" "ac_out s2 = ac_out a" "ac_out s3 = ac_out a"
    using r1 r2 r3 by (simp_all add: reads_def)
  show ?thesis
  proof (cases x; cases y)
    fix ob cb assume xy: "x = Inr ob" "y = Inr cb"
    have ob: "ob = org a p" using orZero_Originated_value x xy by blast
    have cb: "cb = bal a p" using orZero_Balance_value [of s2 p cb s3] y xy reads_views(5) [OF r2] by simp
    let ?n = "if - ob > - cb - ?due - ap_shadowReservedBalance (ap a p)
        then - cb - ?due - ap_shadowReservedBalance (ap a p) else - ob"
    have "?n \<le> - org a p \<and> ?n \<le> - bal a p - ap_shadowReservedBalance (ap a p)"
      using due ob cb by auto
    moreover have "ac_out a' = ac_out a \<or> ac_out a' = ac_out a @ [PayCall p ?n] \<and> ac_payFunction a \<and>
        \<not> ap_paymentOngoing (ap a p) \<and> ap_paymentOngoing (ap a' p) \<and> ac_minimumPayment a \<le> ?n"
      using assms(1) x xy t y c2 ov out unfolding settle_monetary_def Let_def
      by (auto split: if_splits simp: ap_upd_ap)
    ultimately show ?thesis by blast
  qed (use assms(1) x y t out in \<open>auto simp: settle_monetary_def Let_def split: if_splits\<close>)
qed

text \<open>C15: \<open>settle\<close> starts at most one refreshment and one payment, each only when none is
  under way. A refreshment asks for exactly the debt that is not covered by pending debits, at
  least the refresh rate; a payment is at least the minimum and never more than the debt the node
  originated, nor than its debt minus the pending debits.\<close>

theorem settle_amounts:
  assumes "settle a p = (r, a')" "0 < ac_refreshRate a"
    "\<And>k. ap_refreshTimestampMilliseconds (ap a p) \<le> ac_clock a k"
  shows "\<exists>es fs. ac_out a' = ac_out a @ es @ fs \<and>
    (es = [] \<or> (\<not> ap_refreshOngoing (ap a p) \<and> (\<exists>n. es = [RefreshCall p n] \<and> ac_refreshRate a \<le> n \<and>
       n = - bal a p - ap_shadowReservedBalance (ap a p)))) \<and>
    (fs = [] \<or> (\<not> ap_paymentOngoing (ap a p) \<and> ap_paymentOngoing (ap a' p) \<and> (\<exists>n. fs = [PayCall p n] \<and>
       ac_minimumPayment a \<le> n \<and> n \<le> - org a p \<and> n \<le> - bal a p - ap_shadowReservedBalance (ap a p))))"
proof -
  obtain t s1 where t: "timeNow a = (t, s1)" by fastforce
  note r1 = timeNow_reads [OF t]
  obtain x s2 where x: "shadowBalance s1 p = (x, s2)" by fastforce
  note r2 = reads_trans [OF r1 shadowBalance_reads [OF x]]
  have rr: "ac_refreshRate s2 = ac_refreshRate a" using cfg_fields(1) [OF reads_views(4) [OF r2]] .
  have out: "ac_out s2 = ac_out a" using r2 by (simp add: reads_def)
  show ?thesis
  proof (cases "\<exists>n. x = Inr n \<and> ac_refreshRate a \<le> n")
    case False
    then have "a' = s2" using assms(1) t x rr by (cases x) (auto simp: settle_def Let_def split: if_splits)
    then show ?thesis using out by simp
  next
    case True
    then obtain n where n: "x = Inr n" "ac_refreshRate a \<le> n" by blast
    have nv: "n = - bal a p - ap_shadowReservedBalance (ap a p)"
      using shadowBalance_value [of s1 p n s2] x n assms(2) reads_views(5,8) [OF r1] by simp
    define refresh where "refresh \<longleftrightarrow> 999 < t - ap_refreshTimestampMilliseconds (ap s1 p) \<and> \<not> ap_refreshOngoing (ap s2 p)"
    define s3 where "s3 = (if refresh then emit (ap_upd s2 p (\<lambda>p. p\<lparr>ap_refreshOngoing := True\<rparr>)) (RefreshCall p n) else s2)"
    have m: "settle_monetary s3 p t = (r, a')"
      using assms(1) t x n rr by (simp add: settle_def Let_def s3_def refresh_def)
    have c3: "cfg s3 = cfg a" and k3: "kv s3 = kv a"
      and p3: "ap_refreshTimestampMilliseconds (ap s3 p) = ap_refreshTimestampMilliseconds (ap a p)"
        "ap_paymentOngoing (ap s3 p) = ap_paymentOngoing (ap a p)"
        "ap_shadowReservedBalance (ap s3 p) = ap_shadowReservedBalance (ap a p)"
      using reads_views(4,8,9) [OF r2] by (simp_all add: s3_def ap_upd_ap)
    note cf = cfg_fields [OF c3]
    have "ac_out a' = ac_out s3 \<or> (\<exists>n. ac_out a' = ac_out s3 @ [PayCall p n] \<and> \<not> ap_paymentOngoing (ap a p) \<and>
        ap_paymentOngoing (ap a' p) \<and> ac_minimumPayment a \<le> n \<and> n \<le> - org a p \<and>
        n \<le> - bal a p - ap_shadowReservedBalance (ap a p))"
      using settle_monetary_out [OF m] assms(2,3) cf p3 kv_views [OF k3] by auto
    moreover have "ac_out s3 = ac_out a \<or> \<not> ap_refreshOngoing (ap a p) \<and> ac_out s3 = ac_out a @ [RefreshCall p n]"
      using out reads_views(8) [OF r2] by (simp add: s3_def refresh_def)
    ultimately obtain es fs where "ac_out a' = ac_out a @ es @ fs"
        "es = [] \<or> \<not> ap_refreshOngoing (ap a p) \<and> es = [RefreshCall p n]"
        "fs = [] \<or> (\<exists>n. fs = [PayCall p n] \<and> \<not> ap_paymentOngoing (ap a p) \<and>
           ap_paymentOngoing (ap a' p) \<and> ac_minimumPayment a \<le> n \<and> n \<le> - org a p \<and>
           n \<le> - bal a p - ap_shadowReservedBalance (ap a p))"
      by (metis append.assoc append.right_neutral)
    then show ?thesis using n(2) nv by blast
  qed
qed

definition demo_owing :: accounting where
  "demo_owing = (let a = SetPayFunc demo_acct;
     a = snd (ac_put a (peerBalanceKey demo_peer) (- 2000))
   in snd (ac_put a (originatedBalanceKey demo_peer) (- 2000)))"

theorem settle_amounts_witness:
  "ac_out (snd (settle demo_owing demo_peer)) = [RefreshCall demo_peer 2000, PayCall demo_peer 800] \<and>
   800 \<le> - bal demo_owing demo_peer - ap_shadowReservedBalance (ap demo_owing demo_peer)"
proof -
  have out: "ac_out (snd (settle demo_owing demo_peer)) = [RefreshCall demo_peer 2000, PayCall demo_peer 800]"
    "ac_out demo_owing = []" "0 < ac_refreshRate demo_owing"
    "ap_refreshTimestampMilliseconds (ap demo_owing demo_peer) = 0"
    by code_simp+
  have "ac_clock demo_owing = ac_clock (SetPayFunc demo_acct)"
    by (rule cfg_fields(10)) (simp add: demo_owing_def Let_def put_any_views)
  also have "\<dots> = ac_clock demo_acct" by (simp add: SetPayFunc_def)
  also have "\<dots> = (\<lambda>_. 12000)"
    by (simp add: demo_acct_def acct_Connect_def Let_def cfg_fields(10) [OF put_any_views(2)] ap_upd_def
        getAccountingPeer_def NewAccounting_def)
  finally have "ap_refreshTimestampMilliseconds (ap demo_owing demo_peer) \<le> ac_clock demo_owing k" for k
    using out(4) by simp
  from settle_amounts [OF prod.collapse [symmetric] out(3) this] out show ?thesis
    by (auto simp: Cons_eq_append_conv append_eq_Cons_conv)
qed

lemma underscore_hex: "CHR ''_'' \<notin> set (hex_encode bs)"
proof -
  have "hextable ! i \<noteq> CHR ''_''" if "i < 16" for i
  proof
    assume h: "hextable ! i = CHR ''_''"
    have "from_hex_char (hextable ! i) = Some (of_nat i)" using from_hex_hextable that .
    with h show False by (simp add: from_hex_char_def)
  qed
  then show ?thesis
    using unat_drop_bit4 unat_and15
    by (induction bs) (fastforce simp: hex_encode_def hex_encode_byte_def)+
qed

lemma split_after_none:
  "CHR ''_'' \<in> set sep \<Longrightarrow> CHR ''_'' \<notin> set s \<Longrightarrow> split_after sep acc s = [rev acc @ s]"
proof (induction s arbitrary: acc)
  case Nil
  then show ?case by (subst split_after.simps) auto
next
  case (Cons c cs)
  have "\<not> prefix sep (c # cs)"
    using Cons.prems set_mono_prefix by blast
  then show ?case using Cons by (subst split_after.simps) auto
qed

lemma key_peer_roundtrip:
  assumes "CHR ''_'' \<in> set pre"
  shows "key_peer pre (pre @ addr_String p) = Inr p"
proof -
  have "split_after pre [] (pre @ addr_String p) = [pre, addr_String p]"
    using assms split_after_none [OF assms, of "addr_String p" "[]"] underscore_hex
    by (subst split_after.simps) (auto simp: addr_String_def)
  then show ?thesis by (simp add: key_peer_def ParseHexAddress_def addr_String_def NewAddress_def)
qed

lemma balance_key_roundtrip:
  "balanceKeyPeer (peerBalanceKey p) = Inr p" "surplusBalanceKeyPeer (peerSurplusBalanceKey p) = Inr p"
  unfolding balanceKeyPeer_def surplusBalanceKeyPeer_def peerBalanceKey_def peerSurplusBalanceKey_def
  by (rule key_peer_roundtrip, simp add: balancesPrefix_def balancesSurplusPrefix_def)+

lemma stored_balance_ok:
  "stored_balance a p = (Inr v, a') \<Longrightarrow> kv a (peerBalanceKey p) = Some v \<and> kv a' = kv a"
  using ac_get_value(1) [of a "peerBalanceKey p"] ac_get_reads [of a "peerBalanceKey p"]
  by (auto simp: stored_balance_def reads_def split: prod.splits sum.splits)

text \<open>A report over keys that belong to peers collects exactly what each key stores, when the
  value read for a peer is that of a fixed content \<open>f\<close>.\<close>

lemma report_loop_spec:
  assumes "report_loop peerOf val keys s a = (Inr s', a')" "\<forall>k \<in> set keys. \<exists>p. k = key p" "I a"
    and key: "\<And>p. peerOf (key p) = Inr p" "\<And>p q. key p = key q \<longleftrightarrow> p = q"
    and val: "\<And>a p v a'. I a \<Longrightarrow> val a p = (Inr v, a') \<Longrightarrow> f p = Some v \<and> I a'"
  shows "s' (addr_String p) = (if s (addr_String p) \<noteq> None then s (addr_String p)
     else if key p \<in> set keys then f p else None)"
  using assms(1-3)
proof (induction keys arbitrary: s a)
  case (Cons k keys)
  then obtain q where q: "k = key q" by auto
  show ?case
  proof (cases "s (addr_String q)")
    case None
    then obtain v a1 where v: "val a q = (Inr v, a1)"
        "report_loop peerOf val keys (s(addr_String q \<mapsto> v)) a1 = (Inr s', a')"
      using Cons.prems q by (auto simp: key bindE_Inr)
    from Cons.IH [OF v(2)] Cons.prems val [OF Cons.prems(3) v(1)] q None show ?thesis
      by (auto simp: addr_String_inj key)
  next
    case (Some v)
    then have "report_loop peerOf val keys s a = (Inr s', a')"
      using Cons.prems q by (simp add: key)
    from Cons.IH [OF this] Cons.prems Some q show ?thesis by (auto simp: addr_String_inj key)
  qed
qed simp

text \<open>The storage key of a balance gives back the peer, and \<open>Balances\<close>, when it succeeds,
  reports for every peer exactly the stored balance, or nothing when there is none.\<close>

lemma balances_report:
  assumes "st_ok (ac_store a)" "Balances a = (Inr s, a')"
    "\<And>k. kv a k \<noteq> None \<Longrightarrow> prefix balancesPrefix k \<Longrightarrow> \<exists>p. k = peerBalanceKey p"
  shows "balanceKeyPeer (peerBalanceKey p) = Inr p \<and> s (addr_String p) = kv a (peerBalanceKey p)"
proof -
  let ?keys = "filter (prefix balancesPrefix) (st_keys (ac_store a))"
  obtain b where b: "report_loop balanceKeyPeer stored_balance ?keys Map.empty b = (Inr s, a')" "kv b = kv a"
    using assms(2)
    by (auto simp: Balances_def bindE_Inr ac_iterate_def st_Iterate_def st_step_def kv_def split: if_splits)
  have keys: "set ?keys = {k. kv a k \<noteq> None \<and> prefix balancesPrefix k}"
    using assms(1) by (auto simp: st_ok_def kv_def)
  then have kp: "\<forall>k \<in> set ?keys. \<exists>p. k = peerBalanceKey p" using assms(3) by blast
  have val: "kv a (peerBalanceKey p) = Some v \<and> kv x' = kv a"
    if "kv x = kv a" "stored_balance x p = (Inr v, x')" for x p v x'
    using stored_balance_ok [OF that(2)] that by simp
  have "s (addr_String p) = (if peerBalanceKey p \<in> set ?keys then kv a (peerBalanceKey p) else None)"
    by (subst report_loop_spec [where I = "\<lambda>x. kv x = kv a" and f = "\<lambda>p. kv a (peerBalanceKey p)",
          OF b(1) kp b(2) balance_key_roundtrip(1) key_simps(1)]) (auto dest: val)
  moreover have "peerBalanceKey p \<in> set ?keys \<longleftrightarrow> kv a (peerBalanceKey p) \<noteq> None"
    unfolding keys by (simp add: peerBalanceKey_def)
  ultimately show ?thesis by (simp add: balance_key_roundtrip split: if_splits)
qed

end
