(* ===== verification/Pseudosettle.thy ===== *)
theory Pseudosettle
  imports AccountingProps
begin

text \<open>
  Time-based settlement (\<open>pkg/settlement/pseudosettle/pseudosettle.go\<close>): a peer may ask to have
  its debt forgiven at the refresh rate. The service calls accounting through the interface
  \<open>settlement.Accounting\<close> (\<open>pkg/settlement/interface.go\<close>), here a record of functions, as the
  Go interface value is; what the settlement services rely on is the locale
  \<open>settlement_accounting\<close>, and the accounting service is an interpretation of it. The service's
  entries of the state store are a store of their own. Timestamps are \<open>int64\<close> and the differences
  that involve a timestamp sent by the peer wrap.
\<close>

section \<open>The accounting interface\<close>

record 'a settlement_Accounting =
  sa_PeerDebt :: "'a \<Rightarrow> address \<Rightarrow> (acct_error + int) \<times> 'a"
  sa_NotifyPaymentReceived :: "'a \<Rightarrow> address \<Rightarrow> int \<Rightarrow> (acct_error + unit) \<times> 'a"
  sa_NotifyPaymentSent :: "'a \<Rightarrow> address \<Rightarrow> int \<Rightarrow> bool \<Rightarrow> 'a"
  sa_NotifyRefreshmentReceived :: "'a \<Rightarrow> address \<Rightarrow> int \<Rightarrow> int \<Rightarrow> (acct_error + unit) \<times> 'a"
  sa_NotifyRefreshmentSent ::
    "'a \<Rightarrow> address \<Rightarrow> int \<Rightarrow> int \<Rightarrow> int \<Rightarrow> int \<Rightarrow> refresh_error option \<Rightarrow> 'a"
  sa_Connect :: "'a \<Rightarrow> address \<Rightarrow> bool \<Rightarrow> 'a"
  sa_Disconnect :: "'a \<Rightarrow> address \<Rightarrow> 'a"

section \<open>State\<close>

record lastPayment =
  lp_Timestamp :: int
  lp_CheckTimestamp :: int
  lp_Total :: int

datatype pss_error =
    ErrSettlementTooSoon
  | ErrNoPseudoSettlePeer
  | PssStoreError store_error
  | PssAccounting acct_error
  | ErrWrite
  | ErrPeerNoSettlements

record pseudosettle =
  pss_store :: "lastPayment statestore"
  pss_refreshRate :: int
  pss_lightRefreshRate :: int
  pss_clock :: "nat \<Rightarrow> int"
  pss_readings :: nat
  pss_peers :: "string \<rightharpoonup> bool"

definition SettlementReceivedPrefix :: string where
  "SettlementReceivedPrefix = ''pseudosettle_total_received_''"

definition SettlementSentPrefix :: string where
  "SettlementSentPrefix = ''pseudosettle_total_sent_''"

definition pss_New :: "lastPayment statestore \<Rightarrow> int \<Rightarrow> int \<Rightarrow> (nat \<Rightarrow> int) \<Rightarrow> pseudosettle" where
  "pss_New store refreshRate lightRefreshRate clock =
     \<lparr>pss_store = store, pss_refreshRate = refreshRate, pss_lightRefreshRate = lightRefreshRate,
      pss_clock = clock, pss_readings = 0, pss_peers = Map.empty\<rparr>"

text \<open>The peers map keeps for each connected peer whether it is a full node.\<close>

definition pss_init ::
    "'a settlement_Accounting \<Rightarrow> pseudosettle \<Rightarrow> 'a \<Rightarrow> address \<Rightarrow> bool \<Rightarrow> pseudosettle \<times> 'a" where
  "pss_init A s a p fullNode =
     ((case pss_peers s (addr_String p) of
         None \<Rightarrow> s\<lparr>pss_peers := (pss_peers s)(addr_String p \<mapsto> fullNode)\<rparr>
       | Some _ \<Rightarrow> s),
      sa_Connect A a p fullNode)"

definition pss_terminate ::
    "'a settlement_Accounting \<Rightarrow> pseudosettle \<Rightarrow> 'a \<Rightarrow> address \<Rightarrow> pseudosettle \<times> 'a" where
  "pss_terminate A s a p =
     (s\<lparr>pss_peers := (pss_peers s)(addr_String p := None)\<rparr>, sa_Disconnect A a p)"

definition totalKey :: "address \<Rightarrow> string \<Rightarrow> string" where
  "totalKey peer pre = pre @ addr_String peer"

definition totalKeyPeer :: "string \<Rightarrow> string \<Rightarrow> acct_error + address" where
  "totalKeyPeer key pre = key_peer pre key"

section \<open>Store and clock access\<close>

definition pss_get :: "pseudosettle \<Rightarrow> string \<Rightarrow> (store_error + lastPayment) \<times> pseudosettle" where
  "pss_get s k = (case st_Get (pss_store s) k of (r, st) \<Rightarrow> (r, s\<lparr>pss_store := st\<rparr>))"

definition pss_put :: "pseudosettle \<Rightarrow> string \<Rightarrow> lastPayment \<Rightarrow> (pss_error + unit) \<times> pseudosettle" where
  "pss_put s k v =
     (case st_Put (pss_store s) k v of
        (None, st) \<Rightarrow> (Inr (), s\<lparr>pss_store := st\<rparr>)
      | (Some e, st) \<Rightarrow> (Inl (PssStoreError e), s\<lparr>pss_store := st\<rparr>))"

text \<open>A missing entry is the zero value of the struct, with a zero total.\<close>

definition noPayment :: lastPayment where
  "noPayment = \<lparr>lp_Timestamp = 0, lp_CheckTimestamp = 0, lp_Total = 0\<rparr>"

definition pss_last :: "pseudosettle \<Rightarrow> string \<Rightarrow> (pss_error + lastPayment) \<times> pseudosettle" where
  "pss_last s k =
     (case pss_get s k of
        (Inr v, s') \<Rightarrow> (Inr v, s')
      | (Inl ErrNotFound, s') \<Rightarrow> (Inr noPayment, s')
      | (Inl e, s') \<Rightarrow> (Inl (PssStoreError e), s'))"

definition pss_now :: "pseudosettle \<Rightarrow> int \<times> pseudosettle" where
  "pss_now s = (pss_clock s (pss_readings s), s\<lparr>pss_readings := Suc (pss_readings s)\<rparr>)"

section \<open>Receiving a settlement\<close>

definition peerAllowance ::
    "'a settlement_Accounting \<Rightarrow> pseudosettle \<Rightarrow> 'a \<Rightarrow> address \<Rightarrow> bool
     \<Rightarrow> (pss_error + int \<times> int) \<times> pseudosettle \<times> 'a" where
  "peerAllowance A s a peer fullNode =
     (case pss_last s (totalKey peer SettlementReceivedPrefix) of
        (Inl e, s) \<Rightarrow> (Inl e, s, a)
      | (Inr lastTime, s) \<Rightarrow>
        (case pss_now s of (millis, s) \<Rightarrow>
          let currentTime = millis div 1000 in
          if currentTime = lp_Timestamp lastTime then (Inl ErrSettlementTooSoon, s, a)
          else
            let refreshRateUsed = (if fullNode then pss_refreshRate s else pss_lightRefreshRate s);
                maxAllowance = int64_of (currentTime - lp_Timestamp lastTime) * refreshRateUsed in
            (case sa_PeerDebt A a peer of
               (Inl e, a) \<Rightarrow> (Inl (PssAccounting e), s, a)
             | (Inr peerDebt, a) \<Rightarrow>
                 (Inr (if peerDebt \<ge> maxAllowance then maxAllowance else peerDebt, currentTime), s, a))))"

text \<open>The payment accepted for an attempted amount.\<close>

definition acceptedPayment :: "int \<Rightarrow> int \<Rightarrow> int" where
  "acceptedPayment allowance attemptedAmount =
     (let paymentAmount = (if allowance < attemptedAmount then allowance else attemptedAmount)
      in if paymentAmount < 0 then 0 else paymentAmount)"

text \<open>The handler on a request that was read; \<open>writeOk\<close> says whether the acknowledgement could be
  written. The result carries the amount and timestamp of the acknowledgement.\<close>

definition pss_handler ::
    "'a settlement_Accounting \<Rightarrow> pseudosettle \<Rightarrow> 'a \<Rightarrow> address \<Rightarrow> bytes \<Rightarrow> bool
     \<Rightarrow> (pss_error + int \<times> int) \<times> pseudosettle \<times> 'a" where
  "pss_handler A s a p reqAmount writeOk =
     (let attemptedAmount = big_SetBytes reqAmount in
      case pss_peers s (addr_String p) of
        None \<Rightarrow> (Inl ErrNoPseudoSettlePeer, s, a)
      | Some fullNode \<Rightarrow>
        (case peerAllowance A s a p fullNode of
           (Inl e, s, a) \<Rightarrow> (Inl e, s, a)
         | (Inr (allowance, timestamp), s, a) \<Rightarrow>
           let paymentAmount = acceptedPayment allowance attemptedAmount in
           if \<not> writeOk then (Inl ErrWrite, s, a)
           else
             (case pss_last s (totalKey p SettlementReceivedPrefix) of
                (Inl e, s) \<Rightarrow> (Inl e, s, a)
              | (Inr lastTime, s) \<Rightarrow>
                (case pss_put s (totalKey p SettlementReceivedPrefix)
                    (lastTime\<lparr>lp_Total := lp_Total lastTime + paymentAmount,
                              lp_Timestamp := timestamp\<rparr>) of
                   (Inl e, s) \<Rightarrow> (Inl e, s, a)
                 | (Inr _, s) \<Rightarrow>
                   (case sa_NotifyRefreshmentReceived A a p paymentAmount timestamp of
                      (Inl e, a) \<Rightarrow> (Inl (PssAccounting e), s, a)
                    | (Inr _, a) \<Rightarrow> (Inr (paymentAmount, timestamp), s, a))))))"

section \<open>Sending a settlement\<close>

text \<open>What the exchange with the peer gives: an error opening the stream, writing or reading, or
  the acknowledged amount and timestamp.\<close>

datatype pss_exchange = ExchangeFailed refresh_error | PaymentAck bytes int

definition pss_Pay ::
    "'a settlement_Accounting \<Rightarrow> pseudosettle \<Rightarrow> 'a \<Rightarrow> address \<Rightarrow> int \<Rightarrow> pss_exchange
     \<Rightarrow> pseudosettle \<times> 'a" where
  "pss_Pay A s a peer amount exchange =
     (let failed = (\<lambda>s e. (s, sa_NotifyRefreshmentSent A a peer 0 0 0 0 (Some e))) in
      case pss_last s (totalKey peer SettlementSentPrefix) of
        (Inl e, s) \<Rightarrow> failed s RefreshOther
      | (Inr lastTime, s) \<Rightarrow>
        (case exchange of
           ExchangeFailed e \<Rightarrow> failed s e
         | PaymentAck ackAmount ackTimestamp \<Rightarrow>
           (case pss_now s of (checkTime, s) \<Rightarrow>
            let acceptedAmount = big_SetBytes ackAmount;
                checkSeconds = go_quot checkTime 1000 in
            if acceptedAmount > amount then failed s RefreshOther
            else
              let experiencedInterval = int64_of (checkSeconds - lp_CheckTimestamp lastTime);
                  allegedInterval = int64_of (ackTimestamp - lp_Timestamp lastTime);
                  experienceDifferenceRecent = int64_of (ackTimestamp - checkSeconds);
                  experienceDifferenceInterval = int64_of (experiencedInterval - allegedInterval) in
              if allegedInterval < 0 then failed s RefreshOther
              else if experienceDifferenceRecent < - 2 \<or> experienceDifferenceRecent > 2
              then failed s RefreshOther
              else if experienceDifferenceInterval < - 3 \<or> experienceDifferenceInterval > 3
              then failed s RefreshOther
              else
                (case pss_put s (totalKey peer SettlementSentPrefix)
                    \<lparr>lp_Timestamp = ackTimestamp, lp_CheckTimestamp = checkSeconds,
                     lp_Total = lp_Total lastTime + acceptedAmount\<rparr> of
                   (Inl e, s) \<Rightarrow> failed s RefreshOther
                 | (Inr _, s) \<Rightarrow>
                     (s, sa_NotifyRefreshmentSent A a peer amount acceptedAmount checkTime
                           allegedInterval None)))))"

section \<open>Reports\<close>

definition pss_total :: "pseudosettle \<Rightarrow> string \<Rightarrow> (pss_error + int) \<times> pseudosettle" where
  "pss_total s k =
     (case pss_last s k of
        (Inl _, s) \<Rightarrow> (Inl ErrPeerNoSettlements, s)
      | (Inr v, s) \<Rightarrow> (Inr (lp_Total v), s))"

definition TotalSent :: "pseudosettle \<Rightarrow> address \<Rightarrow> (pss_error + int) \<times> pseudosettle" where
  "TotalSent s peer = pss_total s (totalKey peer SettlementSentPrefix)"

definition TotalReceived :: "pseudosettle \<Rightarrow> address \<Rightarrow> (pss_error + int) \<times> pseudosettle" where
  "TotalReceived s peer = pss_total s (totalKey peer SettlementReceivedPrefix)"

definition settlements ::
    "pseudosettle \<Rightarrow> string \<Rightarrow> (pss_error + (string \<rightharpoonup> int)) \<times> pseudosettle" where
  "settlements s pre =
     (case st_Iterate (pss_store s) pre of
        (Inl e, st) \<Rightarrow> (Inl (PssStoreError e), s\<lparr>pss_store := st\<rparr>)
      | (Inr keys, st) \<Rightarrow>
          report_loop
            (\<lambda>key. case totalKeyPeer key pre of Inl e \<Rightarrow> Inl (PssAccounting e) | Inr p \<Rightarrow> Inr p)
            (\<lambda>s p. case pss_get s (totalKey p pre) of
                (Inl e, s) \<Rightarrow> (Inl (PssStoreError e), s) | (Inr v, s) \<Rightarrow> (Inr (lp_Total v), s))
            keys Map.empty (s\<lparr>pss_store := st\<rparr>))"

definition SettlementsSent :: "pseudosettle \<Rightarrow> (pss_error + (string \<rightharpoonup> int)) \<times> pseudosettle" where
  "SettlementsSent s = settlements s SettlementSentPrefix"

definition SettlementsReceived :: "pseudosettle \<Rightarrow> (pss_error + (string \<rightharpoonup> int)) \<times> pseudosettle" where
  "SettlementsReceived s = settlements s SettlementReceivedPrefix"

section \<open>The contract and its provider\<close>

text \<open>What a settlement service relies on: the net balance of a peer (what it owes less the
  surplus) moves by exactly the notified amounts, queries and failed notifications leave it, and a
  debt is never negative.\<close>

locale settlement_accounting =
  fixes A :: "'a settlement_Accounting"
    and net :: "'a \<Rightarrow> address \<Rightarrow> int"
  assumes debt_ok: "sa_PeerDebt A a p = (Inr d, a') \<Longrightarrow> 0 \<le> d \<and> net a' = net a"
    and debt_err: "sa_PeerDebt A a p = (Inl e, a') \<Longrightarrow> net a' = net a"
    and refreshed_ok: "sa_NotifyRefreshmentReceived A a p n t = (Inr u, a') \<Longrightarrow>
          net a' = (net a)(p := net a p - n)"
    and refreshed_err: "sa_NotifyRefreshmentReceived A a p n t = (Inl e, a') \<Longrightarrow> net a' = net a"
    and paid_ok: "0 \<le> n \<Longrightarrow> sa_NotifyPaymentReceived A a p n = (Inr u, a') \<Longrightarrow>
          net a' = (net a)(p := net a p - n)"
    and sent_failed: "net (sa_NotifyRefreshmentSent A a p m n t i (Some fe)) = net a"
    and sent_ok: "net (sa_NotifyRefreshmentSent A a p m n t i None) \<in> {net a, (net a)(p := net a p + n)}"
begin

lemma debt_net: "sa_PeerDebt A a p = (r, a') \<Longrightarrow> net a' = net a"
  using debt_ok debt_err by (cases r) blast+

end

definition accounting_settlement :: "accounting settlement_Accounting" where
  "accounting_settlement =
     \<lparr>sa_PeerDebt = PeerDebt, sa_NotifyPaymentReceived = NotifyPaymentReceived,
      sa_NotifyPaymentSent = NotifyPaymentSent,
      sa_NotifyRefreshmentReceived = NotifyRefreshmentReceived,
      sa_NotifyRefreshmentSent = NotifyRefreshmentSent,
      sa_Connect = acct_Connect, sa_Disconnect = acct_Disconnect\<rparr>"

definition net :: "accounting \<Rightarrow> address \<Rightarrow> int" where
  "net a p = bal a p - sur a p"

lemma PeerDebt_nonneg: "PeerDebt a p = (Inr d, a') \<Longrightarrow> 0 \<le> d"
  by (auto simp: PeerDebt_def Let_def split: prod.splits sum.splits store_error.splits if_splits)

lemma net_reads: "reads a a' \<Longrightarrow> net a' = net a"
  using reads_views by (auto simp: net_def fun_eq_iff)

lemma net_refreshment_sent:
  "net (NotifyRefreshmentSent a p m n t i r) = net a \<or>
   r = None \<and> net (NotifyRefreshmentSent a p m n t i r) = (net a)(p := net a p + n)"
  using NotifyRefreshmentSent_views [OF refl, of a p m n t i r]
  by (auto simp: net_def fun_eq_iff)

interpretation sa: settlement_accounting accounting_settlement net
proof (unfold_locales, goal_cases)
  case (1 a p d a')
  then show ?case using PeerDebt_nonneg PeerDebt_reads net_reads by (fastforce simp: accounting_settlement_def)
next
  case (2 a p e a')
  then show ?case using PeerDebt_reads net_reads by (fastforce simp: accounting_settlement_def)
next
  case (3 a p n t u a')
  then show ?case using NotifyRefreshmentReceived_cases [of a p n t "Inr u" a']
    by (auto simp: accounting_settlement_def net_def fun_eq_iff)
next
  case (4 a p n t e a')
  then show ?case using NotifyRefreshmentReceived_cases [of a p n t "Inl e" a']
    by (auto simp: accounting_settlement_def net_def fun_eq_iff)
next
  case (5 n a p u a')
  then show ?case using NotifyPaymentReceived_cases [of a p n "Inr u" a']
    by (auto simp: accounting_settlement_def net_def fun_eq_iff)
next
  case (6 a p m n t i e)
  then show ?case using net_refreshment_sent [of a p m n t i "Some e"] by (simp add: accounting_settlement_def)
next
  case (7 a p m n t i)
  then show ?case using net_refreshment_sent [of a p m n t i None] by (simp add: accounting_settlement_def)
qed

section \<open>Effects of the operations\<close>

definition last_of :: "pseudosettle \<Rightarrow> string \<Rightarrow> lastPayment" where
  "last_of s k = (case st_kv (pss_store s) k of None \<Rightarrow> noPayment | Some v \<Rightarrow> v)"

definition pss_same :: "pseudosettle \<Rightarrow> pseudosettle \<Rightarrow> bool" where
  "pss_same s s' \<longleftrightarrow> st_kv (pss_store s') = st_kv (pss_store s) \<and> pss_refreshRate s' = pss_refreshRate s \<and>
     pss_lightRefreshRate s' = pss_lightRefreshRate s \<and> pss_clock s' = pss_clock s \<and>
     pss_peers s' = pss_peers s \<and> pss_readings s \<le> pss_readings s'"

lemma pss_same_refl [simp]: "pss_same s s"
  by (simp add: pss_same_def)

lemma pss_same_trans: "pss_same s t \<Longrightarrow> pss_same t u \<Longrightarrow> pss_same s u"
  by (auto simp: pss_same_def)

lemma pss_same_last: "pss_same s s' \<Longrightarrow> last_of s' = last_of s"
  by (auto simp: pss_same_def last_of_def fun_eq_iff)

lemma pss_get_same: "pss_get s k = (r, s') \<Longrightarrow> pss_same s s'"
  using st.get_content [of "pss_store s" k]
  by (auto simp: pss_get_def pss_same_def split: prod.splits)

lemma pss_last_same: "pss_last s k = (r, s') \<Longrightarrow> pss_same s s'"
  by (auto simp: pss_last_def dest: pss_get_same split: prod.splits sum.splits store_error.splits)

lemma pss_last_readings: "pss_last s k = (r, s') \<Longrightarrow> pss_readings s' = pss_readings s"
  by (auto simp: pss_last_def pss_get_def split: prod.splits sum.splits store_error.splits)

lemma pss_last_value: "pss_last s k = (Inr v, s') \<Longrightarrow> v = last_of s k"
  using st.get_value [of "pss_store s" k] st.get_missing [of "pss_store s" k]
  by (auto simp: pss_last_def pss_get_def last_of_def split: prod.splits sum.splits store_error.splits)

lemma pss_now_same: "pss_now s = (t, s') \<Longrightarrow> pss_same s s' \<and> t = pss_clock s (pss_readings s) \<and>
    pss_readings s' = Suc (pss_readings s)"
  by (auto simp: pss_now_def pss_same_def)

lemma pss_put_cases:
  assumes "pss_put s k v = (r, s')"
  shows "pss_refreshRate s' = pss_refreshRate s \<and> pss_lightRefreshRate s' = pss_lightRefreshRate s \<and>
    pss_clock s' = pss_clock s \<and> pss_peers s' = pss_peers s \<and> pss_readings s' = pss_readings s \<and>
    (r = Inr () \<and> last_of s' = (last_of s)(k := v) \<or> r \<noteq> Inr () \<and> pss_same s s')"
  using assms st.put_ok [of "pss_store s" k v] st.put_fail [of "pss_store s" k v]
  by (auto simp: pss_put_def pss_same_def last_of_def fun_eq_iff split: prod.splits option.splits)

lemma totalKey_inj [simp]: "totalKey p pre = totalKey q pre \<longleftrightarrow> p = q"
  by (simp add: totalKey_def addr_String_inj)

lemma totalKey_prefix [simp]:
  "totalKey p SettlementReceivedPrefix \<noteq> totalKey q SettlementSentPrefix"
  "totalKey p SettlementSentPrefix \<noteq> totalKey q SettlementReceivedPrefix"
  by (simp_all add: totalKey_def SettlementReceivedPrefix_def SettlementSentPrefix_def)

text \<open>The allowance is the smaller of the refreshment due and the debt of the peer.\<close>

lemma peerAllowance_cases:
  assumes "peerAllowance A s a p full = (r, s', a')"
  shows "pss_same s s' \<and> (a' = a \<or> (\<exists>x. sa_PeerDebt A a p = (x, a'))) \<and>
    (\<forall>l t. r = Inr (l, t) \<longrightarrow> pss_readings s < pss_readings s' \<and>
      t = pss_clock s (pss_readings s) div 1000 \<and>
      t \<noteq> lp_Timestamp (last_of s (totalKey p SettlementReceivedPrefix)) \<and>
      (\<exists>d. sa_PeerDebt A a p = (Inr d, a') \<and>
        l = min (int64_of (t - lp_Timestamp (last_of s (totalKey p SettlementReceivedPrefix))) *
              (if full then pss_refreshRate s else pss_lightRefreshRate s)) d))"
proof -
  let ?k = "totalKey p SettlementReceivedPrefix"
  obtain x s1 where x: "pss_last s ?k = (x, s1)" by fastforce
  obtain t s2 where t: "pss_now s1 = (t, s2)" by fastforce
  obtain y b where y: "sa_PeerDebt A a p = (y, b)" by fastforce
  note v = pss_last_same [OF x] pss_last_readings [OF x] pss_now_same [OF t]
  have s2: "pss_same s s2" using v pss_same_trans by blast
  show ?thesis
  proof (cases x)
    case (Inl e)
    with assms x v show ?thesis by (auto simp: peerAllowance_def)
  next
    case (Inr lt)
    have "lt = last_of s ?k" using pss_last_value x Inr by blast
    with assms x Inr t y v s2 show ?thesis
      by (auto simp: peerAllowance_def Let_def min_def pss_same_def split: if_splits sum.splits)
  qed
qed

lemma pss_handler_cases:
  assumes "pss_handler A s a p req w = (r, s', a')"
  obtains (rejected) e where "r = Inl e" "pss_same s s'" "a' = a \<or> (\<exists>x. sa_PeerDebt A a p = (x, a'))"
  | (recorded) full d b m t u where "pss_peers s (addr_String p) = Some full"
      "sa_PeerDebt A a p = (Inr d, b)" "t = pss_clock s (pss_readings s) div 1000"
      "t \<noteq> lp_Timestamp (last_of s (totalKey p SettlementReceivedPrefix))"
      "m = acceptedPayment (min (int64_of (t - lp_Timestamp (last_of s (totalKey p SettlementReceivedPrefix))) *
              (if full then pss_refreshRate s else pss_lightRefreshRate s)) d) (big_SetBytes req)"
      "last_of s' = (last_of s)(totalKey p SettlementReceivedPrefix :=
         (last_of s (totalKey p SettlementReceivedPrefix))\<lparr>
            lp_Total := lp_Total (last_of s (totalKey p SettlementReceivedPrefix)) + m, lp_Timestamp := t\<rparr>)"
      "pss_refreshRate s' = pss_refreshRate s" "pss_lightRefreshRate s' = pss_lightRefreshRate s"
      "pss_clock s' = pss_clock s" "pss_peers s' = pss_peers s" "pss_readings s < pss_readings s'"
      "sa_NotifyRefreshmentReceived A b p m t = (u, a')"
      "r = (case u of Inl e \<Rightarrow> Inl (PssAccounting e) | Inr _ \<Rightarrow> Inr (m, t))"
proof -
  let ?k = "totalKey p SettlementReceivedPrefix"
  show ?thesis
  proof (cases "pss_peers s (addr_String p)")
    case None
    with assms rejected show ?thesis by (auto simp: pss_handler_def)
  next
    case (Some full)
    obtain x s1 b where x: "peerAllowance A s a p full = (x, s1, b)" by (metis surj_pair)
    note al = peerAllowance_cases [OF x]
    show ?thesis
    proof (cases x)
      case (Inl e)
      with assms Some x al rejected show ?thesis by (auto simp: pss_handler_def)
    next
      case (Inr lt)
      then obtain l t where lt: "x = Inr (l, t)" by (cases lt) auto
      obtain y s2 where y: "pss_last s1 ?k = (y, s2)" by fastforce
      let ?m = "acceptedPayment l (big_SetBytes req)"
      let ?v = "\<lambda>L. L\<lparr>lp_Total := lp_Total L + ?m, lp_Timestamp := t\<rparr>"
      have s2: "pss_same s s2" using al pss_last_same [OF y] pss_same_trans by blast
      show ?thesis
      proof (cases "w \<and> (\<exists>L. y = Inr L)")
        case False
        with assms Some x lt y al s2 rejected show ?thesis
          by (cases y) (auto simp: pss_handler_def Let_def split: if_splits)
      next
        case True
        then obtain L where L: "y = Inr L" "w" by blast
        have Lv: "L = last_of s ?k" using pss_last_value y L pss_same_last al by metis
        obtain z s3 where z: "pss_put s2 ?k (?v L) = (z, s3)" by fastforce
        note pc = pss_put_cases [OF z]
        obtain u c where u: "sa_NotifyRefreshmentReceived A b p ?m t = (u, c)" by fastforce
        show ?thesis
        proof (cases z)
          case (Inl e)
          then have "r = Inl e" "s' = s3" "a' = b" using assms Some x lt y L z by (auto simp: pss_handler_def Let_def)
          then show ?thesis using rejected pc Inl al pss_same_trans [OF s2] by auto
        next
          case z': (Inr unit)
          have res: "r = (case u of Inl e \<Rightarrow> Inl (PssAccounting e) | Inr _ \<Rightarrow> Inr (?m, t))" "s' = s3" "a' = c"
            using assms Some x lt y L z z' u by (auto simp: pss_handler_def Let_def split: sum.splits)
          obtain d where d: "sa_PeerDebt A a p = (Inr d, b)" "t = pss_clock s (pss_readings s) div 1000"
              "t \<noteq> lp_Timestamp (last_of s ?k)" "pss_readings s < pss_readings s1"
              "l = min (int64_of (t - lp_Timestamp (last_of s ?k)) *
                (if full then pss_refreshRate s else pss_lightRefreshRate s)) d"
            using al lt by blast
          have lo: "last_of s3 = (last_of s)(?k := ?v (last_of s ?k))"
            using pc z' Lv pss_same_last [OF s2] by simp
          have f: "pss_refreshRate s3 = pss_refreshRate s" "pss_lightRefreshRate s3 = pss_lightRefreshRate s"
            "pss_clock s3 = pss_clock s" "pss_peers s3 = pss_peers s" "pss_readings s < pss_readings s3"
            using pc s2 d(4) pss_last_readings [OF y] by (simp_all add: pss_same_def)
          have m: "?m = acceptedPayment (min (int64_of (t - lp_Timestamp (last_of s ?k)) *
                (if full then pss_refreshRate s else pss_lightRefreshRate s)) d) (big_SetBytes req)"
            by (simp only: d(5))
          show ?thesis
            by (rule recorded [OF Some d(1-3) m _ _ _ _ _ _ u [folded res(3)] res(1)]) (simp_all only: res(2) lo f)
        qed
      qed
    qed
  qed
qed

lemma int64_small: "\<bar>k\<bar> < 2 ^ 63 \<Longrightarrow> int64_of k = k"
  by (rule int64_of_id) auto

text \<open>Sending a settlement changes only the entry of the payments sent to the peer, and that only
  after the acknowledgement passed every check.\<close>

lemma pss_Pay_cases:
  assumes "pss_Pay A s a p n ex = (s', a')"
  obtains (failed) e where "pss_same s s'" "a' = sa_NotifyRefreshmentSent A a p 0 0 0 0 (Some e)"
  | (sent) ack ts c iv where "ex = PaymentAck ack ts" "big_SetBytes ack \<le> n"
      "c = pss_clock s (pss_readings s)"
      "iv = int64_of (ts - lp_Timestamp (last_of s (totalKey p SettlementSentPrefix)))" "0 \<le> iv"
      "- 2 \<le> int64_of (ts - go_quot c 1000)" "int64_of (ts - go_quot c 1000) \<le> 2"
      "last_of s' = (last_of s)(totalKey p SettlementSentPrefix :=
         \<lparr>lp_Timestamp = ts, lp_CheckTimestamp = go_quot c 1000,
          lp_Total = lp_Total (last_of s (totalKey p SettlementSentPrefix)) + big_SetBytes ack\<rparr>)"
      "pss_refreshRate s' = pss_refreshRate s" "pss_lightRefreshRate s' = pss_lightRefreshRate s"
      "pss_clock s' = pss_clock s" "pss_peers s' = pss_peers s" "pss_readings s \<le> pss_readings s'"
      "a' = sa_NotifyRefreshmentSent A a p n (big_SetBytes ack) c iv None"
proof -
  let ?k = "totalKey p SettlementSentPrefix"
  obtain x s1 where x: "pss_last s ?k = (x, s1)" by fastforce
  note s1 = pss_last_same [OF x] pss_last_readings [OF x]
  show ?thesis
  proof (cases "\<exists>L ack ts. x = Inr L \<and> ex = PaymentAck ack ts")
    case False
    with assms x s1 failed show ?thesis
      by (cases x; cases ex) (auto simp: pss_Pay_def)
  next
    case True
    then obtain L ack ts where L: "x = Inr L" "ex = PaymentAck ack ts" by blast
    have Lv: "L = last_of s ?k" using pss_last_value x L by blast
    obtain c s2 where c: "pss_now s1 = (c, s2)" by fastforce
    have s2: "pss_same s s2" "c = pss_clock s (pss_readings s)"
      using pss_now_same [OF c] s1 pss_same_trans by (auto simp: pss_same_def)
    let ?q = "go_quot c 1000" and ?iv = "int64_of (ts - lp_Timestamp L)"
    let ?ok = "big_SetBytes ack \<le> n \<and> 0 \<le> ?iv \<and> - 2 \<le> int64_of (ts - ?q) \<and> int64_of (ts - ?q) \<le> 2 \<and>
        \<not> (int64_of (int64_of (?q - lp_CheckTimestamp L) - ?iv) < - 3 \<or>
           int64_of (int64_of (?q - lp_CheckTimestamp L) - ?iv) > 3)"
    let ?v = "\<lparr>lp_Timestamp = ts, lp_CheckTimestamp = ?q, lp_Total = lp_Total L + big_SetBytes ack\<rparr>"
    obtain z s3 where z: "pss_put s2 ?k ?v = (z, s3)" by fastforce
    show ?thesis
    proof (cases ?ok)
      case False
      then have "s' = s2 \<and> a' = sa_NotifyRefreshmentSent A a p 0 0 0 0 (Some RefreshOther)"
        using assms x L c unfolding pss_Pay_def Let_def by (simp split: if_splits)
      then show ?thesis using failed s2 by blast
    next
      case ok: True
      then have eq: "(s', a') = (case z of Inl e \<Rightarrow> (s3, sa_NotifyRefreshmentSent A a p 0 0 0 0 (Some RefreshOther))
          | Inr _ \<Rightarrow> (s3, sa_NotifyRefreshmentSent A a p n (big_SetBytes ack) c ?iv None))"
        using assms x L c z unfolding pss_Pay_def Let_def by (simp split: sum.splits)
      show ?thesis
      proof (cases z)
        case (Inl e)
        then show ?thesis using eq failed pss_same_trans [OF s2(1)] pss_put_cases [OF z] by auto
      next
        case (Inr u)
        then show ?thesis
          using eq ok L Lv s2 pss_put_cases [OF z] pss_same_last [OF s2(1)]
          by (intro sent [of ack ts c ?iv]) (auto simp: pss_same_def)
      qed
    qed
  qed
qed

section \<open>Rate limit\<close>

text \<open>Any sequence of events of the service; the accounting state may change between them.\<close>

inductive pss_step ::
    "'a settlement_Accounting \<Rightarrow> pseudosettle \<times> 'a \<Rightarrow> pseudosettle \<times> 'a \<Rightarrow> bool" for A where
  handle: "pss_handler A s a q req w = (r, s', a') \<Longrightarrow> pss_step A (s, a) (s', a')"
| pay: "pss_Pay A s a q n ex = (s', a') \<Longrightarrow> pss_step A (s, a) (s', a')"
| connected: "pss_init A s a q full = (s', a') \<Longrightarrow> pss_step A (s, a) (s', a')"
| disconnected: "pss_terminate A s a q = (s', a') \<Longrightarrow> pss_step A (s, a) (s', a')"
| accounting: "pss_step A (s, a) (s, a')"

text \<open>The received total grows at most at rate \<open>R\<close> with the recorded time.\<close>

definition rate_inv :: "int \<Rightarrow> (nat \<Rightarrow> int) \<Rightarrow> address \<Rightarrow> pseudosettle \<Rightarrow> pseudosettle \<Rightarrow> bool" where
  "rate_inv R clock p s0 s \<longleftrightarrow>
     (let L0 = last_of s0 (totalKey p SettlementReceivedPrefix);
          L = last_of s (totalKey p SettlementReceivedPrefix)
      in pss_clock s = clock \<and> pss_refreshRate s \<le> R \<and> pss_lightRefreshRate s \<le> R \<and>
         lp_Timestamp L0 \<le> lp_Timestamp L \<and> lp_Timestamp L \<le> clock (pss_readings s) div 1000 \<and>
         lp_Total L - lp_Total L0 \<le> R * (lp_Timestamp L - lp_Timestamp L0))"

lemma acceptedPayment_bound:
  assumes "0 \<le> e" "r \<le> R" "0 \<le> R"
  shows "acceptedPayment (min (e * r) d) n \<le> R * e"
proof -
  have "e * r \<le> R * e" using mult_left_mono [OF assms(2,1)] by (simp add: mult.commute)
  moreover have "0 \<le> R * e" using assms by simp
  ultimately show ?thesis by (auto simp: acceptedPayment_def Let_def min_def)
qed

lemma rate_inv_same:
  assumes "rate_inv R clock p s0 s" "mono clock" "pss_readings s \<le> pss_readings s'"
    "last_of s' (totalKey p SettlementReceivedPrefix) = last_of s (totalKey p SettlementReceivedPrefix)"
    "pss_clock s' = pss_clock s" "pss_refreshRate s' = pss_refreshRate s"
    "pss_lightRefreshRate s' = pss_lightRefreshRate s"
  shows "rate_inv R clock p s0 s'"
proof -
  have "clock (pss_readings s) div 1000 \<le> clock (pss_readings s') div 1000"
    using assms(2,3) by (intro zdiv_mono1) (auto dest: monoD)
  with assms show ?thesis by (simp add: rate_inv_def Let_def)
qed

lemma rate_inv_handler:
  assumes inv: "rate_inv R clock p s0 s" and h: "pss_handler A s a q req w = (r, s', a')"
    and clock: "mono clock" "\<And>n. clock n < 2 ^ 63" "0 \<le> lp_Timestamp (last_of s0 (totalKey p SettlementReceivedPrefix))"
    and R: "0 \<le> R"
  shows "rate_inv R clock p s0 s'"
  using h
proof (cases rule: pss_handler_cases)
  case (rejected e)
  then show ?thesis using rate_inv_same [OF inv clock(1)] by (auto simp: pss_same_def last_of_def)
next
  case (recorded full d b m t u)
  let ?k = "totalKey p SettlementReceivedPrefix"
  show ?thesis
  proof (cases "q = p")
    case False
    then show ?thesis using rate_inv_same [OF inv clock(1)] recorded by simp
  next
    case True
    let ?L = "last_of s ?k" and ?Base = "last_of s0 ?k"
    have b: "lp_Timestamp ?Base \<le> lp_Timestamp ?L" "lp_Timestamp ?L \<le> t" "pss_clock s = clock"
        "pss_refreshRate s \<le> R" "pss_lightRefreshRate s \<le> R"
        "lp_Total ?L - lp_Total ?Base \<le> R * (lp_Timestamp ?L - lp_Timestamp ?Base)"
      using inv recorded(3) by (auto simp: rate_inv_def Let_def)
    have "t \<le> clock (pss_readings s)" if "0 \<le> clock (pss_readings s)"
      using recorded(3) b(3) that by simp
    then have "t < 2 ^ 63" using clock(2) [of "pss_readings s"] recorded(3) b(3)
      by (cases "0 \<le> clock (pss_readings s)") (auto simp: div_neg_pos_less0 intro: less_le_trans)
    then have "int64_of (t - lp_Timestamp ?L) = t - lp_Timestamp ?L"
      using b clock(3) by (intro int64_small) auto
    moreover have "(if full then pss_refreshRate s else pss_lightRefreshRate s) \<le> R" using b by simp
    moreover have "0 \<le> t - lp_Timestamp ?L" using b by simp
    ultimately have "m \<le> R * (t - lp_Timestamp ?L)"
      using recorded(5) True acceptedPayment_bound [OF _ _ R] by simp
    then have "lp_Total ?L + m - lp_Total ?Base \<le> R * (t - lp_Timestamp ?Base)"
      using b(6) by (simp add: algebra_simps)
    moreover have "t \<le> clock (pss_readings s') div 1000"
      using recorded(3,11) b(3) monoD [OF clock(1), of "pss_readings s" "pss_readings s'"]
      by (auto intro!: zdiv_mono1)
    ultimately show ?thesis using recorded(6-9) True b by (simp add: rate_inv_def Let_def)
  qed
qed

lemma rate_inv_step:
  assumes "pss_step A x y" "rate_inv R clock p s0 (fst x)"
    and clock: "mono clock" "\<And>n. clock n < 2 ^ 63" "0 \<le> lp_Timestamp (last_of s0 (totalKey p SettlementReceivedPrefix))"
    and R: "0 \<le> R"
  shows "rate_inv R clock p s0 (fst y)"
  using assms(1,2)
proof cases
  case (handle s a q req w r s' a')
  then show ?thesis using rate_inv_handler [OF _ handle(3) clock R] assms(2) by simp
next
  case (pay s a q n ex s' a')
  from pay(3) show ?thesis
  proof (cases rule: pss_Pay_cases)
    case (failed e)
    then show ?thesis using rate_inv_same [OF _ clock(1)] assms(2) pay by (auto simp: pss_same_def last_of_def)
  next
    case (sent ack ts c iv)
    then show ?thesis using rate_inv_same [OF _ clock(1)] assms(2) pay by simp
  qed
next
  case (connected s a q full s' a')
  then show ?thesis using rate_inv_same [OF _ clock(1), of R p s0 s s'] assms(2)
    by (auto simp: pss_init_def last_of_def split: option.splits)
next
  case (disconnected s a q s' a')
  then show ?thesis using rate_inv_same [OF _ clock(1), of R p s0 s s'] assms(2)
    by (auto simp: pss_terminate_def last_of_def)
qed (use assms(2) in simp)

section \<open>Properties\<close>

text \<open>C22: whatever the peer requests and however requests, connections, payments and store failures
  interleave, the refreshment recorded as received from a peer between two points grows by at most
  the refresh rate times the recorded time that passed (on a clock that does not run backwards).\<close>

theorem received_rate_limited:
  assumes "(pss_step A)\<^sup>*\<^sup>* (s0, a0) (s, a)"
    and "mono (pss_clock s0)" "\<And>n. pss_clock s0 n < 2 ^ 63"
    and "0 \<le> lp_Timestamp (last_of s0 (totalKey p SettlementReceivedPrefix))"
    and "lp_Timestamp (last_of s0 (totalKey p SettlementReceivedPrefix)) \<le> pss_clock s0 (pss_readings s0) div 1000"
    and "0 \<le> R" "pss_refreshRate s0 \<le> R" "pss_lightRefreshRate s0 \<le> R"
  shows "lp_Total (last_of s (totalKey p SettlementReceivedPrefix)) -
      lp_Total (last_of s0 (totalKey p SettlementReceivedPrefix)) \<le>
    R * (lp_Timestamp (last_of s (totalKey p SettlementReceivedPrefix)) -
      lp_Timestamp (last_of s0 (totalKey p SettlementReceivedPrefix)))"
proof -
  have "rate_inv R (pss_clock s0) p s0 (fst (s, a))"
    using assms(1)
  proof (induction rule: rtranclp_induct)
    case base
    then show ?case using assms by (simp add: rate_inv_def Let_def)
  next
    case (step y z)
    then show ?case using rate_inv_step assms by blast
  qed
  then show ?thesis by (simp add: rate_inv_def Let_def)
qed

definition demo_pss :: pseudosettle where
  "demo_pss = \<lparr>pss_store = \<lparr>st_kv = Map.empty, st_keys = [], st_tick = 0, st_fault = (\<lambda>_. False)\<rparr>,
     pss_refreshRate = 100, pss_lightRefreshRate = 10, pss_clock = (\<lambda>n. 7000), pss_readings = 0,
     pss_peers = [addr_String demo_peer \<mapsto> True]\<rparr>"

definition demo_debtor :: accounting where
  "demo_debtor = snd (ac_put demo_acct (peerBalanceKey demo_peer) 400)"

theorem received_rate_limited_witness:
  "lp_Total (last_of (fst (snd (pss_handler accounting_settlement demo_pss demo_debtor demo_peer [250] True)))
      (totalKey demo_peer SettlementReceivedPrefix)) \<le> 700"
proof -
  let ?h = "pss_handler accounting_settlement demo_pss demo_debtor demo_peer [250] True"
  have "pss_step accounting_settlement (demo_pss, demo_debtor) (fst (snd ?h), snd (snd ?h))"
    by (rule handle [of _ _ _ demo_peer "[250]" True "fst ?h"]) simp
  then have "(pss_step accounting_settlement)\<^sup>*\<^sup>* (demo_pss, demo_debtor) (fst (snd ?h), snd (snd ?h))" by blast
  moreover have z: "last_of demo_pss k = noPayment" for k by (simp add: last_of_def demo_pss_def)
  moreover have "mono (pss_clock demo_pss)" "pss_clock demo_pss n < 2 ^ 63"
    "pss_clock demo_pss (pss_readings demo_pss) = 7000" "pss_refreshRate demo_pss \<le> 100"
    "pss_lightRefreshRate demo_pss \<le> 100" for n
    by (simp_all add: mono_def demo_pss_def)
  ultimately have "lp_Total (last_of (fst (snd ?h)) (totalKey demo_peer SettlementReceivedPrefix)) -
      lp_Total noPayment \<le> 100 * (lp_Timestamp (last_of (fst (snd ?h)) (totalKey demo_peer SettlementReceivedPrefix)) -
      lp_Timestamp noPayment)"
    using received_rate_limited [of accounting_settlement demo_pss demo_debtor "fst (snd ?h)" "snd (snd ?h)" demo_peer 100]
    by (simp add: noPayment_def)
  moreover have "lp_Timestamp (last_of (fst (snd ?h)) (totalKey demo_peer SettlementReceivedPrefix)) = 7"
    by code_simp
  ultimately show ?thesis by (simp add: noPayment_def)
qed

section \<open>Settlement through the accounting contract\<close>

lemma big_SetBytes_nonneg [simp]: "0 \<le> big_SetBytes bs"
  by (simp add: big_SetBytes_be_val)

lemma acceptedPayment_range:
  "0 \<le> n \<Longrightarrow> 0 \<le> d \<Longrightarrow> 0 \<le> acceptedPayment (min e d) n \<and> acceptedPayment (min e d) n \<le> n \<and>
     acceptedPayment (min e d) n \<le> d"
  by (auto simp: acceptedPayment_def Let_def min_def)

context settlement_accounting
begin

lemma handler_net:
  assumes "pss_handler A s a p req w = (r, s', a')"
  shows "(case r of
      Inr (m, t) \<Rightarrow> 0 \<le> m \<and> m \<le> big_SetBytes req \<and> (\<exists>d b. sa_PeerDebt A a p = (Inr d, b) \<and> m \<le> d) \<and>
        net a' = (net a)(p := net a p - m) \<and>
        lp_Total (last_of s' (totalKey p SettlementReceivedPrefix)) =
          lp_Total (last_of s (totalKey p SettlementReceivedPrefix)) + m \<and>
        lp_Timestamp (last_of s' (totalKey p SettlementReceivedPrefix)) = t
    | Inl e \<Rightarrow> net a' = net a)"
  using assms
proof (cases rule: pss_handler_cases)
  case (rejected e)
  then show ?thesis using debt_net by auto
next
  case (recorded full d b m t u)
  have b: "0 \<le> d" "net b = net a" using debt_ok [OF recorded(2)] by auto
  show ?thesis
  proof (cases u)
    case (Inl e)
    then show ?thesis using recorded(12,13) refreshed_err b by auto
  next
    case (Inr x)
    have "net a' = (net a)(p := net a p - m)" using refreshed_ok recorded(12) Inr b by simp
    moreover have "0 \<le> m \<and> m \<le> big_SetBytes req \<and> m \<le> d"
      unfolding recorded(5) using acceptedPayment_range b by simp
    ultimately show ?thesis using recorded(2,6,13) Inr by auto
  qed
qed

lemma pay_net:
  assumes "pss_Pay A s a p n ex = (s', a')"
  shows "net a' = net a \<or>
    (\<exists>ack ts. ex = PaymentAck ack ts \<and> big_SetBytes ack \<le> n \<and> net a' = (net a)(p := net a p + big_SetBytes ack) \<and>
       lp_Total (last_of s' (totalKey p SettlementSentPrefix)) =
         lp_Total (last_of s (totalKey p SettlementSentPrefix)) + big_SetBytes ack)"
  using assms
proof (cases rule: pss_Pay_cases)
  case (failed e)
  then show ?thesis using sent_failed by simp
next
  case (sent ack ts c iv)
  then show ?thesis using sent_ok [of a p n "big_SetBytes ack" c iv] by auto
qed

end

text \<open>C24: when the service answers a refreshment request, the acknowledged amount is at most the
  attempted amount and the debt of the peer, and exactly this amount is taken off the net balance
  of that peer and added to the recorded total; an answer with an error takes nothing off.\<close>

theorem refreshment_handled:
  assumes "pss_handler accounting_settlement s a p req w = (r, s', a')"
  shows "(case r of
      Inr (m, t) \<Rightarrow> 0 \<le> m \<and> m \<le> big_SetBytes req \<and> (\<exists>d b. PeerDebt a p = (Inr d, b) \<and> m \<le> d) \<and>
        net a' = (net a)(p := net a p - m) \<and>
        lp_Total (last_of s' (totalKey p SettlementReceivedPrefix)) =
          lp_Total (last_of s (totalKey p SettlementReceivedPrefix)) + m \<and>
        lp_Timestamp (last_of s' (totalKey p SettlementReceivedPrefix)) = t
    | Inl e \<Rightarrow> net a' = net a)"
  using sa.handler_net [OF assms] by (simp add: accounting_settlement_def split: sum.splits prod.splits)

theorem refreshment_handled_witness:
  "(case pss_handler accounting_settlement demo_pss demo_debtor demo_peer [250] True of
     (r, s', a') \<Rightarrow> r = Inr (250, 7) \<and> net a' demo_peer = 150)"
proof -
  obtain r s' a' where h: "pss_handler accounting_settlement demo_pss demo_debtor demo_peer [250] True = (r, s', a')"
    by (metis surj_pair)
  have "fst (pss_handler accounting_settlement demo_pss demo_debtor demo_peer [250] True) = Inr (250, 7)"
    "net demo_debtor demo_peer = 400"
    by code_simp+
  with refreshment_handled [OF h] h show ?thesis by simp
qed

lemma int64_near:
  assumes "- (2 ^ 63) \<le> t" "t < 2 ^ 63" "0 \<le> q" "q < (2 ^ 62 :: int)" "- 2 \<le> int64_of (t - q)" "int64_of (t - q) \<le> 2"
  shows "\<bar>t - q\<bar> \<le> 2"
proof (cases "- (2 ^ 63) \<le> t - q")
  case True
  then show ?thesis using assms by simp
next
  case False
  have "(t - q + 2 ^ 63) mod 2 ^ 64 = (t - q + 2 ^ 63 + 2 ^ 64) mod (2 ^ 64 :: int)"
    by (rule mod_add_self2 [symmetric])
  also have "\<dots> = t - q + 2 ^ 63 + 2 ^ 64" using False assms(1-4) by (intro mod_pos_pos_trivial) auto
  finally show ?thesis using assms by (simp add: int64_of_def)
qed

text \<open>When the service sends a refreshment, the net balance of the peer rises by exactly the
  acknowledged amount, which is recorded and never exceeds the amount asked for, and only if the
  acknowledged timestamp is within two seconds of the local clock (whatever 64-bit timestamp the
  peer sends); otherwise no balance changes.\<close>

lemma refreshment_sent_correct:
  assumes "pss_Pay accounting_settlement s a p n ex = (s', a')"
    and "\<And>k. 0 \<le> pss_clock s k \<and> pss_clock s k < 2 ^ 62"
    and "\<And>ack ts. ex = PaymentAck ack ts \<Longrightarrow> - (2 ^ 63) \<le> ts \<and> ts < 2 ^ 63"
  shows "net a' = net a \<or>
    (\<exists>ack ts. ex = PaymentAck ack ts \<and> big_SetBytes ack \<le> n \<and> net a' = (net a)(p := net a p + big_SetBytes ack) \<and>
       \<bar>ts - pss_clock s (pss_readings s) div 1000\<bar> \<le> 2 \<and>
       lp_Total (last_of s' (totalKey p SettlementSentPrefix)) =
         lp_Total (last_of s (totalKey p SettlementSentPrefix)) + big_SetBytes ack)"
  using assms(1)
proof (cases rule: pss_Pay_cases)
  case (failed e)
  then show ?thesis using sa.sent_failed by simp
next
  case (sent ack ts c iv)
  have c: "0 \<le> c" "c < 2 ^ 62" using assms(2) sent(3) by auto
  have "1000 * (c div 1000) \<le> c" "0 \<le> c div 1000"
    using c(1) by (simp_all add: times_div_less_eq_dividend pos_imp_zdiv_nonneg_iff)
  then have "c div 1000 \<le> c" by linarith
  then have q: "go_quot c 1000 = c div 1000" "0 \<le> c div 1000" "c div 1000 < 2 ^ 62"
    using c by (simp_all add: go_quot_nonneg pos_imp_zdiv_nonneg_iff)
  have "\<bar>ts - c div 1000\<bar> \<le> 2"
    using int64_near [of ts "c div 1000"] assms(3) [OF sent(1)] sent(6,7) q by simp
  then show ?thesis using sa.pay_net [OF assms(1)] sent(1,3) by auto
qed

end
