(* ===== verification/Swap.thy ===== *)
theory Swap
  imports ChequeProps Pseudosettle Bytes
begin

text \<open>
  The swap settlement service: the address book (\<open>addressbook.go\<close>), the price oracle
  (\<open>priceoracle.go\<close>), the settlement headers (\<open>headers/utilities.go\<close>) and their exchange
  (\<open>pkg/p2p/libp2p/headers.go\<close>), the service (\<open>swap.go\<close>) and the wire protocol
  (\<open>swapprotocol.go\<close>). The state is that of the cheque services, whose store also holds the
  address book; accounting is called through \<open>settlement_Accounting\<close>. The encoding of
  protobuf and JSON is a parameter: what reading an encoded value gives. The order in which Go
  ranges over a map is a parameter as well.
\<close>

section \<open>The address book\<close>

definition peerPrefix :: string where
  "peerPrefix = ''swap_chequebook_peer_''"

definition peerChequebookPrefix :: string where
  "peerChequebookPrefix = ''swap_peer_chequebook_''"

definition beneficiaryPeerPrefix :: string where
  "beneficiaryPeerPrefix = ''swap_beneficiary_peer_''"

definition peerBeneficiaryPrefix :: string where
  "peerBeneficiaryPrefix = ''swap_peer_beneficiary_''"

definition deductedForPeerPrefix :: string where
  "deductedForPeerPrefix = ''swap_deducted_for_peer_''"

definition deductedByPeerPrefix :: string where
  "deductedByPeerPrefix = ''swap_deducted_by_peer_''"

definition peerKey :: "address \<Rightarrow> string" where
  "peerKey peer = peerPrefix @ addr_String peer"

definition chequebookPeerKey :: "eth_address \<Rightarrow> string" where
  "chequebookPeerKey chequebook = peerChequebookPrefix @ hex_encode chequebook"

definition peerBeneficiaryKey :: "address \<Rightarrow> string" where
  "peerBeneficiaryKey peer = peerBeneficiaryPrefix @ addr_String peer"

definition beneficiaryPeerKey :: "eth_address \<Rightarrow> string" where
  "beneficiaryPeerKey peer = beneficiaryPeerPrefix @ hex_encode peer"

definition peerDeductedByKey :: "address \<Rightarrow> string" where
  "peerDeductedByKey peer = deductedByPeerPrefix @ addr_String peer"

definition peerDeductedForKey :: "address \<Rightarrow> string" where
  "peerDeductedForKey peer = deductedForPeerPrefix @ addr_String peer"

text \<open>A lookup returns \<open>None\<close> when the entry is not known.\<close>

definition as_eth :: "swap_value option \<Rightarrow> swap_error + eth_address option" where
  "as_eth v = (case v of None \<Rightarrow> Inr None | Some (VEth x) \<Rightarrow> Inr (Some x) | Some _ \<Rightarrow> Inl SwDecode)"

definition as_peer :: "swap_value option \<Rightarrow> swap_error + address option" where
  "as_peer v = (case v of None \<Rightarrow> Inr None | Some (VPeer x) \<Rightarrow> Inr (Some x) | Some _ \<Rightarrow> Inl SwDecode)"

definition Beneficiary :: "swapstate \<Rightarrow> address \<Rightarrow> (swap_error + eth_address option) \<times> swapstate" where
  "Beneficiary s peer = bindE (sw_get s (peerBeneficiaryKey peer)) (\<lambda>v s. (as_eth v, s))"

definition BeneficiaryPeer :: "swapstate \<Rightarrow> eth_address \<Rightarrow> (swap_error + address option) \<times> swapstate" where
  "BeneficiaryPeer s beneficiary = bindE (sw_get s (beneficiaryPeerKey beneficiary)) (\<lambda>v s. (as_peer v, s))"

definition Chequebook :: "swapstate \<Rightarrow> address \<Rightarrow> (swap_error + eth_address option) \<times> swapstate" where
  "Chequebook s peer = bindE (sw_get s (peerKey peer)) (\<lambda>v s. (as_eth v, s))"

definition ChequebookPeer :: "swapstate \<Rightarrow> eth_address \<Rightarrow> (swap_error + address option) \<times> swapstate" where
  "ChequebookPeer s chequebook = bindE (sw_get s (chequebookPeerKey chequebook)) (\<lambda>v s. (as_peer v, s))"

definition PutBeneficiary :: "swapstate \<Rightarrow> address \<Rightarrow> eth_address \<Rightarrow> (swap_error + unit) \<times> swapstate" where
  "PutBeneficiary s peer beneficiary =
     bindE (sw_put s (peerBeneficiaryKey peer) (VEth beneficiary)) (\<lambda>_ s.
       sw_put s (beneficiaryPeerKey beneficiary) (VPeer peer))"

definition PutChequebook :: "swapstate \<Rightarrow> address \<Rightarrow> eth_address \<Rightarrow> (swap_error + unit) \<times> swapstate" where
  "PutChequebook s peer chequebook =
     bindE (sw_put s (peerKey peer) (VEth chequebook)) (\<lambda>_ s.
       sw_put s (chequebookPeerKey chequebook) (VPeer peer))"

definition MigratePeer :: "swapstate \<Rightarrow> address \<Rightarrow> address \<Rightarrow> (swap_error + unit) \<times> swapstate" where
  "MigratePeer s oldPeer newPeer =
     bindE (Beneficiary s oldPeer) (\<lambda>known s.
       case known of
         None \<Rightarrow> (Inl ErrOldBeneficiary, s)
       | Some ba \<Rightarrow>
           bindE (Chequebook s oldPeer) (\<lambda>known s.
           bindE (PutBeneficiary s newPeer ba) (\<lambda>_ s.
           bindE (sw_delete s (peerBeneficiaryKey oldPeer)) (\<lambda>_ s.
             case known of
               None \<Rightarrow> (Inr (), s)
             | Some cb \<Rightarrow>
                 bindE (PutChequebook s newPeer cb) (\<lambda>_ s. sw_delete s (peerKey oldPeer))))))"

definition AddDeductionFor :: "swapstate \<Rightarrow> address \<Rightarrow> (swap_error + unit) \<times> swapstate" where
  "AddDeductionFor s peer = sw_put s (peerDeductedForKey peer) VFlag"

definition AddDeductionBy :: "swapstate \<Rightarrow> address \<Rightarrow> (swap_error + unit) \<times> swapstate" where
  "AddDeductionBy s peer = sw_put s (peerDeductedByKey peer) VFlag"

definition GetDeductionFor :: "swapstate \<Rightarrow> address \<Rightarrow> (swap_error + bool) \<times> swapstate" where
  "GetDeductionFor s peer = bindE (sw_get s (peerDeductedForKey peer)) (\<lambda>v s. (Inr (v \<noteq> None), s))"

definition GetDeductionBy :: "swapstate \<Rightarrow> address \<Rightarrow> (swap_error + bool) \<times> swapstate" where
  "GetDeductionBy s peer = bindE (sw_get s (peerDeductedByKey peer)) (\<lambda>v s. (Inr (v \<noteq> None), s))"

section \<open>The price oracle\<close>

record priceoracle =
  po_exchangeRate :: int
  po_deduction :: "int option"

definition po_New :: priceoracle where
  "po_New = \<lparr>po_exchangeRate = 0, po_deduction = None\<rparr>"

text \<open>The answer of the oracle contract: no answer, or a list of values, each a number or of another type.\<close>

definition GetPrice :: "int option list option \<Rightarrow> swap_error + int \<times> int" where
  "GetPrice answer =
     (case answer of
        None \<Rightarrow> Inl SwChain
      | Some results \<Rightarrow>
          if length results \<noteq> 2 then Inl ErrDecodeABI
          else (case results ! 0 of
              None \<Rightarrow> Inl ErrDecodeABI
            | Some exchangeRate \<Rightarrow>
                (case results ! 1 of None \<Rightarrow> Inl ErrDecodeABI | Some deduction \<Rightarrow> Inr (exchangeRate, deduction))))"

text \<open>One round of the polling loop.\<close>

definition po_poll :: "priceoracle \<Rightarrow> int option list option \<Rightarrow> priceoracle" where
  "po_poll po answer =
     (case GetPrice answer of
        Inl _ \<Rightarrow> po
      | Inr (exchangeRate, deduction) \<Rightarrow> po\<lparr>po_exchangeRate := exchangeRate, po_deduction := Some deduction\<rparr>)"

definition CurrentRates :: "priceoracle \<Rightarrow> swap_error + int \<times> int" where
  "CurrentRates po =
     (if po_exchangeRate po = 0 then Inl ErrNoRate
      else case po_deduction po of None \<Rightarrow> Inl ErrNoDeductionRate | Some d \<Rightarrow> Inr (po_exchangeRate po, d))"

section \<open>Settlement headers\<close>

text \<open>A missing entry and a nil value are the same to the parsers.\<close>

type_synonym p2p_Headers = "string \<rightharpoonup> bytes"

definition exchangeRateFieldName :: string where
  "exchangeRateFieldName = ''exchange''"

definition deductionFieldName :: string where
  "deductionFieldName = ''deduction''"

definition MakeSettlementHeaders :: "int \<Rightarrow> int \<Rightarrow> p2p_Headers" where
  "MakeSettlementHeaders exchangeRate deduction =
     [exchangeRateFieldName \<mapsto> big_Bytes exchangeRate, deductionFieldName \<mapsto> big_Bytes deduction]"

definition ParseExchangeHeader :: "p2p_Headers \<Rightarrow> swap_error + int" where
  "ParseExchangeHeader h =
     (case h exchangeRateFieldName of None \<Rightarrow> Inl ErrNoExchangeHeader | Some b \<Rightarrow> Inr (big_SetBytes b))"

definition ParseDeductionHeader :: "p2p_Headers \<Rightarrow> swap_error + int" where
  "ParseDeductionHeader h =
     (case h deductionFieldName of None \<Rightarrow> Inl ErrNoDeductionHeader | Some b \<Rightarrow> Inr (big_SetBytes b))"

text \<open>The two values, the second missing with the error \<open>ErrNoDeductionHeader\<close>.\<close>

definition ParseSettlementResponseHeaders :: "p2p_Headers \<Rightarrow> int option \<times> int option \<times> swap_error option" where
  "ParseSettlementResponseHeaders h =
     (case ParseExchangeHeader h of
        Inl e \<Rightarrow> (None, None, Some e)
      | Inr exchangeRate \<Rightarrow>
          (case ParseDeductionHeader h of
             Inl e \<Rightarrow> (Some exchangeRate, None, Some e)
           | Inr deduction \<Rightarrow> (Some exchangeRate, Some deduction, None)))"

text \<open>The common use of the parser: a missing deduction is zero.\<close>

definition settlement_terms :: "p2p_Headers \<Rightarrow> swap_error + int \<times> int" where
  "settlement_terms h =
     (case ParseSettlementResponseHeaders h of
        (Some exchangeRate, Some deduction, None) \<Rightarrow> Inr (exchangeRate, deduction)
      | (Some exchangeRate, _, Some e) \<Rightarrow> if e \<noteq> ErrNoDeductionHeader then Inl e else Inr (exchangeRate, 0)
      | (_, _, Some e) \<Rightarrow> Inl e
      | (_, _, None) \<Rightarrow> Inl SwPanic)"

definition headersP2PToPB :: "string list \<Rightarrow> p2p_Headers \<Rightarrow> (string \<times> bytes) list" where
  "headersP2PToPB order h = List.map_filter (\<lambda>key. map_option (\<lambda>value. (key, value)) (h key)) order"

definition headersPBToP2P :: "(string \<times> bytes option) list \<Rightarrow> p2p_Headers" where
  "headersPBToP2P hs = fold (\<lambda>(key, value) p2ph. p2ph(key := value)) hs Map.empty"

text \<open>The headers of a response as the other side reads them; \<open>wire\<close> is what the protobuf encoding makes of a value.\<close>

definition headers_exchange :: "(bytes \<Rightarrow> bytes option) \<Rightarrow> string list \<Rightarrow> p2p_Headers \<Rightarrow> p2p_Headers" where
  "headers_exchange wire order h = headersPBToP2P (map (\<lambda>(key, value). (key, wire value)) (headersP2PToPB order h))"

section \<open>The service\<close>

text \<open>The parts of \<open>Service\<close> that do not change: whether it has a chequebook, and where cheques are cashed to.\<close>

record swapconf =
  sc_chequebook :: bool
  sc_cashoutAddress :: eth_address

text \<open>Division of \<open>big.Int\<close> is Euclidean.\<close>

definition big_Div :: "int \<Rightarrow> int \<Rightarrow> int" where
  "big_Div x y = sgn y * (x div \<bar>y\<bar>)"

text \<open>\<open>ReceiveCheque\<close> up to the notification of accounting: the credit of an accepted cheque.\<close>

definition receive_credit ::
    "chain \<Rightarrow> swapstate \<Rightarrow> address \<Rightarrow> SignedCheque \<Rightarrow> int \<Rightarrow> int \<Rightarrow> (swap_error + int) \<times> swapstate" where
  "receive_credit C s peer cheque exchangeRate deduction =
     bindE (Chequebook s peer) (\<lambda>known s.
       if (case known of None \<Rightarrow> False | Some expectedChequebook \<Rightarrow> expectedChequebook \<noteq> ch_Chequebook cheque)
       then (Inl ErrWrongChequebook, s)
       else
         bindE (cs_ReceiveCheque C s cheque exchangeRate deduction) (\<lambda>receivedAmount s.
         bindE (if deduction > 0 then AddDeductionFor s peer else (Inr (), s)) (\<lambda>_ s.
           let decreasedAmount = receivedAmount - deduction in
           if exchangeRate = 0 then (Inl SwPanic, s)
           else
             let amount = big_Div decreasedAmount exchangeRate in
             bindE (if known = None then PutChequebook s peer (ch_Chequebook cheque) else (Inr (), s)) (\<lambda>_ s.
               (Inr amount, s)))))"

definition ReceiveCheque ::
    "'a settlement_Accounting \<Rightarrow> chain \<Rightarrow> swapstate \<Rightarrow> 'a \<Rightarrow> address \<Rightarrow> SignedCheque \<Rightarrow> int \<Rightarrow> int
     \<Rightarrow> (swap_error + unit) \<times> swapstate \<times> 'a" where
  "ReceiveCheque A C s a peer cheque exchangeRate deduction =
     (case receive_credit C s peer cheque exchangeRate deduction of
        (Inl e, s) \<Rightarrow> (Inl e, s, a)
      | (Inr amount, s) \<Rightarrow>
          (case sa_NotifyPaymentReceived A a peer amount of
             (Inl e, a) \<Rightarrow> (Inl (SwAccounting e), s, a)
           | (Inr _, a) \<Rightarrow> (Inr (), s, a)))"

definition Handshake :: "swapstate \<Rightarrow> address \<Rightarrow> eth_address \<Rightarrow> (swap_error + unit) \<times> swapstate" where
  "Handshake s peer beneficiary =
     bindE (BeneficiaryPeer s beneficiary) (\<lambda>known s.
       case known of
         Some oldPeer \<Rightarrow>
           if \<not> addr_Equal peer oldPeer then MigratePeer s oldPeer peer
           else bindE (Beneficiary s peer) (\<lambda>known s.
                  if known = None then PutBeneficiary s peer beneficiary else (Inr (), s))
       | None \<Rightarrow>
           bindE (Beneficiary s peer) (\<lambda>known s.
             if known = None then PutBeneficiary s peer beneficiary else (Inr (), s)))"

text \<open>\<open>EmitCheque\<close> on the headers of the stream, \<open>None\<close> when no stream could be opened; \<open>sendOk\<close> says whether
  encoding and writing the cheque succeed.\<close>

definition EmitCheque ::
    "chain \<Rightarrow> priceoracle \<Rightarrow> swapstate \<Rightarrow> address \<Rightarrow> eth_address \<Rightarrow> int \<Rightarrow> p2p_Headers option \<Rightarrow> bool
     \<Rightarrow> (swap_error + int) \<times> swapstate" where
  "EmitCheque C po s peer beneficiary amount headers sendOk =
     (case headers of
        None \<Rightarrow> (Inl ErrSwStream, s)
      | Some returnedHeaders \<Rightarrow>
        (case settlement_terms returnedHeaders of
           Inl e \<Rightarrow> (Inl e, s)
         | Inr (exchangeRate, deduction) \<Rightarrow>
           bindE (GetDeductionBy s peer) (\<lambda>checkPeer s.
             if checkPeer \<and> deduction \<noteq> 0 then (Inl ErrHaveDeduction, s)
             else
               (case CurrentRates po of
                  Inl e \<Rightarrow> (Inl e, s)
                | Inr (checkExchangeRate, checkDeduction) \<Rightarrow>
                    if exchangeRate \<noteq> checkExchangeRate then (Inl ErrNegotiateRate, s)
                    else if deduction \<noteq> checkDeduction \<and> deduction \<noteq> 0 then (Inl ErrNegotiateDeduction, s)
                    else
                      let paymentAmount = amount * exchangeRate;
                          sentAmount = paymentAmount + deduction in
                      bindE (Issue C s beneficiary sentAmount sendOk) (\<lambda>balance s.
                      bindE (if deduction \<noteq> 0 then AddDeductionBy s peer else (Inr (), s)) (\<lambda>_ s.
                        (Inr balance, s)))))))"

text \<open>\<open>Pay\<close> notifies accounting of the outcome.\<close>

definition pay_cheque ::
    "chain \<Rightarrow> swapconf \<Rightarrow> priceoracle \<Rightarrow> swapstate \<Rightarrow> address \<Rightarrow> int \<Rightarrow> p2p_Headers option \<Rightarrow> bool
     \<Rightarrow> (swap_error + int) \<times> swapstate" where
  "pay_cheque C conf po s peer amount headers sendOk =
     (if \<not> sc_chequebook conf then (Inl ErrNoChequebook, s)
      else bindE (Beneficiary s peer) (\<lambda>known s.
        case known of
          None \<Rightarrow> (Inl ErrUnknownBeneficary, s)
        | Some beneficiary \<Rightarrow> EmitCheque C po s peer beneficiary amount headers sendOk))"

definition swap_Pay ::
    "'a settlement_Accounting \<Rightarrow> chain \<Rightarrow> swapconf \<Rightarrow> priceoracle \<Rightarrow> swapstate \<Rightarrow> 'a \<Rightarrow> address \<Rightarrow> int \<Rightarrow> p2p_Headers option \<Rightarrow> bool
     \<Rightarrow> swapstate \<times> 'a" where
  "swap_Pay A C conf po s a peer amount headers sendOk =
     (case pay_cheque C conf po s peer amount headers sendOk of
        (Inl err, s) \<Rightarrow> (s, sa_NotifyPaymentSent A a peer amount True)
      | (Inr balance, s) \<Rightarrow> (s, sa_NotifyPaymentSent A a peer amount False))"

section \<open>Reports and cashing\<close>

definition orNoSettlements :: "(swap_error + SignedCheque) \<times> swapstate \<Rightarrow> (swap_error + int) \<times> swapstate" where
  "orNoSettlements m =
     (case m of
        (Inl e, s) \<Rightarrow> if e = ErrNoCheque then (Inl SwNoSettlements, s) else (Inl e, s)
      | (Inr cheque, s) \<Rightarrow> (Inr (ch_CumulativePayout cheque), s))"

definition swap_TotalSent :: "swapconf \<Rightarrow> swapstate \<Rightarrow> address \<Rightarrow> (swap_error + int) \<times> swapstate" where
  "swap_TotalSent conf s peer =
     bindE (Beneficiary s peer) (\<lambda>known s.
       case known of
         None \<Rightarrow> (Inl SwNoSettlements, s)
       | Some beneficiary \<Rightarrow>
           if \<not> sc_chequebook conf then (Inr 0, s) else orNoSettlements (cb_LastCheque s beneficiary))"

definition swap_TotalReceived :: "swapstate \<Rightarrow> address \<Rightarrow> (swap_error + int) \<times> swapstate" where
  "swap_TotalReceived s peer =
     bindE (Chequebook s peer) (\<lambda>known s.
       case known of
         None \<Rightarrow> (Inl SwNoSettlements, s)
       | Some chequebookAddress \<Rightarrow> orNoSettlements (cs_LastCheque s chequebookAddress))"

text \<open>Ranging over the last cheques: \<open>order\<close> lists the keys of the map in the order of the iteration.\<close>

fun settlements_loop ::
    "(swapstate \<Rightarrow> eth_address \<Rightarrow> (swap_error + address option) \<times> swapstate) \<Rightarrow> (eth_address \<rightharpoonup> SignedCheque) \<Rightarrow>
     eth_address list \<Rightarrow> (string \<rightharpoonup> int) \<Rightarrow> swapstate \<Rightarrow> (swap_error + (string \<rightharpoonup> int)) \<times> swapstate" where
  "settlements_loop peerOf cheques [] result s = (Inr result, s)"
| "settlements_loop peerOf cheques (x # xs) result s =
     bindE (peerOf s x) (\<lambda>known s.
       case known of
         None \<Rightarrow> settlements_loop peerOf cheques xs result s
       | Some peer \<Rightarrow>
           settlements_loop peerOf cheques xs
             (result(addr_String peer := map_option ch_CumulativePayout (cheques x))) s)"

definition swap_SettlementsSent ::
    "chain \<Rightarrow> swapconf \<Rightarrow> ((eth_address \<rightharpoonup> SignedCheque) \<Rightarrow> eth_address list) \<Rightarrow> swapstate \<Rightarrow> (swap_error + (string \<rightharpoonup> int)) \<times> swapstate" where
  "swap_SettlementsSent C conf order s =
     (if \<not> sc_chequebook conf then (Inr Map.empty, s)
      else bindE (cb_LastCheques C s) (\<lambda>cheques s. settlements_loop BeneficiaryPeer cheques (order cheques) Map.empty s))"

definition swap_SettlementsReceived ::
    "chain \<Rightarrow> ((eth_address \<rightharpoonup> SignedCheque) \<Rightarrow> eth_address list) \<Rightarrow> swapstate \<Rightarrow> (swap_error + (string \<rightharpoonup> int)) \<times> swapstate" where
  "swap_SettlementsReceived C order s =
     bindE (cs_LastCheques C s) (\<lambda>cheques s. settlements_loop ChequebookPeer cheques (order cheques) Map.empty s)"

definition LastSentCheque :: "swapconf \<Rightarrow> swapstate \<Rightarrow> address \<Rightarrow> (swap_error + SignedCheque) \<times> swapstate" where
  "LastSentCheque conf s peer =
     bindE (Beneficiary s peer) (\<lambda>known s.
       case known of
         None \<Rightarrow> (Inl ErrNoCheque, s)
       | Some beneficiary \<Rightarrow> if \<not> sc_chequebook conf then (Inl ErrNoChequebook, s) else cb_LastCheque s beneficiary)"

definition LastReceivedCheque :: "swapstate \<Rightarrow> address \<Rightarrow> (swap_error + SignedCheque) \<times> swapstate" where
  "LastReceivedCheque s peer =
     bindE (Chequebook s peer) (\<lambda>known s.
       case known of None \<Rightarrow> (Inl ErrNoCheque, s) | Some chequebook \<Rightarrow> cs_LastCheque s chequebook)"

text \<open>The lists of last cheques leave out entries whose lookup fails.\<close>

fun cheques_loop ::
    "(swapstate \<Rightarrow> eth_address \<Rightarrow> (swap_error + address option) \<times> swapstate) \<Rightarrow> (eth_address \<rightharpoonup> SignedCheque) \<Rightarrow>
     eth_address list \<Rightarrow> (string \<rightharpoonup> SignedCheque) \<Rightarrow> swapstate \<Rightarrow> (string \<rightharpoonup> SignedCheque) \<times> swapstate" where
  "cheques_loop peerOf lastcheques [] resultmap s = (resultmap, s)"
| "cheques_loop peerOf lastcheques (i # is) resultmap s =
     (case peerOf s i of
        (Inr (Some addr), s) \<Rightarrow> cheques_loop peerOf lastcheques is (resultmap(addr_String addr := lastcheques i)) s
      | (_, s) \<Rightarrow> cheques_loop peerOf lastcheques is resultmap s)"

definition LastSentCheques ::
    "chain \<Rightarrow> swapconf \<Rightarrow> ((eth_address \<rightharpoonup> SignedCheque) \<Rightarrow> eth_address list) \<Rightarrow> swapstate
     \<Rightarrow> (swap_error + (string \<rightharpoonup> SignedCheque)) \<times> swapstate" where
  "LastSentCheques C conf order s =
     (if \<not> sc_chequebook conf then (Inl ErrNoChequebook, s)
      else bindE (cb_LastCheques C s) (\<lambda>lastcheques s.
        case cheques_loop BeneficiaryPeer lastcheques (order lastcheques) Map.empty s of (m, s) \<Rightarrow> (Inr m, s)))"

definition LastReceivedCheques ::
    "chain \<Rightarrow> ((eth_address \<rightharpoonup> SignedCheque) \<Rightarrow> eth_address list) \<Rightarrow> swapstate
     \<Rightarrow> (swap_error + (string \<rightharpoonup> SignedCheque)) \<times> swapstate" where
  "LastReceivedCheques C order s =
     bindE (cs_LastCheques C s) (\<lambda>lastcheques s.
       case cheques_loop ChequebookPeer lastcheques (order lastcheques) Map.empty s of (m, s) \<Rightarrow> (Inr m, s))"

definition swap_CashCheque :: "chain \<Rightarrow> swapconf \<Rightarrow> swapstate \<Rightarrow> address \<Rightarrow> (swap_error + bytes) \<times> swapstate" where
  "swap_CashCheque C conf s peer =
     bindE (Chequebook s peer) (\<lambda>known s.
       case known of
         None \<Rightarrow> (Inl ErrNoCheque, s)
       | Some chequebookAddress \<Rightarrow> co_CashCheque C s chequebookAddress (sc_cashoutAddress conf))"

definition swap_CashoutStatus :: "chain \<Rightarrow> swapstate \<Rightarrow> address \<Rightarrow> (swap_error + CashoutStatus) \<times> swapstate" where
  "swap_CashoutStatus C s peer =
     bindE (Chequebook s peer) (\<lambda>known s.
       case known of
         None \<Rightarrow> (Inl ErrNoCheque, s)
       | Some chequebookAddress \<Rightarrow> co_CashoutStatus C s chequebookAddress)"

section \<open>The protocol\<close>

text \<open>Decoding the JSON of a cheque fails, gives the nil pointer (for \<open>null\<close>), or a cheque.\<close>

datatype json_cheque = JsonError | JsonNull | JsonCheque SignedCheque

definition headler :: "priceoracle \<Rightarrow> swapstate \<Rightarrow> address \<Rightarrow> p2p_Headers \<times> swapstate" where
  "headler po s peerAddress =
     (case CurrentRates po of
        Inl _ \<Rightarrow> (Map.empty, s)
      | Inr (exchangeRate, deduction) \<Rightarrow>
          (case GetDeductionFor s peerAddress of
             (Inl _, s) \<Rightarrow> (Map.empty, s)
           | (Inr checkPeer, s) \<Rightarrow>
               (MakeSettlementHeaders exchangeRate (if checkPeer then 0 else deduction), s)))"

text \<open>The handler on the message read from the stream and the headers the headler returned. A nil cheque is
  dereferenced by \<open>ReceiveCheque\<close>, right after the chequebook of the peer is looked up.\<close>

definition handler ::
    "'a settlement_Accounting \<Rightarrow> chain \<Rightarrow> swapstate \<Rightarrow> 'a \<Rightarrow> address \<Rightarrow> json_cheque option \<Rightarrow> p2p_Headers
     \<Rightarrow> (swap_error + unit) \<times> swapstate \<times> 'a" where
  "handler A C s a p msg responseHeaders =
     (case msg of
        None \<Rightarrow> (Inl ErrSwStream, s, a)
      | Some req \<Rightarrow>
        (case settlement_terms responseHeaders of
           Inl e \<Rightarrow> (Inl e, s, a)
         | Inr (exchangeRate, deduction) \<Rightarrow>
           (case req of
              JsonError \<Rightarrow> (Inl SwDecode, s, a)
            | JsonNull \<Rightarrow> (case Chequebook s p of (Inl e, s) \<Rightarrow> (Inl e, s, a) | (Inr _, s) \<Rightarrow> (Inl SwPanic, s, a))
            | JsonCheque cheque \<Rightarrow> ReceiveCheque A C s a p cheque exchangeRate deduction)))"

text \<open>Called on every connection; \<open>BytesToAddress\<close> is the conversion of the Ethereum library.\<close>

definition swap_init :: "(bytes \<Rightarrow> eth_address) \<Rightarrow> swapstate \<Rightarrow> address \<Rightarrow> bytes \<Rightarrow> (swap_error + unit) \<times> swapstate" where
  "swap_init BytesToAddress s p ethereumAddress = Handshake s p (BytesToAddress ethereumAddress)"

end
