(* ===== verification/SwapProps.thy ===== *)
theory SwapProps
  imports Swap
begin

text \<open>
  Properties of the swap settlement: the address book stays true to the announced addresses
  under every failure of the store, a payment is credited exactly and at most once, and the deduction is
  granted once.
\<close>

section \<open>The entries of the store\<close>

datatype slot =
    SPeer address
  | SChequebookPeer eth_address
  | SPeerBeneficiary address
  | SBeneficiaryPeer eth_address
  | SDeductedBy address
  | SDeductedFor address
  | SReceived eth_address
  | SIssued eth_address
  | STotal

primrec slot_key :: "slot \<Rightarrow> string" where
  "slot_key (SPeer p) = peerKey p"
| "slot_key (SChequebookPeer c) = chequebookPeerKey c"
| "slot_key (SPeerBeneficiary p) = peerBeneficiaryKey p"
| "slot_key (SBeneficiaryPeer b) = beneficiaryPeerKey b"
| "slot_key (SDeductedBy p) = peerDeductedByKey p"
| "slot_key (SDeductedFor p) = peerDeductedForKey p"
| "slot_key (SReceived c) = lastReceivedChequeKey c"
| "slot_key (SIssued b) = lastIssuedChequeKey b"
| "slot_key STotal = totalIssuedKey"

lemmas key_defs = peerKey_def chequebookPeerKey_def peerBeneficiaryKey_def beneficiaryPeerKey_def
  peerDeductedByKey_def peerDeductedForKey_def peerPrefix_def peerChequebookPrefix_def
  beneficiaryPeerPrefix_def peerBeneficiaryPrefix_def deductedForPeerPrefix_def deductedByPeerPrefix_def
  lastReceivedChequeKey_def lastIssuedChequeKey_def lastReceivedChequePrefix_def
  lastIssuedChequeKeyPrefix_def totalIssuedKey_def addr_String_def

lemma slot_key_inj: "slot_key x = slot_key y \<longleftrightarrow> x = y"
  by (cases x; cases y) (simp_all add: key_defs)

definition slot_of :: "swapstate \<Rightarrow> slot \<Rightarrow> swap_value option" where
  "slot_of s x = swkv s (slot_key x)"

lemma slot_upd: "swkv t = (swkv s)(slot_key x := v) \<Longrightarrow> slot_of t = (slot_of s)(x := v)"
  by (auto simp: slot_of_def slot_key_inj fun_eq_iff)

lemma slot_same: "swkv t = swkv s \<Longrightarrow> slot_of t = slot_of s"
  by (simp add: slot_of_def fun_eq_iff)

text \<open>What the operations keep: the fields, and all entries but those written.\<close>

definition unchanged :: "swapstate \<Rightarrow> swapstate \<Rightarrow> bool" where
  "unchanged s t \<longleftrightarrow> sw_same s t \<and> slot_of t = slot_of s"

definition written :: "swapstate \<Rightarrow> (slot \<rightharpoonup> swap_value) \<Rightarrow> swapstate \<Rightarrow> bool" where
  "written s m t \<longleftrightarrow> sw_same s t \<and> slot_of t = m"

lemma unchanged_refl [simp]: "unchanged s s"
  by (simp add: unchanged_def)

lemma reads_unchanged: "sw_reads s t \<Longrightarrow> unchanged s t"
  using slot_same [of t s] by (simp add: sw_reads_def unchanged_def)

lemma unchanged_trans [trans]: "unchanged s t \<Longrightarrow> unchanged t u \<Longrightarrow> unchanged s u"
  by (auto simp: unchanged_def intro: sw_same_trans)

lemma outcome_get_slot:
  assumes "\<And>t e. unchanged s t \<Longrightarrow> Q (Inl (SwStore e)) t" "\<And>t. unchanged s t \<Longrightarrow> Q (Inr (slot_of s x)) t"
  shows "outcome (sw_get s (slot_key x)) Q"
  using assms reads_unchanged by (intro outcome_get) (auto simp: slot_of_def)

lemma outcome_put_slot:
  assumes "\<And>t e. unchanged s t \<Longrightarrow> Q (Inl e) t" "\<And>t. written s ((slot_of s)(x \<mapsto> v)) t \<Longrightarrow> Q (Inr ()) t"
  shows "outcome (sw_put s (slot_key x) v) Q"
  using assms reads_unchanged by (intro outcome_put) (auto simp: written_def dest: slot_upd)

lemma outcome_delete_slot:
  assumes "\<And>t e. unchanged s t \<Longrightarrow> Q (Inl e) t" "\<And>t. written s ((slot_of s)(x := None)) t \<Longrightarrow> Q (Inr ()) t"
  shows "outcome (sw_delete s (slot_key x)) Q"
  using assms reads_unchanged by (intro outcome_delete) (auto simp: written_def dest: slot_upd)

lemmas get_Beneficiary = outcome_get_slot [of _ _ "SPeerBeneficiary p", simplified] for p
lemmas get_BeneficiaryPeer = outcome_get_slot [of _ _ "SBeneficiaryPeer b", simplified] for b
lemmas get_Chequebook = outcome_get_slot [of _ _ "SPeer p", simplified] for p

text \<open>A lookup of the address book reads one entry.\<close>

lemma outcome_Beneficiary:
  assumes "\<And>t e. unchanged s t \<Longrightarrow> Q (Inl e) t"
    "\<And>t v. unchanged s t \<Longrightarrow> as_eth (slot_of s (SPeerBeneficiary p)) = Inr v \<Longrightarrow> Q (Inr v) t"
  shows "outcome (Beneficiary s p) Q"
  unfolding Beneficiary_def
  by (rule outcome_bindE, rule get_Beneficiary)
    (use assms in \<open>auto simp: as_eth_def split: option.split swap_value.split\<close>)

lemma outcome_Chequebook:
  assumes "\<And>t e. unchanged s t \<Longrightarrow> Q (Inl e) t"
    "\<And>t v. unchanged s t \<Longrightarrow> as_eth (slot_of s (SPeer p)) = Inr v \<Longrightarrow> Q (Inr v) t"
  shows "outcome (Chequebook s p) Q"
  unfolding Chequebook_def
  by (rule outcome_bindE, rule get_Chequebook)
    (use assms in \<open>auto simp: as_eth_def split: option.split swap_value.split\<close>)

lemma outcome_BeneficiaryPeer:
  assumes "\<And>t e. unchanged s t \<Longrightarrow> Q (Inl e) t"
    "\<And>t v. unchanged s t \<Longrightarrow> as_peer (slot_of s (SBeneficiaryPeer b)) = Inr v \<Longrightarrow> Q (Inr v) t"
  shows "outcome (BeneficiaryPeer s b) Q"
  unfolding BeneficiaryPeer_def
  by (rule outcome_bindE, rule get_BeneficiaryPeer)
    (use assms in \<open>auto simp: as_peer_def split: option.split swap_value.split\<close>)

lemma as_eth_iff: "as_eth v = Inr (Some x) \<longleftrightarrow> v = Some (VEth x)" "as_eth v = Inr None \<longleftrightarrow> v = None"
  by (auto simp: as_eth_def split: option.splits swap_value.splits)

lemma as_peer_iff: "as_peer v = Inr (Some x) \<longleftrightarrow> v = Some (VPeer x)" "as_peer v = Inr None \<longleftrightarrow> v = None"
  by (auto simp: as_peer_def split: option.splits swap_value.splits)

section \<open>The address book\<close>

text \<open>The overlay address of a peer determines its Ethereum address; the book is true when it only holds such pairs.\<close>

definition book_true :: "(address \<Rightarrow> eth_address) \<Rightarrow> (slot \<rightharpoonup> swap_value) \<Rightarrow> bool" where
  "book_true E m \<longleftrightarrow> (\<forall>p v. m (SPeerBeneficiary p) = Some v \<longrightarrow> v = VEth (E p)) \<and>
     (\<forall>b v. m (SBeneficiaryPeer b) = Some v \<longrightarrow> (\<exists>p. v = VPeer p \<and> E p = b))"

text \<open>The entries a handshake leaves alone.\<close>

definition book_frame :: "(slot \<rightharpoonup> swap_value) \<Rightarrow> (slot \<rightharpoonup> swap_value) \<Rightarrow> bool" where
  "book_frame m m' \<longleftrightarrow> (\<forall>x. (case x of SPeer _ \<Rightarrow> False | SChequebookPeer _ \<Rightarrow> False | SPeerBeneficiary _ \<Rightarrow> False
      | SBeneficiaryPeer _ \<Rightarrow> False | _ \<Rightarrow> True) \<longrightarrow> m' x = m x)"

definition book_kept :: "(address \<Rightarrow> eth_address) \<Rightarrow> swapstate \<Rightarrow> swapstate \<Rightarrow> bool" where
  "book_kept E s t \<longleftrightarrow> sw_same s t \<and> book_frame (slot_of s) (slot_of t) \<and> book_true E (slot_of t)"

lemma book_kept_unchanged: "book_kept E s t \<Longrightarrow> unchanged t u \<Longrightarrow> book_kept E s u"
  by (auto simp: book_kept_def unchanged_def intro: sw_same_trans)

lemma book_kept_written:
  "book_kept E s t \<Longrightarrow> written t m u \<Longrightarrow> book_frame (slot_of t) m \<Longrightarrow> book_true E m \<Longrightarrow> book_kept E s u"
  by (auto simp: book_kept_def written_def book_frame_def intro: sw_same_trans)

lemma frame_upd:
  "book_frame m (m(SPeer p := v))" "book_frame m (m(SChequebookPeer c := v))"
  "book_frame m (m(SPeerBeneficiary p := v))" "book_frame m (m(SBeneficiaryPeer b := v))"
  by (auto simp: book_frame_def)

lemma true_upd:
  "book_true E m \<Longrightarrow> book_true E (m(SPeer p := v))" "book_true E m \<Longrightarrow> book_true E (m(SChequebookPeer c := v))"
  "book_true E m \<Longrightarrow> book_true E (m(SPeerBeneficiary p := None))"
  "book_true E m \<Longrightarrow> b = E p \<Longrightarrow> book_true E (m(SPeerBeneficiary p \<mapsto> VEth b))"
  "book_true E m \<Longrightarrow> b = E p \<Longrightarrow> book_true E (m(SBeneficiaryPeer b \<mapsto> VPeer p))"
  by (auto simp: book_true_def)

lemmas put_slots = outcome_put_slot [of _ _ "SPeer p", simplified]
  outcome_put_slot [of _ _ "SChequebookPeer c", simplified] outcome_put_slot [of _ _ "SPeerBeneficiary p", simplified]
  outcome_put_slot [of _ _ "SBeneficiaryPeer b", simplified] for p c b

lemma outcome_PutBeneficiary:
  assumes "book_kept E s0 s" "b = E p"
    "\<And>t e. book_kept E s0 t \<Longrightarrow> Q (Inl e) t"
    "\<And>t. book_kept E s0 t \<Longrightarrow> slot_of t = (slot_of s)(SPeerBeneficiary p \<mapsto> VEth b, SBeneficiaryPeer b \<mapsto> VPeer p) \<Longrightarrow> Q (Inr ()) t"
  shows "outcome (PutBeneficiary s p b) Q"
  unfolding PutBeneficiary_def
proof (rule outcome_bindE, rule put_slots(3), simp_all only: sum.case)
  show "Q (Inl e) t" if "unchanged s t" for t e using assms(1,3) book_kept_unchanged [OF _ that] by blast
  fix t assume t: "written s ((slot_of s)(SPeerBeneficiary p \<mapsto> VEth b)) t"
  have true: "book_true E (slot_of s)" using assms(1) by (simp add: book_kept_def)
  have k: "book_kept E s0 t" by (rule book_kept_written [OF assms(1) t frame_upd(3) true_upd(4) [OF true assms(2)]])
  have tt: "book_true E (slot_of t)" using k by (simp add: book_kept_def)
  have tm: "slot_of t = (slot_of s)(SPeerBeneficiary p \<mapsto> VEth b)" using t by (simp add: written_def)
  show "outcome (sw_put t (beneficiaryPeerKey b) (VPeer p)) Q"
  proof (rule put_slots(4))
    show "Q (Inl e) u" if "unchanged t u" for u e using assms(3) book_kept_unchanged [OF k that] by blast
    fix u assume u: "written t ((slot_of t)(SBeneficiaryPeer b \<mapsto> VPeer p)) u"
    show "Q (Inr ()) u"
    proof (rule assms(4))
      show "book_kept E s0 u" by (rule book_kept_written [OF k u frame_upd(4) true_upd(5) [OF tt assms(2)]])
      show "slot_of u = (slot_of s)(SPeerBeneficiary p \<mapsto> VEth b, SBeneficiaryPeer b \<mapsto> VPeer p)"
        using u tm by (simp add: written_def)
    qed
  qed
qed

lemma outcome_PutChequebook:
  assumes "book_kept E s0 s" "\<And>t e. book_kept E s0 t \<Longrightarrow> Q (Inl e) t"
    "\<And>t. book_kept E s0 t \<Longrightarrow> slot_of t = (slot_of s)(SPeer p \<mapsto> VEth cb, SChequebookPeer cb \<mapsto> VPeer p) \<Longrightarrow> Q (Inr ()) t"
  shows "outcome (PutChequebook s p cb) Q"
  unfolding PutChequebook_def
proof (rule outcome_bindE, rule put_slots(1), simp_all only: sum.case)
  show "Q (Inl e) t" if "unchanged s t" for t e using assms(1,2) book_kept_unchanged [OF _ that] by blast
  fix t assume t: "written s ((slot_of s)(SPeer p \<mapsto> VEth cb)) t"
  have true: "book_true E (slot_of s)" using assms(1) by (simp add: book_kept_def)
  have k: "book_kept E s0 t" by (rule book_kept_written [OF assms(1) t frame_upd(1) true_upd(1) [OF true]])
  have tt: "book_true E (slot_of t)" using k by (simp add: book_kept_def)
  have tm: "slot_of t = (slot_of s)(SPeer p \<mapsto> VEth cb)" using t by (simp add: written_def)
  show "outcome (sw_put t (chequebookPeerKey cb) (VPeer p)) Q"
  proof (rule put_slots(2))
    show "Q (Inl e) u" if "unchanged t u" for u e using assms(2) book_kept_unchanged [OF k that] by blast
    fix u assume u: "written t ((slot_of t)(SChequebookPeer cb \<mapsto> VPeer p)) u"
    show "Q (Inr ()) u"
    proof (rule assms(3))
      show "book_kept E s0 u" by (rule book_kept_written [OF k u frame_upd(2) true_upd(2) [OF tt]])
      show "slot_of u = (slot_of s)(SPeer p \<mapsto> VEth cb, SChequebookPeer cb \<mapsto> VPeer p)"
        using u tm by (simp add: written_def)
    qed
  qed
qed

lemma outcome_delete_kept:
  assumes "book_kept E s0 s" "x = SPeer p \<or> x = SPeerBeneficiary p" "\<And>t e. book_kept E s0 t \<Longrightarrow> Q (Inl e) t"
    "\<And>t. book_kept E s0 t \<Longrightarrow> slot_of t = (slot_of s)(x := None) \<Longrightarrow> Q (Inr ()) t"
  shows "outcome (sw_delete s (slot_key x)) Q"
proof (rule outcome_delete_slot)
  show "Q (Inl e) t" if "unchanged s t" for t e using assms(1,3) book_kept_unchanged [OF _ that] by blast
  fix t assume t: "written s ((slot_of s)(x := None)) t"
  have true: "book_true E (slot_of s)" using assms(1) by (simp add: book_kept_def)
  have "book_kept E s0 t"
    by (rule book_kept_written [OF assms(1) t]) (use assms(2) frame_upd true_upd(1,3) [OF true] in auto)
  then show "Q (Inr ()) t" by (rule assms(4)) (use t in \<open>simp add: written_def\<close>)
qed

lemmas delete_kept = outcome_delete_kept [of _ _ _ "SPeer p", simplified] outcome_delete_kept [of _ _ _ "SPeerBeneficiary p", simplified] for p

text \<open>A migration moves the beneficiary, and the chequebook if there is one, to the new peer.\<close>

definition moved :: "(slot \<rightharpoonup> swap_value) \<Rightarrow> address \<Rightarrow> address \<Rightarrow> eth_address \<Rightarrow> (slot \<rightharpoonup> swap_value) \<Rightarrow> bool" where
  "moved m old new b m' \<longleftrightarrow> m' (SPeerBeneficiary new) = Some (VEth b) \<and> m' (SBeneficiaryPeer b) = Some (VPeer new) \<and>
     m' (SPeerBeneficiary old) = None \<and> (\<forall>q. q \<noteq> old \<longrightarrow> q \<noteq> new \<longrightarrow> m' (SPeerBeneficiary q) = m (SPeerBeneficiary q)) \<and>
     (\<forall>c. c \<noteq> b \<longrightarrow> m' (SBeneficiaryPeer c) = m (SBeneficiaryPeer c)) \<and>
     m' (SPeer new) = (if m (SPeer old) = None then m (SPeer new) else m (SPeer old))"

lemma MigratePeer_outcome:
  assumes "book_kept E s0 s" "E old = E new" "old \<noteq> new"
  shows "outcome (MigratePeer s old new) (\<lambda>r t. book_kept E s0 t \<and> (r = Inr () \<longrightarrow> moved (slot_of s) old new (E new) (slot_of t)))"
    (is "outcome _ ?Q")
proof -
  let ?m = "slot_of s" and ?b = "E new"
  have tail: "outcome (case k of None \<Rightarrow> (Inr (), u) | Some cb \<Rightarrow> bindE (PutChequebook u new cb) (\<lambda>_ s. sw_delete s (peerKey old))) ?Q"
    if u: "book_kept E s0 u" "slot_of u = ?m(SPeerBeneficiary new \<mapsto> VEth ?b, SBeneficiaryPeer ?b \<mapsto> VPeer new, SPeerBeneficiary old := None)"
      and k: "as_eth (?m (SPeer old)) = Inr k" for u k
  proof (cases k)
    case None
    then show ?thesis using u k assms(3) by (auto simp: moved_def as_eth_iff)
  next
    case (Some cb)
    then have cb: "?m (SPeer old) = Some (VEth cb)" using k by (simp add: as_eth_iff)
    show ?thesis unfolding Some option.case
      by (rule outcome_bindE, rule outcome_PutChequebook [OF u(1)]; simp; rule delete_kept(1), assumption)
        (use u(2) cb assms(3) in \<open>auto simp: moved_def\<close>)
  qed
  have body: "outcome (bindE (Chequebook t old) (\<lambda>known s. bindE (PutBeneficiary s new ?b) (\<lambda>_ s.
      bindE (sw_delete s (peerBeneficiaryKey old)) (\<lambda>_ s. case known of None \<Rightarrow> (Inr (), s)
        | Some cb \<Rightarrow> bindE (PutChequebook s new cb) (\<lambda>_ s. sw_delete s (peerKey old)))))) ?Q"
    if t: "book_kept E s0 t" "slot_of t = ?m" for t
  proof (rule outcome_bindE, rule outcome_Chequebook, simp_all only: sum.case)
    show "?Q (Inl e) u" if "unchanged t u" for u e using book_kept_unchanged [OF t(1) that] by simp
    fix u k assume u: "unchanged t u" and k: "as_eth (slot_of t (SPeer old)) = Inr k"
    have um: "slot_of u = ?m" using u t(2) by (simp add: unchanged_def)
    show "outcome (bindE (PutBeneficiary u new ?b) (\<lambda>_ s. bindE (sw_delete s (peerBeneficiaryKey old)) (\<lambda>_ s.
        case k of None \<Rightarrow> (Inr (), s) | Some cb \<Rightarrow> bindE (PutChequebook s new cb) (\<lambda>_ s. sw_delete s (peerKey old))))) ?Q"
    proof (rule outcome_bindE, rule outcome_PutBeneficiary [OF book_kept_unchanged [OF t(1) u] refl], unfold sum.case)
      show "?Q (Inl e) v" if "book_kept E s0 v" for v e using that by simp
      fix v assume v: "book_kept E s0 v" "slot_of v = (slot_of u)(SPeerBeneficiary new \<mapsto> VEth ?b, SBeneficiaryPeer ?b \<mapsto> VPeer new)"
      show "outcome (bindE (sw_delete v (peerBeneficiaryKey old)) (\<lambda>_ s.
        case k of None \<Rightarrow> (Inr (), s) | Some cb \<Rightarrow> bindE (PutChequebook s new cb) (\<lambda>_ s. sw_delete s (peerKey old)))) ?Q"
        by (rule outcome_bindE, rule delete_kept(2) [OF v(1)], simp_all only: sum.case)
          (simp, rule tail, use v(2) um k t(2) in auto)
    qed
  qed
  show ?thesis unfolding MigratePeer_def
  proof (rule outcome_bindE, rule outcome_Beneficiary, simp_all only: sum.case)
    show "?Q (Inl e) u" if "unchanged s u" for u e using book_kept_unchanged [OF assms(1) that] by simp
    fix t k assume t: "unchanged s t" and k: "as_eth (?m (SPeerBeneficiary old)) = Inr k"
    have kt: "book_kept E s0 t" by (rule book_kept_unchanged [OF assms(1) t])
    have true: "book_true E ?m" using assms(1) by (simp add: book_kept_def)
    have "k = None \<or> k = Some ?b" using k true assms(2) by (cases k) (auto simp: as_eth_iff book_true_def)
    then show "outcome (case k of None \<Rightarrow> (Inl ErrOldBeneficiary, t) | Some ba \<Rightarrow> bindE (Chequebook t old) (\<lambda>known s.
        bindE (PutBeneficiary s new ba) (\<lambda>_ s. bindE (sw_delete s (peerBeneficiaryKey old)) (\<lambda>_ s. case known of None \<Rightarrow> (Inr (), s)
        | Some cb \<Rightarrow> bindE (PutChequebook s new cb) (\<lambda>_ s. sw_delete s (peerKey old)))))) ?Q"
      using body [OF kt] kt t by (auto simp: unchanged_def)
  qed
qed

text \<open>Every peer is the peer of its beneficiary.\<close>

definition book_paired :: "(slot \<rightharpoonup> swap_value) \<Rightarrow> bool" where
  "book_paired m \<longleftrightarrow> (\<forall>p b. m (SPeerBeneficiary p) = Some (VEth b) \<longrightarrow> m (SBeneficiaryPeer b) = Some (VPeer p))"

lemma moved_paired:
  assumes "moved m old new b m'" "book_paired m" "m (SBeneficiaryPeer b) = Some (VPeer old)" "old \<noteq> new"
  shows "book_paired m'"
  unfolding book_paired_def
proof (intro allI impI)
  fix p c assume p: "m' (SPeerBeneficiary p) = Some (VEth c)"
  show "m' (SBeneficiaryPeer c) = Some (VPeer p)"
  proof (cases "p = new")
    case False
    have "p \<noteq> old" using p assms(1) by (auto simp: moved_def)
    moreover have "m (SPeerBeneficiary p) = Some (VEth c)" using p assms(1) False calculation by (simp add: moved_def)
    ultimately have "m (SBeneficiaryPeer c) = Some (VPeer p)" "c \<noteq> b" using assms(2,3) by (auto simp: book_paired_def)
    then show ?thesis using assms(1) by (simp add: moved_def)
  qed (use p assms(1) in \<open>simp add: moved_def\<close>)
qed

definition handshaken :: "(address \<Rightarrow> eth_address) \<Rightarrow> swapstate \<Rightarrow> address \<Rightarrow> swap_error + unit \<Rightarrow> swapstate \<Rightarrow> bool" where
  "handshaken E s p r t \<longleftrightarrow> book_kept E s t \<and>
     (r = Inr () \<longrightarrow> slot_of t (SPeerBeneficiary p) = Some (VEth (E p)) \<and>
       (book_paired (slot_of s) \<longrightarrow> book_paired (slot_of t)) \<and>
       (\<forall>old. slot_of s (SBeneficiaryPeer (E p)) = Some (VPeer old) \<longrightarrow> old \<noteq> p \<longrightarrow>
          moved (slot_of s) old p (E p) (slot_of t)))"

lemma Handshake_outcome:
  assumes "book_true E (slot_of s)"
  shows "outcome (Handshake s p (E p)) (handshaken E s p)"
proof -
  let ?m = "slot_of s" and ?b = "E p"
  have k: "book_kept E s s" using assms by (simp add: book_kept_def book_frame_def)
  have first: "outcome (bindE (Beneficiary t p) (\<lambda>known s. if known = None then PutBeneficiary s p ?b else (Inr (), s))) (handshaken E s p)"
    if t: "unchanged s t" and bp: "?m (SBeneficiaryPeer ?b) \<in> {None, Some (VPeer p)}" for t
  proof (rule outcome_bindE, rule outcome_Beneficiary, unfold sum.case)
    have kt: "book_kept E s t" and tm: "slot_of t = ?m" using t book_kept_unchanged [OF k t] by (simp_all add: unchanged_def)
    fix u assume u: "unchanged t u"
    have ku: "book_kept E s u" and um: "slot_of u = ?m" using u tm book_kept_unchanged [OF kt u] by (simp_all add: unchanged_def)
    show "handshaken E s p (Inl e) u" for e using ku by (simp add: handshaken_def)
    fix v assume v: "as_eth (slot_of t (SPeerBeneficiary p)) = Inr v"
    show "outcome (if v = None then PutBeneficiary u p ?b else (Inr (), u)) (handshaken E s p)"
    proof (cases v)
      case (Some x)
      then have "?m (SPeerBeneficiary p) = Some (VEth x)" using v tm by (simp add: as_eth_iff)
      moreover have "x = ?b" using calculation assms by (auto simp: book_true_def)
      ultimately show ?thesis using ku um bp Some by (auto simp: handshaken_def)
    next
      case None
      have "outcome (PutBeneficiary u p ?b) (handshaken E s p)"
      proof (rule outcome_PutBeneficiary [OF ku refl])
        show "handshaken E s p (Inl e) w" if "book_kept E s w" for w e using that by (simp add: handshaken_def)
        fix w assume w: "book_kept E s w" "slot_of w = (slot_of u)(SPeerBeneficiary p \<mapsto> VEth ?b, SBeneficiaryPeer ?b \<mapsto> VPeer p)"
        have "book_paired (slot_of w)" if "book_paired ?m"
          using that w(2) um bp by (auto simp: book_paired_def)
        then show "handshaken E s p (Inr ()) w" using w um bp by (auto simp: handshaken_def)
      qed
      then show ?thesis using None by simp
    qed
  qed
  have migrate: "outcome (MigratePeer t old p) (handshaken E s p)"
    if t: "unchanged s t" and bp: "?m (SBeneficiaryPeer ?b) = Some (VPeer old)" "old \<noteq> p" for t old
  proof -
    have kt: "book_kept E s t" and tm: "slot_of t = ?m" using t book_kept_unchanged [OF k t] by (simp_all add: unchanged_def)
    have "E old = E p" using assms bp(1) by (auto simp: book_true_def)
    then show ?thesis
      by (rule outcome_mono [OF MigratePeer_outcome [OF kt _ bp(2)]])
        (use bp tm moved_paired [where m = ?m and old = old and new = p and b = ?b] in \<open>auto simp: handshaken_def moved_def\<close>)
  qed
  show ?thesis unfolding Handshake_def
  proof (rule outcome_bindE, rule outcome_BeneficiaryPeer, unfold sum.case)
    fix t assume t: "unchanged s t"
    show "handshaken E s p (Inl e) t" for e using book_kept_unchanged [OF k t] by (simp add: handshaken_def)
    fix v assume v: "as_peer (?m (SBeneficiaryPeer ?b)) = Inr v"
    then have "?m (SBeneficiaryPeer ?b) = map_option VPeer v" by (cases v) (simp_all add: as_peer_iff)
    then show "outcome (case v of None \<Rightarrow> bindE (Beneficiary t p) (\<lambda>known s. if known = None then PutBeneficiary s p ?b else (Inr (), s))
        | Some old \<Rightarrow> if \<not> addr_Equal p old then MigratePeer t old p
            else bindE (Beneficiary t p) (\<lambda>known s. if known = None then PutBeneficiary s p ?b else (Inr (), s))) (handshaken E s p)"
      using first [OF t] migrate [OF t] by (cases v) (auto simp: addr_Equal_def)
  qed
qed

section \<open>Headers\<close>

lemma SetBytes_Bytes [simp]: "big_SetBytes (big_Bytes x) = \<bar>x\<bar>"
  by (simp add: big_Bytes_def big_SetBytes_be_nat)

lemma terms_made: "settlement_terms (MakeSettlementHeaders r d) = Inr (\<bar>r\<bar>, \<bar>d\<bar>)"
  by (simp add: settlement_terms_def ParseSettlementResponseHeaders_def ParseExchangeHeader_def ParseDeductionHeader_def
      MakeSettlementHeaders_def exchangeRateFieldName_def deductionFieldName_def)

text \<open>The protobuf encoding does not write an empty value, which is read back as nil.\<close>

definition wire_ok :: "(bytes \<Rightarrow> bytes option) \<Rightarrow> bool" where
  "wire_ok wire \<longleftrightarrow> (\<forall>v. wire v = Some v \<or> v = [] \<and> wire v = None)"

lemma headers_exchange_lookup:
  assumes "distinct order"
  shows "headers_exchange wire order h k = (if k \<in> set order then Option.bind (h k) wire else None)"
proof -
  have gen: "fold (\<lambda>(key, value) m. m(key := value)) (map (\<lambda>(key, value). (key, wire value))
      (List.map_filter (\<lambda>key. map_option (Pair key) (h key)) order)) m k = (if k \<in> set order \<and> h k \<noteq> None then Option.bind (h k) wire else m k)" for m
    using assms by (induction order arbitrary: m) (auto simp: List.map_filter_simps split: option.split)
  show ?thesis using gen [of Map.empty] by (auto simp: headers_exchange_def headersPBToP2P_def headersP2PToPB_def)
qed

lemma terms_exchanged:
  assumes "wire_ok wire" "distinct order" "set order = dom (MakeSettlementHeaders r d)" "r \<noteq> 0"
  shows "settlement_terms (headers_exchange wire order (MakeSettlementHeaders r d)) = Inr (\<bar>r\<bar>, \<bar>d\<bar>)"
proof -
  have keys: "exchangeRateFieldName \<in> set order" "deductionFieldName \<in> set order"
    using assms(3) by (auto simp: MakeSettlementHeaders_def)
  have ne: "exchangeRateFieldName \<noteq> deductionFieldName" by (simp add: exchangeRateFieldName_def deductionFieldName_def)
  have r: "big_Bytes r \<noteq> []" using assms(4) SetBytes_Bytes [of r] by (auto simp: big_SetBytes_def)
  have d: "big_Bytes d = [] \<Longrightarrow> d = 0" using SetBytes_Bytes [of d] by (auto simp: big_SetBytes_def)
  have we: "wire (big_Bytes r) = Some (big_Bytes r)" using assms(1) r by (auto simp: wire_ok_def)
  have wd: "wire (big_Bytes d) = Some (big_Bytes d) \<or> d = 0 \<and> wire (big_Bytes d) = None" using assms(1) d by (auto simp: wire_ok_def)
  show ?thesis
    using keys ne we wd by (auto simp: settlement_terms_def ParseSettlementResponseHeaders_def ParseExchangeHeader_def
        ParseDeductionHeader_def headers_exchange_lookup [OF assms(2)] MakeSettlementHeaders_def)
qed

section \<open>Sending a cheque\<close>

lemma issued_slot: "issued s b = (case slot_of s (SIssued b) of Some (VCheque c) \<Rightarrow> ch_CumulativePayout c | _ \<Rightarrow> 0)"
  by (simp add: issued_def slot_of_def)

lemma received_slot: "received s c = (case slot_of s (SReceived c) of Some (VCheque c) \<Rightarrow> ch_CumulativePayout c | _ \<Rightarrow> 0)"
  by (simp add: received_def slot_of_def)

lemma unchanged_views: "unchanged s t \<Longrightarrow> issued t = issued s \<and> received t = received s \<and> sw_address t = sw_address s \<and>
    sw_beneficiary t = sw_beneficiary s \<and> sw_sent t = sw_sent s \<and> slot_of t = slot_of s"
  by (auto simp: unchanged_def sw_same_def issued_slot received_slot fun_eq_iff)

text \<open>The cheque for a payment: the cheques of earlier payments are covered by it.\<close>

definition next_cheque :: "swapstate \<Rightarrow> eth_address \<Rightarrow> int \<Rightarrow> bytes \<Rightarrow> SignedCheque" where
  "next_cheque s b n sig = \<lparr>ch_Chequebook = sw_address s, ch_Beneficiary = b, ch_CumulativePayout = issued s b + n, ch_Signature = sig\<rparr>"

definition one_cheque :: "swapstate \<Rightarrow> eth_address \<Rightarrow> int \<Rightarrow> swapstate \<Rightarrow> bool" where
  "one_cheque s b n t \<longleftrightarrow> (\<exists>sig. sw_sent t = sw_sent s @ [next_cheque s b n sig])"

definition paid_terms :: "priceoracle \<Rightarrow> swapstate \<Rightarrow> address \<Rightarrow> p2p_Headers \<Rightarrow> int \<Rightarrow> int \<Rightarrow> bool" where
  "paid_terms po s p h rate ded \<longleftrightarrow> settlement_terms h = Inr (rate, ded) \<and>
     (\<exists>d. CurrentRates po = Inr (rate, d) \<and> ded \<in> {d, 0}) \<and> (slot_of s (SDeductedBy p) \<noteq> None \<longrightarrow> ded = 0)"

text \<open>The entries a payment does not write; a deduction once recorded stays recorded.\<close>

definition pay_frame :: "(slot \<rightharpoonup> swap_value) \<Rightarrow> (slot \<rightharpoonup> swap_value) \<Rightarrow> bool" where
  "pay_frame m m' \<longleftrightarrow> (\<forall>x. (case x of SIssued _ \<Rightarrow> False | STotal \<Rightarrow> False | SDeductedBy _ \<Rightarrow> False | _ \<Rightarrow> True) \<longrightarrow> m' x = m x) \<and>
     (\<forall>q. m (SDeductedBy q) \<noteq> None \<longrightarrow> m' (SDeductedBy q) \<noteq> None)"

definition emitted :: "priceoracle \<Rightarrow> swapstate \<Rightarrow> address \<Rightarrow> eth_address \<Rightarrow> int \<Rightarrow> p2p_Headers \<Rightarrow> swap_error + int \<Rightarrow> swapstate \<Rightarrow> bool" where
  "emitted po s p b n h r t \<longleftrightarrow> sw_address t = sw_address s \<and> pay_frame (slot_of s) (slot_of t) \<and>
     (case r of
        Inl _ \<Rightarrow> sw_sent t = sw_sent s \<or> (\<exists>rate ded. paid_terms po s p h rate ded \<and> one_cheque s b (n * rate + ded) t)
      | Inr _ \<Rightarrow> (\<exists>rate ded. paid_terms po s p h rate ded \<and> one_cheque s b (n * rate + ded) t \<and>
          issued t = (issued s)(b := issued s b + (n * rate + ded)) \<and>
          (\<forall>q. slot_of t (SDeductedBy q) = (if q = p \<and> ded \<noteq> 0 then Some VFlag else slot_of s (SDeductedBy q)))))"

text \<open>The outcome of \<open>Issue\<close> on the entries.\<close>

lemma saved_slots:
  "swkv t = (swkv s)(lastIssuedChequeKey b \<mapsto> v) \<Longrightarrow> slot_of t = (slot_of s)(SIssued b \<mapsto> v)"
  "swkv t = (swkv s)(lastIssuedChequeKey b \<mapsto> v, totalIssuedKey \<mapsto> w) \<Longrightarrow> slot_of t = (slot_of s)(SIssued b \<mapsto> v, STotal \<mapsto> w)"
  using slot_upd [of t s "SIssued b"] slot_upd [of t "s\<lparr>sw_store := sw_store s\<lparr>st_kv := (swkv s)(lastIssuedChequeKey b \<mapsto> v)\<rparr>\<rparr>" STotal]
    slot_upd [of "s\<lparr>sw_store := sw_store s\<lparr>st_kv := (swkv s)(lastIssuedChequeKey b \<mapsto> v)\<rparr>\<rparr>" s "SIssued b"]
  by (simp_all add: swkv_def)

definition issue_slots :: "swapstate \<Rightarrow> eth_address \<Rightarrow> int \<Rightarrow> swap_error + int \<Rightarrow> swapstate \<Rightarrow> bool" where
  "issue_slots s b n r t \<longleftrightarrow> sw_address t = sw_address s \<and>
     (\<forall>x. x \<noteq> SIssued b \<longrightarrow> x \<noteq> STotal \<longrightarrow> slot_of t x = slot_of s x) \<and>
     (case r of Inl _ \<Rightarrow> sw_sent t = sw_sent s \<or> one_cheque s b n t
      | Inr _ \<Rightarrow> one_cheque s b n t \<and> issued t = (issued s)(b := issued s b + n))"

lemma Issue_slots: "outcome (Issue C s b n ok) (issue_slots s b n)"
proof (rule outcome_mono [OF Issue_outcome])
  fix r t assume d: "issue_done C s b n r t"
  let ?c = "\<lparr>ch_Chequebook = sw_address s, ch_Beneficiary = b, ch_CumulativePayout = issued s b + n\<rparr>"
  have one: "one_cheque s b n t" if "sw_sent t = sw_sent s @ [withSignature ?c sig]" for sig
    using that by (auto simp: one_cheque_def next_cheque_def withSignature_def)
  show "issue_slots s b n r t"
  proof (cases r)
    case (Inl e)
    from d Inl have f: "sw_address t = sw_address s"
      "sw_sent t = sw_sent s \<and> swkv t = swkv s \<or> (\<exists>sig. sw_sent t = sw_sent s @ [withSignature ?c sig]) \<and>
        (swkv t = swkv s \<or> swkv t = (swkv s)(lastIssuedChequeKey b \<mapsto> VCheque (withSignature ?c [])))"
      by (auto simp: issue_done_def Let_def)
    have "slot_of t = slot_of s \<or> slot_of t = (slot_of s)(SIssued b \<mapsto> VCheque (withSignature ?c []))"
      using f(2) slot_same [of t s] saved_slots(1) [of t s b] by blast
    then show ?thesis using f one Inl by (auto simp: issue_slots_def)
  next
    case (Inr v)
    from d Inr obtain sig where f: "sw_address t = sw_address s" "sw_sent t = sw_sent s @ [withSignature ?c sig]"
      "swkv t = (swkv s)(lastIssuedChequeKey b \<mapsto> VCheque (withSignature ?c []), totalIssuedKey \<mapsto> VTotal (total s + n))"
      by (auto simp: issue_done_def Let_def)
    have m: "slot_of t = (slot_of s)(SIssued b \<mapsto> VCheque (withSignature ?c []), STotal \<mapsto> VTotal (total s + n))"
      by (rule saved_slots(2) [OF f(3)])
    then have "issued t = (issued s)(b := issued s b + n)"
      by (auto simp: issued_slot fun_eq_iff withSignature_def)
    then show ?thesis using m f(1) one [OF f(2)] Inr by (simp add: issue_slots_def)
  qed
qed

lemma pay_frame_refl [simp]: "pay_frame m m"
  by (simp add: pay_frame_def)

lemma EmitCheque_outcome: "outcome (EmitCheque C po s p b n (Some h) ok) (emitted po s p b n h)"
proof (cases "settlement_terms h")
  case (Inr x)
  obtain rate ded where h: "settlement_terms h = Inr (rate, ded)" using Inr by (cases x) simp
  let ?n = "n * rate + ded" and ?Q = "emitted po s p b n h"
  have same: "?Q (Inl e) t" if "unchanged s t" for t e
    using unchanged_views [OF that] by (simp add: emitted_def)
  have go: "outcome (bindE (Issue C t b ?n ok) (\<lambda>balance s. bindE (if ded \<noteq> 0 then AddDeductionBy s p else (Inr (), s)) (\<lambda>_ s. (Inr balance, s)))) ?Q"
    if t: "unchanged s t" and terms: "paid_terms po s p h rate ded" for t
  proof (rule outcome_bindE, rule outcome_mono [OF Issue_slots])
    note tv = unchanged_views [OF t]
    have one: "one_cheque t b ?n u \<longleftrightarrow> one_cheque s b ?n u" for u using tv by (simp add: one_cheque_def next_cheque_def)
    fix r u assume u: "issue_slots t b ?n r u"
    have fr: "pay_frame (slot_of s) (slot_of u)" using u tv by (auto simp: issue_slots_def pay_frame_def split: slot.splits)
    have dby: "slot_of u (SDeductedBy q) = slot_of s (SDeductedBy q)" for q using u tv by (simp add: issue_slots_def)
    have ad: "sw_address u = sw_address s" using u tv by (simp add: issue_slots_def)
    show "case r of Inl e \<Rightarrow> ?Q (Inl e) u | Inr x \<Rightarrow> outcome (bindE (if ded \<noteq> 0 then AddDeductionBy u p else (Inr (), u)) (\<lambda>_ s. (Inr x, s))) ?Q"
    proof (cases r)
      case (Inl e)
      then show ?thesis using u one tv ad fr terms by (auto simp: issue_slots_def emitted_def)
    next
      case (Inr x)
      then have u2: "one_cheque s b ?n u" "issued u = (issued s)(b := issued s b + ?n)" using u one tv by (auto simp: issue_slots_def)
      show ?thesis
      proof (cases "ded = 0")
        case True
        have "emitted po s p b n h (Inr x) u"
          unfolding emitted_def sum.case using u2(1) terms
          by - (rule conjI [OF ad conjI [OF fr exI [of _ rate, OF exI [of _ ded]]]], simp add: u2(2) dby True)
        then show ?thesis using Inr True by (simp add: bindE_def)
      next
        case False
        have "outcome (bindE (AddDeductionBy u p) (\<lambda>_ s. (Inr x, s))) ?Q"
          unfolding AddDeductionBy_def
        proof (rule outcome_bindE, rule outcome_put_slot [of _ _ "SDeductedBy p", simplified], unfold sum.case outcome_pair)
          fix w assume "unchanged u w"
          from unchanged_views [OF this] show "?Q (Inl e) w" for e
            using u2 terms ad fr by (auto simp: emitted_def one_cheque_def)
        next
          fix w assume w: "written u ((slot_of u)(SDeductedBy p \<mapsto> VFlag)) w"
          then have wm: "slot_of w = (slot_of u)(SDeductedBy p \<mapsto> VFlag)" "sw_address w = sw_address u" "sw_sent w = sw_sent u"
            by (simp_all add: written_def sw_same_def)
          have fw: "pay_frame (slot_of s) (slot_of w)" using fr by (auto simp: pay_frame_def wm split: slot.splits)
          have "issued w = issued u" by (simp add: issued_slot wm fun_eq_iff)
          then show "?Q (Inr x) w" using u2 terms ad fw False wm by (auto simp: emitted_def one_cheque_def dby)
        qed
        then show ?thesis using False Inr by simp
      qed
    qed
  qed
  show ?thesis unfolding EmitCheque_def option.case h sum.case prod.case GetDeductionBy_def
  proof (rule outcome_bindE, rule outcome_bindE, rule outcome_get_slot [of _ _ "SDeductedBy p", simplified], unfold sum.case outcome_pair)
    show "?Q (Inl (SwStore e)) t" if "unchanged s t" for t e by (rule same [OF that])
    fix t assume t: "unchanged s t"
    let ?flag = "slot_of s (SDeductedBy p) \<noteq> None"
    show "outcome (if ?flag \<and> ded \<noteq> 0 then (Inl ErrHaveDeduction, t)
      else case CurrentRates po of Inl e \<Rightarrow> (Inl e, t)
        | Inr (rate', ded') \<Rightarrow> if rate \<noteq> rate' then (Inl ErrNegotiateRate, t)
            else if ded \<noteq> ded' \<and> ded \<noteq> 0 then (Inl ErrNegotiateDeduction, t)
            else let paymentAmount = n * rate; sentAmount = paymentAmount + ded in
              bindE (Issue C t b sentAmount ok) (\<lambda>balance s.
                bindE (if ded \<noteq> 0 then AddDeductionBy s p else (Inr (), s)) (\<lambda>_ s. (Inr balance, s)))) ?Q"
    proof (cases "CurrentRates po")
      case (Inr y)
      obtain rate' ded' where y: "y = (rate', ded')" by fastforce
      show ?thesis
      proof (cases "(?flag \<longrightarrow> ded = 0) \<and> rate' = rate \<and> (ded = ded' \<or> ded = 0)")
        case True
        then have "paid_terms po s p h rate ded" using h Inr y by (auto simp: paid_terms_def)
        from go [OF t this] True Inr y show ?thesis by (auto simp only: Let_def sum.case prod.case if_False if_True simp_thms split: if_split)
      qed (use same [OF t] Inr y in auto)
    qed (use same [OF t] in auto)
  qed
qed (simp add: EmitCheque_def emitted_def)

lemma pay_cheque_outcome:
  "outcome (pay_cheque C conf po s p n headers ok) (\<lambda>r t.
     unchanged s t \<and> (\<exists>e. r = Inl e) \<or>
     (\<exists>b h. slot_of s (SPeerBeneficiary p) = Some (VEth b) \<and> headers = Some h \<and> sc_chequebook conf \<and> emitted po s p b n h r t))"
  (is "outcome _ ?Q")
proof (cases "sc_chequebook conf")
  case True
  have body: "outcome (EmitCheque C po t p b n headers ok) ?Q"
    if t: "unchanged s t" and b: "slot_of s (SPeerBeneficiary p) = Some (VEth b)" for t b
  proof (cases headers)
    case None
    then show ?thesis using t by (simp add: EmitCheque_def)
  next
    case (Some h)
    have "emitted po t p b n h r u \<longleftrightarrow> emitted po s p b n h r u" for r u
      using unchanged_views [OF t] by (cases r) (simp_all add: emitted_def one_cheque_def next_cheque_def paid_terms_def)
    then show ?thesis unfolding Some using outcome_mono [OF EmitCheque_outcome [of C po t p b n h ok], of ?Q] b True Some by blast
  qed
  have "outcome (bindE (Beneficiary s p) (\<lambda>known s. case known of None \<Rightarrow> (Inl ErrUnknownBeneficary, s)
      | Some beneficiary \<Rightarrow> EmitCheque C po s p beneficiary n headers ok)) ?Q"
  proof (rule outcome_bindE, rule outcome_Beneficiary, unfold sum.case)
    fix t assume t: "unchanged s t"
    then show "?Q (Inl e) t" for e by blast
    show "outcome (case v of None \<Rightarrow> (Inl ErrUnknownBeneficary, t) | Some b \<Rightarrow> EmitCheque C po t p b n headers ok) ?Q"
      if "as_eth (slot_of s (SPeerBeneficiary p)) = Inr v" for v
    proof (cases v)
      case (Some b)
      show ?thesis unfolding Some option.case by (rule body [OF t]) (use that Some in \<open>simp add: as_eth_iff\<close>)
    qed (use t in simp)
  qed
  then show ?thesis using True by (simp add: pay_cheque_def)
qed (simp add: pay_cheque_def)

section \<open>Receiving a cheque\<close>

definition recv_frame :: "(slot \<rightharpoonup> swap_value) \<Rightarrow> (slot \<rightharpoonup> swap_value) \<Rightarrow> bool" where
  "recv_frame m m' \<longleftrightarrow> (\<forall>x. (case x of SReceived _ \<Rightarrow> False | SPeer _ \<Rightarrow> False | SChequebookPeer _ \<Rightarrow> False | SDeductedFor _ \<Rightarrow> False | _ \<Rightarrow> True) \<longrightarrow> m' x = m x)"

definition credited :: "chain \<Rightarrow> swapstate \<Rightarrow> address \<Rightarrow> SignedCheque \<Rightarrow> int \<Rightarrow> int \<Rightarrow> int \<Rightarrow> swapstate \<Rightarrow> bool" where
  "credited C s p c rate ded n t \<longleftrightarrow>
     (let x = ch_CumulativePayout c - received s (ch_Chequebook c) in
      n = big_Div (x - ded) rate \<and> 0 < x \<and> rate \<le> x - ded \<and> rate \<noteq> 0 \<and> cheque_valid C s c \<and>
      slot_of s (SPeer p) \<in> {None, Some (VEth (ch_Chequebook c))} \<and> slot_of t (SPeer p) = Some (VEth (ch_Chequebook c)) \<and>
      received t = (received s)(ch_Chequebook c := ch_CumulativePayout c) \<and>
      (\<forall>q. slot_of t (SDeductedFor q) = (if q = p \<and> 0 < ded then Some VFlag else slot_of s (SDeductedFor q))))"

lemma put_slot_as: "slot_key x = k \<Longrightarrow> outcome (sw_put s (slot_key x) v) Q \<Longrightarrow> outcome (sw_put s k v) Q"
  by simp

lemma recv_frame_refl [simp]: "recv_frame m m"
  by (simp add: recv_frame_def)

lemma recv_frame_upd:
  "recv_frame m m' \<Longrightarrow> recv_frame m (m'(SPeer p := v))" "recv_frame m m' \<Longrightarrow> recv_frame m (m'(SChequebookPeer b := v))"
  "recv_frame m m' \<Longrightarrow> recv_frame m (m'(SDeductedFor p := v))" "recv_frame m m' \<Longrightarrow> recv_frame m (m'(SReceived b := v))"
  by (auto simp: recv_frame_def)

lemma receive_credit_outcome:
  "outcome (receive_credit C s p c rate ded) (\<lambda>r t. sw_same s t \<and> recv_frame (slot_of s) (slot_of t) \<and>
     (\<forall>n. r = Inr n \<longrightarrow> credited C s p c rate ded n t))"
  (is "outcome _ ?Q")
proof -
  let ?cb = "ch_Chequebook c" and ?m = "slot_of s"
  let ?x = "ch_CumulativePayout c - received s ?cb"
  let ?rest = "\<lambda>known s n. if rate = 0 then (Inl SwPanic, s)
      else bindE (if known = None then PutChequebook s p ?cb else (Inr (), s)) (\<lambda>_ s. (Inr (big_Div (n - ded) rate), s))"
  let ?flag = "\<lambda>m. if 0 < ded then m(SDeductedFor p \<mapsto> VFlag) else m"
  have put2: "outcome (PutChequebook v p ?cb) (\<lambda>r w. sw_same v w \<and> recv_frame (slot_of v) (slot_of w) \<and>
      (r = Inr () \<longrightarrow> slot_of w = (slot_of v)(SPeer p \<mapsto> VEth ?cb, SChequebookPeer ?cb \<mapsto> VPeer p)))" for v
    unfolding PutChequebook_def
    by (rule outcome_bindE, rule put_slots(1); simp; (rule put_slots(2))?)
      (auto simp: unchanged_def written_def intro: sw_same_trans intro!: recv_frame_upd)
  have rest: "outcome (?rest known v ?x) ?Q"
    if v: "sw_same s v" "slot_of v = ?flag (?m(SReceived ?cb \<mapsto> VCheque c))"
      and ok: "0 < ?x" "rate \<le> ?x - ded" "cheque_valid C s c" "?m (SPeer p) = map_option VEth known" "known \<in> {None, Some ?cb}"
    for v known
  proof -
    have fv: "recv_frame ?m (slot_of v)" unfolding v(2) by (auto intro!: recv_frame_upd)
    have fin: "?Q (Inr (big_Div (?x - ded) rate)) w"
      if "sw_same s w" "slot_of w = slot_of v \<and> known \<noteq> None \<or> slot_of w = (slot_of v)(SPeer p \<mapsto> VEth ?cb, SChequebookPeer ?cb \<mapsto> VPeer p)" "rate \<noteq> 0" for w
    proof -
      have "received w = (received s)(?cb := ch_CumulativePayout c)"
        using that(2) v(2) by (auto simp: received_slot fun_eq_iff)
      moreover have "slot_of w (SPeer p) = Some (VEth ?cb)" using that(2) v(2) ok(4,5) by auto
      moreover have "recv_frame ?m (slot_of w)" using that(2) fv by (auto intro!: recv_frame_upd)
      moreover have "slot_of w (SDeductedFor q) = (if q = p \<and> 0 < ded then Some VFlag else ?m (SDeductedFor q))" for q
        using that(2) v(2) by auto
      moreover have "?m (SPeer p) \<in> {None, Some (VEth ?cb)}" using ok(4,5) by auto
      ultimately show ?thesis using that(1,3) ok(1-3) by (simp add: credited_def Let_def)
    qed
    show ?thesis
    proof (cases "rate = 0 \<or> known \<noteq> None")
      case True
      then show ?thesis using fv v(1) fin [of v] by (auto simp: bindE_def)
    next
      case False
      have "outcome (bindE (PutChequebook v p ?cb) (\<lambda>_ s. (Inr (big_Div (?x - ded) rate), s))) ?Q"
      proof (rule outcome_seq [OF put2])
        fix e :: swap_error and w assume w: "sw_same v w \<and> recv_frame (slot_of v) (slot_of w) \<and> (Inl e = Inr () \<longrightarrow>
            slot_of w = (slot_of v)(SPeer p \<mapsto> VEth ?cb, SChequebookPeer ?cb \<mapsto> VPeer p))"
        then show "?Q (Inl e) w" using fv sw_same_trans [OF v(1)] by (auto simp: recv_frame_def)
      next
        fix y w assume w: "sw_same v w \<and> recv_frame (slot_of v) (slot_of w) \<and> ((Inr y :: swap_error + unit) = Inr () \<longrightarrow>
            slot_of w = (slot_of v)(SPeer p \<mapsto> VEth ?cb, SChequebookPeer ?cb \<mapsto> VPeer p))"
        then show "outcome (Inr (big_Div (?x - ded) rate), w) ?Q"
          unfolding outcome_pair by (intro fin) (use sw_same_trans [OF v(1), of w] False in auto)
      qed
      then show ?thesis using False by simp
    qed
  qed
  have flag: "outcome (bindE (if ded > 0 then AddDeductionFor u p else (Inr (), u)) (\<lambda>_ s. ?rest known s ?x)) ?Q"
    if u: "sw_same s u" "slot_of u = ?m(SReceived ?cb \<mapsto> VCheque c)"
      and ok: "0 < ?x" "rate \<le> ?x - ded" "cheque_valid C s c" "?m (SPeer p) = map_option VEth known" "known \<in> {None, Some ?cb}"
    for u known
  proof (cases "0 < ded")
    case True
    have "outcome (bindE (AddDeductionFor u p) (\<lambda>_ s. ?rest known s ?x)) ?Q"
      unfolding AddDeductionFor_def
    proof (rule outcome_bindE, rule outcome_put_slot [of _ _ "SDeductedFor p", simplified], unfold sum.case)
      show "?Q (Inl e) v" if "unchanged u v" for v e
        using that u by (auto simp: unchanged_def intro: sw_same_trans recv_frame_upd)
      show "outcome (?rest known v ?x) ?Q" if "written u ((slot_of u)(SDeductedFor p \<mapsto> VFlag)) v" for v
        by (rule rest) (use that u ok True in \<open>auto simp: written_def intro: sw_same_trans\<close>)
    qed
    then show ?thesis using True by simp
  next
    case False
    then show ?thesis using rest [OF u(1) _ ok] u(2) by (simp add: bindE_def)
  qed
  have store: "outcome (bindE (cs_ReceiveCheque C t c rate ded) (\<lambda>receivedAmount s.
      bindE (if ded > 0 then AddDeductionFor s p else (Inr (), s)) (\<lambda>_ s. ?rest known s receivedAmount))) ?Q"
    if t: "unchanged s t" and k: "?m (SPeer p) = map_option VEth known" "known \<in> {None, Some ?cb}" for t known
  proof (rule outcome_seq [OF ReceiveCheque_outcome])
    note tv = unchanged_views [OF t]
    have val: "cheque_valid C t c \<longleftrightarrow> cheque_valid C s c" using tv by (simp add: cheque_valid_def)
    show "?Q (Inl e) u" if "case Inl e of Inl _ \<Rightarrow> sw_reads t u | Inr amount \<Rightarrow> sw_same t u \<and> swkv u = (swkv t)(lastReceivedChequeKey ?cb \<mapsto> VCheque c) \<and>
        amount = ch_CumulativePayout c - received t ?cb \<and> 0 < amount \<and> rate \<le> amount - ded \<and> cheque_valid C t c" for u e
      using reads_unchanged [of t u] that unchanged_trans [OF t] by (auto simp: unchanged_def)
    show "outcome (bindE (if ded > 0 then AddDeductionFor u p else (Inr (), u)) (\<lambda>_ s. ?rest known s n)) ?Q"
      if "case Inr n of Inl _ \<Rightarrow> sw_reads t u | Inr amount \<Rightarrow> sw_same t u \<and> swkv u = (swkv t)(lastReceivedChequeKey ?cb \<mapsto> VCheque c) \<and>
        amount = ch_CumulativePayout c - received t ?cb \<and> 0 < amount \<and> rate \<le> amount - ded \<and> cheque_valid C t c" for u n
    proof -
      have u: "sw_same t u" "swkv u = (swkv t)(slot_key (SReceived ?cb) \<mapsto> VCheque c)" and n: "n = ?x" "0 < ?x" "rate \<le> ?x - ded" "cheque_valid C s c"
        using that tv val by auto
      have "sw_same s u" "slot_of u = ?m(SReceived ?cb \<mapsto> VCheque c)"
        using u(1) t slot_upd [OF u(2)] by (auto simp: unchanged_def intro: sw_same_trans)
      from flag [OF this n(2-4) k] show ?thesis unfolding n(1) .
    qed
  qed
  show ?thesis unfolding receive_credit_def Let_def
  proof (rule outcome_bindE, rule outcome_Chequebook, unfold sum.case)
    fix t assume t: "unchanged s t"
    then show "?Q (Inl e) t" for e by (simp add: unchanged_def)
    fix k assume k: "as_eth (?m (SPeer p)) = Inr k"
    have mk: "?m (SPeer p) = map_option VEth k" using k by (cases k) (simp_all add: as_eth_iff)
    show "outcome (if case k of None \<Rightarrow> False | Some x \<Rightarrow> x \<noteq> ?cb then (Inl ErrWrongChequebook, t)
      else bindE (cs_ReceiveCheque C t c rate ded) (\<lambda>receivedAmount s.
        bindE (if ded > 0 then AddDeductionFor s p else (Inr (), s)) (\<lambda>_ s. ?rest k s receivedAmount))) ?Q"
    proof (cases "k \<in> {None, Some ?cb}")
      case True
      then show ?thesis using store [OF t mk True] by auto
    next
      case False
      then show ?thesis using t by (cases k) (auto simp: unchanged_def)
    qed
  qed
qed

section \<open>Panics\<close>

definition no_panic :: "(swap_error + 'a) \<times> 'b \<Rightarrow> bool" where
  "no_panic m \<longleftrightarrow> fst m \<noteq> Inl SwPanic"

named_theorems no_panic_intros

lemma no_panic_bindE [no_panic_intros]: "no_panic m \<Longrightarrow> (\<And>x s. no_panic (f x s)) \<Longrightarrow> no_panic (bindE m f)"
  by (cases m; cases "fst m") (auto simp: no_panic_def bindE_def)

lemma no_panic_value [no_panic_intros]: "no_panic (Inr x, s)"
  by (simp add: no_panic_def)

lemma no_panic_error [simp]: "no_panic (Inl e, s) \<longleftrightarrow> e \<noteq> SwPanic"
  by (simp add: no_panic_def)

lemma no_panic_ops [no_panic_intros]:
  "no_panic (sw_get s k)" "no_panic (sw_put s k v)" "no_panic (sw_call s f)"
  by (auto simp: no_panic_def sw_get_def sw_put_def sw_call_def split: prod.splits sum.splits option.splits store_error.splits)

lemma no_panic_last_payout [no_panic_intros]: "no_panic (last_payout C s cb)"
  unfolding last_payout_def by (auto intro!: no_panic_intros split: option.split swap_value.split)

lemma no_panic_cs_ReceiveCheque [no_panic_intros]: "no_panic (cs_ReceiveCheque C s c rate ded)"
  unfolding cs_ReceiveCheque_def Let_def by (auto intro!: no_panic_intros split: option.split)

lemma no_panic_Chequebook [no_panic_intros]: "no_panic (Chequebook s p)"
  unfolding Chequebook_def by (intro no_panic_intros) (auto simp: no_panic_def as_eth_def split: option.split swap_value.split)

lemma no_panic_receive_credit: "rate \<noteq> 0 \<Longrightarrow> no_panic (receive_credit C s p c rate ded)"
  unfolding receive_credit_def Let_def AddDeductionFor_def PutChequebook_def
  by (auto intro!: no_panic_intros split: option.split)

lemma no_panic_ReceiveCheque: "rate \<noteq> 0 \<Longrightarrow> no_panic (ReceiveCheque A C s a p c rate ded)"
  using no_panic_receive_credit [of rate C s p c ded]
  by (auto simp: ReceiveCheque_def no_panic_def split: prod.splits sum.splits)

lemma headler_cases:
  assumes "headler po s p = (h, t)"
  obtains (none) "h = Map.empty" "unchanged s t"
    | (made) r d where "CurrentRates po = Inr (r, d)" "r \<noteq> 0" "unchanged s t"
        "h = MakeSettlementHeaders r (if slot_of s (SDeductedFor p) \<noteq> None then 0 else d)"
proof (cases "CurrentRates po")
  case (Inl e)
  then show ?thesis using assms none by (simp add: headler_def)
next
  case (Inr x)
  obtain r d where x: "x = (r, d)" by fastforce
  have r: "r \<noteq> 0" using Inr x by (auto simp: CurrentRates_def split: if_splits option.splits)
  have "outcome (GetDeductionFor s p) (\<lambda>v t. unchanged s t \<and> (\<forall>b. v = Inr b \<longrightarrow> b = (slot_of s (SDeductedFor p) \<noteq> None)))"
    unfolding GetDeductionFor_def by (rule outcome_bindE, rule outcome_get_slot [of _ _ "SDeductedFor p", simplified]) simp_all
  moreover obtain v u where g: "GetDeductionFor s p = (v, u)" by fastforce
  ultimately have u: "unchanged s u" "\<And>b. v = Inr b \<Longrightarrow> b = (slot_of s (SDeductedFor p) \<noteq> None)" by simp_all
  show ?thesis
  proof (cases v)
    case (Inl e)
    then show ?thesis using assms Inr x g u(1) none by (simp add: headler_def)
  next
    case b: (Inr b)
    then show ?thesis using assms Inr x g u(1) u(2) [OF b] made [OF _ r] by (simp add: headler_def)
  qed
qed

section \<open>Runs of the service\<close>

inductive swap_step :: "'a settlement_Accounting \<Rightarrow> chain \<Rightarrow> swapconf \<Rightarrow> (address \<Rightarrow> eth_address) \<Rightarrow> swapstate \<times> 'a \<Rightarrow> swapstate \<times> 'a \<Rightarrow> bool"
  for A C conf E where
  connect: "Handshake s p (E p) = (r, s') \<Longrightarrow> swap_step A C conf E (s, a) (s', a)"
| pay: "swap_Pay A C conf po s a p n headers ok = (s', a') \<Longrightarrow> swap_step A C conf E (s, a) (s', a')"
| receive: "handler A C s a p msg headers = (r, s', a') \<Longrightarrow> swap_step A C conf E (s, a) (s', a')"
| cash: "swap_CashCheque C conf s p = (r, s') \<Longrightarrow> swap_step A C conf E (s, a) (s', a)"

lemma book_true_cong:
  "(\<And>p. m' (SPeerBeneficiary p) = m (SPeerBeneficiary p)) \<Longrightarrow> (\<And>b. m' (SBeneficiaryPeer b) = m (SBeneficiaryPeer b)) \<Longrightarrow>
   book_true E m \<Longrightarrow> book_true E m'"
  by (simp add: book_true_def)

lemma book_true_frames: "pay_frame m m' \<Longrightarrow> book_true E m \<Longrightarrow> book_true E m'" "recv_frame m m' \<Longrightarrow> book_true E m \<Longrightarrow> book_true E m'"
  by (erule book_true_cong [rotated 2]; simp add: pay_frame_def recv_frame_def)+

lemma Pay_cheque: "swap_Pay A C conf po s a p n hs ok = (s', a') \<Longrightarrow> \<exists>r. pay_cheque C conf po s p n hs ok = (r, s')"
  by (auto simp: swap_Pay_def split: prod.splits sum.splits)

lemma handler_store:
  "handler A C s a p msg h = (r, s', a') \<Longrightarrow> unchanged s s' \<or> (\<exists>x c rate ded. receive_credit C s p c rate ded = (x, s'))"
proof -
  have cb: "outcome (Chequebook s p) (\<lambda>_ t. unchanged s t)" by (rule outcome_Chequebook)
  show "handler A C s a p msg h = (r, s', a') \<Longrightarrow> ?thesis"
    using outcomeD [OF cb]
    by (auto simp: handler_def ReceiveCheque_def split: option.splits sum.splits prod.splits json_cheque.splits)
qed

lemma cash_slots: "outcome (swap_CashCheque C conf s p) (\<lambda>_ t. slot_of t = slot_of s)"
proof -
  have ck: "slot_key x \<noteq> cashoutActionKey c" for c x by (cases x) (simp_all add: cashoutActionKey_def key_defs)
  have put: "outcome (bindE (sw_put u (cashoutActionKey c) v) (\<lambda>_ s. (Inr y, s))) (\<lambda>_ t. slot_of t = slot_of s)" if "slot_of u = slot_of s" for u c v y
    by (rule outcome_bindE, rule outcome_put) (use that ck in \<open>auto simp: slot_of_def fun_eq_iff sw_reads_def\<close>)
  have cash: "outcome (co_CashCheque C t b rec) (\<lambda>_ t. slot_of t = slot_of s)" if t: "slot_of t = slot_of s" for t b rec
    unfolding co_CashCheque_def cs_LastCheque_def
    apply (rule outcome_bindE, rule outcome_bindE, rule outcome_get_slot [of _ _ "SReceived b", simplified])
     apply (simp_all add: unchanged_def t split: sum.split)
    apply (intro allI impI outcome_bindE outcome_call)
     apply (simp_all add: t put reads_unchanged [unfolded unchanged_def])
    done
  show ?thesis unfolding swap_CashCheque_def
    by (rule outcome_bindE, rule outcome_Chequebook) (auto simp: unchanged_def cash split: option.split)
qed

lemma swap_step_book: "swap_step A C conf E x y \<Longrightarrow> book_true E (slot_of (fst x)) \<Longrightarrow> book_true E (slot_of (fst y))"
proof (induction rule: swap_step.induct)
  case (connect s p r s' a)
  then show ?case using outcomeD [OF Handshake_outcome [of E s p] connect(1)] by (simp add: handshaken_def book_kept_def)
next
  case (pay po s a p n headers ok s' a')
  from Pay_cheque [OF pay(1)] obtain r where "pay_cheque C conf po s p n headers ok = (r, s')" by (rule exE)
  from outcomeD [OF pay_cheque_outcome this] pay(2) book_true_frames(1) show ?case
    by (auto simp: emitted_def unchanged_def)
next
  case (receive s a p msg headers r s' a')
  from handler_store [OF receive(1)] show ?case
  proof (elim disjE exE)
    fix x c rate ded assume "receive_credit C s p c rate ded = (x, s')"
    from outcomeD [OF receive_credit_outcome this] book_true_frames(2) receive(2) show ?thesis by auto
  qed (use receive(2) in \<open>simp add: unchanged_def\<close>)
next
  case (cash s p r s' a)
  then show ?case using outcomeD [OF cash_slots cash(1)] by simp
qed

section \<open>An example\<close>

text \<open>A payer with chequebook 2 and a payee with beneficiary 6; the oracle says rate 5 and deduction 10.\<close>

definition demo_po :: priceoracle where
  "demo_po = po_poll po_New (Some [Some 5, Some 10])"

definition demo_conf :: swapconf where
  "demo_conf = \<lparr>sc_chequebook = True, sc_cashoutAddress = [4]\<rparr>"

definition demo_payer :: swapstate where
  "demo_payer = snd (Handshake (demo_swap [2] [3]) [20] [6])"

definition demo_payee :: swapstate where
  "demo_payee = demo_swap [5] [6]"

definition demo_headers :: p2p_Headers where
  "demo_headers = fst (headler demo_po demo_payee [10])"

definition demo_order :: "string list" where
  "demo_order = [exchangeRateFieldName, deductionFieldName]"

definition demo_paid :: swapstate where
  "demo_paid = snd (pay_cheque demo_chain demo_conf demo_po demo_payer [20] 4 (Some (headers_exchange Some demo_order demo_headers)) True)"

definition demo_received :: "(swap_error + unit) \<times> swapstate \<times> accounting" where
  "demo_received = handler accounting_settlement demo_chain (snd (headler demo_po demo_payee [10])) demo_acct [10]
     (Some (JsonCheque (last (sw_sent demo_paid)))) demo_headers"

lemma demo_headler: "headler demo_po demo_payee [10] = (demo_headers, snd (headler demo_po demo_payee [10]))"
  by (simp add: demo_headers_def)

lemma demo_pay: "pay_cheque demo_chain demo_conf demo_po demo_payer [20] 4 (Some (headers_exchange Some demo_order demo_headers)) True = (Inr 70, demo_paid)"
proof -
  have "fst (pay_cheque demo_chain demo_conf demo_po demo_payer [20] 4 (Some (headers_exchange Some demo_order demo_headers)) True) = Inr 70"
    by code_simp
  then show ?thesis unfolding demo_paid_def by (metis prod.collapse)
qed

lemma demo_recv: "handler accounting_settlement demo_chain (snd (headler demo_po demo_payee [10])) demo_acct [10]
    (Some (JsonCheque (last (sw_sent demo_paid)))) demo_headers = (Inr (), fst (snd demo_received), snd (snd demo_received))"
proof -
  have "fst demo_received = Inr ()" by code_simp
  then show ?thesis unfolding demo_received_def by (metis prod.collapse)
qed

lemma demo_wire: "wire_ok Some" "distinct demo_order" "set demo_order = dom demo_headers"
proof -
  have dh: "demo_headers = MakeSettlementHeaders 5 10"
    by (simp add: demo_headers_def headler_def CurrentRates_def demo_po_def po_poll_def po_New_def GetPrice_def GetDeductionFor_def
        sw_get_def demo_payee_def demo_swap_def st_defs)
  show "set demo_order = dom demo_headers" unfolding dh MakeSettlementHeaders_def by (auto simp: demo_order_def)
qed (simp_all add: wire_ok_def demo_order_def exchangeRateFieldName_def deductionFieldName_def)

lemma demo_sync: "received demo_payee (sw_address demo_payer) = issued demo_payer (sw_beneficiary demo_payee)"
    "slot_of demo_payer (SPeerBeneficiary [20]) = Some (VEth (sw_beneficiary demo_payee))"
  by code_simp+

section \<open>Properties\<close>

text \<open>C5: An end-to-end payment is exact. The payer and the payee agree on the payee's last cheque; the payee's
  headers reach the payer, the payer's \<open>Pay\<close> succeeds and the payee's handler accepts the cheque that was sent. Then the payee
  credits exactly the amount that was paid and nothing to anyone else, the payer notifies the same amount, both
  sides agree on the last cheque again, and they agree on whether the deduction was taken if they did before.\<close>

theorem swap_payment_exact:
  assumes sync: "received sB (sw_address sA) = issued sA (sw_beneficiary sB)"
    and ben: "slot_of sA (SPeerBeneficiary pB) = Some (VEth (sw_beneficiary sB))"
    and head: "headler poB sB pA = (h, sB1)"
    and wire: "wire_ok wire" "distinct order" "set order = dom h"
    and pay: "pay_cheque C conf poA sA pB n (Some (headers_exchange wire order h)) ok = (Inr avail, sA')"
    and recv: "handler accounting_settlement C' sB1 aB pA (Some (JsonCheque (last (sw_sent sA')))) h = (Inr (), sB', aB')"
  shows "swap_Pay accounting_settlement C conf poA sA aA pB n (Some (headers_exchange wire order h)) ok = (sA', NotifyPaymentSent aA pB n False) \<and>
    0 < n \<and> net aB' = (net aB)(pA := net aB pA - n) \<and>
    received sB' (sw_address sA') = issued sA' (sw_beneficiary sB') \<and>
    ((slot_of sA (SDeductedBy pB) = None) = (slot_of sB (SDeductedFor pA) = None) \<longrightarrow>
     (slot_of sA' (SDeductedBy pB) = None) = (slot_of sB' (SDeductedFor pA) = None))"
proof -
  let ?b = "sw_beneficiary sB" and ?hA = "headers_exchange wire order h"
  from outcomeD [OF pay_cheque_outcome pay] ben have em: "emitted poA sA pB ?b n ?hA (Inr avail) sA'" by auto
  then obtain rate ded sig where
      terms: "settlement_terms ?hA = Inr (rate, ded)" and sent: "sw_sent sA' = sw_sent sA @ [next_cheque sA ?b (n * rate + ded) sig]"
      and iss: "issued sA' = (issued sA)(?b := issued sA ?b + (n * rate + ded))"
      and flagA: "slot_of sA' (SDeductedBy pB) = (if ded \<noteq> 0 then Some VFlag else slot_of sA (SDeductedBy pB))"
      and ad: "sw_address sA' = sw_address sA"
    by (auto simp: emitted_def paid_terms_def one_cheque_def)
  let ?c = "next_cheque sA ?b (n * rate + ded) sig"
  from head show ?thesis
  proof (cases rule: headler_cases)
    case none
    then have "?hA = Map.empty" using headers_exchange_lookup [OF wire(2), of wire h] by (auto simp: fun_eq_iff)
    then show ?thesis using terms by (simp add: settlement_terms_def ParseSettlementResponseHeaders_def ParseExchangeHeader_def)
  next
    case (made r d)
    note v = unchanged_views [OF made(3)]
    have rd: "\<bar>r\<bar> = rate" "settlement_terms h = Inr (rate, ded)" "0 < rate" "0 \<le> ded"
      using terms terms_exchanged [OF wire(1,2) wire(3) [unfolded made(4)] made(2)] terms_made made(2) unfolding made(4) by auto
    have rc: "ReceiveCheque accounting_settlement C' sB1 aB pA ?c rate ded = (Inr (), sB', aB')"
      using recv rd(2) sent by (simp add: handler_def)
    then obtain m where m: "receive_credit C' sB1 pA ?c rate ded = (Inr m, sB')"
        and nt: "sa_NotifyPaymentReceived accounting_settlement aB pA m = (Inr (), aB')"
      by (auto simp: ReceiveCheque_def split: prod.splits sum.splits)
    from outcomeD [OF receive_credit_outcome m] have same: "sw_same sB1 sB'" and cr: "credited C' sB1 pA ?c rate ded m sB'" by auto
    have pc: "ch_CumulativePayout ?c - received sB1 (ch_Chequebook ?c) = n * rate + ded" "ch_Chequebook ?c = sw_address sA"
      using sync v by (simp_all add: next_cheque_def)
    have rle: "rate \<le> n * rate" using cr pc by (simp add: credited_def Let_def)
    have mn: "m = n" using cr pc rd(3) by (simp add: credited_def Let_def big_Div_def)
    have n: "0 < n" using rle rd(3) by (metis dual_order.strict_trans1 zero_less_mult_pos2)
    have "net aB' = (net aB)(pA := net aB pA - n)" using sa.paid_ok [OF _ nt] n unfolding mn by simp
    moreover have "received sB' (sw_address sA') = issued sA' (sw_beneficiary sB')"
      using cr iss ad v same sync by (simp add: credited_def Let_def next_cheque_def sw_same_def)
    moreover have "slot_of sB' (SDeductedFor pA) = (if 0 < ded then Some VFlag else slot_of sB (SDeductedFor pA))"
      using cr v by (simp add: credited_def Let_def)
    moreover have "swap_Pay accounting_settlement C conf poA sA aA pB n (Some ?hA) ok = (sA', NotifyPaymentSent aA pB n False)"
      using pay by (simp add: swap_Pay_def accounting_settlement_def)
    ultimately show ?thesis using flagA rd(4) n by auto
  qed
qed

theorem swap_payment_exact_witness:
  "net (snd (snd demo_received)) = (net demo_acct)([10] := net demo_acct [10] - 4) \<and>
   received (fst (snd demo_received)) [2] = 30 \<and> issued demo_paid [6] = 30"
proof -
  have "sw_address demo_paid = [2]" "sw_beneficiary (fst (snd demo_received)) = [6]" "issued demo_paid [6] = 30" by code_simp+
  with swap_payment_exact [OF demo_sync demo_headler demo_wire demo_pay demo_recv] show ?thesis by simp
qed

text \<open>C23: Whatever peers connect, pay and are paid, and whichever accesses of the store fail, a payment to a
  peer sends at most one cheque, drawn on the own chequebook and made out to the Ethereum address of that peer; and a
  handshake that succeeds leaves the peer with its address.\<close>

theorem cheques_made_out_right:
  assumes "(swap_step A C conf E)\<^sup>*\<^sup>* (s0, a0) (s, a)" "book_true E (slot_of s0)"
  shows "(swap_Pay A C conf po s a p n headers ok = (s', a') \<longrightarrow> sw_sent s' = sw_sent s \<or>
      (\<exists>c. sw_sent s' = sw_sent s @ [c] \<and> ch_Beneficiary c = E p \<and> ch_Chequebook c = sw_address s)) \<and>
    (Handshake s p (E p) = (Inr (), s') \<longrightarrow> slot_of s' (SPeerBeneficiary p) = Some (VEth (E p)))"
proof -
  have inv: "book_true E (slot_of (fst (s, a)))"
    using assms by (induction rule: rtranclp_induct) (auto dest: swap_step_book)
  have "sw_sent s' = sw_sent s \<or> (\<exists>c. sw_sent s' = sw_sent s @ [c] \<and> ch_Beneficiary c = E p \<and> ch_Chequebook c = sw_address s)"
    if pay: "swap_Pay A C conf po s a p n headers ok = (s', a')"
  proof -
    from Pay_cheque [OF pay] obtain r where "pay_cheque C conf po s p n headers ok = (r, s')" by (rule exE)
    from outcomeD [OF pay_cheque_outcome this] show ?thesis
    proof (elim disjE exE conjE)
      fix b h assume b: "slot_of s (SPeerBeneficiary p) = Some (VEth b)" and em: "emitted po s p b n h r s'"
      have "b = E p" using inv b by (auto simp: book_true_def)
      with em show ?thesis by (cases r) (auto simp: emitted_def one_cheque_def next_cheque_def)
    qed (simp add: unchanged_views)
  qed
  moreover have "Handshake s p (E p) = (Inr (), s') \<Longrightarrow> slot_of s' (SPeerBeneficiary p) = Some (VEth (E p))"
    using outcomeD [OF Handshake_outcome [of E s p]] inv by (simp add: handshaken_def)
  ultimately show ?thesis by blast
qed

theorem cheques_made_out_right_witness:
  "\<exists>c. sw_sent demo_paid = [c] \<and> ch_Beneficiary c = [6] \<and> ch_Chequebook c = [2]"
proof -
  let ?hs = "Some (headers_exchange Some demo_order demo_headers)"
  let ?s = "demo_swap [2] [3]" and ?E = "\<lambda>p. if p = [20] then [6] else p"
  have "Handshake ?s [20] (?E [20]) = (fst (Handshake ?s [20] [6]), demo_payer)" by (simp add: demo_payer_def)
  from swap_step.connect [where E = ?E, OF this] have run:
    "(swap_step accounting_settlement demo_chain demo_conf ?E)\<^sup>*\<^sup>* (?s, demo_acct) (demo_payer, demo_acct)" by (rule r_into_rtranclp)
  have book: "book_true ?E (slot_of ?s)" by (simp add: book_true_def slot_of_def swkv_def demo_swap_def)
  have "swap_Pay accounting_settlement demo_chain demo_conf demo_po demo_payer demo_acct [20] 4 ?hs True =
      (demo_paid, NotifyPaymentSent demo_acct [20] 4 False)"
    by (simp add: swap_Pay_def demo_pay accounting_settlement_def)
  moreover have "sw_sent demo_payer = []" "sw_address demo_payer = [2]" "length (sw_sent demo_paid) = 1" by code_simp+
  ultimately show ?thesis
    using cheques_made_out_right [OF run book, of demo_po "[20]" 4 ?hs True demo_paid "NotifyPaymentSent demo_acct [20] 4 False"] by auto
qed

text \<open>A further payment to the same peer: the state of the payee and its rates at that time, the encoding of its headers, and the
  parameters of the payer. The payee has recorded no deduction for the payer and charges one.\<close>

record attempt =
  at_payee :: swapstate
  at_rates :: priceoracle
  at_wire :: "bytes \<Rightarrow> bytes option"
  at_order :: "string list"
  at_chain :: chain
  at_conf :: swapconf
  at_oracle :: priceoracle
  at_amount :: int
  at_sent :: bool

definition undeducted :: "address \<Rightarrow> attempt \<Rightarrow> bool" where
  "undeducted pA t \<longleftrightarrow> slot_of (at_payee t) (SDeductedFor pA) = None \<and> (\<exists>rate ded. CurrentRates (at_rates t) = Inr (rate, ded) \<and> ded \<noteq> 0) \<and>
     wire_ok (at_wire t) \<and> distinct (at_order t) \<and> set (at_order t) = dom (fst (headler (at_rates t) (at_payee t) pA))"

fun pay_again :: "address \<Rightarrow> address \<Rightarrow> attempt list \<Rightarrow> swapstate \<Rightarrow> (swap_error + int) list \<times> swapstate" where
  "pay_again pA pB [] s = ([], s)"
| "pay_again pA pB (t # ts) s =
     (case pay_cheque (at_chain t) (at_conf t) (at_oracle t) s pB (at_amount t)
        (Some (headers_exchange (at_wire t) (at_order t) (fst (headler (at_rates t) (at_payee t) pA)))) (at_sent t) of
        (r, s) \<Rightarrow> (case pay_again pA pB ts s of (rs, s) \<Rightarrow> (r # rs, s)))"

lemma undeducted_terms:
  assumes "undeducted pA t" "slot_of s (SDeductedBy pB) \<noteq> None"
  shows "\<not> paid_terms po s pB (headers_exchange (at_wire t) (at_order t) (fst (headler (at_rates t) (at_payee t) pA))) x y"
proof -
  obtain h sB where head: "headler (at_rates t) (at_payee t) pA = (h, sB)" by fastforce
  let ?h = "headers_exchange (at_wire t) (at_order t) h"
  have wire: "wire_ok (at_wire t)" "distinct (at_order t)" "set (at_order t) = dom h" using assms(1) head by (simp_all add: undeducted_def)
  from head have "\<not> paid_terms po s pB ?h x y"
  proof (cases rule: headler_cases)
    case none
    then have "?h = Map.empty" using headers_exchange_lookup [OF wire(2), of "at_wire t" h] by (auto simp: fun_eq_iff)
    then show ?thesis by (simp add: paid_terms_def settlement_terms_def ParseSettlementResponseHeaders_def ParseExchangeHeader_def)
  next
    case (made r d)
    then have "d \<noteq> 0" "h = MakeSettlementHeaders r d" using assms(1) by (auto simp: undeducted_def)
    then show ?thesis
      using terms_exchanged [OF wire(1,2), of r d] wire(3) made(2) assms(2) by (auto simp: paid_terms_def)
  qed
  then show ?thesis using head by simp
qed

lemma undeducted_refused:
  assumes "undeducted pA t" "slot_of s (SDeductedBy pB) \<noteq> None"
    and "pay_cheque C conf po s pB n (Some (headers_exchange (at_wire t) (at_order t) (fst (headler (at_rates t) (at_payee t) pA)))) ok = (r, s')"
  shows "isl r \<and> sw_sent s' = sw_sent s \<and> slot_of s' (SDeductedBy pB) \<noteq> None"
  using outcomeD [OF pay_cheque_outcome assms(3)] undeducted_terms [OF assms(1,2)] unchanged_views [of s s'] assms(2)
  by (cases r) (auto simp: emitted_def pay_frame_def)

text \<open>C40: Payments are blocked when the two sides disagree on the deduction. Once a payer has sent a cheque that carried a
  non-zero deduction, any number of further payments to that peer fail, each before a cheque is sent, as long as at each of
  them the payee has recorded no deduction for this payer (the cheque was rejected, or lost) and charges a non-zero one.\<close>

theorem lost_deduction_blocks_payments:
  assumes first: "pay_cheque C conf poA sA pB n (Some hA) ok = (Inr avail, sA')" "settlement_terms hA = Inr (rate, ded)" "ded \<noteq> 0"
    and further: "\<forall>t \<in> set ts. undeducted pA t" "pay_again pA pB ts sA' = (rs, sA'')"
  shows "length rs = length ts \<and> (\<forall>r \<in> set rs. isl r) \<and> sw_sent sA'' = sw_sent sA'"
proof -
  from outcomeD [OF pay_cheque_outcome first(1)] first(2,3) have "slot_of sA' (SDeductedBy pB) \<noteq> None"
    by (auto simp: emitted_def paid_terms_def)
  with further show ?thesis
  proof (induction ts arbitrary: sA' rs)
    case (Cons t ts)
    obtain r s1 where p: "pay_cheque (at_chain t) (at_conf t) (at_oracle t) sA' pB (at_amount t)
        (Some (headers_exchange (at_wire t) (at_order t) (fst (headler (at_rates t) (at_payee t) pA)))) (at_sent t) = (r, s1)" by fastforce
    obtain rs1 where rs: "pay_again pA pB ts s1 = (rs1, sA'')" "rs = r # rs1" using Cons.prems(2) p by (auto split: prod.splits)
    have "undeducted pA t" using Cons.prems(1) by simp
    note u = undeducted_refused [OF this Cons.prems(3) p]
    have "\<forall>t \<in> set ts. undeducted pA t" using Cons.prems(1) by simp
    from Cons.IH [OF this rs(1)] u rs(2) show ?case by simp
  qed simp
qed

text \<open>Two further payments of the payer whose first cheque carried the deduction.\<close>

definition demo_attempt :: attempt where
  "demo_attempt = \<lparr>at_payee = demo_payee, at_rates = demo_po, at_wire = Some, at_order = demo_order, at_chain = demo_chain, at_conf = demo_conf,
     at_oracle = demo_po, at_amount = 4, at_sent = True\<rparr>"

theorem lost_deduction_blocks_payments_witness:
  "\<exists>e e'. fst (pay_again [10] [20] [demo_attempt, demo_attempt] demo_paid) = [Inl e, Inl e']"
proof -
  have t: "settlement_terms (headers_exchange Some demo_order demo_headers) = Inr (5, 10)"
    "slot_of demo_payee (SDeductedFor [10]) = None" "CurrentRates demo_po = Inr (5, 10)" by code_simp+
  have "fst (headler demo_po demo_payee [10]) = demo_headers" using arg_cong [OF demo_headler, of fst] by (simp only: fst_conv)
  then have "undeducted [10] demo_attempt" using t(2,3) demo_wire by (simp add: undeducted_def demo_attempt_def)
  then have "\<forall>t \<in> set [demo_attempt, demo_attempt]. undeducted [10] t" by simp
  from lost_deduction_blocks_payments [OF demo_pay t(1) _ this prod.collapse [symmetric]]
  have "length (fst (pay_again [10] [20] [demo_attempt, demo_attempt] demo_paid)) = 2"
    "\<forall>r \<in> set (fst (pay_again [10] [20] [demo_attempt, demo_attempt] demo_paid)). isl r" by simp_all
  then show ?thesis by (auto simp: length_Suc_conv numeral_2_eq_2 isl_def)
qed

text \<open>With the headers its own headler made, the handler panics on exactly one message: the JSON value null,
  whose nil cheque is dereferenced. In particular the division by the exchange rate never fails.\<close>

lemma handler_panics_iff_null:
  assumes "headler po s0 p = (h, s1)"
  shows "fst (handler A C s a p msg h) = Inl SwPanic \<longleftrightarrow> msg = Some JsonNull \<and> h \<noteq> Map.empty \<and> (\<exists>k. fst (Chequebook s p) = Inr k)"
  using assms
proof (cases rule: headler_cases)
  case none
  then show ?thesis by (auto simp: handler_def settlement_terms_def ParseSettlementResponseHeaders_def ParseExchangeHeader_def split: option.splits)
next
  case (made r d)
  let ?d = "if slot_of s0 (SDeductedFor p) \<noteq> None then 0 else d"
  have t: "settlement_terms h = Inr (\<bar>r\<bar>, \<bar>?d\<bar>)" unfolding made(4) by (rule terms_made)
  have h: "h \<noteq> Map.empty" using made(4) by (auto simp: MakeSettlementHeaders_def)
  show ?thesis using h t no_panic_ReceiveCheque [of "\<bar>r\<bar>" A C s a p] made(2) no_panic_Chequebook [of s p]
    by (auto simp: handler_def no_panic_def split: option.splits json_cheque.splits prod.splits sum.splits)
qed

end
