(* ===== verification/Transactions.thy ===== *)
theory Transactions
  imports ItemStore
begin

text \<open>
  Transactions on the item store: the life cycle and the guarded store of \<open>pkg/storage/transaction.go\<close>, the
  log of reverse operations, batches and recovery of \<open>pkg/storage/leveldbstore\<close> (\<open>batch.go\<close>, \<open>transaction.go\<close>,
  \<open>recovery.go\<close>). An item is a record of the functions of the interface \<open>storage.Item\<close>, over its own type. A batch
  of goleveldb is the list of its operations; its byte format (\<open>Dump\<close> and \<open>Load\<close>) is the parameter \<open>batch_codec\<close>.
\<close>

section \<open>Items and batches\<close>

record 'a Item =
  it_Namespace :: "'a \<Rightarrow> string"
  it_ID :: "'a \<Rightarrow> string"
  it_Marshal :: "'a \<Rightarrow> bytes option"
  it_Unmarshal :: "'a \<Rightarrow> bytes \<Rightarrow> 'a option"

definition it_key :: "'a Item \<Rightarrow> 'a \<Rightarrow> string" where
  "it_key I x = item_key (it_Namespace I x) (it_ID I x)"

datatype batch_op = BatchPut string bytes | BatchDelete string

record batch_codec =
  bc_Dump :: "batch_op list \<Rightarrow> bytes"
  bc_Load :: "bytes \<Rightarrow> batch_op list option"

fun batch_apply :: "batch_op \<Rightarrow> leveldb \<Rightarrow> leveldb" where
  "batch_apply (BatchPut k v) db = db\<lparr>st_kv := (st_kv db)(k \<mapsto> v), st_keys := insort k (removeAll k (st_keys db))\<rparr>"
| "batch_apply (BatchDelete k) db = db\<lparr>st_kv := (st_kv db)(k := None), st_keys := removeAll k (st_keys db)\<rparr>"

text \<open>A batch is written completely or not at all.\<close>

definition db_Write :: "leveldb \<Rightarrow> batch_op list \<Rightarrow> store_error option \<times> leveldb" where
  "db_Write db b = (case st_step db of (f, db) \<Rightarrow> if f then (Some ErrIO, db) else (None, fold batch_apply b db))"

section \<open>The state of a transaction\<close>

datatype tx_cause = ErrTxDone | CtxCanceled | CtxDeadlineExceeded

record TxState =
  tx_cause :: "tx_cause option"

definition TxState_IsDone :: "TxState option \<Rightarrow> tx_cause option" where
  "TxState_IsDone tx = (case tx of None \<Rightarrow> None | Some t \<Rightarrow> tx_cause t)"

definition TxState_Done :: "TxState option \<Rightarrow> tx_cause option \<times> TxState option" where
  "TxState_Done tx =
     (case tx of
        None \<Rightarrow> (None, tx)
      | Some t \<Rightarrow> if tx_cause t = None then (None, Some (t\<lparr>tx_cause := Some ErrTxDone\<rparr>)) else (tx_cause t, tx))"

datatype tx_error =
    TxCause tx_cause
  | TxItem "unit item_error"
  | TxUnknownOp
  | TxBatchCommitted
  | TxContext
  | TxPanic

section \<open>The guarded store\<close>

datatype TxOpCode = PutOp | PutCreateOp | PutUpdateOp | DeleteOp

record TxRevertOp =
  ro_Origin :: TxOpCode
  ro_Key :: string
  ro_Val :: bytes

record txRevertOpStore =
  rs_id :: string
  rs_batch :: "batch_op list"

text \<open>\<open>tx_bound\<close> says whether \<open>BatchedStore\<close> is set; \<open>tx_revOps\<close> is \<open>None\<close> for the nil interface.\<close>

record TxStore =
  tx_state :: "TxState option"
  tx_db :: leveldb
  tx_bound :: bool
  tx_rolledBack :: bool
  tx_revOps :: "txRevertOpStore option"

definition guarded :: "TxStore \<Rightarrow> (leveldb \<Rightarrow> (unit item_error + 'r) \<times> leveldb) \<Rightarrow> (tx_error + 'r) \<times> TxStore" where
  "guarded s f =
     (case TxState_IsDone (tx_state s) of
        Some e \<Rightarrow> (Inl (TxCause e), s)
      | None \<Rightarrow>
          if \<not> tx_bound s then (Inl TxPanic, s)
          else (case f (tx_db s) of (Inl e, db) \<Rightarrow> (Inl (TxItem e), s\<lparr>tx_db := db\<rparr>) | (Inr r, db) \<Rightarrow> (Inr r, s\<lparr>tx_db := db\<rparr>)))"

definition base_Get :: "'a Item \<Rightarrow> TxStore \<Rightarrow> 'a \<Rightarrow> (tx_error + 'a) \<times> TxStore" where
  "base_Get I s x = guarded s (\<lambda>db. ls_Get db (it_Namespace I x) (it_ID I x) (it_Unmarshal I x))"

definition base_Has :: "'a Item \<Rightarrow> TxStore \<Rightarrow> 'a \<Rightarrow> (tx_error + bool) \<times> TxStore" where
  "base_Has I s x = guarded s (\<lambda>db. ls_Has db (it_Namespace I x) (it_ID I x))"

definition base_GetSize :: "'a Item \<Rightarrow> TxStore \<Rightarrow> 'a \<Rightarrow> (tx_error + nat) \<times> TxStore" where
  "base_GetSize I s x = guarded s (\<lambda>db. ls_GetSize db (it_Namespace I x) (it_ID I x))"

definition base_Count :: "'a Item \<Rightarrow> TxStore \<Rightarrow> 'a \<Rightarrow> (tx_error + nat) \<times> TxStore" where
  "base_Count I s x = guarded s (\<lambda>db. ls_Count db (it_Namespace I x))"

definition base_Put :: "'a Item \<Rightarrow> TxStore \<Rightarrow> 'a \<Rightarrow> (tx_error + unit) \<times> TxStore" where
  "base_Put I s x = guarded s (\<lambda>db. ls_Put db (it_Namespace I x) (it_ID I x) (it_Marshal I x))"

definition base_Delete :: "'a Item \<Rightarrow> TxStore \<Rightarrow> 'a \<Rightarrow> (tx_error + unit) \<times> TxStore" where
  "base_Delete I s x = guarded s (\<lambda>db. ls_Delete db (it_Namespace I x) (it_ID I x))"

text \<open>The errors of an iteration; the state of the callback is returned in any case.\<close>

definition base_Iterate ::
    "TxStore \<Rightarrow> 'a Query \<Rightarrow> ('a Result \<Rightarrow> 'c \<Rightarrow> (unit + bool) \<times> 'c) \<Rightarrow> 'c \<Rightarrow> tx_error list \<times> 'c \<times> TxStore" where
  "base_Iterate s q fn c =
     (case TxState_IsDone (tx_state s) of
        Some e \<Rightarrow> ([TxCause e], c, s)
      | None \<Rightarrow>
          if \<not> tx_bound s then ([TxPanic], c, s)
          else (case ls_Iterate (tx_db s) q fn c of (errs, c, db) \<Rightarrow> (map TxItem errs, c, s\<lparr>tx_db := db\<rparr>)))"

definition base_Rollback :: "TxStore \<Rightarrow> tx_cause option \<times> TxStore" where
  "base_Rollback s =
     (if \<not> tx_rolledBack s then
        let s = s\<lparr>tx_rolledBack := True\<rparr> in
        case TxState_Done (tx_state s) of (e, t) \<Rightarrow>
          let s = s\<lparr>tx_state := t\<rparr> in
          if e = None \<or> e = Some CtxCanceled \<or> e = Some CtxDeadlineExceeded then (None, s)
          else (TxState_IsDone (tx_state s), s)
      else (TxState_IsDone (tx_state s), s))"

section \<open>The log of reverse operations\<close>

fun revOpsFn :: "TxOpCode \<Rightarrow> (string \<Rightarrow> bytes \<Rightarrow> batch_op) option" where
  "revOpsFn PutCreateOp = Some (\<lambda>k _. BatchDelete k)"
| "revOpsFn PutUpdateOp = Some (\<lambda>k v. BatchPut k v)"
| "revOpsFn DeleteOp = Some (\<lambda>k v. BatchPut k v)"
| "revOpsFn PutOp = None"

fun append_ops :: "TxRevertOp option list \<Rightarrow> batch_op list \<Rightarrow> bool \<times> batch_op list" where
  "append_ops [] b = (True, b)"
| "append_ops (None # ops) b = append_ops ops b"
| "append_ops (Some op # ops) b =
     (case revOpsFn (ro_Origin op) of
        None \<Rightarrow> (False, b)
      | Some fn \<Rightarrow> append_ops ops (b @ [fn (ro_Key op) (ro_Val op)]))"

definition rev_Append :: "batch_codec \<Rightarrow> txRevertOpStore \<Rightarrow> leveldb \<Rightarrow> TxRevertOp option list \<Rightarrow> (tx_error + unit) \<times> txRevertOpStore \<times> leveldb" where
  "rev_Append C rs db ops =
     (if ops = [] then (Inr (), rs, db)
      else case append_ops ops (rs_batch rs) of
        (False, b) \<Rightarrow> (Inl TxUnknownOp, rs\<lparr>rs_batch := b\<rparr>, db)
      | (True, b) \<Rightarrow>
          (case st_Put db (rs_id rs) (bc_Dump C b) of
             (Some _, db) \<Rightarrow> (Inl (TxItem ItemIO), rs\<lparr>rs_batch := b\<rparr>, db)
           | (None, db) \<Rightarrow> (Inr (), rs\<lparr>rs_batch := b\<rparr>, db)))"

definition rev_Revert :: "txRevertOpStore \<Rightarrow> leveldb \<Rightarrow> (tx_error + unit) \<times> txRevertOpStore \<times> leveldb" where
  "rev_Revert rs db =
     (case db_Write db (rs_batch rs @ [BatchDelete (rs_id rs)]) of
        (Some _, db) \<Rightarrow> (Inl (TxItem ItemIO), rs\<lparr>rs_batch := []\<rparr>, db)
      | (None, db) \<Rightarrow> (Inr (), rs\<lparr>rs_batch := []\<rparr>, db))"

definition rev_Clean :: "txRevertOpStore \<Rightarrow> leveldb \<Rightarrow> (tx_error + unit) \<times> leveldb" where
  "rev_Clean rs db =
     (case st_Delete db (rs_id rs) of (Some _, db) \<Rightarrow> (Inl (TxItem ItemIO), db) | (None, db) \<Rightarrow> (Inr (), db))"

text \<open>What \<open>put\<close> and \<open>del\<close> find out before they write.\<close>

definition reverse_put :: "'a Item \<Rightarrow> TxStore \<Rightarrow> 'a \<Rightarrow> (tx_error + TxRevertOp) \<times> TxStore" where
  "reverse_put I s x =
     (case base_Get I s x of
        (Inl e, s) \<Rightarrow>
          if e = TxItem ItemNotFound then (Inr \<lparr>ro_Origin = PutCreateOp, ro_Key = it_key I x, ro_Val = []\<rparr>, s)
          else (Inl e, s)
      | (Inr prev, s) \<Rightarrow>
          (case it_Marshal I prev of
             None \<Rightarrow> (Inl (TxItem ItemEncode), s)
           | Some val \<Rightarrow> (Inr \<lparr>ro_Origin = PutUpdateOp, ro_Key = it_key I prev, ro_Val = val\<rparr>, s)))"

definition reverse_del :: "'a Item \<Rightarrow> TxStore \<Rightarrow> 'a \<Rightarrow> (tx_error + TxRevertOp option) \<times> TxStore" where
  "reverse_del I s x =
     (case base_Get I s x of
        (Inl e, s) \<Rightarrow> (Inr None, s)
      | (Inr prev, s) \<Rightarrow>
          (case it_Marshal I prev of
             None \<Rightarrow> (Inl (TxItem ItemEncode), s)
           | Some val \<Rightarrow> (Inr (Some \<lparr>ro_Origin = DeleteOp, ro_Key = it_key I x, ro_Val = val\<rparr>), s)))"

section \<open>The transactional store\<close>

definition ts_append :: "batch_codec \<Rightarrow> TxStore \<Rightarrow> TxRevertOp option list \<Rightarrow> (tx_error + unit) \<times> TxStore" where
  "ts_append C s ops =
     (case tx_revOps s of
        None \<Rightarrow> (Inl TxPanic, s)
      | Some rs \<Rightarrow> (case rev_Append C rs (tx_db s) ops of (r, rs, db) \<Rightarrow> (r, s\<lparr>tx_revOps := Some rs, tx_db := db\<rparr>)))"

definition ts_Put :: "batch_codec \<Rightarrow> 'a Item \<Rightarrow> TxStore \<Rightarrow> 'a \<Rightarrow> (tx_error + unit) \<times> TxStore" where
  "ts_Put C I s x =
     (if tx_state s = None then base_Put I s x
      else case TxState_IsDone (tx_state s) of
        Some e \<Rightarrow> (Inl (TxCause e), s)
      | None \<Rightarrow>
          (case reverse_put I s x of
             (Inl e, s) \<Rightarrow> (Inl e, s)
           | (Inr reverseOp, s) \<Rightarrow>
               (case base_Put I s x of
                  (Inl e, s) \<Rightarrow> (Inl e, s)
                | (Inr _, s) \<Rightarrow> ts_append C s [Some reverseOp])))"

definition ts_Delete :: "batch_codec \<Rightarrow> 'a Item \<Rightarrow> TxStore \<Rightarrow> 'a \<Rightarrow> (tx_error + unit) \<times> TxStore" where
  "ts_Delete C I s x =
     (if tx_state s = None then base_Delete I s x
      else case TxState_IsDone (tx_state s) of
        Some e \<Rightarrow> (Inl (TxCause e), s)
      | None \<Rightarrow>
          (case reverse_del I s x of
             (Inl e, s) \<Rightarrow> (Inl e, s)
           | (Inr reverseOp, s) \<Rightarrow>
               (case base_Delete I s x of
                  (Inl e, s) \<Rightarrow> (Inl e, s)
                | (Inr _, s) \<Rightarrow> (if reverseOp \<noteq> None then ts_append C s [reverseOp] else (Inr (), s)))))"

definition ts_release :: "TxStore \<Rightarrow> TxStore" where
  "ts_release s = s\<lparr>tx_bound := False, tx_revOps := None\<rparr>"

definition ts_Commit :: "TxStore \<Rightarrow> (tx_error + unit) \<times> TxStore" where
  "ts_Commit s =
     (if tx_state s = None then (Inr (), s)
      else case TxState_Done (tx_state s) of
        (Some e, t) \<Rightarrow> (Inl (TxCause e), ts_release (s\<lparr>tx_state := t\<rparr>))
      | (None, t) \<Rightarrow>
          let s = s\<lparr>tx_state := t\<rparr> in
          (case tx_revOps s of
             None \<Rightarrow> (Inl TxPanic, ts_release s)
           | Some rs \<Rightarrow> (case rev_Clean rs (tx_db s) of (r, db) \<Rightarrow> (r, ts_release (s\<lparr>tx_db := db\<rparr>)))))"

definition ts_Rollback :: "TxStore \<Rightarrow> (tx_error + unit) \<times> TxStore" where
  "ts_Rollback s =
     (if tx_state s = None then (Inr (), s)
      else case base_Rollback s of
        (Some e, s) \<Rightarrow> (Inl (TxCause e), ts_release s)
      | (None, s) \<Rightarrow>
          (case tx_revOps s of
             None \<Rightarrow> (Inl TxPanic, ts_release s)
           | Some rs \<Rightarrow> (case rev_Revert rs (tx_db s) of (r, rs, db) \<Rightarrow> (r, ts_release (s\<lparr>tx_db := db\<rparr>)))))"

definition pendingTxNamespace :: string where
  "pendingTxNamespace = ''pending-indexstore-tx''"

definition tx_key :: "string \<Rightarrow> string" where
  "tx_key uuid = pendingTxNamespace @ ''/'' @ uuid"

definition ts_NewTx :: "TxStore \<Rightarrow> TxState option \<Rightarrow> string \<Rightarrow> tx_error + TxStore" where
  "ts_NewTx s state uuid =
     (if \<not> tx_bound s then Inl TxPanic
      else Inr \<lparr>tx_state = state, tx_db = tx_db s, tx_bound = True, tx_rolledBack = False,
        tx_revOps = Some \<lparr>rs_id = tx_key uuid, rs_batch = []\<rparr>\<rparr>)"

definition NewTxStore :: "leveldb \<Rightarrow> TxStore" where
  "NewTxStore db = \<lparr>tx_state = None, tx_db = db, tx_bound = True, tx_rolledBack = False, tx_revOps = None\<rparr>"

section \<open>Batches\<close>

text \<open>\<open>ba_cancelled\<close> is whether the context of the batch has ended.\<close>

record ldbBatch =
  ba_ops :: "batch_op list"
  ba_done :: bool
  ba_cancelled :: bool

definition ldb_NewBatch :: "bool \<Rightarrow> ldbBatch" where
  "ldb_NewBatch cancelled = \<lparr>ba_ops = [], ba_done = False, ba_cancelled = cancelled\<rparr>"

definition ba_Put :: "'a Item \<Rightarrow> ldbBatch \<Rightarrow> 'a \<Rightarrow> (tx_error + unit) \<times> ldbBatch" where
  "ba_Put I b x =
     (if ba_cancelled b then (Inl TxContext, b)
      else case it_Marshal I x of
        None \<Rightarrow> (Inl (TxItem ItemEncode), b)
      | Some val \<Rightarrow> (Inr (), b\<lparr>ba_ops := ba_ops b @ [BatchPut (it_key I x) val]\<rparr>))"

definition ba_Delete :: "'a Item \<Rightarrow> ldbBatch \<Rightarrow> 'a \<Rightarrow> (tx_error + unit) \<times> ldbBatch" where
  "ba_Delete I b x =
     (if ba_cancelled b then (Inl TxContext, b) else (Inr (), b\<lparr>ba_ops := ba_ops b @ [BatchDelete (it_key I x)]\<rparr>))"

definition ba_Commit :: "ldbBatch \<Rightarrow> leveldb \<Rightarrow> (tx_error + unit) \<times> ldbBatch \<times> leveldb" where
  "ba_Commit b db =
     (if ba_cancelled b then (Inl TxContext, b, db)
      else if ba_done b then (Inl TxBatchCommitted, b, db)
      else case db_Write db (ba_ops b) of
        (Some _, db) \<Rightarrow> (Inl (TxItem ItemIO), b, db)
      | (None, db) \<Rightarrow> (Inr (), b\<lparr>ba_done := True\<rparr>, db))"

record txBatch =
  xb_batch :: ldbBatch
  xb_revOps :: "TxRevertOp option list"

definition ts_Batch :: "TxStore \<Rightarrow> bool \<Rightarrow> tx_error + txBatch" where
  "ts_Batch s cancelled =
     (if \<not> tx_bound s then Inl TxPanic else Inr \<lparr>xb_batch = ldb_NewBatch cancelled, xb_revOps = []\<rparr>)"

definition xb_Put :: "'a Item \<Rightarrow> TxStore \<Rightarrow> txBatch \<Rightarrow> 'a \<Rightarrow> (tx_error + unit) \<times> TxStore \<times> txBatch" where
  "xb_Put I s b x =
     (if tx_state s = None then (case ba_Put I (xb_batch b) x of (r, ba) \<Rightarrow> (r, s, b\<lparr>xb_batch := ba\<rparr>))
      else case TxState_IsDone (tx_state s) of
        Some e \<Rightarrow> (Inl (TxCause e), s, b)
      | None \<Rightarrow>
          (case reverse_put I s x of
             (Inl e, s) \<Rightarrow> (Inl e, s, b)
           | (Inr reverseOp, s) \<Rightarrow>
               (case ba_Put I (xb_batch b) x of
                  (Inl e, ba) \<Rightarrow> (Inl e, s, b\<lparr>xb_batch := ba\<rparr>)
                | (Inr _, ba) \<Rightarrow> (Inr (), s, b\<lparr>xb_batch := ba, xb_revOps := xb_revOps b @ [Some reverseOp]\<rparr>))))"

definition xb_Delete :: "'a Item \<Rightarrow> TxStore \<Rightarrow> txBatch \<Rightarrow> 'a \<Rightarrow> (tx_error + unit) \<times> TxStore \<times> txBatch" where
  "xb_Delete I s b x =
     (if tx_state s = None then (case ba_Delete I (xb_batch b) x of (r, ba) \<Rightarrow> (r, s, b\<lparr>xb_batch := ba\<rparr>))
      else case TxState_IsDone (tx_state s) of
        Some e \<Rightarrow> (Inl (TxCause e), s, b)
      | None \<Rightarrow>
          (case reverse_del I s x of
             (Inl e, s) \<Rightarrow> (Inl e, s, b)
           | (Inr reverseOp, s) \<Rightarrow>
               (case ba_Delete I (xb_batch b) x of
                  (Inl e, ba) \<Rightarrow> (Inl e, s, b\<lparr>xb_batch := ba\<rparr>)
                | (Inr _, ba) \<Rightarrow>
                    (Inr (), s, b\<lparr>xb_batch := ba,
                       xb_revOps := (if reverseOp \<noteq> None then xb_revOps b @ [reverseOp] else xb_revOps b)\<rparr>))))"

definition xb_Commit :: "batch_codec \<Rightarrow> TxStore \<Rightarrow> txBatch \<Rightarrow> (tx_error + unit) \<times> TxStore \<times> txBatch" where
  "xb_Commit C s b =
     (case ba_Commit (xb_batch b) (tx_db s) of
        (Inl e, ba, db) \<Rightarrow> (Inl e, s\<lparr>tx_db := db\<rparr>, b\<lparr>xb_batch := ba\<rparr>)
      | (Inr _, ba, db) \<Rightarrow>
          let s = s\<lparr>tx_db := db\<rparr>; b = b\<lparr>xb_batch := ba\<rparr> in
          if tx_state s = None then (Inr (), s, b)
          else (case ts_append C s (xb_revOps b) of (r, s) \<Rightarrow> (r, s, b\<lparr>xb_revOps := []\<rparr>)))"

section \<open>Recovery\<close>

definition pending_query :: "batch_codec \<Rightarrow> batch_op list Query" where
  "pending_query C = plain_query pendingTxNamespace (bc_Load C) []"

definition recover_fn :: "batch_op list Result \<Rightarrow> batch_op list \<Rightarrow> (unit + bool) \<times> batch_op list" where
  "recover_fn r batch = (case r_Entry r of None \<Rightarrow> (Inl (), batch) | Some val \<Rightarrow> (Inr False, (batch @ val) @ [BatchDelete (tx_key (r_ID r))]))"

definition ts_Recover :: "batch_codec \<Rightarrow> TxStore \<Rightarrow> (tx_error list + unit) \<times> TxStore" where
  "ts_Recover C s =
     (case base_Iterate s (pending_query C) recover_fn [] of
        (errs, batch, s) \<Rightarrow>
          if errs \<noteq> [] then (Inl errs, s)
          else if batch = [] then (Inr (), s)
          else (case db_Write (tx_db s) batch of
              (Some _, db) \<Rightarrow> (Inl [TxItem ItemIO], s\<lparr>tx_db := db\<rparr>)
            | (None, db) \<Rightarrow> (Inr (), s\<lparr>tx_db := db\<rparr>)))"

end
