(* ===== verification/BitVector.thy ===== *)
theory BitVector
  imports Prelude
begin

text \<open>
  The bit vector used by the protocol messages (\<open>pkg/bitvector/bitvector.go\<close>). Indices are
  Go \<open>int\<close>s; an index panic is \<open>None\<close>. A negative remainder converts to a huge shift
  count, which yields the zero mask, as \<open>push_bit\<close> beyond the width does.
\<close>

datatype bv_error = ErrInvalidLength | MakeSlicePanic

record bitvector =
  bv_len :: int
  bv_b :: bytes

definition go_rem :: "int \<Rightarrow> int \<Rightarrow> int" where
  "go_rem a b = a - go_quot a b * b"

definition bv_NewFromBytes :: "bytes \<Rightarrow> int \<Rightarrow> bv_error + bitvector" where
  "bv_NewFromBytes b l =
     (if l \<le> 0 then Inl ErrInvalidLength
      else if int (length b) * 8 < l then Inl ErrInvalidLength
      else Inr \<lparr>bv_len = l, bv_b = b\<rparr>)"

definition bv_New :: "int \<Rightarrow> bv_error + bitvector" where
  "bv_New l =
     (let n = go_quot l 8 + 1
      in if n < 0 then Inl MakeSlicePanic else bv_NewFromBytes (replicate (nat n) 0) l)"

definition bv_mask :: "int \<Rightarrow> byte" where
  "bv_mask i = (let r = go_rem i 8 in if r < 0 then 0 else push_bit (nat r) 1)"

definition bv_Get :: "bitvector \<Rightarrow> int \<Rightarrow> bool option" where
  "bv_Get bv i =
     (let bi = go_quot i 8
      in if bi < 0 \<or> int (length (bv_b bv)) \<le> bi then None
         else Some (bv_b bv ! nat bi AND bv_mask i \<noteq> 0))"

definition bv_Set :: "bitvector \<Rightarrow> int \<Rightarrow> bitvector option" where
  "bv_Set bv i =
     (let bi = go_quot i 8 in
      case bv_Get bv i of
        None \<Rightarrow> None
      | Some True \<Rightarrow> Some bv
      | Some False \<Rightarrow> Some (bv\<lparr>bv_b := (bv_b bv)[nat bi := bv_b bv ! nat bi XOR bv_mask i]\<rparr>))"

definition bv_ok :: "bitvector \<Rightarrow> bool" where
  "bv_ok bv \<longleftrightarrow> 0 < bv_len bv \<and> bv_len bv \<le> int (length (bv_b bv)) * 8"

lemma bv_NewFromBytes_ok: "bv_NewFromBytes b l = Inr bv \<Longrightarrow> bv_ok bv \<and> bv_len bv = l \<and> bv_b bv = b"
  by (auto simp: bv_NewFromBytes_def bv_ok_def split: if_splits)

lemma go_rem_nonneg: "0 \<le> i \<Longrightarrow> go_rem i 8 = i mod 8"
  by (simp add: go_rem_def go_quot_nonneg minus_div_mult_eq_mod)

lemma and_push_bit_one: "(w :: byte) AND push_bit n 1 \<noteq> 0 \<longleftrightarrow> bit w n"
proof -
  have "w AND push_bit n 1 = (if bit w n then push_bit n 1 else 0)"
    by (rule bit_word_eqI) (auto simp: bit_simps)
  then show ?thesis
    using bit_imp_le_length [of w n] by (auto simp: push_bit_eq_mult intro: gr_implies_not_zero)
qed

lemma bv_mask_nonneg: "0 \<le> i \<Longrightarrow> bv_mask i = push_bit (nat i mod 8) 1"
  by (simp add: bv_mask_def Let_def go_rem_nonneg nat_mod_distrib)

lemma bv_Get_bit:
  assumes "0 \<le> i" "nat i div 8 < length (bv_b bv)"
  shows "bv_Get bv i = Some (bit (bv_b bv ! (nat i div 8)) (nat i mod 8))"
proof -
  have "nat (i mod 8) = nat i mod 8" "nat (i div 8) = nat i div 8"
    using assms by (simp_all add: nat_mod_distrib nat_div_distrib)
  moreover have "\<not> int (length (bv_b bv)) \<le> i div 8"
    using assms by (simp add: not_le zless_nat_eq_int_zless [symmetric] nat_div_distrib)
  ultimately show ?thesis
    using assms by (simp add: bv_Get_def bv_mask_nonneg go_quot_nonneg and_push_bit_one
        pos_imp_zdiv_neg_iff del: push_bit_of_1)
qed

lemma bv_index: "bv_ok bv \<Longrightarrow> 0 \<le> i \<Longrightarrow> i < bv_len bv \<Longrightarrow> nat i div 8 < length (bv_b bv)"
  by (auto simp: bv_ok_def less_mult_imp_div_less nat_less_iff)

text \<open>On a vector built by a constructor, an index below the length never panics;
  \<open>Set\<close> makes that bit read as true, leaves every other bit unchanged, and keeps the
  vector well formed.\<close>

lemma bitvector_get_set:
  assumes "bv_ok bv" "0 \<le> i" "i < bv_len bv"
  shows "\<exists>bv'. bv_Set bv i = Some bv' \<and> bv_ok bv' \<and> bv_len bv' = bv_len bv \<and>
    (\<forall>j. 0 \<le> j \<and> j < bv_len bv \<longrightarrow>
      bv_Get bv' j = (if j = i then Some True else bv_Get bv j) \<and> bv_Get bv j \<noteq> None)"
proof -
  define q m where "q = nat i div 8" and "m = nat i mod 8"
  have q: "q < length (bv_b bv)" using bv_index [OF assms] by (simp add: q_def)
  have g: "bv_Get bv i = Some (bit (bv_b bv ! q) m)"
    using bv_Get_bit [OF assms(2)] q by (simp add: q_def m_def)
  have mask: "bv_mask i = push_bit m 1" "nat (go_quot i 8) = q" "m < 8"
    using assms(2) by (simp_all add: bv_mask_nonneg m_def q_def go_quot_nonneg nat_div_distrib)
  let ?w = "if bit (bv_b bv ! q) m then bv_b bv ! q else bv_b bv ! q XOR push_bit m 1"
  let ?bv = "bv\<lparr>bv_b := (bv_b bv)[q := ?w]\<rparr>"
  have set: "bv_Set bv i = Some ?bv"
    using g mask by (simp add: bv_Set_def Let_def)
  have bw: "bit ?w k = (k = m \<or> bit (bv_b bv ! q) k)" if "k < 8" for k
    using that mask(3) by (auto simp: bit_simps)
  have "bv_Get ?bv j = (if j = i then Some True else bv_Get bv j)" "bv_Get bv j \<noteq> None"
    if j: "0 \<le> j" "j < bv_len bv" for j
  proof -
    have jq: "nat j div 8 < length (bv_b bv)" using bv_index [OF assms(1) j] .
    have ji: "j = i \<longleftrightarrow> nat j div 8 = q \<and> nat j mod 8 = m"
      using j(1) assms(2) unfolding q_def m_def
      by (metis div_mult_mod_eq eq_nat_nat_iff)
    show "bv_Get ?bv j = (if j = i then Some True else bv_Get bv j)"
      using bv_Get_bit [OF j(1), of ?bv] bv_Get_bit [OF j(1) jq] jq q ji bw [of "nat j mod 8"]
      by (auto simp: nth_list_update)
    show "bv_Get bv j \<noteq> None" using bv_Get_bit [OF j(1) jq] by simp
  qed
  moreover have "bv_ok ?bv" using assms(1) by (simp add: bv_ok_def)
  ultimately show ?thesis using set by (intro exI [of _ ?bv]) auto
qed

end
