(* ===== verification/Sharky.thy ===== *)
theory Sharky
  imports BitVector Bytes
begin

text \<open>
  The sharded blob store (\<open>pkg/sharky\<close>): locations, the free slots of a shard (\<open>slots.go\<close>), the
  shard and its file (\<open>shard.go\<close>), the two goroutines of a shard as a step relation, opening and closing a
  store (\<open>store.go\<close>) and disaster recovery (\<open>recovery.go\<close>). Slot numbers are \<open>uint32\<close>, here naturals with the
  wrap-around written out; an index out of range is a Go panic, the value \<open>None\<close>. The
  goroutines meet on unbuffered channels, so a step is one rendezvous; every choice of a
  \<open>select\<close> and every failure of a file operation is a step of its own.
\<close>

section \<open>Locations\<close>

definition LocationSize :: nat where
  "LocationSize = 7"

record Location =
  lo_Shard :: byte
  lo_Slot :: nat
  lo_Length :: nat

definition loc_MarshalBinary :: "Location \<Rightarrow> bytes" where
  "loc_MarshalBinary l = lo_Shard l # le_put 4 (lo_Slot l) @ le_put 2 (lo_Length l)"

text \<open>A buffer that is too short panics.\<close>

definition loc_UnmarshalBinary :: "bytes \<Rightarrow> Location option" where
  "loc_UnmarshalBinary buf =
     (if length buf < 7 then None
      else Some \<lparr>lo_Shard = buf ! 0, lo_Slot = le_nat (take 4 (drop 1 buf)), lo_Length = le_nat (take 2 (drop 5 buf))\<rparr>)"

definition loc_ok :: "Location \<Rightarrow> bool" where
  "loc_ok l \<longleftrightarrow> lo_Slot l < 2 ^ 32 \<and> lo_Length l < 2 ^ 16"

section \<open>Free slots\<close>

definition to_u32 :: "nat \<Rightarrow> nat" where
  "to_u32 n = n mod 2 ^ 32"

text \<open>A set bit of the vector is a free slot; \<open>head\<close> is the first one.\<close>

record slots =
  sl_data :: bytes
  sl_size :: nat
  sl_head :: nat

text \<open>The loop over the slots: the index runs below the size, so it does not wrap.\<close>

function next_loop :: "bytes \<Rightarrow> nat \<Rightarrow> nat \<Rightarrow> nat option" where
  "next_loop data i sz =
     (if i < sz then
        (if i div 8 < length data then
           (if data ! (i div 8) AND push_bit (i mod 8) 1 > 0 then Some i else next_loop data (i + 1) sz)
         else None)
      else Some sz)"
  by pat_completeness auto
termination
  by (relation "measure (\<lambda>(data, i, sz). sz - i)") auto

declare next_loop.simps [simp del]

definition sl_next :: "slots \<Rightarrow> nat \<Rightarrow> nat option" where
  "sl_next sl start = next_loop (sl_data sl) start (sl_size sl)"

definition sl_extend :: "slots \<Rightarrow> nat \<Rightarrow> slots" where
  "sl_extend sl n = sl\<lparr>sl_size := to_u32 (sl_size sl + to_u32 n * 8), sl_data := sl_data sl @ replicate n 255\<rparr>"

definition sl_push :: "slots \<Rightarrow> nat \<Rightarrow> slots option" where
  "sl_push sl i =
     (let sl = (if sl_head sl > i then sl\<lparr>sl_head := i\<rparr> else sl) in
      if i div 8 < length (sl_data sl)
      then Some (sl\<lparr>sl_data := (sl_data sl)[i div 8 := sl_data sl ! (i div 8) OR push_bit (i mod 8) 1]\<rparr>)
      else None)"

definition sl_pop :: "slots \<Rightarrow> (nat \<times> slots) option" where
  "sl_pop sl =
     (let head = sl_head sl;
          sl = (if head = sl_size sl then sl_extend sl 1 else sl) in
      if head div 8 < length (sl_data sl)
      then
        let sl = sl\<lparr>sl_data := (sl_data sl)[head div 8 := sl_data sl ! (head div 8) AND NOT (push_bit (head mod 8) 1)]\<rparr> in
        (case sl_next sl (to_u32 (head + 1)) of
           None \<Rightarrow> None
         | Some h \<Rightarrow> Some (head, sl\<lparr>sl_head := h\<rparr>))
      else None)"

text \<open>Reading the vector from its file and writing it back; a failed write leaves part of the data.\<close>

definition sl_load :: "bytes option \<Rightarrow> slots option option" where
  "sl_load contents =
     (case contents of
        None \<Rightarrow> Some None
      | Some data \<Rightarrow>
          let sl = \<lparr>sl_data = data, sl_size = to_u32 (length data * 8), sl_head = 0\<rparr> in
          map_option (\<lambda>h. Some (sl\<lparr>sl_head := h\<rparr>)) (sl_next sl 0))"

datatype save_fault = TruncateFails | SeekFails | WriteFails nat | SyncFails

definition sl_save :: "slots \<Rightarrow> bytes \<Rightarrow> save_fault option \<Rightarrow> bool \<times> bytes" where
  "sl_save sl file fault =
     (case fault of
        None \<Rightarrow> (True, sl_data sl)
      | Some TruncateFails \<Rightarrow> (False, file)
      | Some SeekFails \<Rightarrow> (False, [])
      | Some (WriteFails n) \<Rightarrow> (False, take n (sl_data sl))
      | Some SyncFails \<Rightarrow> (False, sl_data sl))"

section \<open>Files\<close>

text \<open>A file is its contents. Writing beyond the end fills the gap with zeros; reading beyond the end is an error,
  except that nothing is always read.\<close>

definition file_WriteAt :: "bytes \<Rightarrow> bytes \<Rightarrow> nat \<Rightarrow> bytes" where
  "file_WriteAt f buf off =
     (if buf = [] then f else take off f @ replicate (off - length f) 0 @ buf @ drop (off + length buf) f)"

definition file_ReadAt :: "bytes \<Rightarrow> nat \<Rightarrow> nat \<Rightarrow> bytes option" where
  "file_ReadAt f n off = (if n = 0 then Some [] else if off + n \<le> length f then Some (take n (drop off f)) else None)"

section \<open>Shards\<close>

text \<open>The state of a shard and its goroutines: \<open>ss_pending\<close> is the head that \<open>slots.process\<close> offers, \<open>ss_slot\<close> the slot that
  \<open>shard.process\<close> holds while it waits for a write, \<open>ss_limbo\<close> such a slot on its way back after quitting.\<close>

datatype slots_mode = Serving | Draining | Ended

record shard =
  ss_index :: byte
  ss_maxDataSize :: nat
  ss_file :: bytes
  ss_slots :: slots
  ss_pending :: "nat option"
  ss_mode :: slots_mode
  ss_running :: bool
  ss_slot :: "nat option"
  ss_limbo :: "nat option"

definition sh_offset :: "shard \<Rightarrow> nat \<Rightarrow> nat" where
  "sh_offset sh slot = slot * ss_maxDataSize sh"

text \<open>\<open>written\<close> is the number of bytes a failing write managed to write.\<close>

definition sh_write :: "shard \<Rightarrow> bytes \<Rightarrow> nat \<Rightarrow> nat option \<Rightarrow> (Location \<times> bool) \<times> shard" where
  "sh_write sh buf slot written =
     (let n = (case written of None \<Rightarrow> length buf | Some k \<Rightarrow> min k (length buf)) in
      ((\<lparr>lo_Shard = ss_index sh, lo_Slot = slot, lo_Length = n mod 2 ^ 16\<rparr>, written = None),
       sh\<lparr>ss_file := file_WriteAt (ss_file sh) (take n buf) (sh_offset sh slot)\<rparr>))"

definition sh_read :: "shard \<Rightarrow> nat \<Rightarrow> nat \<Rightarrow> bytes option" where
  "sh_read sh n slot = file_ReadAt (ss_file sh) n (sh_offset sh slot)"

text \<open>The branches of \<open>slots.process\<close>: popping a new head, receiving a released slot, seeing the end of the shard's
  loop, and the closing of the channel once no slot is in limbo.\<close>

definition sp_pop :: "shard \<Rightarrow> shard option" where
  "sp_pop sh = map_option (\<lambda>(h, sl). sh\<lparr>ss_slots := sl, ss_pending := Some h\<rparr>) (sl_pop (ss_slots sh))"

definition sp_push :: "shard \<Rightarrow> nat \<Rightarrow> shard option" where
  "sp_push sh slot = map_option (\<lambda>sl. sh\<lparr>ss_slots := sl\<rparr>) (sl_push (ss_slots sh) slot)"

definition sp_quit :: "shard \<Rightarrow> shard option" where
  "sp_quit sh =
     (case ss_pending sh of
        None \<Rightarrow> Some (sh\<lparr>ss_mode := Draining\<rparr>)
      | Some head \<Rightarrow> map_option (\<lambda>sh. sh\<lparr>ss_pending := None, ss_mode := Draining\<rparr>) (sp_push sh head))"

text \<open>\<open>shard.process\<close> returning: a slot it holds goes into limbo.\<close>

definition sh_return :: "shard \<Rightarrow> shard" where
  "sh_return sh = sh\<lparr>ss_running := False, ss_limbo := ss_slot sh, ss_slot := None\<rparr>"

text \<open>\<open>Write\<close> refuses data that is too long; otherwise the shard that takes the operation answers it.\<close>

definition sharky_Write_accepts :: "shard \<Rightarrow> bytes \<Rightarrow> bool" where
  "sharky_Write_accepts sh data \<longleftrightarrow> \<not> length data > ss_maxDataSize sh"

section \<open>Steps of a shard\<close>

text \<open>A configuration is a shard, the blobs in use, by slot, and the slots that are neither free nor known to a caller: the
  write failed, or the caller went away before it got the location. A caller releases only
  slots it got from a write.\<close>

type_synonym shard_conf = "shard \<times> (nat \<rightharpoonup> bytes) \<times> nat set"

inductive sh_step :: "shard_conf \<Rightarrow> shard_conf \<Rightarrow> bool" where
  slot_pop: "ss_mode sh = Serving \<Longrightarrow> ss_pending sh = None \<Longrightarrow> sp_pop sh = Some sh' \<Longrightarrow> sh_step (sh, L, X) (sh', L, X)"
| slot_offer: "ss_pending sh = Some i \<Longrightarrow> ss_running sh \<Longrightarrow> ss_slot sh = None \<Longrightarrow>
    sh_step (sh, L, X) (sh\<lparr>ss_pending := None, ss_slot := Some i\<rparr>, L, X)"
| write_done: "ss_running sh \<Longrightarrow> ss_slot sh = Some i \<Longrightarrow> sharky_Write_accepts sh buf \<Longrightarrow> sh_write sh buf i None = (e, sh') \<Longrightarrow>
    sh_step (sh, L, X) (sh'\<lparr>ss_slot := None\<rparr>, L(i \<mapsto> buf), X)"
| write_lost: "ss_running sh \<Longrightarrow> ss_slot sh = Some i \<Longrightarrow> sharky_Write_accepts sh buf \<Longrightarrow> sh_write sh buf i written = (e, sh') \<Longrightarrow>
    sh_step (sh, L, X) (sh'\<lparr>ss_slot := None\<rparr>, L, insert i X)"
| slot_release: "L i = Some b \<Longrightarrow> ss_mode sh \<noteq> Ended \<Longrightarrow> sp_push sh i = Some sh' \<Longrightarrow> sh_step (sh, L, X) (sh', L(i := None), X)"
| loop_returns: "ss_running sh \<Longrightarrow> sh_step (sh, L, X) (sh_return sh, L, X)"
| loop_quit: "\<not> ss_running sh \<Longrightarrow> ss_mode sh = Serving \<Longrightarrow> sp_quit sh = Some sh' \<Longrightarrow> sh_step (sh, L, X) (sh', L, X)"
| limbo_back: "ss_limbo sh = Some i \<Longrightarrow> ss_mode sh \<noteq> Ended \<Longrightarrow> sp_push sh i = Some sh' \<Longrightarrow>
    sh_step (sh, L, X) (sh'\<lparr>ss_limbo := None\<rparr>, L, X)"
| chan_close: "ss_mode sh = Draining \<Longrightarrow> ss_limbo sh = None \<Longrightarrow> sh_step (sh, L, X) (sh\<lparr>ss_mode := Ended\<rparr>, L, X)"

section \<open>The store\<close>

text \<open>Opening a shard on the contents of its two files. \<open>None\<close> is a panic, \<open>Some None\<close> an error.\<close>

definition sharky_create :: "byte \<Rightarrow> nat \<Rightarrow> bytes option \<Rightarrow> bytes option \<Rightarrow> shard option option" where
  "sharky_create index maxDataSize file ffile =
     (case file of
        None \<Rightarrow> Some None
      | Some f \<Rightarrow>
          map_option (map_option (\<lambda>sl. \<lparr>ss_index = index, ss_maxDataSize = maxDataSize, ss_file = f, ss_slots = sl,
            ss_pending = None, ss_mode = Serving, ss_running = True, ss_slot = None, ss_limbo = None\<rparr>)) (sl_load ffile))"

fun sharky_New :: "nat \<Rightarrow> (bytes option \<times> bytes option) list \<Rightarrow> nat \<Rightarrow> shard list option option" where
  "sharky_New maxDataSize [] i = Some (Some [])"
| "sharky_New maxDataSize ((file, ffile) # fs) i =
     (case sharky_create (of_nat i) maxDataSize file ffile of
        None \<Rightarrow> None
      | Some None \<Rightarrow> Some None
      | Some (Some sh) \<Rightarrow> map_option (map_option (Cons sh)) (sharky_New maxDataSize fs (i + 1)))"

text \<open>\<open>Read\<close> into a buffer of the given capacity; \<open>None\<close> is a panic.\<close>

definition sharky_Read :: "shard list \<Rightarrow> Location \<Rightarrow> nat \<Rightarrow> bytes option option" where
  "sharky_Read shards loc cap =
     (if length shards \<le> unat (lo_Shard loc) \<or> cap < lo_Length loc then None
      else Some (sh_read (shards ! unat (lo_Shard loc)) (lo_Length loc) (lo_Slot loc)))"

definition shard_close :: "shard \<Rightarrow> bytes \<Rightarrow> save_fault option \<Rightarrow> bool \<times> bytes" where
  "shard_close sh ffile fault = sl_save (ss_slots sh) ffile fault"

text \<open>A step of the store is a step of one of its shards; the shards share the channel of write operations only.\<close>

definition store_step :: "shard_conf list \<Rightarrow> shard_conf list \<Rightarrow> bool" where
  "store_step xs ys \<longleftrightarrow> (\<exists>k c. k < length xs \<and> sh_step (xs ! k) c \<and> ys = xs[k := c])"

section \<open>Recovery\<close>

text \<open>During recovery a set bit is a slot in use.\<close>

record recovery =
  rc_shards :: "slots list"
  rc_files :: "bytes list"
  rc_datasize :: nat

definition recovery_slots :: "nat \<Rightarrow> bytes \<Rightarrow> slots" where
  "recovery_slots datasize file = \<lparr>sl_data = replicate (to_u32 (length file div datasize) div 8) 0, sl_size = 0, sl_head = 0\<rparr>"

text \<open>\<open>None\<close> when a file is missing or cannot be opened, or when the data size is zero, which panics.\<close>

definition NewRecovery :: "bytes option list \<Rightarrow> nat \<Rightarrow> recovery option" where
  "NewRecovery files datasize =
     (if None \<in> set files \<or> datasize = 0 then None
      else Some \<lparr>rc_shards = map (recovery_slots datasize \<circ> the) files, rc_files = map the files, rc_datasize = datasize\<rparr>)"

definition recovery_mark :: "slots \<Rightarrow> nat \<Rightarrow> slots option" where
  "recovery_mark sh slot =
     (let l = length (sl_data sh);
          sh = (if l \<le> slot div 8
                then (let diff = slot div 8 - l; sh = sl_extend sh (diff + 1)
                      in sh\<lparr>sl_data := take l (sl_data sh) @ replicate (diff + 1) 0\<rparr>)
                else sh)
      in sl_push sh slot)"

definition recovery_Add :: "recovery \<Rightarrow> Location \<Rightarrow> recovery option" where
  "recovery_Add r loc =
     (let k = unat (lo_Shard loc) in
      if length (rc_shards r) \<le> k then None
      else map_option (\<lambda>sh. r\<lparr>rc_shards := (rc_shards r)[k := sh]\<rparr>) (recovery_mark (rc_shards r ! k) (lo_Slot loc)))"

definition recovery_Read :: "recovery \<Rightarrow> Location \<Rightarrow> nat \<Rightarrow> bytes option option" where
  "recovery_Read r loc n =
     (let k = unat (lo_Shard loc) in
      if length (rc_files r) \<le> k then None else Some (file_ReadAt (rc_files r ! k) n (lo_Slot loc * rc_datasize r)))"

definition recovery_Move :: "recovery \<Rightarrow> Location \<Rightarrow> Location \<Rightarrow> recovery option option" where
  "recovery_Move r src dst =
     (if length (rc_files r) \<le> unat (lo_Shard src) then None
      else case file_ReadAt (rc_files r ! unat (lo_Shard src)) (lo_Length src) (lo_Slot src * rc_datasize r) of
        None \<Rightarrow> Some None
      | Some chData \<Rightarrow>
          if length (rc_files r) \<le> unat (lo_Shard dst) then None
          else Some (Some (r\<lparr>rc_files := (rc_files r)[unat (lo_Shard dst) :=
                 file_WriteAt (rc_files r ! unat (lo_Shard dst)) chData (lo_Slot dst * rc_datasize r)]\<rparr>)))"

definition file_Truncate :: "bytes \<Rightarrow> nat \<Rightarrow> bytes" where
  "file_Truncate f n = take n f @ replicate (n - length f) 0"

definition recovery_TruncateAt :: "recovery \<Rightarrow> byte \<Rightarrow> nat \<Rightarrow> recovery option" where
  "recovery_TruncateAt r sh slot =
     (if length (rc_files r) \<le> unat sh then None
      else Some (r\<lparr>rc_files := (rc_files r)[unat sh := file_Truncate (rc_files r ! unat sh) (slot * rc_datasize r)]\<rparr>))"

text \<open>\<open>Save\<close> inverts the bits and saves every shard, whether or not another one fails; the result are the errors and
  the contents of the files of free slots.\<close>

definition recovery_Save :: "recovery \<Rightarrow> bytes list \<Rightarrow> save_fault option list \<Rightarrow> (bool \<times> bytes) list \<times> recovery" where
  "recovery_Save r ffiles faults =
     (let shards = map (\<lambda>sh. sh\<lparr>sl_data := map (\<lambda>b. b XOR 255) (sl_data sh)\<rparr>) (rc_shards r) in
      (map (\<lambda>(sh, f, fault). sl_save sh f fault) (zip shards (zip ffiles faults)), r\<lparr>rc_shards := shards\<rparr>))"

end
