(* ===== verification/SharkyProps.thy ===== *)
theory SharkyProps
  imports Sharky "HOL-Library.Multiset"
begin

text \<open>
  Properties of the blob store: the slots as a pool of numbers, a shard's invariant over every
  interleaving of its goroutines and failures, what is read back, restart and recovery.
\<close>

section \<open>The pool of free slots\<close>

definition free_slots :: "bytes \<Rightarrow> nat set" where
  "free_slots D = {i. i < 8 * length D \<and> bit (D ! (i div 8)) (i mod 8)}"

definition first_free :: "nat set \<Rightarrow> nat \<Rightarrow> nat \<Rightarrow> nat" where
  "first_free F n start = (if \<exists>i\<in>F. start \<le> i then LEAST i. i \<in> F \<and> start \<le> i else n)"

definition slots_ok :: "slots \<Rightarrow> bool" where
  "slots_ok sl \<longleftrightarrow> 8 * length (sl_data sl) < 2 ^ 32 \<and> sl_size sl = 8 * length (sl_data sl) \<and>
     sl_head sl = first_free (free_slots (sl_data sl)) (sl_size sl) 0"

lemma free_bit: "i < 8 * length D \<Longrightarrow> i \<in> free_slots D \<longleftrightarrow> D ! (i div 8) AND push_bit (i mod 8) 1 > 0"
  using and_push_bit_one [of "D ! (i div 8)" "i mod 8"] by (simp add: free_slots_def word_gt_0 del: push_bit_of_1)

lemma free_bound: "i \<in> free_slots D \<Longrightarrow> i < 8 * length D"
  by (simp add: free_slots_def)

lemma first_free_step:
  "first_free F n i = (if i \<in> F then i else first_free F n (i + 1))"
proof (cases "i \<in> F")
  case True
  then have "(LEAST x. x \<in> F \<and> i \<le> x) = i" by (intro Least_equality) auto
  then show ?thesis using True by (auto simp: first_free_def)
next
  case False
  then have "(x \<in> F \<and> i \<le> x) = (x \<in> F \<and> i + 1 \<le> x)" for x by (metis Suc_eq_plus1 Suc_leI le_eq_less_or_eq less_eq_Suc_le)
  then have "first_free F n i = first_free F n (i + 1)" unfolding first_free_def Bex_def by presburger
  then show ?thesis using False by simp
qed

lemma first_free_end: "F \<subseteq> {..<n} \<Longrightarrow> n \<le> i \<Longrightarrow> first_free F n i = n"
  by (auto simp: first_free_def)

lemma next_loop_first: "next_loop D i n = Some (first_free (free_slots D) n i)" if "n = 8 * length D" "i \<le> n"
  using that
proof (induction D i n rule: next_loop.induct)
  case (1 D i n)
  show ?case
  proof (cases "i < n")
    case True
    then have "i div 8 < length D" using 1(2) by auto
    then show ?thesis using True 1 free_bit [of i D] first_free_step [of "free_slots D" n i]
      by (subst next_loop.simps) simp
  next
    case False
    have "free_slots D \<subseteq> {..<n}" using 1(2) by (auto simp: free_bound)
    then show ?thesis using False first_free_end [of "free_slots D" n i] by (subst next_loop.simps) simp
  qed
qed

lemma first_free_le: "F \<subseteq> {..<n} \<Longrightarrow> first_free F n i \<le> n"
  unfolding first_free_def by (auto intro!: Least_le [THEN order_trans] dest: subsetD)

lemma first_free_0: "F \<noteq> {} \<Longrightarrow> first_free F n 0 = Inf F" "F = {} \<Longrightarrow> first_free F n 0 = n"
  by (auto simp: first_free_def Inf_nat_def)

lemma nth_bit_upd:
  fixes D :: bytes
  assumes "i div 8 < length D"
  shows "j < 8 * length D \<Longrightarrow> bit (D[i div 8 := D ! (i div 8) OR push_bit (i mod 8) 1] ! (j div 8)) (j mod 8) \<longleftrightarrow> j = i \<or> bit (D ! (j div 8)) (j mod 8)"
    "j < 8 * length D \<Longrightarrow> bit (D[i div 8 := D ! (i div 8) AND NOT (push_bit (i mod 8) 1)] ! (j div 8)) (j mod 8) \<longleftrightarrow> j \<noteq> i \<and> bit (D ! (j div 8)) (j mod 8)"
proof -
  have ji: "j = i \<longleftrightarrow> j div 8 = i div 8 \<and> j mod 8 = i mod 8" by (metis div_mult_mod_eq)
  have m: "j mod 8 < 8" "i mod 8 < 8" by simp_all
  show "j < 8 * length D \<Longrightarrow> bit (D[i div 8 := D ! (i div 8) OR push_bit (i mod 8) 1] ! (j div 8)) (j mod 8) \<longleftrightarrow> j = i \<or> bit (D ! (j div 8)) (j mod 8)"
    using assms m ji by (cases "j div 8 = i div 8") (auto simp: bit_simps nth_list_update)
  show "j < 8 * length D \<Longrightarrow> bit (D[i div 8 := D ! (i div 8) AND NOT (push_bit (i mod 8) 1)] ! (j div 8)) (j mod 8) \<longleftrightarrow> j \<noteq> i \<and> bit (D ! (j div 8)) (j mod 8)"
    using assms m ji by (cases "j div 8 = i div 8") (auto simp: bit_simps nth_list_update)
qed

lemma free_push: "i div 8 < length D \<Longrightarrow> free_slots (D[i div 8 := D ! (i div 8) OR push_bit (i mod 8) 1]) = insert i (free_slots D)"
proof -
  assume i: "i div 8 < length D"
  then have "i < 8 * length D" by auto
  then show ?thesis unfolding free_slots_def using nth_bit_upd(1) [OF i] by (intro set_eqI) (simp only: mem_Collect_eq length_list_update insert_iff, blast)
qed

lemma free_pop: "i div 8 < length D \<Longrightarrow> free_slots (D[i div 8 := D ! (i div 8) AND NOT (push_bit (i mod 8) 1)]) = free_slots D - {i}"
proof -
  assume i: "i div 8 < length D"
  show ?thesis unfolding free_slots_def using nth_bit_upd(2) [OF i] by (intro set_eqI) (simp only: mem_Collect_eq length_list_update Diff_iff singleton_iff, blast)
qed

lemma free_extend: "free_slots (D @ replicate n 255) = free_slots D \<union> {8 * length D..<8 * (length D + n)}"
proof -
  have b: "bit (255 :: byte) k" if "k < 8" for k
  proof -
    have "k \<in> {0, 1, 2, 3, 4, 5, 6, 7}" using that by auto
    then show ?thesis by auto
  qed
  have "bit ((D @ replicate n 255) ! (j div 8)) (j mod 8) \<longleftrightarrow> (if j < 8 * length D then bit (D ! (j div 8)) (j mod 8) else True)"
    if "j < 8 * (length D + n)" for j
    using that b [of "j mod 8"] by (auto simp: nth_append)
  then show ?thesis by (auto simp: free_slots_def)
qed

text \<open>What the shard relies on: taking a slot takes one that was not in use, growing the pool by eight when none is
  free, and giving a slot back frees exactly that slot.\<close>

locale slot_pool =
  fixes pop :: "'s \<Rightarrow> (nat \<times> 's) option"
    and push :: "'s \<Rightarrow> nat \<Rightarrow> 's option"
    and free :: "'s \<Rightarrow> nat set"
    and cap :: "'s \<Rightarrow> nat"
    and pool_ok :: "'s \<Rightarrow> bool"
    and limit :: nat
  assumes free_cap: "pool_ok s \<Longrightarrow> free s \<subseteq> {..<cap s}"
    and pop_free: "pool_ok s \<Longrightarrow> free s \<noteq> {} \<Longrightarrow>
          \<exists>s'. pop s = Some (Inf (free s), s') \<and> pool_ok s' \<and> free s' = free s - {Inf (free s)} \<and> cap s' = cap s"
    and pop_grow: "pool_ok s \<Longrightarrow> free s = {} \<Longrightarrow> cap s + 8 < limit \<Longrightarrow>
          \<exists>s'. pop s = Some (cap s, s') \<and> pool_ok s' \<and> free s' = {cap s <..< cap s + 8} \<and> cap s' = cap s + 8"
    and pop_cap: "pool_ok s \<Longrightarrow> free s = {} \<Longrightarrow> pop s = Some (i, s') \<Longrightarrow> cap s' = cap s + 8"
    and push_frees: "pool_ok s \<Longrightarrow> i < cap s \<Longrightarrow>
          \<exists>s'. push s i = Some s' \<and> pool_ok s' \<and> free s' = insert i (free s) \<and> cap s' = cap s"
begin

definition used :: "'s \<Rightarrow> nat set" where
  "used s = {..<cap s} - free s"

lemma pop_used:
  assumes "pool_ok s" "pop s = Some (i, s')" "cap s' < limit"
  shows "pool_ok s' \<and> i \<notin> used s \<and> used s' = insert i (used s) \<and> cap s \<le> cap s'"
proof (cases "free s = {}")
  case True
  then have "cap s + 8 < limit" using pop_cap [OF assms(1) True assms(2)] assms(3) by simp
  from pop_grow [OF assms(1) True this] show ?thesis using assms(2) True by (auto simp: used_def)
next
  case False
  then have "Inf (free s) \<in> free s" by (metis Inf_nat_def1)
  then show ?thesis using pop_free [OF assms(1) False] assms(2) free_cap [OF assms(1)] by (auto simp: used_def)
qed

lemma pop_total: "pool_ok s \<Longrightarrow> cap s + 8 < limit \<Longrightarrow> \<exists>i s'. pop s = Some (i, s')"
  using pop_free pop_grow by (cases "free s = {}") blast+

lemma push_used:
  assumes "pool_ok s" "i \<in> used s"
  shows "\<exists>s'. push s i = Some s' \<and> pool_ok s' \<and> used s' = used s - {i} \<and> cap s' = cap s"
  using push_frees [OF assms(1), of i] assms(2) by (auto simp: used_def)

end

definition slots_cap :: "slots \<Rightarrow> nat" where
  "slots_cap sl = 8 * length (sl_data sl)"

lemma slots_free_cap: "free_slots D \<subseteq> {..<8 * length D}"
  by (auto simp: free_bound)

lemma slots_next: "slots_ok sl \<Longrightarrow> start \<le> sl_size sl \<Longrightarrow> sl_next sl start = Some (first_free (free_slots (sl_data sl)) (sl_size sl) start)"
  by (simp add: sl_next_def next_loop_first slots_ok_def)

lemma first_free_remove:
  assumes "F \<subseteq> {..<n}" "h = first_free F n 0"
  shows "first_free (F - {h}) n (h + 1) = first_free (F - {h}) n 0"
proof -
  have "x \<notin> F" if "x < h" for x
  proof
    assume "x \<in> F"
    then have "h \<le> x" using assms(2) by (auto simp: first_free_def Least_le)
    then show False using that by simp
  qed
  then have "(x \<in> F - {h} \<and> h + 1 \<le> x) = (x \<in> F - {h} \<and> 0 \<le> x)" for x
    by (metis DiffE Suc_eq_plus1 Suc_leI insertI1 le0 linorder_neqE_nat)
  then show ?thesis unfolding first_free_def Bex_def by presburger
qed

text \<open>Clearing the bit of a slot and looking for the next head, on a well-formed vector.\<close>

lemma pop_tail:
  assumes "8 * length D < 2 ^ 32" "F = free_slots D" "h = first_free F (8 * length D) 0" "F \<noteq> {}"
    and that: "sl_size sl = 8 * length D"
  shows "\<exists>sl'. (let sl = sl\<lparr>sl_data := D[h div 8 := D ! (h div 8) AND NOT (push_bit (h mod 8) 1)]\<rparr> in
      case sl_next sl (to_u32 (h + 1)) of None \<Rightarrow> None | Some k \<Rightarrow> Some (h, sl\<lparr>sl_head := k\<rparr>)) = Some (h, sl') \<and>
      slots_ok sl' \<and> free_slots (sl_data sl') = F - {h} \<and> length (sl_data sl') = length D"
proof -
  have sub: "F \<subseteq> {..<8 * length D}" using assms(2) slots_free_cap by simp
  have hF: "h = Inf F" "h \<in> F" using assms(3,4) first_free_0(1) Inf_nat_def1 by metis+
  then have h: "h < 8 * length D" using sub by auto
  then have hd: "h div 8 < length D" by auto
  let ?D = "D[h div 8 := D ! (h div 8) AND NOT (push_bit (h mod 8) 1)]"
  have F': "free_slots ?D = F - {h}" using free_pop [OF hd] assms(2) by simp
  have u: "to_u32 (h + 1) = h + 1" using h assms(1) by (simp add: to_u32_def)
  have n: "sl_next (sl\<lparr>sl_data := ?D\<rparr>) (h + 1) = Some (first_free (F - {h}) (8 * length D) 0)"
    using next_loop_first [of "8 * length D" ?D "h + 1"] h that F' first_free_remove [OF sub assms(3)] by (simp add: sl_next_def)
  show ?thesis using n u F' that assms(1) by (simp add: Let_def slots_ok_def)
qed

lemma sl_pop_free:
  assumes "slots_ok sl" "free_slots (sl_data sl) \<noteq> {}"
  shows "\<exists>sl'. sl_pop sl = Some (Inf (free_slots (sl_data sl)), sl') \<and> slots_ok sl' \<and>
    free_slots (sl_data sl') = free_slots (sl_data sl) - {Inf (free_slots (sl_data sl))} \<and> slots_cap sl' = slots_cap sl"
proof -
  let ?F = "free_slots (sl_data sl)" and ?h = "sl_head sl"
  have h: "?h = first_free ?F (8 * length (sl_data sl)) 0" "sl_size sl = 8 * length (sl_data sl)" "8 * length (sl_data sl) < 2 ^ 32"
    using assms(1) by (simp_all add: slots_ok_def)
  have hi: "?h = Inf ?F" using h(1) first_free_0(1) [OF assms(2)] by simp
  then have "?h \<in> ?F" using Inf_nat_def1 [OF assms(2)] by simp
  then have lt: "?h < sl_size sl" using slots_free_cap [of "sl_data sl"] h(2) by auto
  then have "?h div 8 < length (sl_data sl)" using h(2) by auto
  then have "sl_pop sl = (let sl = sl\<lparr>sl_data := (sl_data sl)[?h div 8 := sl_data sl ! (?h div 8) AND NOT (push_bit (?h mod 8) 1)]\<rparr> in
      case sl_next sl (to_u32 (?h + 1)) of None \<Rightarrow> None | Some k \<Rightarrow> Some (?h, sl\<lparr>sl_head := k\<rparr>))"
    using lt by (simp add: sl_pop_def Let_def)
  then show ?thesis using pop_tail [OF h(3) refl h(1) assms(2) h(2)] hi by (auto simp: slots_cap_def)
qed

lemma sl_pop_grow:
  assumes "slots_ok sl" "free_slots (sl_data sl) = {}" "slots_cap sl + 8 < 2 ^ 32"
  shows "\<exists>sl'. sl_pop sl = Some (slots_cap sl, sl') \<and> slots_ok sl' \<and>
    free_slots (sl_data sl') = {slots_cap sl <..< slots_cap sl + 8} \<and> slots_cap sl' = slots_cap sl + 8"
proof -
  let ?h = "sl_head sl" and ?D = "sl_data sl @ replicate 1 255"
  have h: "sl_size sl = 8 * length (sl_data sl)" "?h = slots_cap sl"
    using assms(1,2) first_free_0(2) [OF assms(2)] by (simp_all add: slots_ok_def slots_cap_def)
  have F: "free_slots ?D = {slots_cap sl..<slots_cap sl + 8}" unfolding free_extend using assms(2) by (simp add: slots_cap_def add.commute)
  have len: "8 * length ?D = slots_cap sl + 8" by (simp add: slots_cap_def)
  have hf: "?h = first_free {slots_cap sl..<slots_cap sl + 8} (8 * length ?D) 0"
    using first_free_step [of "{slots_cap sl..<slots_cap sl + 8}"] first_free_0(1) [of "{slots_cap sl..<slots_cap sl + 8}"] h(2)
      cInf_eq_minimum [of "slots_cap sl" "{slots_cap sl..<slots_cap sl + 8}"] by simp
  have ext: "sl_extend sl 1 = sl\<lparr>sl_size := slots_cap sl + 8, sl_data := ?D\<rparr>"
    using assms(3) h(1) by (simp add: sl_extend_def to_u32_def slots_cap_def)
  have hd: "?h div 8 < length ?D" using h(2) by (simp add: slots_cap_def)
  have hs: "?h = sl_size sl" and ed: "sl_data (sl_extend sl 1) = ?D" using h ext by (simp_all add: slots_cap_def)
  have "sl_pop sl = (let sl = (sl_extend sl 1)\<lparr>sl_data := ?D[?h div 8 := ?D ! (?h div 8) AND NOT (push_bit (?h mod 8) 1)]\<rparr> in
      case sl_next sl (to_u32 (?h + 1)) of None \<Rightarrow> None | Some k \<Rightarrow> Some (?h, sl\<lparr>sl_head := k\<rparr>))"
    unfolding sl_pop_def Let_def by (simp only: hs refl if_True ed hd [unfolded hs])
  note pop = this
  have d: "{slots_cap sl..<slots_cap sl + 8} - {slots_cap sl} = {slots_cap sl <..< slots_cap sl + 8}" by auto
  have "8 * length ?D < 2 ^ 32" "{slots_cap sl..<slots_cap sl + 8} \<noteq> {}" "sl_size (sl_extend sl 1) = 8 * length ?D"
    unfolding len using assms(3) ext by simp_all
  from pop_tail [OF this(1) F [symmetric] hf this(2,3)] obtain sl' where
    "sl_pop sl = Some (?h, sl')" "slots_ok sl'" "free_slots (sl_data sl') = {slots_cap sl..<slots_cap sl + 8} - {?h}" "length (sl_data sl') = length ?D"
    unfolding pop by (elim exE conjE)
  then show ?thesis using d h(2) len by (intro exI [of _ sl']) (simp add: slots_cap_def)
qed

lemma sl_push_ok:
  assumes "slots_ok sl" "i < slots_cap sl"
  shows "\<exists>sl'. sl_push sl i = Some sl' \<and> slots_ok sl' \<and> free_slots (sl_data sl') = insert i (free_slots (sl_data sl)) \<and> slots_cap sl' = slots_cap sl"
proof -
  let ?D = "sl_data sl" and ?F = "free_slots (sl_data sl)"
  have i: "i div 8 < length ?D" using assms(2) by (auto simp: slots_cap_def)
  have head: "first_free (insert i ?F) n 0 = min (sl_head sl) i" if "n = 8 * length ?D" for n
  proof (cases "?F = {}")
    case True
    then show ?thesis using assms that by (simp add: slots_ok_def first_free_0 slots_cap_def)
  next
    case False
    then have "Inf (insert i ?F) = min i (Inf ?F)" by (simp add: cInf_insert_If inf_min)
    then show ?thesis using assms(1) False by (simp add: slots_ok_def first_free_0 min.commute)
  qed
  show ?thesis using assms(1) i free_push [OF i] head
    by (auto simp: sl_push_def Let_def slots_ok_def slots_cap_def min_def simp del: push_bit_of_1)
qed

lemma sl_pop_cap: "slots_ok sl \<Longrightarrow> free_slots (sl_data sl) = {} \<Longrightarrow> sl_pop sl = Some (i, sl') \<Longrightarrow> slots_cap sl' = slots_cap sl + 8"
  using first_free_0(2) [of "free_slots (sl_data sl)" "sl_size sl"]
  by (auto simp: sl_pop_def Let_def slots_cap_def slots_ok_def sl_extend_def split: if_splits option.splits)

interpretation pool: slot_pool sl_pop sl_push "\<lambda>sl. free_slots (sl_data sl)" slots_cap slots_ok "2 ^ 32"
  using slots_free_cap sl_pop_free sl_pop_grow sl_pop_cap sl_push_ok
  by unfold_locales (simp_all add: slots_cap_def)

section \<open>Files\<close>

lemma length_WriteAt: "b \<noteq> [] \<Longrightarrow> length (file_WriteAt f b off) = max (length f) (off + length b)"
  by (auto simp: file_WriteAt_def)

lemma nth_WriteAt:
  "b \<noteq> [] \<Longrightarrow> j < length (file_WriteAt f b off) \<Longrightarrow> file_WriteAt f b off ! j =
     (if off \<le> j \<and> j < off + length b then b ! (j - off) else if j < length f then f ! j else 0)"
  by (auto simp: file_WriteAt_def nth_append min_def split: if_splits)

lemma read_back: "file_ReadAt (file_WriteAt f b off) (length b) off = Some b"
proof (cases "b = []")
  case False
  then have len: "off + length b \<le> length (file_WriteAt f b off)" by (simp add: length_WriteAt)
  then have "take (length b) (drop off (file_WriteAt f b off)) = b"
    using False by (intro nth_equalityI) (auto simp: nth_WriteAt)
  then show ?thesis using len by (simp add: file_ReadAt_def)
qed (simp add: file_ReadAt_def)

lemma read_elsewhere:
  assumes "file_ReadAt f n o' = Some x" "o' + n \<le> off \<or> off + length b \<le> o'"
  shows "file_ReadAt (file_WriteAt f b off) n o' = Some x"
proof (cases "n = 0 \<or> b = []")
  case False
  then have r: "o' + n \<le> length f" "x = take n (drop o' f)" using assms(1) by (auto simp: file_ReadAt_def split: if_splits)
  have len: "o' + n \<le> length (file_WriteAt f b off)" using r(1) False by (simp add: length_WriteAt)
  have "take n (drop o' (file_WriteAt f b off)) = take n (drop o' f)"
    using r(1) len False assms(2) by (intro nth_equalityI) (auto simp: nth_WriteAt)
  then show ?thesis using len r(2) False by (simp add: file_ReadAt_def)
qed (use assms in \<open>auto simp: file_ReadAt_def file_WriteAt_def split: if_splits\<close>)

lemma slots_apart: "i \<noteq> j \<Longrightarrow> m \<le> d \<Longrightarrow> n \<le> d \<Longrightarrow> i * d + n \<le> j * d \<or> j * d + m \<le> i * (d :: nat)"
proof -
  assume *: "i \<noteq> j" "m \<le> d" "n \<le> d"
  have "a * d + k \<le> c * d" if "a < c" "k \<le> d" for a c k :: nat
  proof -
    have "a * d + d \<le> c * d" using that(1) mult_le_mono1 [of "a + 1" c d] by simp
    then show ?thesis using that(2) by linarith
  qed
  then show ?thesis using * by (cases "i < j") auto
qed

section \<open>The invariant of a shard\<close>

definition held :: "shard \<Rightarrow> nat list" where
  "held sh = (case ss_pending sh of None \<Rightarrow> [] | Some i \<Rightarrow> [i]) @ (case ss_slot sh of None \<Rightarrow> [] | Some i \<Rightarrow> [i]) @
     (case ss_limbo sh of None \<Rightarrow> [] | Some i \<Rightarrow> [i])"

text \<open>Every slot that is not free is held by a goroutine, holds a blob, or is lost, and only one of these.\<close>

definition slots_owned :: "shard_conf \<Rightarrow> bool" where
  "slots_owned c \<longleftrightarrow> (case c of (sh, L, X) \<Rightarrow> slots_ok (ss_slots sh) \<and>
     pool.used (ss_slots sh) = set (held sh) \<union> dom L \<union> X \<and> distinct (held sh) \<and>
     set (held sh) \<inter> (dom L \<union> X) = {} \<and> dom L \<inter> X = {})"

definition blobs_stored :: "shard_conf \<Rightarrow> bool" where
  "blobs_stored c \<longleftrightarrow> (case c of (sh, L, X) \<Rightarrow>
     \<forall>i b. L i = Some b \<longrightarrow> length b \<le> ss_maxDataSize sh \<and> sh_read sh (length b) i = Some b)"

definition phases_ok :: "shard \<Rightarrow> bool" where
  "phases_ok sh \<longleftrightarrow> (ss_running sh \<longrightarrow> ss_limbo sh = None \<and> ss_mode sh = Serving) \<and> (\<not> ss_running sh \<longrightarrow> ss_slot sh = None) \<and>
     (ss_mode sh \<noteq> Serving \<longrightarrow> ss_pending sh = None) \<and> (ss_mode sh = Ended \<longrightarrow> ss_limbo sh = None)"

definition shard_inv :: "shard_conf \<Rightarrow> bool" where
  "shard_inv c \<longleftrightarrow> slots_owned c \<and> blobs_stored c \<and> phases_ok (fst c)"

lemma blobs_same:
  "ss_file sh' = ss_file sh \<Longrightarrow> ss_maxDataSize sh' = ss_maxDataSize sh \<Longrightarrow> blobs_stored (sh, L, X) \<Longrightarrow> L' \<subseteq>\<^sub>m L \<Longrightarrow> blobs_stored (sh', L', X')"
  by (auto simp: blobs_stored_def sh_read_def sh_offset_def map_le_def dom_def)

lemma blobs_write:
  assumes "blobs_stored (sh, L, X)" "L i = None" "length buf \<le> ss_maxDataSize sh" "sh_write sh buf i w = (e, sh')"
  shows "blobs_stored (sh'\<lparr>ss_slot := x\<rparr>, L, X')" "w = None \<Longrightarrow> blobs_stored (sh'\<lparr>ss_slot := x\<rparr>, L(i \<mapsto> buf), X')"
proof -
  let ?n = "case w of None \<Rightarrow> length buf | Some k \<Rightarrow> min k (length buf)"
  have sh': "sh' = sh\<lparr>ss_file := file_WriteAt (ss_file sh) (take ?n buf) (sh_offset sh i)\<rparr>"
    using assms(4) by (simp add: sh_write_def Let_def)
  have n: "length (take ?n buf) \<le> ss_maxDataSize sh" using assms(3) by simp
  have old: "sh_read sh' (length b) j = Some b" if "L j = Some b" for j b
  proof -
    have "j \<noteq> i" "length b \<le> ss_maxDataSize sh" "sh_read sh (length b) j = Some b"
      using that assms(1,2) by (auto simp: blobs_stored_def)
    then show ?thesis unfolding sh' using read_elsewhere [OF _ slots_apart [OF _ n], of "ss_file sh" "length b" j b i] n
      by (simp add: sh_read_def sh_offset_def)
  qed
  then show st: "blobs_stored (sh'\<lparr>ss_slot := x\<rparr>, L, X')"
    using assms(1) by (auto simp: blobs_stored_def sh' sh_read_def sh_offset_def)
  show "blobs_stored (sh'\<lparr>ss_slot := x\<rparr>, L(i \<mapsto> buf), X')" if "w = None"
    using st assms(3) that read_back [of "ss_file sh" buf]
    by (auto simp: blobs_stored_def sh' sh_read_def sh_offset_def)
qed

lemma push_owned:
  assumes "slots_ok (ss_slots sh)" "i \<in> pool.used (ss_slots sh)" "sp_push sh i = Some sh'"
  obtains sl where "sh' = sh\<lparr>ss_slots := sl\<rparr>" "slots_ok sl" "pool.used sl = pool.used (ss_slots sh) - {i}"
    "slots_cap sl = slots_cap (ss_slots sh)"
  using pool.push_used [OF assms(1,2)] assms(3) that by (auto simp: sp_push_def)

lemma push_possible: "slots_owned (sh, L, X) \<Longrightarrow> i \<in> set (held sh) \<union> dom L \<Longrightarrow> sp_push sh i \<noteq> None"
  using pool.push_used [of "ss_slots sh" i] by (auto simp: slots_owned_def sp_push_def)

lemma held_cases:
  "ss_pending sh = Some i \<Longrightarrow> i \<in> set (held sh)" "ss_slot sh = Some i \<Longrightarrow> i \<in> set (held sh)" "ss_limbo sh = Some i \<Longrightarrow> i \<in> set (held sh)"
  by (auto simp: held_def)

text \<open>Each kind of step keeps the ownership of the slots.\<close>

lemma owned_pop:
  assumes "slots_owned (sh, L, X)" "ss_pending sh = None" "sp_pop sh = Some sh'" "slots_cap (ss_slots sh') < 2 ^ 32"
  shows "slots_owned (sh', L, X)"
proof -
  from assms(3) obtain h sl where p: "sl_pop (ss_slots sh) = Some (h, sl)" "sh' = sh\<lparr>ss_slots := sl, ss_pending := Some h\<rparr>"
    by (auto simp: sp_pop_def)
  have "slots_ok (ss_slots sh)" using assms(1) by (simp add: slots_owned_def)
  from pool.pop_used [OF this p(1)] assms(4) p(2)
  have u: "slots_ok sl" "h \<notin> pool.used (ss_slots sh)" "pool.used sl = insert h (pool.used (ss_slots sh))" by simp_all
  have hd: "held sh' = h # held sh" using assms(2) p(2) by (simp add: held_def)
  have sl: "ss_slots sh' = sl" using p(2) by simp
  show ?thesis using assms(1) u unfolding slots_owned_def prod.case hd sl by auto
qed

lemma owned_moved:
  assumes "slots_owned (sh, L, X)" "ss_slots sh' = ss_slots sh" "mset (held sh') = mset (held sh)"
  shows "slots_owned (sh', L, X)"
proof -
  have "set (held sh') = set (held sh)" "distinct (held sh') = distinct (held sh)"
    using mset_eq_setD [OF assms(3)] mset_eq_imp_distinct_iff [OF assms(3)] by simp_all
  then show ?thesis using assms(1,2) by (simp add: slots_owned_def)
qed

lemma owned_given:
  assumes "slots_owned (sh, L, X)" "ss_slots sh' = ss_slots sh" "mset (held sh) = add_mset i (mset (held sh'))"
  shows "slots_owned (sh', L(i \<mapsto> b), X)" "slots_owned (sh', L, insert i X)"
proof -
  have d: "distinct (held sh) \<longleftrightarrow> i \<notin> set (held sh') \<and> distinct (held sh')" "set (held sh) = insert i (set (held sh'))"
    using mset_eq_imp_distinct_iff [of "held sh" "i # held sh'"] mset_eq_setD [of "held sh" "i # held sh'"] assms(3) by simp_all
  show "slots_owned (sh', L(i \<mapsto> b), X)" "slots_owned (sh', L, insert i X)"
    using assms(1,2) d by (auto simp: slots_owned_def)
qed

lemma owned_released:
  assumes "slots_owned (sh, L, X)" "L i = Some b" "sp_push sh i = Some sh'"
  shows "slots_owned (sh', L(i := None), X)"
proof -
  have "slots_ok (ss_slots sh)" "i \<in> pool.used (ss_slots sh)" using assms(1,2) by (auto simp: slots_owned_def)
  from push_owned [OF this assms(3)] obtain sl where sl: "sh' = sh\<lparr>ss_slots := sl\<rparr>" "slots_ok sl" "pool.used sl = pool.used (ss_slots sh) - {i}" .
  have "held sh' = held sh" using sl(1) by (simp add: held_def)
  moreover have "i \<in> dom L" using assms(2) by blast
  ultimately show ?thesis using assms(1) sl by (auto simp: slots_owned_def)
qed

lemma owned_returned:
  assumes "slots_owned (sh, L, X)" "sp_push sh i = Some t" "ss_slots sh' = ss_slots t" "mset (held sh) = add_mset i (mset (held sh'))"
  shows "slots_owned (sh', L, X)"
proof -
  have d: "distinct (held sh) \<longleftrightarrow> i \<notin> set (held sh') \<and> distinct (held sh')" "set (held sh) = insert i (set (held sh'))"
    using mset_eq_imp_distinct_iff [of "held sh" "i # held sh'"] mset_eq_setD [of "held sh" "i # held sh'"] assms(4) by simp_all
  have "slots_ok (ss_slots sh)" "i \<in> pool.used (ss_slots sh)" using assms(1) d by (auto simp: slots_owned_def)
  from push_owned [OF this assms(2)] obtain sl where sl: "t = sh\<lparr>ss_slots := sl\<rparr>" "slots_ok sl" "pool.used sl = pool.used (ss_slots sh) - {i}" .
  then show ?thesis using assms(1,3) d by (auto simp: slots_owned_def)
qed

definition conf_cap :: "shard_conf \<Rightarrow> nat" where
  "conf_cap c = slots_cap (ss_slots (fst c))"

lemma write_frame: "sh_write sh buf i w = (e, sh') \<Longrightarrow> \<exists>f. sh' = sh\<lparr>ss_file := f\<rparr>"
  by (auto simp: sh_write_def Let_def)

lemma push_frame: "sp_push sh i = Some sh' \<Longrightarrow> \<exists>sl. sh' = sh\<lparr>ss_slots := sl\<rparr> \<and> slots_cap sl = slots_cap (ss_slots sh)"
  by (auto simp: sp_push_def sl_push_def Let_def slots_cap_def split: if_splits)

lemma pop_frame: "sp_pop sh = Some sh' \<Longrightarrow> \<exists>sl h. sh' = sh\<lparr>ss_slots := sl, ss_pending := Some h\<rparr> \<and> slots_cap (ss_slots sh) \<le> slots_cap sl"
  by (auto simp: sp_pop_def sl_pop_def Let_def slots_cap_def sl_extend_def split: if_splits option.splits)

lemma quit_frame: "sp_quit sh = Some sh' \<Longrightarrow> \<exists>sl. sh' = sh\<lparr>ss_slots := sl, ss_pending := None, ss_mode := Draining\<rparr> \<and> slots_cap sl = slots_cap (ss_slots sh)"
proof (cases "ss_pending sh")
  case None
  moreover assume "sp_quit sh = Some sh'"
  ultimately show ?thesis by (intro exI [of _ "ss_slots sh"]) (cases sh, simp add: sp_quit_def)
qed (auto simp: sp_quit_def dest!: push_frame)

lemma step_cap: "sh_step c d \<Longrightarrow> conf_cap c \<le> conf_cap d"
  by (induction rule: sh_step.induct)
    (auto simp: conf_cap_def sh_return_def dest!: write_frame push_frame pop_frame quit_frame)

lemma step_phases: "sh_step c d \<Longrightarrow> phases_ok (fst c) \<Longrightarrow> phases_ok (fst d)"
  by (induction rule: sh_step.induct)
    (auto simp: phases_ok_def sh_return_def dest!: write_frame push_frame pop_frame quit_frame)

lemma step_owned: "sh_step c d \<Longrightarrow> slots_owned c \<Longrightarrow> phases_ok (fst c) \<Longrightarrow> conf_cap d < 2 ^ 32 \<Longrightarrow> slots_owned d"
proof (induction rule: sh_step.induct)
  case (slot_pop sh sh' L X)
  then show ?case using owned_pop by (simp add: conf_cap_def)
next
  case (slot_offer sh i L X)
  show ?case by (rule owned_moved [OF slot_offer(4)]) (use slot_offer in \<open>simp_all add: held_def\<close>)
next
  case (write_done sh i buf e sh' L X)
  then show ?case by (intro owned_given(1) [of sh]) (auto dest!: write_frame simp: held_def split: option.splits)
next
  case (write_lost sh i buf written e sh' L X)
  then show ?case by (intro owned_given(2) [of sh]) (auto dest!: write_frame simp: held_def split: option.splits)
next
  case (slot_release L i b sh sh' X)
  then show ?case using owned_released by blast
next
  case (loop_returns sh L X)
  show ?case by (rule owned_moved [OF loop_returns(2)])
    (use loop_returns in \<open>auto simp: held_def sh_return_def phases_ok_def split: option.splits\<close>)
next
  case (loop_quit sh sh' L X)
  show ?case
  proof (cases "ss_pending sh")
    case None
    then have "sh' = sh\<lparr>ss_mode := Draining\<rparr>" using loop_quit(3) by (simp add: sp_quit_def)
    then show ?thesis using owned_moved [OF loop_quit(4)] by (simp add: held_def)
  next
    case (Some i)
    then obtain t where t: "sp_push sh i = Some t" "sh' = t\<lparr>ss_pending := None, ss_mode := Draining\<rparr>"
      using loop_quit(3) by (auto simp: sp_quit_def)
    show ?thesis by (rule owned_returned [OF loop_quit(4) t(1)]) (use t push_frame [OF t(1)] Some in \<open>auto simp: held_def\<close>)
  qed
next
  case (limbo_back sh i sh' L X)
  show ?case by (rule owned_returned [OF limbo_back(4,3)]) (use limbo_back push_frame [OF limbo_back(3)] in \<open>auto simp: held_def\<close>)
next
  case (chan_close sh L X)
  show ?case by (rule owned_moved [OF chan_close(3)]) (simp_all add: held_def)
qed

lemma step_blobs: "sh_step c d \<Longrightarrow> slots_owned c \<Longrightarrow> blobs_stored c \<Longrightarrow> blobs_stored d"
proof (induction rule: sh_step.induct)
  case (write_done sh i buf e sh' L X)
  have "L i = None" using write_done(5) held_cases(2) [OF write_done(2)] by (auto simp: slots_owned_def)
  then show ?case using blobs_write(2) [OF write_done(6) _ _ write_done(4)] write_done(3) by (simp add: sharky_Write_accepts_def)
next
  case (write_lost sh i buf written e sh' L X)
  have "L i = None" using write_lost(5) held_cases(2) [OF write_lost(2)] by (auto simp: slots_owned_def)
  then show ?case using blobs_write(1) [OF write_lost(6) _ _ write_lost(4)] write_lost(3) by (simp add: sharky_Write_accepts_def)
next
  case (slot_pop sh sh' L X)
  then show ?case using pop_frame [OF slot_pop(3)] by (auto intro!: blobs_same [OF _ _ slot_pop(5)])
next
  case (slot_release L i b sh sh' X)
  then show ?case using push_frame [OF slot_release(3)] by (auto intro!: blobs_same [OF _ _ slot_release(5)] simp: map_le_def)
next
  case (loop_quit sh sh' L X)
  then show ?case using quit_frame [OF loop_quit(3)] by (auto intro!: blobs_same [OF _ _ loop_quit(5)])
next
  case (limbo_back sh i sh' L X)
  then show ?case using push_frame [OF limbo_back(3)] by (auto intro!: blobs_same [OF _ _ limbo_back(5)])
next
  case (slot_offer sh i L X)
  then show ?case by (intro blobs_same [OF _ _ slot_offer(5)]) simp_all
next
  case (loop_returns sh L X)
  then show ?case by (intro blobs_same [OF _ _ loop_returns(3)]) (simp_all add: sh_return_def)
next
  case (chan_close sh L X)
  then show ?case by (intro blobs_same [OF _ _ chan_close(4)]) simp_all
qed

lemma step_inv: "sh_step c d \<Longrightarrow> shard_inv c \<Longrightarrow> conf_cap d < 2 ^ 32 \<Longrightarrow> shard_inv d"
  using step_owned step_blobs step_phases by (simp add: shard_inv_def)

section \<open>The store\<close>

definition conf_const :: "shard_conf \<Rightarrow> byte \<times> nat" where
  "conf_const c = (ss_index (fst c), ss_maxDataSize (fst c))"

lemma step_const: "sh_step c d \<Longrightarrow> conf_const d = conf_const c"
  by (induction rule: sh_step.induct)
    (auto simp: conf_const_def sh_return_def dest!: write_frame push_frame pop_frame quit_frame)

definition store_inv :: "nat \<Rightarrow> shard_conf list \<Rightarrow> bool" where
  "store_inv d xs \<longleftrightarrow> (\<forall>k < length xs. shard_inv (xs ! k) \<and> conf_const (xs ! k) = (of_nat k, d))"

definition store_small :: "shard_conf list \<Rightarrow> bool" where
  "store_small xs \<longleftrightarrow> (\<forall>c \<in> set xs. conf_cap c < 2 ^ 32)"

lemma store_step_small: "store_step xs ys \<Longrightarrow> store_small ys \<Longrightarrow> store_small xs"
  unfolding store_step_def store_small_def
proof (elim exE conjE, intro ballI)
  fix k c x assume k: "k < length xs" "sh_step (xs ! k) c" "ys = xs[k := c]" and small: "\<forall>c \<in> set ys. conf_cap c < 2 ^ 32" and x: "x \<in> set xs"
  from x obtain j where j: "j < length xs" "x = xs ! j" by (auto simp: in_set_conv_nth)
  then have "conf_cap (ys ! j) < 2 ^ 32" using small k(3) by simp
  then show "conf_cap x < 2 ^ 32" using j k step_cap [OF k(2)] by (cases "j = k") auto
qed

lemma store_step_inv: "store_step xs ys \<Longrightarrow> store_inv d xs \<Longrightarrow> store_small ys \<Longrightarrow> store_inv d ys"
  unfolding store_step_def
proof (elim exE conjE)
  fix k c assume k: "k < length xs" "sh_step (xs ! k) c" "ys = xs[k := c]" and inv: "store_inv d xs" and small: "store_small ys"
  have "c \<in> set ys" using set_update_memI [OF k(1), of c] k(3) by simp
  then have "conf_cap c < 2 ^ 32" using small by (simp add: store_small_def)
  moreover have "shard_inv (xs ! k)" using inv k(1) by (simp add: store_inv_def)
  ultimately have "shard_inv c" using step_inv [OF k(2)] by blast
  moreover have "conf_const c = conf_const (xs ! k)" by (rule step_const [OF k(2)])
  ultimately show ?thesis using inv k(1) unfolding store_inv_def k(3) by (simp add: nth_list_update)
qed

lemma store_reachable:
  assumes "store_step\<^sup>*\<^sup>* xs ys" "store_inv d xs" "store_small ys"
  shows "store_inv d ys \<and> length ys = length xs"
  using assms
proof (induction rule: rtranclp_induct)
  case (step y z)
  then have "store_inv d y \<and> length y = length xs" using store_step_small [OF step(2)] by blast
  moreover have "length z = length y" using step(2) by (auto simp: store_step_def)
  ultimately show ?case using store_step_inv [OF step(2) _ step(5)] by simp
qed simp

text \<open>A store opened on empty files.\<close>

definition opened :: "shard list \<Rightarrow> shard_conf list" where
  "opened shards = map (\<lambda>sh. (sh, Map.empty, {})) shards"

lemma load_ok:
  assumes "8 * length D < 2 ^ 32"
  shows "\<exists>sl. sl_load (Some D) = Some (Some sl) \<and> slots_ok sl \<and> sl_data sl = D"
  using next_loop_first [of "8 * length D" D 0] assms
  by (simp add: sl_load_def Let_def sl_next_def slots_ok_def to_u32_def mult.commute)

lemma create_ok:
  assumes "8 * length D < 2 ^ 32"
  obtains sh where "sharky_create i d (Some f) (Some D) = Some (Some sh)" "slots_ok (ss_slots sh)" "sl_data (ss_slots sh) = D"
    "ss_index sh = i" "ss_maxDataSize sh = d" "ss_file sh = f" "held sh = []" "phases_ok sh"
proof -
  from load_ok [OF assms] obtain sl where sl: "sl_load (Some D) = Some (Some sl)" "slots_ok sl" "sl_data sl = D" by blast
  show thesis by (rule that [of "\<lparr>ss_index = i, ss_maxDataSize = d, ss_file = f, ss_slots = sl,
        ss_pending = None, ss_mode = Serving, ss_running = True, ss_slot = None, ss_limbo = None\<rparr>"])
      (simp_all add: sharky_create_def held_def phases_ok_def sl)
qed

lemma New_empty:
  "sharky_New d (replicate n (Some [], Some [])) j = Some (Some shards) \<Longrightarrow>
     length shards = n \<and> (\<forall>k < n. shard_inv (shards ! k, Map.empty, {}) \<and> conf_const (shards ! k, Map.empty, {}) = (of_nat (j + k), d))"
proof (induction n arbitrary: j shards)
  case (Suc n)
  obtain sh where sh: "sharky_create (of_nat j) d (Some []) (Some []) = Some (Some sh)" "slots_ok (ss_slots sh)" "sl_data (ss_slots sh) = []"
      "ss_index sh = of_nat j" "ss_maxDataSize sh = d" "held sh = []" "phases_ok sh"
    using create_ok [of "[]" "of_nat j" d "[]"] by auto
  obtain rest where r: "sharky_New d (replicate n (Some [], Some [])) (j + 1) = Some (Some rest)" "shards = sh # rest"
    using Suc.prems sh(1) by auto
  have "shard_inv (sh, Map.empty, {})"
    using sh by (simp add: shard_inv_def slots_owned_def blobs_stored_def pool.used_def slots_cap_def)
  then show ?case using Suc.IH [OF r(1)] sh(4,5) r(2) by (auto simp: nth_Cons conf_const_def split: nat.split)
qed simp

lemma opened_inv:
  assumes "sharky_New d (replicate n (Some [], Some [])) 0 = Some (Some shards)"
  shows "store_inv d (opened shards) \<and> length shards = n"
  using New_empty [OF assms] by (simp add: store_inv_def opened_def)

lemma free_zeros: "free_slots (D @ replicate n 0) = free_slots D"
proof -
  have "bit ((D @ replicate n 0) ! (j div 8)) (j mod 8) \<longleftrightarrow> j < 8 * length D \<and> bit (D ! (j div 8)) (j mod 8)"
    if "j < 8 * (length D + n)" for j
  proof (cases "j < 8 * length D")
    case True
    then show ?thesis by (simp add: nth_append div_less_iff_less_mult mult.commute)
  next
    case False
    then have "\<not> j div 8 < length D" "j div 8 - length D < n" using that by auto
    then show ?thesis using False by (simp add: nth_append)
  qed
  then show ?thesis by (auto simp: free_slots_def)
qed

lemma free_invert: "free_slots (map (\<lambda>b. b XOR 255) D) = {..<8 * length D} - free_slots D"
proof -
  have b: "bit (255 :: byte) k" if "k < 8" for k
  proof -
    have "k \<in> {0, 1, 2, 3, 4, 5, 6, 7}" using that by auto
    then show ?thesis by auto
  qed
  have "bit (map (\<lambda>b. b XOR 255) D ! (j div 8)) (j mod 8) \<longleftrightarrow> \<not> bit (D ! (j div 8)) (j mod 8)" if "j < 8 * length D" for j
    using that b [of "j mod 8"] by (auto simp: bit_simps)
  then show ?thesis by (auto simp: free_slots_def)
qed

section \<open>Recovery\<close>

lemma push_data: "i div 8 < length (sl_data sl) \<Longrightarrow> \<exists>sl'. sl_push sl i = Some sl' \<and> free_slots (sl_data sl') = insert i (free_slots (sl_data sl)) \<and>
    length (sl_data sl') = length (sl_data sl)"
  using free_push [of i "sl_data sl"] by (auto simp: sl_push_def Let_def simp del: push_bit_of_1)

lemma mark_slots:
  "\<exists>sl'. recovery_mark sl i = Some sl' \<and> free_slots (sl_data sl') = insert i (free_slots (sl_data sl)) \<and>
     length (sl_data sl') = max (length (sl_data sl)) (i div 8 + 1)"
proof (cases "length (sl_data sl) \<le> i div 8")
  case True
  let ?D = "sl_data sl @ replicate (i div 8 - length (sl_data sl) + 1) 0"
  have i: "i div 8 < length ?D" using True by simp
  have "recovery_mark sl i = sl_push ((sl_extend sl (i div 8 - length (sl_data sl) + 1))\<lparr>sl_data := ?D\<rparr>) i"
    using True by (simp add: recovery_mark_def Let_def sl_extend_def)
  moreover have "max (length (sl_data sl)) (i div 8 + 1) = length ?D" using True by simp
  ultimately show ?thesis using push_data [of i "(sl_extend sl (i div 8 - length (sl_data sl) + 1))\<lparr>sl_data := ?D\<rparr>"] i free_zeros [of "sl_data sl"]
    by (simp del: replicate_Suc)
next
  case False
  then have i: "i div 8 < length (sl_data sl)" by simp
  then show ?thesis using False push_data [OF i] by (simp add: recovery_mark_def Let_def)
qed

text \<open>Adding a list of locations; \<open>None\<close> when one panics.\<close>

fun recovery_AddAll :: "recovery \<Rightarrow> Location list \<Rightarrow> recovery option" where
  "recovery_AddAll r [] = Some r"
| "recovery_AddAll r (l # ls) = Option.bind (recovery_Add r l) (\<lambda>r. recovery_AddAll r ls)"

lemma AddAll_slots:
  assumes "\<forall>l \<in> set ls. unat (lo_Shard l) < length (rc_shards r)"
  shows "\<exists>r'. recovery_AddAll r ls = Some r' \<and> length (rc_shards r') = length (rc_shards r) \<and>
    (\<forall>k < length (rc_shards r). free_slots (sl_data (rc_shards r' ! k)) =
        free_slots (sl_data (rc_shards r ! k)) \<union> {lo_Slot l | l. l \<in> set ls \<and> unat (lo_Shard l) = k} \<and>
      length (sl_data (rc_shards r ! k)) \<le> length (sl_data (rc_shards r' ! k)))"
  using assms
proof (induction ls arbitrary: r)
  case (Cons l ls)
  let ?k = "unat (lo_Shard l)"
  have k: "?k < length (rc_shards r)" using Cons.prems by simp
  from mark_slots [of "rc_shards r ! ?k" "lo_Slot l"] obtain sl where
    sl: "recovery_mark (rc_shards r ! ?k) (lo_Slot l) = Some sl" "free_slots (sl_data sl) = insert (lo_Slot l) (free_slots (sl_data (rc_shards r ! ?k)))"
      "length (sl_data (rc_shards r ! ?k)) \<le> length (sl_data sl)" by auto
  let ?r = "r\<lparr>rc_shards := (rc_shards r)[?k := sl]\<rparr>"
  have add: "recovery_Add r l = Some ?r" using k sl(1) by (simp add: recovery_Add_def Let_def)
  from Cons.IH [of ?r] Cons.prems obtain r' where
    r': "recovery_AddAll ?r ls = Some r'" "length (rc_shards r') = length (rc_shards r)"
      "\<And>j. j < length (rc_shards r) \<Longrightarrow> free_slots (sl_data (rc_shards r' ! j)) =
         free_slots (sl_data (rc_shards ?r ! j)) \<union> {lo_Slot l | l. l \<in> set ls \<and> unat (lo_Shard l) = j}"
      "\<And>j. j < length (rc_shards r) \<Longrightarrow> length (sl_data (rc_shards ?r ! j)) \<le> length (sl_data (rc_shards r' ! j))" by auto
  have "free_slots (sl_data (rc_shards r' ! j)) = free_slots (sl_data (rc_shards r ! j)) \<union> {lo_Slot m | m. m \<in> set (l # ls) \<and> unat (lo_Shard m) = j}"
    if "j < length (rc_shards r)" for j
    using r'(3) [OF that] sl(2) k by (cases "j = ?k") (auto simp: nth_list_update)
  moreover have "length (sl_data (rc_shards r ! j)) \<le> length (sl_data (rc_shards r' ! j))" if "j < length (rc_shards r)" for j
    using r'(4) [OF that] sl(3) k by (cases "j = ?k") auto
  ultimately show ?case using add r'(1,2) by (intro exI [of _ r']) simp
qed auto

section \<open>An example\<close>

text \<open>One shard of a store with blobs of at most four bytes: a slot is taken, a blob of two bytes is written, the store is closed.\<close>

definition demo_sh0 :: shard where
  "demo_sh0 = \<lparr>ss_index = 0, ss_maxDataSize = 4, ss_file = [], ss_slots = \<lparr>sl_data = [], sl_size = 0, sl_head = 0\<rparr>,
     ss_pending = None, ss_mode = Serving, ss_running = True, ss_slot = None, ss_limbo = None\<rparr>"

definition demo_sh1 :: shard where
  "demo_sh1 = demo_sh0\<lparr>ss_slots := \<lparr>sl_data = [254], sl_size = 8, sl_head = 1\<rparr>, ss_pending := Some 0\<rparr>"

definition demo_sh2 :: shard where
  "demo_sh2 = demo_sh1\<lparr>ss_pending := None, ss_slot := Some 0\<rparr>"

definition demo_sh3 :: shard where
  "demo_sh3 = (snd (sh_write demo_sh2 [1, 2] 0 None))\<lparr>ss_slot := None\<rparr>"

definition demo_sh4 :: shard where
  "demo_sh4 = sh_return demo_sh3"

definition demo_sh5 :: shard where
  "demo_sh5 = demo_sh4\<lparr>ss_mode := Draining\<rparr>"

definition demo_blobs :: "nat \<rightharpoonup> bytes" where
  "demo_blobs = [0 \<mapsto> [1, 2]]"

lemmas demo_defs = demo_sh0_def demo_sh1_def demo_sh2_def demo_sh3_def demo_sh4_def demo_sh5_def demo_blobs_def
  sh_write_def sh_return_def sh_offset_def file_WriteAt_def Let_def

lemma demo_next: "next_loop [254] (Suc 0) 8 = Some (Suc 0)"
  by (simp add: next_loop.simps)

lemma demo_pop: "sp_pop demo_sh0 = Some demo_sh1"
  by (simp add: sp_pop_def sl_pop_def sl_extend_def sl_next_def to_u32_def demo_next demo_defs)

lemma demo_quit: "sp_quit demo_sh4 = Some demo_sh5" and demo_stopped: "\<not> ss_running demo_sh4" "ss_mode demo_sh4 = Serving"
  by (simp_all add: sp_quit_def demo_defs)

lemma demo_write: "sh_step\<^sup>*\<^sup>* (demo_sh0, Map.empty, {}) (demo_sh3, demo_blobs, {})"
proof -
  have 1: "sh_step (demo_sh0, Map.empty, {}) (demo_sh1, Map.empty, {})"
    by (rule sh_step.slot_pop [OF _ _ demo_pop]) (simp_all add: demo_defs)
  have 2: "sh_step (demo_sh1, Map.empty, {}) (demo_sh2, Map.empty, {})"
    unfolding demo_sh2_def by (rule sh_step.slot_offer) (simp_all add: demo_defs)
  have 3: "sh_step (demo_sh2, Map.empty, {}) (demo_sh3, demo_blobs, {})"
    unfolding demo_sh3_def demo_blobs_def by (rule sh_step.write_done [OF _ _ _ prod.collapse [symmetric]])
      (simp_all add: demo_defs sharky_Write_accepts_def)
  show ?thesis using 1 2 3 by (rule converse_rtranclp_into_rtranclp [OF _ converse_rtranclp_into_rtranclp [OF _ r_into_rtranclp]])
qed

lemma demo_closed: "sh_step\<^sup>*\<^sup>* (demo_sh0, Map.empty, {}) (demo_sh5\<lparr>ss_mode := Ended\<rparr>, demo_blobs, {})"
proof -
  have 1: "sh_step (demo_sh3, demo_blobs, {}) (demo_sh4, demo_blobs, {})"
    unfolding demo_sh4_def by (rule sh_step.loop_returns) (simp add: demo_defs)
  have 2: "sh_step (demo_sh4, demo_blobs, {}) (demo_sh5, demo_blobs, {})"
    by (rule sh_step.loop_quit [OF demo_stopped demo_quit])
  have "ss_mode demo_sh5 = Draining" "ss_limbo demo_sh5 = None" by (simp_all add: demo_defs)
  then have 3: "sh_step (demo_sh5, demo_blobs, {}) (demo_sh5\<lparr>ss_mode := Ended\<rparr>, demo_blobs, {})" by (rule sh_step.chan_close)
  show ?thesis by (rule rtranclp.rtrancl_into_rtrancl [OF rtranclp.rtrancl_into_rtrancl [OF rtranclp.rtrancl_into_rtrancl [OF demo_write 1] 2] 3])
qed

lemma demo_store: "sharky_New 4 (replicate 1 (Some [], Some [])) 0 = Some (Some [demo_sh0])"
  by (simp add: sharky_create_def sl_load_def sl_next_def next_loop.simps to_u32_def demo_defs)

lemma store_run: "sh_step\<^sup>*\<^sup>* c d \<Longrightarrow> store_step\<^sup>*\<^sup>* [c] [d]"
proof (induction rule: rtranclp_induct)
  case (step y z)
  have "store_step [y] [z]" unfolding store_step_def by (rule exI [of _ 0], rule exI [of _ z]) (simp add: step(2))
  with step(3) show ?case by simp
qed simp

lemma demo_small: "store_small [(demo_sh3, demo_blobs, {})]" "store_small [(demo_sh5\<lparr>ss_mode := Ended\<rparr>, demo_blobs, {})]"
proof -
  have "slots_cap (ss_slots demo_sh3) < 2 ^ 32" "slots_cap (ss_slots demo_sh5) < 2 ^ 32"
    by (simp_all add: slots_cap_def demo_defs)
  then show "store_small [(demo_sh3, demo_blobs, {})]" "store_small [(demo_sh5\<lparr>ss_mode := Ended\<rparr>, demo_blobs, {})]"
    by (simp_all add: store_small_def conf_cap_def)
qed

lemma demo_inv: "shard_inv (demo_sh3, demo_blobs, {})"
proof -
  have "store_inv 4 [(demo_sh3, demo_blobs, {})]"
    using store_reachable [OF store_run [OF demo_write] _ demo_small(1)] opened_inv [OF demo_store] by (simp add: opened_def)
  then show ?thesis by (auto simp: store_inv_def)
qed

section \<open>Properties\<close>

text \<open>C8: Every blob can be read back, unchanged, until its slot is released. In a store opened on empty files, whatever the
  interleaving of the goroutines of its shards, the writes, releases, failures and shut-downs, reading at the
  location a write returned gives the bytes that were written.\<close>

theorem sharky_reads_back:
  assumes "sharky_New d (replicate n (Some [], Some [])) 0 = Some (Some shards)" "n \<le> 256" "d < 2 ^ 16"
    and "store_step\<^sup>*\<^sup>* (opened shards) xs" "store_small xs"
    and "k < n" "xs ! k = (sh, L, X)" "L i = Some b" "length b \<le> cap"
  shows "sharky_Read (map fst xs) (fst (fst (sh_write sh b i None))) cap = Some (Some b)"
proof -
  from opened_inv [OF assms(1)] store_reachable [OF assms(4) _ assms(5)]
  have inv: "store_inv d xs" "length xs = n" by (auto simp: opened_def)
  then have sh: "shard_inv (sh, L, X)" "ss_index sh = of_nat k" "ss_maxDataSize sh = d"
    using assms(6,7) by (auto simp: store_inv_def conf_const_def)
  have b: "length b \<le> d" "sh_read sh (length b) i = Some b"
    using sh(1,3) assms(8) by (auto simp: shard_inv_def blobs_stored_def)
  have "unat (of_nat k :: byte) = k" using assms(2,6) by (simp add: unat_of_nat_byte)
  then show ?thesis
    using b assms(3,6,7,9) inv(2) sh(2) by (simp add: sharky_Read_def sh_write_def Let_def)
qed

theorem sharky_reads_back_witness:
  "sharky_Read [demo_sh3] \<lparr>lo_Shard = 0, lo_Slot = 0, lo_Length = 2\<rparr> 4 = Some (Some [1, 2])"
proof -
  have run: "store_step\<^sup>*\<^sup>* (opened [demo_sh0]) [(demo_sh3, demo_blobs, {})]"
    using store_run [OF demo_write] by (simp add: opened_def)
  have "[(demo_sh3, demo_blobs, {})] ! 0 = (demo_sh3, demo_blobs, {} :: nat set)" "demo_blobs 0 = Some [1, 2]" by (simp_all add: demo_blobs_def)
  from sharky_reads_back [OF demo_store _ _ run demo_small(1) _ this, of 4]
  have "sharky_Read [demo_sh3] (fst (fst (sh_write demo_sh3 [1, 2] 0 None))) 4 = Some (Some [1, 2])" by simp
  moreover have "fst (fst (sh_write demo_sh3 [1, 2] 0 None)) = \<lparr>lo_Shard = 0, lo_Slot = 0, lo_Length = 2\<rparr>" by (simp add: demo_defs)
  ultimately show ?thesis by simp
qed

text \<open>C28: A shard that has shut down and saved its free slots loses nothing: opened again on its files it has
  exactly the slots of the stored blobs (and those of failed or abandoned writes) in use, all
  others free, and satisfies the invariant with the same blobs.\<close>

theorem sharky_restart:
  assumes "sharky_New d (replicate n (Some [], Some [])) 0 = Some (Some shards)"
    and "store_step\<^sup>*\<^sup>* (opened shards) xs" "store_small xs"
    and "k < n" "xs ! k = (sh, L, X)" "ss_mode sh = Ended"
  shows "\<exists>sh'. sharky_create (ss_index sh) d (Some (ss_file sh)) (Some (snd (shard_close sh ffile None))) = Some (Some sh') \<and>
    shard_inv (sh', L, X) \<and> free_slots (sl_data (ss_slots sh')) = {..<slots_cap (ss_slots sh)} - (dom L \<union> X)"
proof -
  from opened_inv [OF assms(1)] store_reachable [OF assms(2) _ assms(3)]
  have inv: "store_inv d xs" "length xs = n" by (auto simp: opened_def)
  then have sh: "slots_owned (sh, L, X)" "blobs_stored (sh, L, X)" "phases_ok sh" "ss_maxDataSize sh = d"
    using assms(4,5) by (auto simp: store_inv_def conf_const_def shard_inv_def)
  have hd: "held sh = []" using sh(3) assms(6) by (auto simp: phases_ok_def held_def)
  let ?D = "sl_data (ss_slots sh)"
  have ok: "slots_ok (ss_slots sh)" "pool.used (ss_slots sh) = dom L \<union> X" "dom L \<inter> X = {}"
    using sh(1) hd by (auto simp: slots_owned_def)
  have cap: "8 * length ?D < 2 ^ 32" using ok(1) by (simp add: slots_ok_def)
  from create_ok [OF cap, of "ss_index sh" d "ss_file sh"] obtain sh' where
    sh': "sharky_create (ss_index sh) d (Some (ss_file sh)) (Some ?D) = Some (Some sh')" "slots_ok (ss_slots sh')"
      "sl_data (ss_slots sh') = ?D" "ss_maxDataSize sh' = d" "ss_file sh' = ss_file sh" "held sh' = []" "phases_ok sh'" by metis
  have used: "pool.used (ss_slots sh') = dom L \<union> X" using ok(2) sh'(3) by (simp add: pool.used_def slots_cap_def)
  have "shard_inv (sh', L, X)"
    using sh'(2,6,7) used ok(3) blobs_same [OF sh'(5) _ sh(2), of L X] sh'(4) sh(4) by (simp add: shard_inv_def slots_owned_def)
  moreover have "free_slots ?D = {..<slots_cap (ss_slots sh)} - (dom L \<union> X)"
    using ok(2) slots_free_cap [of ?D] by (auto simp: pool.used_def slots_cap_def)
  ultimately show ?thesis using sh'(1,3) by (auto simp: shard_close_def sl_save_def)
qed

theorem sharky_restart_witness:
  "\<exists>sh'. shard_inv (sh', demo_blobs, {}) \<and> free_slots (sl_data (ss_slots sh')) = {1..<8}"
proof -
  have "slots_cap (ss_slots demo_sh5) = 8" by (simp add: slots_cap_def demo_defs)
  moreover have "{..<8} - {0} = {1..<8 :: nat}" by auto
  moreover have run: "store_step\<^sup>*\<^sup>* (opened [demo_sh0]) [(demo_sh5\<lparr>ss_mode := Ended\<rparr>, demo_blobs, {})]"
    using store_run [OF demo_closed] by (simp add: opened_def)
  have "[(demo_sh5\<lparr>ss_mode := Ended\<rparr>, demo_blobs, {})] ! 0 = (demo_sh5\<lparr>ss_mode := Ended\<rparr>, demo_blobs, {} :: nat set)" by simp
  from sharky_restart [OF demo_store run demo_small(2) _ this]
  have "\<exists>sh'. shard_inv (sh', demo_blobs, {}) \<and> free_slots (sl_data (ss_slots sh')) = {..<slots_cap (ss_slots demo_sh5)} - {0}"
    by (auto simp: demo_blobs_def)
  ultimately show ?thesis by simp
qed

text \<open>The stages of a shut-down.\<close>

lemma inv_cap: "shard_inv c \<Longrightarrow> conf_cap c < 2 ^ 32"
  by (cases c) (simp add: shard_inv_def slots_owned_def slots_ok_def conf_cap_def slots_cap_def)

lemma draining_ends:
  assumes "shard_inv (sh, L, X)" "ss_mode sh = Draining"
  shows "\<exists>sh'. sh_step\<^sup>*\<^sup>* (sh, L, X) (sh', L, X) \<and> ss_mode sh' = Ended"
proof (cases "ss_limbo sh")
  case None
  then show ?thesis using sh_step.chan_close [OF assms(2) None, of L X] by (intro exI [of _ "sh\<lparr>ss_mode := Ended\<rparr>"]) auto
next
  case (Some i)
  obtain t where t: "sp_push sh i = Some t"
    using push_possible [of sh L X i] assms(1) held_cases(3) [OF Some] by (auto simp: shard_inv_def)
  let ?t = "t\<lparr>ss_limbo := None\<rparr>"
  have 1: "sh_step (sh, L, X) (?t, L, X)" using sh_step.limbo_back [OF Some _ t] assms(2) by simp
  have "ss_mode ?t = Draining" using push_frame [OF t] assms(2) by auto
  then have 2: "sh_step (?t, L, X) (?t\<lparr>ss_mode := Ended\<rparr>, L, X)" by (rule sh_step.chan_close) simp
  from 1 2 show ?thesis by (intro exI [of _ "?t\<lparr>ss_mode := Ended\<rparr>"]) (auto intro: converse_rtranclp_into_rtranclp)
qed

lemma stopped_ends:
  assumes "shard_inv (sh, L, X)" "\<not> ss_running sh"
  shows "\<exists>sh'. sh_step\<^sup>*\<^sup>* (sh, L, X) (sh', L, X) \<and> ss_mode sh' = Ended"
proof (cases "ss_mode sh")
  case Serving
  have "sp_quit sh \<noteq> None"
    using push_possible [of sh L X] held_cases(1) [of sh] assms(1) by (auto simp: sp_quit_def shard_inv_def split: option.split)
  then obtain t where t: "sp_quit sh = Some t" by blast
  have 1: "sh_step (sh, L, X) (t, L, X)" by (rule sh_step.loop_quit [OF assms(2) Serving t])
  have "conf_cap (t, L, X) < 2 ^ 32" using quit_frame [OF t] inv_cap [OF assms(1)] by (auto simp: conf_cap_def)
  then have "shard_inv (t, L, X)" "ss_mode t = Draining" using step_inv [OF 1 assms(1)] quit_frame [OF t] by auto
  from draining_ends [OF this] 1 show ?thesis by (blast intro: converse_rtranclp_into_rtranclp)
next
  case Draining
  then show ?thesis by (rule draining_ends [OF assms(1)])
qed blast

lemma running_ends:
  assumes "shard_inv (sh, L, X)"
  shows "\<exists>sh'. sh_step\<^sup>*\<^sup>* (sh, L, X) (sh', L, X) \<and> ss_mode sh' = Ended"
proof (cases "ss_running sh")
  case True
  have 1: "sh_step (sh, L, X) (sh_return sh, L, X)" by (rule sh_step.loop_returns [OF True])
  have "shard_inv (sh_return sh, L, X)" using step_inv [OF 1 assms] inv_cap [OF assms] by (simp add: conf_cap_def sh_return_def)
  from stopped_ends [OF this] 1 show ?thesis by (auto simp: sh_return_def intro: converse_rtranclp_into_rtranclp)
qed (rule stopped_ends [OF assms])

lemma gets_slot:
  assumes "shard_inv (sh, L, X)" "ss_running sh" "slots_cap (ss_slots sh) + 8 < 2 ^ 32"
  shows "\<exists>sh'. sh_step\<^sup>*\<^sup>* (sh, L, X) (sh', L, X) \<and> ss_running sh' \<and> ss_slot sh' \<noteq> None"
proof (cases "ss_slot sh")
  case None
  have offer: "\<exists>sh'. sh_step (t, L, X) (sh', L, X) \<and> ss_running sh' \<and> ss_slot sh' \<noteq> None"
    if "ss_pending t = Some i" "ss_running t" "ss_slot t = None" for t i
    using sh_step.slot_offer [OF that, of L X] that by (intro exI [of _ "t\<lparr>ss_pending := None, ss_slot := Some i\<rparr>"]) simp
  show ?thesis
  proof (cases "ss_pending sh")
    case (Some i)
    from offer [OF this assms(2) None] show ?thesis by blast
  next
    case p: None
    have m: "ss_mode sh = Serving" using assms(1,2) by (simp add: shard_inv_def phases_ok_def)
    obtain i sl where "sl_pop (ss_slots sh) = Some (i, sl)"
      using pool.pop_total [OF _ assms(3)] assms(1) by (auto simp: shard_inv_def slots_owned_def)
    then have t: "sp_pop sh = Some (sh\<lparr>ss_slots := sl, ss_pending := Some i\<rparr>)" (is "_ = Some ?t") by (simp add: sp_pop_def)
    have "ss_pending ?t = Some i" "ss_running ?t" "ss_slot ?t = None" using assms(2) None by simp_all
    from offer [OF this] sh_step.slot_pop [OF m p t, of L X] show ?thesis
      by (blast intro: converse_rtranclp_into_rtranclp)
  qed
qed (use assms(2) in blast)

text \<open>C34: A shard never gets stuck or panics: while it runs and its slot numbers last it can always come to hold a slot
  for the next write, and from every state it can complete a shut-down, keeping its blobs.\<close>

theorem sharky_progress:
  assumes "shard_inv (sh, L, X)"
  shows "(ss_running sh \<and> slots_cap (ss_slots sh) + 8 < 2 ^ 32 \<longrightarrow>
      (\<exists>sh'. sh_step\<^sup>*\<^sup>* (sh, L, X) (sh', L, X) \<and> ss_running sh' \<and> ss_slot sh' \<noteq> None)) \<and>
    (\<exists>sh'. sh_step\<^sup>*\<^sup>* (sh, L, X) (sh', L, X) \<and> ss_mode sh' = Ended)"
  using gets_slot [OF assms] running_ends [OF assms] by blast

theorem sharky_progress_witness:
  "\<exists>sh'. sh_step\<^sup>*\<^sup>* (demo_sh3, demo_blobs, {}) (sh', demo_blobs, {}) \<and> ss_running sh' \<and> ss_slot sh' \<noteq> None"
proof -
  have "ss_running demo_sh3" "slots_cap (ss_slots demo_sh3) = 8" by (simp_all add: slots_cap_def demo_defs)
  then show ?thesis using sharky_progress [OF demo_inv] by simp
qed

text \<open>C37: The search for a free slot from a start inside the vector ends, without leaving the vector, with the lowest free slot at or
  after the start, or the size when there is none; taking a slot gives the lowest free one.\<close>

theorem slots_lowest:
  assumes "slots_ok sl" "start \<le> sl_size sl"
  shows "\<exists>r. sl_next sl start = Some r \<and> start \<le> r \<and> r \<le> sl_size sl \<and> (r < sl_size sl \<longrightarrow> r \<in> free_slots (sl_data sl)) \<and>
      (\<forall>j. start \<le> j \<and> j < r \<longrightarrow> j \<notin> free_slots (sl_data sl)) \<and>
    (free_slots (sl_data sl) \<noteq> {} \<longrightarrow> (\<exists>sl'. sl_pop sl = Some (Min (free_slots (sl_data sl)), sl')))"
proof -
  let ?F = "free_slots (sl_data sl)" and ?n = "sl_size sl"
  have sub: "?F \<subseteq> {..<?n}" using assms(1) slots_free_cap by (simp add: slots_ok_def)
  have mem: "first_free ?F ?n start \<in> ?F" if "first_free ?F ?n start < ?n"
    using that LeastI_ex [of "\<lambda>i. i \<in> ?F \<and> start \<le> i"] by (auto simp: first_free_def split: if_splits)
  have ge: "start \<le> first_free ?F ?n start"
    using LeastI_ex [of "\<lambda>i. i \<in> ?F \<and> start \<le> i"] assms(2) by (auto simp: first_free_def)
  have least: "j \<notin> ?F" if "start \<le> j" "j < first_free ?F ?n start" for j
    using that not_less_Least [of j "\<lambda>i. i \<in> ?F \<and> start \<le> i"] by (auto simp: first_free_def split: if_splits)
  have "Inf ?F = Min ?F" if "?F \<noteq> {}" using that finite_subset [OF sub] by (simp add: cInf_eq_Min)
  then show ?thesis using slots_next [OF assms] first_free_le [OF sub, of start] mem ge least sl_pop_free [OF assms(1)]
    by (intro exI [of _ "first_free ?F ?n start"]) auto
qed

theorem slots_lowest_witness:
  "\<exists>r. sl_next (ss_slots demo_sh3) 0 = Some r \<and> r \<in> free_slots (sl_data (ss_slots demo_sh3)) \<and>
     (\<exists>r'. sl_next (ss_slots demo_sh3) 5 = Some r' \<and> 5 \<le> r')"
proof -
  have ok: "slots_ok (ss_slots demo_sh3)" using demo_inv by (simp add: shard_inv_def slots_owned_def)
  have "next_loop [254] 0 8 = Some 1" using demo_next by (subst next_loop.simps) simp
  then have "sl_next (ss_slots demo_sh3) 0 = Some 1" "sl_size (ss_slots demo_sh3) = 8" by (simp_all add: sl_next_def demo_defs)
  then show ?thesis using slots_lowest [OF ok, of 0] slots_lowest [OF ok, of 5] by auto
qed

text \<open>Recovery marks exactly the given locations as used: after the locations of all shards were added and the
  free slots saved, the saved vector of each shard covers the slots of its locations, and a
  slot it covers is free exactly when no location has it.\<close>

lemma recovery_correct:
  assumes "NewRecovery files datasize = Some r" "\<forall>l \<in> set ls. unat (lo_Shard l) < length files"
    and "length ffiles = length files" "k < length files"
  shows "\<exists>r'. recovery_AddAll r ls = Some r' \<and>
    (let D = snd (fst (recovery_Save r' ffiles (replicate (length files) None)) ! k);
         S = {lo_Slot l | l. l \<in> set ls \<and> unat (lo_Shard l) = k}
     in S \<subseteq> {..<8 * length D} \<and> free_slots D = {..<8 * length D} - S)"
proof -
  have r: "length (rc_shards r) = length files" "\<And>k. k < length files \<Longrightarrow> free_slots (sl_data (rc_shards r ! k)) = {}"
    using assms(1) free_zeros [of "[]"] by (auto simp: NewRecovery_def recovery_slots_def free_slots_def split: if_splits)
  from AddAll_slots [of ls r] assms(2) r(1) obtain r' where
    r': "recovery_AddAll r ls = Some r'" "length (rc_shards r') = length files"
      "free_slots (sl_data (rc_shards r' ! k)) = free_slots (sl_data (rc_shards r ! k)) \<union> {lo_Slot l | l. l \<in> set ls \<and> unat (lo_Shard l) = k}"
    using assms(4) by auto
  let ?D = "sl_data (rc_shards r' ! k)"
  have S: "free_slots ?D = {lo_Slot l | l. l \<in> set ls \<and> unat (lo_Shard l) = k}" using r'(3) r(2) [OF assms(4)] by simp
  have "snd (fst (recovery_Save r' ffiles (replicate (length files) None)) ! k) = map (\<lambda>b. b XOR 255) ?D"
    using r'(2) assms(3,4) by (simp add: recovery_Save_def Let_def sl_save_def)
  then show ?thesis using r'(1) S slots_free_cap [of ?D] by (simp add: Let_def free_invert)
qed

end
