(* ===== verification/ChunkStore.thy ===== *)
theory ChunkStore
  imports ItemStore SharkyProps
begin

text \<open>
  The chunk store (\<open>pkg/storer/internal/chunkstore\<close>): an index in the item store that maps addresses to locations of
  the blob store, with reference counts (\<open>chunkstore.go\<close>, \<open>helpers.go\<close>). The blob store is called through the
  interface \<open>Sharky\<close>, here a record of functions; what the chunk store relies on are the locales \<open>chunk_reads\<close> (reading and releasing) and \<open>chunk_blobs\<close>
  (writing too), extended by \<open>blob_store\<close>, which is interpreted on the sharded store of \<open>Sharky\<close>. The clock is an argument.
\<close>

section \<open>The retrieval index\<close>

datatype chunk_error =
    ChunkIndex "unit item_error"
  | ChunkSharky
  | ChunkJoined "unit item_error" bool

definition RetrievalIndexItemSize :: nat where
  "RetrievalIndexItemSize = HashSize + 8 + LocationSize + 4"

record RetrievalIndexItem =
  ri_Address :: address
  ri_Timestamp :: u64
  ri_Location :: Location
  ri_RefCnt :: u32

definition ri_ID :: "address \<Rightarrow> string" where
  "ri_ID a = bytes_str a"

definition ri_Namespace :: string where
  "ri_Namespace = ''retrievalIdx''"

text \<open>\<open>None\<close> is an error of the serialisation.\<close>

definition ri_Marshal :: "RetrievalIndexItem \<Rightarrow> bytes option" where
  "ri_Marshal r =
     (if IsZero (ri_Address r) then None
      else
        let buf = replicate RetrievalIndexItemSize 0;
            buf = copy_at buf 0 (take HashSize (ri_Address r));
            i = HashSize;
            buf = copy_at buf i (le_put 8 (unat (ri_Timestamp r)));
            i = i + 8;
            buf = copy_at buf i (loc_MarshalBinary (ri_Location r));
            i = i + LocationSize;
            buf = copy_at buf i (le_put 4 (unat (ri_RefCnt r)))
        in Some buf)"

definition ri_Unmarshal :: "bytes \<Rightarrow> RetrievalIndexItem option" where
  "ri_Unmarshal buf =
     (if length buf \<noteq> RetrievalIndexItemSize then None
      else
        map_option (\<lambda>loc.
          \<lparr>ri_Address = slice 0 HashSize buf,
           ri_Timestamp = of_nat (le_nat (slice HashSize (HashSize + 8) buf)),
           ri_Location = loc,
           ri_RefCnt = of_nat (le_nat (drop (HashSize + 8 + LocationSize) buf))\<rparr>)
        (loc_UnmarshalBinary (slice (HashSize + 8) (HashSize + 8 + LocationSize) buf)))"

section \<open>The interface of the blob store\<close>

text \<open>A \<open>None\<close> result is an error.\<close>

record 'k SharkyStore =
  sk_Read :: "'k \<Rightarrow> Location \<Rightarrow> bytes option \<times> 'k"
  sk_Write :: "'k \<Rightarrow> bytes \<Rightarrow> Location option \<times> 'k"
  sk_Release :: "'k \<Rightarrow> Location \<Rightarrow> bool \<times> 'k"

section \<open>The chunk store\<close>

record 'k chunkstore =
  cs_store :: leveldb
  cs_sharky :: 'k

definition ri_Get :: "'k chunkstore \<Rightarrow> address \<Rightarrow> (unit item_error + RetrievalIndexItem) \<times> 'k chunkstore" where
  "ri_Get c addr = (case ls_Get (cs_store c) ri_Namespace (ri_ID addr) ri_Unmarshal of (r, db) \<Rightarrow> (r, c\<lparr>cs_store := db\<rparr>))"

definition ri_Put :: "'k chunkstore \<Rightarrow> RetrievalIndexItem \<Rightarrow> (unit item_error + unit) \<times> 'k chunkstore" where
  "ri_Put c r = (case ls_Put (cs_store c) ri_Namespace (ri_ID (ri_Address r)) (ri_Marshal r) of (x, db) \<Rightarrow> (x, c\<lparr>cs_store := db\<rparr>))"

definition ri_Delete :: "'k chunkstore \<Rightarrow> address \<Rightarrow> (unit item_error + unit) \<times> 'k chunkstore" where
  "ri_Delete c addr = (case ls_Delete (cs_store c) ri_Namespace (ri_ID addr) of (x, db) \<Rightarrow> (x, c\<lparr>cs_store := db\<rparr>))"

text \<open>A chunk is its address and data.\<close>

definition readChunk :: "'k SharkyStore \<Rightarrow> 'k chunkstore \<Rightarrow> RetrievalIndexItem \<Rightarrow> (chunk_error + address \<times> bytes) \<times> 'k chunkstore" where
  "readChunk K c rIdx =
     (case sk_Read K (cs_sharky c) (ri_Location rIdx) of
        (None, k) \<Rightarrow> (Inl ChunkSharky, c\<lparr>cs_sharky := k\<rparr>)
      | (Some buf, k) \<Rightarrow> (Inr (ri_Address rIdx, buf), c\<lparr>cs_sharky := k\<rparr>))"

definition chunk_Get :: "'k SharkyStore \<Rightarrow> 'k chunkstore \<Rightarrow> address \<Rightarrow> (chunk_error + address \<times> bytes) \<times> 'k chunkstore" where
  "chunk_Get K c addr =
     (case ri_Get c addr of
        (Inl e, c) \<Rightarrow> (Inl (ChunkIndex e), c)
      | (Inr rIdx, c) \<Rightarrow> readChunk K c rIdx)"

definition chunk_Has :: "'k chunkstore \<Rightarrow> address \<Rightarrow> (unit item_error + bool) \<times> 'k chunkstore" where
  "chunk_Has c addr = (case ls_Has (cs_store c) ri_Namespace (ri_ID addr) of (r, db) \<Rightarrow> (r, c\<lparr>cs_store := db\<rparr>))"

text \<open>The end of \<open>Put\<close>: the reference is counted; an error is reported only for a new chunk, whose blob is
  released again.\<close>

definition put_index :: "'k SharkyStore \<Rightarrow> 'k chunkstore \<Rightarrow> RetrievalIndexItem \<Rightarrow> bool \<Rightarrow> (chunk_error + unit) \<times> 'k chunkstore" where
  "put_index K c rIdx found =
     (let rIdx = rIdx\<lparr>ri_RefCnt := ri_RefCnt rIdx + 1\<rparr> in
      case ri_Put c rIdx of
        (Inl e, c) \<Rightarrow>
          if \<not> found then
            (case sk_Release K (cs_sharky c) (ri_Location rIdx) of
               (ok, k) \<Rightarrow> (Inl (ChunkJoined e ok), c\<lparr>cs_sharky := k\<rparr>))
          else (Inr (), c)
      | (Inr _, c) \<Rightarrow> (Inr (), c))"

definition chunk_Put :: "'k SharkyStore \<Rightarrow> u64 \<Rightarrow> 'k chunkstore \<Rightarrow> address \<Rightarrow> bytes \<Rightarrow> (chunk_error + unit) \<times> 'k chunkstore" where
  "chunk_Put K now c addr data =
     (case ri_Get c addr of
        (Inl ItemNotFound, c) \<Rightarrow>
          (case sk_Write K (cs_sharky c) data of
             (None, k) \<Rightarrow> (Inl ChunkSharky, c\<lparr>cs_sharky := k\<rparr>)
           | (Some loc, k) \<Rightarrow>
               put_index K (c\<lparr>cs_sharky := k\<rparr>) \<lparr>ri_Address = addr, ri_Timestamp = now, ri_Location = loc, ri_RefCnt = 0\<rparr> False)
      | (Inl e, c) \<Rightarrow> (Inl (ChunkIndex e), c)
      | (Inr rIdx, c) \<Rightarrow> put_index K c rIdx True)"

definition chunk_Delete :: "'k SharkyStore \<Rightarrow> 'k chunkstore \<Rightarrow> address \<Rightarrow> (chunk_error + unit) \<times> 'k chunkstore" where
  "chunk_Delete K c addr =
     (case ri_Get c addr of
        (Inl ItemNotFound, c) \<Rightarrow> (Inr (), c)
      | (Inl e, c) \<Rightarrow> (Inl (ChunkIndex e), c)
      | (Inr rIdx, c) \<Rightarrow>
          let rIdx = rIdx\<lparr>ri_RefCnt := ri_RefCnt rIdx - 1\<rparr> in
          if ri_RefCnt rIdx > 0 then
            (case ri_Put c rIdx of
               (Inl e, c) \<Rightarrow> (Inl (ChunkIndex e), c)
             | (Inr _, c) \<Rightarrow> (Inr (), c))
          else
            (case sk_Release K (cs_sharky c) (ri_Location rIdx) of
               (False, k) \<Rightarrow> (Inl ChunkSharky, c\<lparr>cs_sharky := k\<rparr>)
             | (True, k) \<Rightarrow>
                 (case ri_Delete (c\<lparr>cs_sharky := k\<rparr>) (ri_Address rIdx) of
                    (Inl e, c) \<Rightarrow> (Inl (ChunkIndex e), c)
                  | (Inr _, c) \<Rightarrow> (Inr (), c))))"

text \<open>The iterations over the index: chunks, entries with whether they are shared, and locations. The callback threads
  the state of its caller.\<close>

definition ri_query :: "RetrievalIndexItem Query" where
  "ri_query = plain_query ri_Namespace ri_Unmarshal []"

definition chunk_Iterate ::
    "'k SharkyStore \<Rightarrow> 'k chunkstore \<Rightarrow> (address \<times> bytes \<Rightarrow> 'c \<Rightarrow> (unit + bool) \<times> 'c) \<Rightarrow> 'c \<Rightarrow> unit item_error list \<times> 'c \<times> 'k chunkstore" where
  "chunk_Iterate K c fn x =
     (case ls_Iterate (cs_store c) ri_query
        (\<lambda>r (x, k). case r_Entry r of
            None \<Rightarrow> (Inl (), x, k)
          | Some rIdx \<Rightarrow>
              (case readChunk K (c\<lparr>cs_sharky := k\<rparr>) rIdx of
                 (Inl _, c') \<Rightarrow> (Inl (), x, cs_sharky c')
               | (Inr ch, c') \<Rightarrow> (case fn ch x of (r, x) \<Rightarrow> (r, x, cs_sharky c'))))
        (x, cs_sharky c) of
      (errs, (x, k), db) \<Rightarrow> (errs, x, c\<lparr>cs_store := db, cs_sharky := k\<rparr>))"

definition IterateChunkEntries ::
    "leveldb \<Rightarrow> (address \<Rightarrow> bool \<Rightarrow> 'c \<Rightarrow> (unit + bool) \<times> 'c) \<Rightarrow> 'c \<Rightarrow> unit item_error list \<times> 'c \<times> leveldb" where
  "IterateChunkEntries db fn x =
     ls_Iterate db ri_query
       (\<lambda>r x. case r_Entry r of None \<Rightarrow> (Inl (), x) | Some rIdx \<Rightarrow> fn (ri_Address rIdx) (ri_RefCnt rIdx > 1) x) x"

text \<open>The locations sent on the channel, in order; the receiver never cancels.\<close>

definition IterateLocations :: "leveldb \<Rightarrow> (unit item_error + Location) list \<times> leveldb" where
  "IterateLocations db =
     (case ls_Iterate db ri_query
        (\<lambda>r out. case r_Entry r of None \<Rightarrow> (Inl (), out) | Some rIdx \<Rightarrow> (Inr False, out @ [Inr (ri_Location rIdx)])) [] of
      (errs, out, db) \<Rightarrow> (case errs of [] \<Rightarrow> (out, db) | e # _ \<Rightarrow> (out @ [Inl e], db)))"

definition index_Iterate ::
    "leveldb \<Rightarrow> (RetrievalIndexItem \<Rightarrow> 'c \<Rightarrow> (unit + unit) \<times> 'c) \<Rightarrow> 'c \<Rightarrow> unit item_error list \<times> 'c \<times> leveldb" where
  "index_Iterate db callBackFunc x =
     ls_Iterate db ri_query
       (\<lambda>r x. case r_Entry r of None \<Rightarrow> (Inl (), x)
          | Some e \<Rightarrow> (case callBackFunc e x of (Inl _, x) \<Rightarrow> (Inl (), x) | (Inr _, x) \<Rightarrow> (Inr False, x))) x"

section \<open>The blob store as used by the chunk store\<close>

text \<open>\<open>Write\<close> and \<open>Release\<close> of the store called one at a time: a schedule says which shard takes an operation and
  whether it fails, for a write after how many bytes. A call is a run of steps of that shard; a shard without a slot first takes one. Where the code
  panics (a location outside the shards, a release after the shut-down) the call counts as failed; the laws below are about
  locations of stored blobs.\<close>

record sharky_driver =
  sd_confs :: "shard_conf list"
  sd_choice :: "nat \<Rightarrow> nat"
  sd_fault :: "nat \<Rightarrow> nat option"
  sd_tick :: nat

definition sh_take :: "shard \<Rightarrow> shard option" where
  "sh_take sh =
     (case ss_slot sh of
        Some i \<Rightarrow> Some sh
      | None \<Rightarrow>
          map_option (\<lambda>sh. sh\<lparr>ss_pending := None, ss_slot := ss_pending sh\<rparr>)
            (case ss_pending sh of Some i \<Rightarrow> Some sh | None \<Rightarrow> sp_pop sh))"

definition sharky_Write :: "sharky_driver \<Rightarrow> bytes \<Rightarrow> Location option \<times> sharky_driver" where
  "sharky_Write d data =
     (let t = sd_tick d; d = d\<lparr>sd_tick := Suc t\<rparr>; k = sd_choice d t mod length (sd_confs d) in
      case sd_confs d ! k of
        (sh, L, X) \<Rightarrow>
          if \<not> sharky_Write_accepts sh data \<or> \<not> ss_running sh then (None, d)
          else
            (case sh_take sh of
               None \<Rightarrow> (None, d)
             | Some sh \<Rightarrow>
                 let i = the (ss_slot sh) in
                 (case sh_write sh data i (sd_fault d t) of
                    ((loc, False), sh) \<Rightarrow> (None, d\<lparr>sd_confs := (sd_confs d)[k := (sh\<lparr>ss_slot := None\<rparr>, L, insert i X)]\<rparr>)
                  | ((loc, True), sh) \<Rightarrow> (Some loc, d\<lparr>sd_confs := (sd_confs d)[k := (sh\<lparr>ss_slot := None\<rparr>, L(i \<mapsto> data), X)]\<rparr>))))"

definition sharky_Release :: "sharky_driver \<Rightarrow> Location \<Rightarrow> bool \<times> sharky_driver" where
  "sharky_Release d loc =
     (let t = sd_tick d; d = d\<lparr>sd_tick := Suc t\<rparr>; k = unat (lo_Shard loc) in
      if sd_fault d t \<noteq> None \<or> length (sd_confs d) \<le> k then (False, d)
      else case sd_confs d ! k of
        (sh, L, X) \<Rightarrow>
          if ss_mode sh = Ended then (False, d)
          else (case sp_push sh (lo_Slot loc) of
              None \<Rightarrow> (False, d)
            | Some sh \<Rightarrow> (True, d\<lparr>sd_confs := (sd_confs d)[k := (sh, L(lo_Slot loc := None), X)]\<rparr>)))"

definition sharky_Fetch :: "sharky_driver \<Rightarrow> Location \<Rightarrow> bytes option \<times> sharky_driver" where
  "sharky_Fetch d loc =
     (let t = sd_tick d; d = d\<lparr>sd_tick := Suc t\<rparr> in
      if sd_fault d t \<noteq> None then (None, d)
      else (case sharky_Read (map fst (sd_confs d)) loc (lo_Length loc) of None \<Rightarrow> None | Some r \<Rightarrow> r, d))"

definition sharky_store :: "sharky_driver SharkyStore" where
  "sharky_store = \<lparr>sk_Read = sharky_Fetch, sk_Write = sharky_Write, sk_Release = sharky_Release\<rparr>"

text \<open>The laws the chunk store relies on, first those of reads and releases.\<close>

locale chunk_reads =
  fixes K :: "'k SharkyStore"
    and blobs :: "'k \<Rightarrow> Location \<rightharpoonup> bytes"
    and store_ok :: "'k \<Rightarrow> bool"
    and small :: "'k \<Rightarrow> bool"
  assumes read_law: "store_ok k \<Longrightarrow> sk_Read K k l = (r, k') \<Longrightarrow>
          store_ok k' \<and> blobs k' = blobs k \<and> (blobs k l = Some b \<longrightarrow> r \<in> {None, Some b})"
    and read_small: "sk_Read K k l = (r, k') \<Longrightarrow> small k' \<Longrightarrow> small k"
    and release_law: "store_ok k \<Longrightarrow> blobs k l = Some b \<Longrightarrow> sk_Release K k l = (done_ok, k') \<Longrightarrow> small k' \<Longrightarrow>
          store_ok k' \<and> small k \<and> blobs k' = (if done_ok then (blobs k)(l := None) else blobs k)"
    and release_small: "sk_Release K k l = (done_ok, k') \<Longrightarrow> small k' \<Longrightarrow> small k"

text \<open>Writes give fresh locations as long as the store is small enough to number its slots.\<close>

locale chunk_blobs = chunk_reads +
  assumes write_small: "sk_Write K k b = (w, k') \<Longrightarrow> small k' \<Longrightarrow> small k"
    and write_law: "store_ok k \<Longrightarrow> sk_Write K k b = (Some l, k') \<Longrightarrow> small k' \<Longrightarrow>
          store_ok k' \<and> small k \<and> loc_ok l \<and> blobs k l = None \<and> blobs k' = (blobs k)(l \<mapsto> b)"
    and write_fail: "store_ok k \<Longrightarrow> sk_Write K k b = (None, k') \<Longrightarrow> small k' \<Longrightarrow>
          store_ok k' \<and> small k \<and> (blobs k' = blobs k \<or> (\<exists>l. blobs k l = None \<and> blobs k' = (blobs k)(l \<mapsto> b)))"

text \<open>What the sharded store promises beyond that: a failed write stores nothing, and locations of stored blobs
  have a serialisation.\<close>

locale blob_store = chunk_blobs +
  assumes write_none: "store_ok k \<Longrightarrow> sk_Write K k b = (None, k') \<Longrightarrow> small k' \<Longrightarrow> blobs k' = blobs k"
    and blob_loc: "store_ok k \<Longrightarrow> small k \<Longrightarrow> blobs k l = Some b \<Longrightarrow> loc_ok l"

definition driver_blobs :: "sharky_driver \<Rightarrow> Location \<rightharpoonup> bytes" where
  "driver_blobs d l =
     (let k = unat (lo_Shard l) in
      if length (sd_confs d) \<le> k then None
      else case sd_confs d ! k of
        (sh, L, X) \<Rightarrow> (case L (lo_Slot l) of None \<Rightarrow> None | Some b \<Rightarrow> if length b = lo_Length l then Some b else None))"

definition driver_ok :: "sharky_driver \<Rightarrow> bool" where
  "driver_ok d \<longleftrightarrow> (\<exists>m. m < 2 ^ 16 \<and> store_inv m (sd_confs d)) \<and> sd_confs d \<noteq> [] \<and> length (sd_confs d) \<le> 256"

lemma take_steps:
  assumes "shard_inv (sh, L, X)" "ss_running sh" "sh_take sh = Some sh'"
  shows "sh_step\<^sup>*\<^sup>* (sh, L, X) (sh', L, X) \<and> ss_running sh' \<and> (\<exists>i. ss_slot sh' = Some i) \<and>
    ss_index sh' = ss_index sh \<and> ss_maxDataSize sh' = ss_maxDataSize sh"
proof (cases "ss_slot sh")
  case None
  have m: "ss_mode sh = Serving" using assms(1,2) by (simp add: shard_inv_def phases_ok_def)
  show ?thesis
  proof (cases "ss_pending sh")
    case (Some i)
    then show ?thesis using assms(2,3) None sh_step.slot_offer [OF Some assms(2) None, of L X] by (auto simp: sh_take_def)
  next
    case p: None
    then obtain t where t: "sp_pop sh = Some t" "sh' = t\<lparr>ss_pending := None, ss_slot := ss_pending t\<rparr>"
      using assms(3) None by (auto simp: sh_take_def)
    from pop_frame [OF t(1)] obtain sl h where f: "t = sh\<lparr>ss_slots := sl, ss_pending := Some h\<rparr>" by blast
    have 1: "sh_step (sh, L, X) (t, L, X)" by (rule sh_step.slot_pop [OF m p t(1)])
    have 2: "sh_step (t, L, X) (sh', L, X)" unfolding t(2) using sh_step.slot_offer [of t h L X] assms(2) None f by simp
    from 1 2 show ?thesis using t(2) f assms(2) by (auto intro: converse_rtranclp_into_rtranclp)
  qed
qed (use assms in \<open>auto simp: sh_take_def\<close>)

lemma conf_run: "sh_step\<^sup>*\<^sup>* (xs ! k) c \<Longrightarrow> k < length xs \<Longrightarrow> store_step\<^sup>*\<^sup>* xs (xs[k := c])"
proof (induction rule: rtranclp_induct)
  case (step y z)
  have "store_step (xs[k := y]) (xs[k := z])"
    unfolding store_step_def using step(2,4) by (intro exI [of _ k] exI [of _ z]) simp
  with step(3,4) show ?case by simp
qed simp

lemma small_back: "store_step\<^sup>*\<^sup>* xs ys \<Longrightarrow> store_small ys \<Longrightarrow> store_small xs"
  by (induction rule: converse_rtranclp_induct) (auto intro: store_step_small)

lemma confs_after:
  assumes "store_inv m xs" "k < length xs" "sh_step\<^sup>*\<^sup>* (xs ! k) c" "store_small (xs[k := c])"
  shows "store_inv m (xs[k := c])" "store_small xs"
proof -
  note run = conf_run [OF assms(3,2)]
  show "store_inv m (xs[k := c])" using store_reachable [OF run assms(1,4)] by simp
  show "store_small xs" using small_back [OF run assms(4)] .
qed

lemma driver_confs:
  assumes "driver_ok d" "k < length (sd_confs d)" "sd_confs d ! k = (sh, L, X)"
  obtains m where "m < 2 ^ 16" "store_inv m (sd_confs d)" "shard_inv (sh, L, X)" "ss_index sh = of_nat k" "ss_maxDataSize sh = m"
proof -
  from assms(1) obtain m where m: "m < 2 ^ 16" "store_inv m (sd_confs d)" by (auto simp: driver_ok_def)
  then have "shard_inv (sd_confs d ! k)" "conf_const (sd_confs d ! k) = (of_nat k, m)" using assms(2) by (simp_all add: store_inv_def)
  with that [OF m] assms(3) show thesis by (simp add: conf_const_def)
qed

text \<open>What a call that replaces the configuration of one shard by one it can reach does to the store.\<close>

lemma driver_update:
  assumes "driver_ok d" "k < length (sd_confs d)" "sh_step\<^sup>*\<^sup>* (sd_confs d ! k) c" "store_small ((sd_confs d)[k := c])"
  shows "driver_ok (d\<lparr>sd_tick := t, sd_confs := (sd_confs d)[k := c]\<rparr>) \<and> store_small (sd_confs d)"
proof -
  from assms(1) obtain m where m: "m < 2 ^ 16" "store_inv m (sd_confs d)" by (auto simp: driver_ok_def)
  from confs_after [OF m(2) assms(2-4)] m(1) show ?thesis using assms(1) by (auto simp: driver_ok_def)
qed

lemma driver_blobs_upd:
  assumes "k < length (sd_confs d)" "k < 256" "sd_confs d ! k = (sh, L, X)"
  shows "driver_blobs (d\<lparr>sd_tick := t, sd_confs := (sd_confs d)[k := (sh', L', X')]\<rparr>) =
    (\<lambda>l. if unat (lo_Shard l) = k then (case L' (lo_Slot l) of None \<Rightarrow> None | Some b \<Rightarrow> if length b = lo_Length l then Some b else None)
         else driver_blobs d l)"
  using assms by (auto simp: driver_blobs_def Let_def fun_eq_iff nth_list_update)

lemma loc_eqI: "lo_Shard l = lo_Shard l' \<Longrightarrow> lo_Slot l = lo_Slot l' \<Longrightarrow> lo_Length l = lo_Length l' \<Longrightarrow> l = (l' :: Location)"
  by (cases l; cases l') simp

lemma driver_tick: "driver_ok d \<Longrightarrow> driver_ok (d\<lparr>sd_tick := t\<rparr>) \<and> driver_blobs (d\<lparr>sd_tick := t\<rparr>) = driver_blobs d"
  by (simp add: driver_ok_def driver_blobs_def Let_def fun_eq_iff)

lemma driver_fetch:
  assumes "driver_ok d" "sharky_Fetch d l = (r, d')"
  shows "driver_ok d' \<and> driver_blobs d' = driver_blobs d \<and> (store_small (sd_confs d') \<longrightarrow> store_small (sd_confs d)) \<and>
    (driver_blobs d l = Some b \<longrightarrow> r \<in> {None, Some b})"
proof -
  have d': "d' = d\<lparr>sd_tick := Suc (sd_tick d)\<rparr>" using assms(2) by (simp add: sharky_Fetch_def Let_def split: if_splits)
  have "r = None \<or> r = Some b" if b: "driver_blobs d l = Some b"
  proof -
    let ?k = "unat (lo_Shard l)"
    obtain sh L X where k: "?k < length (sd_confs d)" "sd_confs d ! ?k = (sh, L, X)" "L (lo_Slot l) = Some b" "length b = lo_Length l"
      using b by (auto simp: driver_blobs_def Let_def split: if_splits option.splits prod.splits)
    from driver_confs [OF assms(1) k(1,2)] have "shard_inv (sh, L, X)" by blast
    then have "sh_read sh (lo_Length l) (lo_Slot l) = Some b" using k(3) unfolding k(4) [symmetric] by (auto simp: shard_inv_def blobs_stored_def)
    then show ?thesis using assms(2) k(1,2) by (auto simp: sharky_Fetch_def sharky_Read_def Let_def split: if_splits)
  qed
  then show ?thesis using driver_tick [OF assms(1)] d' by simp
qed

lemma run_inv: "sh_step\<^sup>*\<^sup>* c d \<Longrightarrow> shard_inv c \<Longrightarrow> conf_cap d < 2 ^ 32 \<Longrightarrow> shard_inv d"
proof (induction rule: rtranclp_induct)
  case (step y z)
  then show ?case using step_cap [OF step(2)] step_inv [OF step(2)] by simp
qed

lemma driver_write:
  assumes "driver_ok d" "sharky_Write d b = (r, d')" "store_small (sd_confs d')"
  shows "driver_ok d' \<and> store_small (sd_confs d) \<and>
    (case r of None \<Rightarrow> driver_blobs d' = driver_blobs d
     | Some l \<Rightarrow> loc_ok l \<and> driver_blobs d l = None \<and> driver_blobs d' = (driver_blobs d)(l \<mapsto> b))"
proof -
  let ?k = "sd_choice d (sd_tick d) mod length (sd_confs d)" and ?d = "d\<lparr>sd_tick := Suc (sd_tick d)\<rparr>"
  have k: "?k < length (sd_confs d)" using assms(1) by (simp add: driver_ok_def)
  have "?k < 256" using less_le_trans [OF k] assms(1) by (simp add: driver_ok_def)
  note k = k this
  obtain sh L X where c: "sd_confs d ! ?k = (sh, L, X)" by (metis prod_cases3)
  from driver_confs [OF assms(1) k(1) c] obtain m where m: "m < 2 ^ 16" "shard_inv (sh, L, X)" "ss_index sh = of_nat ?k" "ss_maxDataSize sh = m" .
  have idle: "driver_ok ?d \<and> driver_blobs ?d = driver_blobs d" by (rule driver_tick [OF assms(1)])
  show ?thesis
  proof (cases "sharky_Write_accepts sh b \<and> ss_running sh \<and> sh_take sh \<noteq> None")
    case False
    then have "r = None" "d' = ?d" using assms(2) c by (auto simp: sharky_Write_def Let_def split: if_splits)
    then show ?thesis using idle assms(3) by simp
  next
    case True
    then obtain s2 where s2: "sh_take sh = Some s2" by blast
    from take_steps [OF m(2) _ s2] True obtain i where
      tk: "sh_step\<^sup>*\<^sup>* (sh, L, X) (s2, L, X)" "ss_running s2" "ss_slot s2 = Some i" "ss_index s2 = of_nat ?k" "ss_maxDataSize s2 = m"
      using m(3,4) by auto
    have acc: "sharky_Write_accepts s2 b" using True tk(5) m(4) by (simp add: sharky_Write_accepts_def)
    obtain e s3 where w: "sh_write s2 b i (sd_fault d (sd_tick d)) = (e, s3)" by fastforce
    show ?thesis
    proof (cases "sd_fault d (sd_tick d)")
      case None
      let ?c = "(s3\<lparr>ss_slot := None\<rparr>, L(i \<mapsto> b), X)" and ?l = "\<lparr>lo_Shard = of_nat ?k, lo_Slot = i, lo_Length = length b mod 2 ^ 16\<rparr>"
      have e: "e = (?l, True)" using w None tk(4) by (auto simp: sh_write_def Let_def)
      have r: "r = Some ?l" "d' = ?d\<lparr>sd_confs := (sd_confs d)[?k := ?c]\<rparr>"
        using assms(2) c True s2 tk(3) w e by (auto simp: sharky_Write_def Let_def)
      have step: "sh_step\<^sup>*\<^sup>* (sd_confs d ! ?k) ?c"
        using tk(1) sh_step.write_done [OF tk(2,3) acc w [unfolded None], of L X] unfolding c by (rule rtranclp.rtrancl_into_rtrancl)
      have small: "store_small ((sd_confs d)[?k := ?c])" using assms(3) r(2) by simp
      from driver_update [OF assms(1) k(1) step small, of "Suc (sd_tick d)"] have ok: "driver_ok d'" "store_small (sd_confs d)" using r(2) by simp_all
      have "conf_cap ?c < 2 ^ 32" using small k(1) set_update_memI [OF k(1), of ?c] by (simp add: store_small_def)
      then have "conf_cap (s2, L, X) < 2 ^ 32" using write_frame [OF w] by (auto simp: conf_cap_def)
      then have "slots_owned (s2, L, X)" using run_inv [OF tk(1) m(2)] by (simp add: shard_inv_def)
      then have Li: "L i = None" using held_cases(2) [OF tk(3)] by (auto simp: slots_owned_def)
      have len: "length b mod 2 ^ 16 = length b" using acc tk(5) m(1) by (simp add: sharky_Write_accepts_def)
      have uk: "unat (of_nat ?k :: byte) = ?k" using k(2) by (simp add: unat_of_nat_byte)
      have i32: "i < 2 ^ 32"
      proof -
        have "i \<in> pool.used (ss_slots s2)" using \<open>slots_owned (s2, L, X)\<close> held_cases(2) [OF tk(3)] by (auto simp: slots_owned_def)
        then show ?thesis using \<open>conf_cap (s2, L, X) < 2 ^ 32\<close> by (auto simp: pool.used_def conf_cap_def)
      qed
      have "driver_blobs d ?l = None" using k(1) c Li uk by (simp add: driver_blobs_def Let_def)
      moreover have "driver_blobs d' = (driver_blobs d)(?l \<mapsto> b)"
        unfolding r(2) sharky_driver.simps driver_blobs_upd [OF k c]
        using k(1) c Li uk len by (auto simp: fun_eq_iff driver_blobs_def Let_def word_unat_eq_iff intro!: loc_eqI)
      moreover have "loc_ok ?l" using i32 by (simp add: loc_ok_def)
      ultimately show ?thesis using ok r(1) by simp
    next
      case (Some n)
      let ?c = "(s3\<lparr>ss_slot := None\<rparr>, L, insert i X)"
      have e: "snd e = False" using w Some by (auto simp: sh_write_def Let_def)
      have r: "r = None" "d' = ?d\<lparr>sd_confs := (sd_confs d)[?k := ?c]\<rparr>"
        using assms(2) c True s2 tk(3) w e by (auto simp: sharky_Write_def Let_def split: prod.splits bool.splits)
      have step: "sh_step\<^sup>*\<^sup>* (sd_confs d ! ?k) ?c"
        using tk(1) sh_step.write_lost [OF tk(2,3) acc w, of L X] unfolding c by (rule rtranclp.rtrancl_into_rtrancl)
      have small: "store_small ((sd_confs d)[?k := ?c])" using assms(3) r(2) by simp
      have "driver_blobs d' = driver_blobs d"
        unfolding r(2) sharky_driver.simps driver_blobs_upd [OF k c] using k(1) c by (auto simp: fun_eq_iff driver_blobs_def Let_def)
      then show ?thesis using driver_update [OF assms(1) k(1) step small, of "Suc (sd_tick d)"] r by simp
    qed
  qed
qed


lemma driver_release:
  assumes "driver_ok d" "driver_blobs d l = Some b" "sharky_Release d l = (r, d')" "store_small (sd_confs d')"
  shows "driver_ok d' \<and> store_small (sd_confs d) \<and> driver_blobs d' = (if r then (driver_blobs d)(l := None) else driver_blobs d)"
proof -
  let ?k = "unat (lo_Shard l)" and ?d = "d\<lparr>sd_tick := Suc (sd_tick d)\<rparr>"
  obtain sh L X where k: "?k < length (sd_confs d)" "?k < 256" and c: "sd_confs d ! ?k = (sh, L, X)"
    and b: "L (lo_Slot l) = Some b" "length b = lo_Length l"
    using assms(2) byte_less256 [of "lo_Shard l"] by (auto simp: driver_blobs_def Let_def split: if_splits option.splits prod.splits)
  have idle: "driver_ok ?d \<and> driver_blobs ?d = driver_blobs d" by (rule driver_tick [OF assms(1)])
  show ?thesis
  proof (cases r)
    case False
    then have "d' = ?d" using assms(3) c by (auto simp: sharky_Release_def Let_def split: if_splits option.splits)
    then show ?thesis using idle False assms(4) by simp
  next
    case True
    then obtain t where t: "ss_mode sh \<noteq> Ended" "sp_push sh (lo_Slot l) = Some t" "d' = ?d\<lparr>sd_confs := (sd_confs d)[?k := (t, L(lo_Slot l := None), X)]\<rparr>"
      using assms(3) c by (auto simp: sharky_Release_def Let_def split: if_splits option.splits)
    have step: "sh_step\<^sup>*\<^sup>* (sd_confs d ! ?k) (t, L(lo_Slot l := None), X)"
      unfolding c by (rule r_into_rtranclp, rule sh_step.slot_release [of L "lo_Slot l" b]) (use b t in simp_all)
    have "driver_blobs d' = (driver_blobs d)(l := None)"
      unfolding t(3) sharky_driver.simps driver_blobs_upd [OF k c] using k(1) c b
      by (auto simp: fun_eq_iff driver_blobs_def Let_def word_unat_eq_iff intro!: loc_eqI split: option.split)
    then show ?thesis using driver_update [OF assms(1) k(1) step, of "Suc (sd_tick d)"] assms(4) t(3) True by simp
  qed
qed

text \<open>No operation makes the store smaller.\<close>

lemma update_small:
  assumes "store_small (xs[k := c])" "k < length xs \<Longrightarrow> conf_cap (xs ! k) \<le> conf_cap c"
  shows "store_small xs"
proof -
  have "conf_cap (xs ! j) < 2 ^ 32" if "j < length xs" for j
  proof -
    have "xs[k := c] ! j \<in> set (xs[k := c])" using that by simp
    then have "conf_cap (xs[k := c] ! j) < 2 ^ 32" using assms(1) by (simp only: store_small_def)
    then show ?thesis using that assms(2) by (cases "j = k") auto
  qed
  then show ?thesis unfolding store_small_def by (metis in_set_conv_nth)
qed

lemma driver_release_small:
  assumes "sharky_Release d l = (r, d')" "store_small (sd_confs d')"
  shows "store_small (sd_confs d)"
proof (cases r)
  case False
  then have "sd_confs d' = sd_confs d" using assms(1) by (auto simp: sharky_Release_def Let_def split: if_splits option.splits prod.splits)
  then show ?thesis using assms(2) by simp
next
  case True
  let ?k = "unat (lo_Shard l)"
  obtain sh L X t where c: "sd_confs d ! ?k = (sh, L, X)" "sp_push sh (lo_Slot l) = Some t"
    "sd_confs d' = (sd_confs d)[?k := (t, L(lo_Slot l := None), X)]"
    using assms(1) True by (auto simp: sharky_Release_def Let_def split: if_splits option.splits prod.splits)
  have "conf_cap (sd_confs d ! ?k) \<le> conf_cap (t, L(lo_Slot l := None), X)"
    using c(1,2) by (auto simp: conf_cap_def slots_cap_def sp_push_def sl_push_def Let_def split: if_splits)
  then show ?thesis using update_small assms(2) c(3) by simp
qed

lemma take_cap: "sh_take sh = Some t \<Longrightarrow> slots_cap (ss_slots sh) \<le> slots_cap (ss_slots t)"
  by (auto simp: sh_take_def split: option.splits dest!: pop_frame)

lemma driver_write_small:
  assumes "sharky_Write d b = (r, d')" "store_small (sd_confs d')"
  shows "store_small (sd_confs d)"
proof -
  let ?k = "sd_choice d (sd_tick d) mod length (sd_confs d)"
  obtain sh L X where c: "sd_confs d ! ?k = (sh, L, X)" by (metis prod_cases3)
  show ?thesis
  proof (cases "sharky_Write_accepts sh b \<and> ss_running sh \<and> sh_take sh \<noteq> None")
    case False
    then have "sd_confs d' = sd_confs d" using assms(1) c by (auto simp: sharky_Write_def Let_def split: if_splits)
    then show ?thesis using assms(2) by simp
  next
    case True
    then obtain t where t: "sh_take sh = Some t" by blast
    obtain loc ok u where u: "sh_write t b (the (ss_slot t)) (sd_fault d (sd_tick d)) = ((loc, ok), u)" by (metis prod.exhaust)
    obtain L' X' where "sd_confs d' = (sd_confs d)[?k := (u\<lparr>ss_slot := None\<rparr>, L', X')]"
      using assms(1) c True t u by (cases ok) (auto simp: sharky_Write_def Let_def)
    moreover have "conf_cap (sd_confs d ! ?k) \<le> conf_cap (u\<lparr>ss_slot := None\<rparr>, L', X')"
      using take_cap [OF t] write_frame [OF u] c by (auto simp: conf_cap_def)
    ultimately show ?thesis using update_small assms(2) by simp
  qed
qed

lemma driver_loc:
  assumes "driver_ok d" "store_small (sd_confs d)" "driver_blobs d l = Some b"
  shows "loc_ok l"
proof -
  let ?k = "unat (lo_Shard l)"
  obtain sh L X where k: "?k < length (sd_confs d)" and c: "sd_confs d ! ?k = (sh, L, X)" and b: "L (lo_Slot l) = Some b" "length b = lo_Length l"
    using assms(3) by (auto simp: driver_blobs_def Let_def split: if_splits option.splits prod.splits)
  from driver_confs [OF assms(1) k c] obtain m where m: "m < 2 ^ 16" "shard_inv (sh, L, X)" "ss_maxDataSize sh = m" by blast
  have "lo_Slot l \<in> pool.used (ss_slots sh)" using m(2) b(1) by (auto simp: shard_inv_def slots_owned_def)
  then have "lo_Slot l < slots_cap (ss_slots sh)" by (simp add: pool.used_def)
  moreover have "conf_cap (sh, L, X) < 2 ^ 32" using assms(2) k c nth_mem [OF k] by (auto simp: store_small_def)
  moreover have "length b \<le> m" using m(2,3) b(1) by (auto simp: shard_inv_def blobs_stored_def)
  ultimately show ?thesis using b(2) m(1) by (simp add: loc_ok_def conf_cap_def)
qed

interpretation sky: blob_store sharky_store driver_blobs driver_ok "\<lambda>d. store_small (sd_confs d)"
proof (unfold_locales, goal_cases)
  case (1 k l r k' b)
  then show ?case using driver_fetch [of k l r k' b] by (simp add: sharky_store_def)
next
  case (2 k l r k')
  then show ?case by (auto simp: sharky_store_def sharky_Fetch_def Let_def split: if_splits)
next
  case (3 k l b done_ok k')
  then show ?case using driver_release [of k l b done_ok k'] by (simp add: sharky_store_def)
next
  case (4 k l done_ok k')
  then show ?case using driver_release_small [of k l done_ok k'] by (simp add: sharky_store_def)
next
  case (5 k b w k')
  then show ?case using driver_write_small [of k b w k'] by (simp add: sharky_store_def)
next
  case (6 k b l k')
  then show ?case using driver_write [of k b "Some l" k'] by (simp add: sharky_store_def)
next
  case (7 k b k')
  then show ?case using driver_write [of k b None k'] by (simp add: sharky_store_def)
next
  case (8 k b k')
  then show ?case using driver_write [of k b None k'] by (simp add: sharky_store_def)
next
  case (9 k l b)
  then show ?case using driver_loc by blast
qed

end
