(* ===== verification/ChunkProps.thy ===== *)
theory ChunkProps
  imports ChunkStore
begin

text \<open>
  Properties of the chunk store: its index entries survive serialisation, and on top of any blob
  store with the laws of \<open>chunk_blobs\<close> it is a map from addresses to counted chunks. The laws hold for the
  sharded store, so the properties are about the chunk store on its files.
\<close>

section \<open>Serialisation\<close>

definition item_ok :: "RetrievalIndexItem \<Rightarrow> bool" where
  "item_ok r \<longleftrightarrow> length (ri_Address r) = HashSize \<and> loc_ok (ri_Location r)"

lemma loc_roundtrip:
  assumes "loc_ok l"
  shows "loc_UnmarshalBinary (loc_MarshalBinary l) = Some l" "length (loc_MarshalBinary l) = 7"
proof -
  have "lo_Slot l < 256 ^ 4" "lo_Length l < 256 ^ 2" using assms by (simp_all add: loc_ok_def)
  then show "loc_UnmarshalBinary (loc_MarshalBinary l) = Some l" by (cases l) (simp add: loc_UnmarshalBinary_def loc_MarshalBinary_def)
qed (simp add: loc_MarshalBinary_def)

lemma item_bytes:
  assumes "item_ok r"
  shows "ri_Marshal r = Some (ri_Address r @ le_put 8 (unat (ri_Timestamp r)) @ loc_MarshalBinary (ri_Location r) @ le_put 4 (unat (ri_RefCnt r)))"
proof -
  have nz: "\<not> IsZero (ri_Address r)" using assms by (auto simp: item_ok_def IsZero_def addr_Equal_def ZeroAddress_def HashSize_def NewAddress_def)
  let ?a = "ri_Address r" and ?t = "le_put 8 (unat (ri_Timestamp r))" and ?l = "loc_MarshalBinary (ri_Location r)" and ?n = "le_put 4 (unat (ri_RefCnt r))"
  have l: "length ?a = 32" "length ?l = 7" using assms loc_roundtrip(2) by (simp_all add: item_ok_def HashSize_def)
  have 1: "copy_at (replicate 51 0) 0 ?a = ?a @ replicate 19 0" using copy_at_next [of 0 "[]" ?a 32 19] l by simp
  have 2: "copy_at (?a @ replicate 19 0) 32 ?t = (?a @ ?t) @ replicate 11 0" using copy_at_next [of 32 ?a ?t 8 11] l by simp
  have 3: "copy_at ((?a @ ?t) @ replicate 11 0) 40 ?l = (?a @ ?t @ ?l) @ replicate 4 0" using copy_at_next [of 40 "?a @ ?t" ?l 7 4] l by simp
  have 4: "copy_at ((?a @ ?t @ ?l) @ replicate 4 0) 47 ?n = ?a @ ?t @ ?l @ ?n" using copy_at_next [of 47 "?a @ ?t @ ?l" ?n 4 0] l by simp
  show ?thesis unfolding ri_Marshal_def Let_def using nz l 1 2 3 4
    by (simp add: RetrievalIndexItemSize_def LocationSize_def HashSize_def del: append_assoc)
qed

lemma item_roundtrip:
  assumes "item_ok r"
  shows "\<exists>v. ri_Marshal r = Some v \<and> ri_Unmarshal v = Some r"
proof -
  have l: "length (ri_Address r) = 32" "length (loc_MarshalBinary (ri_Location r)) = 7"
    using assms loc_roundtrip(2) by (simp_all add: item_ok_def HashSize_def)
  have "unat (ri_Timestamp r) < 256 ^ 8" "unat (ri_RefCnt r) < 256 ^ 4" by (rule u64_less, rule u32_less)
  then show ?thesis
    unfolding item_bytes [OF assms] using l loc_roundtrip(1) [of "ri_Location r"] assms
    by (cases r) (simp add: ri_Unmarshal_def RetrievalIndexItemSize_def LocationSize_def HashSize_def slice_def item_ok_def)
qed

section \<open>The index\<close>

type_synonym index = "address \<rightharpoonup> RetrievalIndexItem"

definition entry :: "leveldb \<Rightarrow> index" where
  "entry db a = (case st_kv db (item_key ri_Namespace (ri_ID a)) of None \<Rightarrow> None | Some v \<Rightarrow> ri_Unmarshal v)"

definition decodes :: "leveldb \<Rightarrow> bool" where
  "decodes db \<longleftrightarrow> (\<forall>a v. st_kv db (item_key ri_Namespace (ri_ID a)) = Some v \<longrightarrow> ri_Unmarshal v \<noteq> None)"

text \<open>An index over stored blobs: entries are under their address, are counted, and have blobs of their own.\<close>

definition index_ok :: "index \<Rightarrow> (Location \<rightharpoonup> bytes) \<Rightarrow> bool" where
  "index_ok E B \<longleftrightarrow> (\<forall>a r. E a = Some r \<longrightarrow> item_ok r \<and> ri_Address r = a \<and> ri_RefCnt r \<noteq> 0 \<and> B (ri_Location r) \<noteq> None) \<and>
     (\<forall>a a' r r'. E a = Some r \<longrightarrow> E a' = Some r' \<longrightarrow> ri_Location r = ri_Location r' \<longrightarrow> a = a')"

text \<open>What the store holds: for each address the number of references and the data.\<close>

definition refs :: "index \<Rightarrow> (Location \<rightharpoonup> bytes) \<Rightarrow> address \<rightharpoonup> u32 \<times> bytes" where
  "refs E B a = Option.bind (E a) (\<lambda>r. map_option (Pair (ri_RefCnt r)) (B (ri_Location r)))"

lemma index_live: "index_ok E B \<Longrightarrow> E a = Some r \<Longrightarrow> \<exists>b. B (ri_Location r) = Some b"
  unfolding index_ok_def by blast

lemma ri_ID_inj [simp]: "ri_ID a = ri_ID b \<longleftrightarrow> a = b"
  by (simp add: ri_ID_def)

lemma index_new:
  assumes "index_ok E B" "E a = None" "B l = None" "length a = HashSize" "loc_ok l"
    "r = \<lparr>ri_Address = a, ri_Timestamp = t, ri_Location = l, ri_RefCnt = 1\<rparr>"
  shows "index_ok (E(a \<mapsto> r)) (B(l \<mapsto> b)) \<and> refs (E(a \<mapsto> r)) (B(l \<mapsto> b)) = (refs E B)(a \<mapsto> (1, b))"
proof -
  have ne: "ri_Location r' \<noteq> l" if "E a' = Some r'" for a' r' using index_live [OF assms(1) that] assms(3) by auto
  have "index_ok (E(a \<mapsto> r)) (B(l \<mapsto> b))" unfolding index_ok_def
    using assms(1,4-6) ne by (auto simp: index_ok_def item_ok_def split: if_splits)
  moreover have "refs (E(a \<mapsto> r)) (B(l \<mapsto> b)) = (refs E B)(a \<mapsto> (1, b))"
    using ne assms(6) by (auto simp: refs_def fun_eq_iff bind_eq_Some_conv split: option.splits bind_splits)
  ultimately show ?thesis by blast
qed

lemma index_count:
  assumes "index_ok E B" "E a = Some r" "n \<noteq> 0" "B (ri_Location r) = Some b"
  shows "index_ok (E(a \<mapsto> r\<lparr>ri_RefCnt := n\<rparr>)) B \<and> refs (E(a \<mapsto> r\<lparr>ri_RefCnt := n\<rparr>)) B = (refs E B)(a \<mapsto> (n, b))"
  using assms by (auto simp: index_ok_def refs_def fun_eq_iff item_ok_def split: if_splits)

lemma index_gone:
  assumes "index_ok E B" "E a = Some r"
  shows "index_ok (E(a := None)) (B(ri_Location r := None)) \<and> refs (E(a := None)) (B(ri_Location r := None)) = (refs E B)(a := None)"
proof -
  have ne: "ri_Location r' \<noteq> ri_Location r" if "E a' = Some r'" "a' \<noteq> a" for a' r' using that assms by (auto simp: index_ok_def)
  have "index_ok (E(a := None)) (B(ri_Location r := None))" using assms(1) ne by (auto simp: index_ok_def split: if_splits)
  moreover have "refs (E(a := None)) (B(ri_Location r := None)) = (refs E B)(a := None)"
    using ne by (auto simp: refs_def fun_eq_iff split: bind_splits)
  ultimately show ?thesis by blast
qed

lemma index_extra:
  assumes "index_ok E B" "B l = None"
  shows "index_ok E (B(l \<mapsto> b)) \<and> refs E (B(l \<mapsto> b)) = refs E B"
proof -
  have ne: "ri_Location r \<noteq> l" if "E a = Some r" for a r using index_live [OF assms(1) that] assms(2) by auto
  have "index_ok E (B(l \<mapsto> b))" using assms(1) by (auto simp: index_ok_def)
  moreover have "refs E (B(l \<mapsto> b)) = refs E B"
    by (rule ext) (use ne in \<open>simp add: refs_def split: bind_split\<close>)
  ultimately show ?thesis by blast
qed

lemma ri_Get_cases:
  assumes "ri_Get c a = (r, c')" "decodes (cs_store c)"
  obtains (found) x where "r = Inr x" "entry (cs_store c) a = Some x"
    | (missing) "r = Inl ItemNotFound" "entry (cs_store c) a = None"
    | (failed) e where "r = Inl e" "e \<noteq> ItemNotFound"
  using assms ls_Get_value [of "cs_store c" ri_Namespace "ri_ID a" ri_Unmarshal]
  by (cases r) (fastforce simp: ri_Get_def entry_def split: prod.splits)+

lemma ri_Get_same: "ri_Get c a = (r, c') \<Longrightarrow> entry (cs_store c') = entry (cs_store c) \<and> decodes (cs_store c') = decodes (cs_store c) \<and> cs_sharky c' = cs_sharky c"
  using ls_Get_db [of "cs_store c" ri_Namespace "ri_ID a" ri_Unmarshal]
  by (fastforce simp: ri_Get_def entry_def decodes_def fun_eq_iff split: prod.splits)

text \<open>Which operation of the item store fails is decided by its clock: a lookup takes one tick, and the update of an entry
  fails exactly when its tick does.\<close>

lemma ri_Get_tick: "ri_Get c a = (Inr x, c') \<Longrightarrow> st_tick (cs_store c') = Suc (st_tick (cs_store c)) \<and> st_fault (cs_store c') = st_fault (cs_store c)"
  by (auto simp: ri_Get_def ls_Get_def st_Get_def st_step_def split: prod.splits sum.splits option.splits if_splits)

lemma ri_Put_fault:
  assumes "ri_Put c x = (r, c')" "item_ok x"
  shows "isl r \<longleftrightarrow> st_fault (cs_store c) (st_tick (cs_store c))"
proof -
  obtain v where "ri_Marshal x = Some v" using item_roundtrip [OF assms(2)] by blast
  then show ?thesis using assms(1) by (auto simp: ri_Put_def ls_Put_def st_Put_def st_step_def split: prod.splits if_splits option.splits)
qed

lemma ri_Put_cases:
  assumes "ri_Put c x = (r, c')" "item_ok x" "decodes (cs_store c)"
  shows "cs_sharky c' = cs_sharky c \<and> decodes (cs_store c') \<and>
    entry (cs_store c') = (case r of Inl _ \<Rightarrow> entry (cs_store c) | Inr _ \<Rightarrow> (entry (cs_store c))(ri_Address x \<mapsto> x))"
proof -
  obtain v where v: "ri_Marshal x = Some v" "ri_Unmarshal v = Some x" using item_roundtrip [OF assms(2)] by blast
  obtain db where p: "ls_Put (cs_store c) ri_Namespace (ri_ID (ri_Address x)) (ri_Marshal x) = (r, db)" "c' = c\<lparr>cs_store := db\<rparr>"
    using assms(1) by (auto simp: ri_Put_def split: prod.splits)
  show ?thesis
  proof (cases r)
    case (Inl e)
    then have "st_kv db = st_kv (cs_store c)" using ls_Put_fail p(1) by blast
    then show ?thesis using Inl p(2) assms(3) by (simp add: entry_def decodes_def fun_eq_iff)
  next
    case (Inr u)
    then have "st_kv db = (st_kv (cs_store c))(item_key ri_Namespace (ri_ID (ri_Address x)) \<mapsto> v)" using ls_Put_ok p(1) v(1) by fastforce
    then show ?thesis using Inr p(2) assms(3) v(2) by (auto simp: entry_def decodes_def fun_eq_iff)
  qed
qed

lemma ns_nonempty: "ri_Namespace \<noteq> []"
  by (simp add: ri_Namespace_def)

lemma ri_Delete_cases:
  assumes "ri_Delete c a = (r, c')" "decodes (cs_store c)"
  shows "cs_sharky c' = cs_sharky c \<and> decodes (cs_store c') \<and>
    entry (cs_store c') = (case r of Inl _ \<Rightarrow> entry (cs_store c) | Inr _ \<Rightarrow> (entry (cs_store c))(a := None))"
proof -
  obtain db where p: "ls_Delete (cs_store c) ri_Namespace (ri_ID a) = (r, db)" "c' = c\<lparr>cs_store := db\<rparr>"
    using assms(1) by (auto simp: ri_Delete_def split: prod.splits)
  show ?thesis
  proof (cases r)
    case (Inl e)
    then have "st_kv db = st_kv (cs_store c)" using ls_Delete_fail p(1) by blast
    then show ?thesis using Inl p(2) assms(2) by (simp add: entry_def decodes_def fun_eq_iff)
  next
    case (Inr u)
    have "st_kv db = (st_kv (cs_store c))(item_key ri_Namespace (ri_ID a) := None)"
      using ls_Delete_ok [OF ns_nonempty p(1) [unfolded Inr]] by (rule conjunct1)
    then show ?thesis using Inr p(2) assms(2) by (auto simp: entry_def decodes_def fun_eq_iff)
  qed
qed

section \<open>The operations\<close>

definition cs_inv :: "('k \<Rightarrow> Location \<rightharpoonup> bytes) \<Rightarrow> ('k \<Rightarrow> bool) \<Rightarrow> 'k chunkstore \<Rightarrow> bool" where
  "cs_inv blobs store_ok c \<longleftrightarrow> store_ok (cs_sharky c) \<and> decodes (cs_store c) \<and> index_ok (entry (cs_store c)) (blobs (cs_sharky c))"

definition cs_refs :: "('k \<Rightarrow> Location \<rightharpoonup> bytes) \<Rightarrow> 'k chunkstore \<Rightarrow> address \<rightharpoonup> u32 \<times> bytes" where
  "cs_refs blobs c = refs (entry (cs_store c)) (blobs (cs_sharky c))"

text \<open>An entry without its blob counts for nothing.\<close>

lemma index_unref:
  assumes "index_ok E B" "E a = Some r"
  shows "refs E (B(ri_Location r := None)) = (refs E B)(a := None)"
proof -
  have "ri_Location r' \<noteq> ri_Location r" if "E a' = Some r'" "a' \<noteq> a" for a' r' using that assms by (auto simp: index_ok_def)
  then show ?thesis using assms(2) by (auto simp: refs_def fun_eq_iff split: bind_splits)
qed

lemmas cs_defs = cs_inv_def cs_refs_def

context chunk_reads
begin

lemma lookup_same:
  assumes "cs_inv blobs store_ok c" "ri_Get c a = (r, c')"
  shows "cs_inv blobs store_ok c' \<and> cs_refs blobs c' = cs_refs blobs c \<and> cs_sharky c' = cs_sharky c \<and> entry (cs_store c') = entry (cs_store c)"
  using assms ri_Get_same [OF assms(2)] by (simp add: cs_defs)

lemma refs_missing: "entry (cs_store c) a = None \<Longrightarrow> cs_refs blobs c a = None"
  by (simp add: cs_refs_def refs_def)

lemma refs_found:
  assumes "cs_inv blobs store_ok c" "entry (cs_store c) a = Some x"
  shows "\<exists>b. blobs (cs_sharky c) (ri_Location x) = Some b \<and> cs_refs blobs c a = Some (ri_RefCnt x, b)"
proof -
  have "index_ok (entry (cs_store c)) (blobs (cs_sharky c))" using assms(1) by (simp add: cs_inv_def)
  then obtain b where "blobs (cs_sharky c) (ri_Location x) = Some b" using index_live assms(2) by blast
  then show ?thesis using assms(2) by (simp add: cs_refs_def refs_def)
qed

lemma entry_facts:
  assumes "cs_inv blobs store_ok c" "entry (cs_store c) a = Some x"
  shows "item_ok x" "ri_Address x = a" "ri_RefCnt x \<noteq> 0"
  using assms unfolding cs_inv_def index_ok_def by blast+

lemma recount:
  assumes "cs_inv blobs store_ok c" "entry (cs_store c) a = Some x" "n \<noteq> 0" "ri_Put c (x\<lparr>ri_RefCnt := n\<rparr>) = (r, c')"
    "cs_refs blobs c a = Some (m, b)"
  shows "cs_inv blobs store_ok c' \<and> cs_sharky c' = cs_sharky c \<and> (isl r \<longleftrightarrow> st_fault (cs_store c) (st_tick (cs_store c))) \<and>
    cs_refs blobs c' = (case r of Inl _ \<Rightarrow> cs_refs blobs c | Inr _ \<Rightarrow> (cs_refs blobs c)(a \<mapsto> (n, b)))"
proof -
  note x = entry_facts [OF assms(1,2)]
  have ok: "item_ok (x\<lparr>ri_RefCnt := n\<rparr>)" using x(1) by (simp add: item_ok_def)
  have dec: "decodes (cs_store c)" using assms(1) by (simp add: cs_inv_def)
  have b: "blobs (cs_sharky c) (ri_Location x) = Some b" using refs_found [OF assms(1,2)] assms(5) by auto
  have "index_ok (entry (cs_store c)) (blobs (cs_sharky c))" using assms(1) by (simp add: cs_inv_def)
  note ix = index_count [OF this assms(2,3) b]
  show ?thesis using ri_Put_cases [OF assms(4) ok dec] ri_Put_fault [OF assms(4) ok] ix x(2) assms(1) by (cases r) (simp_all add: cs_defs)
qed

lemma put_index_small:
  assumes "put_index K c x found = (r, c')" "small (cs_sharky c')"
  shows "small (cs_sharky c)"
proof -
  have k: "cs_sharky c1 = cs_sharky c" if "ri_Put c z = (y, c1)" for y z c1 using that by (auto simp: ri_Put_def split: prod.splits)
  then show ?thesis using assms release_small [of "cs_sharky c" "ri_Location x"]
    by (fastforce simp: put_index_def Let_def split: prod.splits sum.splits if_splits)
qed

text \<open>What \<open>Delete\<close> does. After an index deletion that failed the blob is gone already and the entry remains.\<close>

lemma delete_outcome:
  assumes "cs_inv blobs store_ok c" "chunk_Delete K c a = (r, c')" "small (cs_sharky c')"
  shows "case (r, cs_refs blobs c a) of
       (Inl _, x) \<Rightarrow> (cs_inv blobs store_ok c' \<and> cs_refs blobs c' = cs_refs blobs c) \<or>
         (\<exists>b. x = Some (1, b) \<and> entry (cs_store c') = entry (cs_store c) \<and> cs_refs blobs c' = (cs_refs blobs c)(a := None))
     | (Inr _, None) \<Rightarrow> cs_inv blobs store_ok c' \<and> cs_refs blobs c' = cs_refs blobs c
     | (Inr _, Some (n, b)) \<Rightarrow> cs_inv blobs store_ok c' \<and>
         cs_refs blobs c' = (cs_refs blobs c)(a := if n = 1 then None else Some (n - 1, b))"
proof -
  obtain g c1 where g: "ri_Get c a = (g, c1)" by fastforce
  note same = lookup_same [OF assms(1) g]
  have dec: "decodes (cs_store c)" using assms(1) by (simp add: cs_inv_def)
  from g dec show ?thesis
  proof (cases rule: ri_Get_cases)
    case (found x)
    have inv: "cs_inv blobs store_ok c1" "entry (cs_store c1) a = Some x" using same found(2) by simp_all
    note x = entry_facts [OF inv]
    obtain b where b: "blobs (cs_sharky c1) (ri_Location x) = Some b" "cs_refs blobs c1 a = Some (ri_RefCnt x, b)" using refs_found [OF inv] by blast
    show ?thesis
    proof (cases "ri_RefCnt x = 1")
      case False
      then have pos: "ri_RefCnt x - 1 > 0" by (simp add: word_gt_0)
      obtain y c2 where y: "ri_Put c1 (x\<lparr>ri_RefCnt := ri_RefCnt x - 1\<rparr>) = (y, c2)" by fastforce
      have c': "c' = c2" "isl r = isl y" using assms(2) g found(1) y pos by (auto simp: chunk_Delete_def Let_def split: sum.splits)
      have "ri_RefCnt x - 1 \<noteq> 0" using False by simp
      from recount [OF inv this y b(2)] show ?thesis using same b(2) c' False by (cases y; cases r) auto
    next
      case True
      obtain u k where u: "sk_Release K (cs_sharky c1) (ri_Location x) = (u, k)" by fastforce
      have k: "small k \<Longrightarrow> store_ok k \<and> blobs k = (if u then (blobs (cs_sharky c1))(ri_Location x := None) else blobs (cs_sharky c1))"
        using release_law [OF _ b(1) u] inv(1) by (simp add: cs_inv_def)
      show ?thesis
      proof (cases u)
        case False
        then have "isl r" "c' = c1\<lparr>cs_sharky := k\<rparr>" using assms(2) g found(1) u True by (auto simp: chunk_Delete_def Let_def)
        then show ?thesis using k False assms(3) same by (cases r) (auto simp: cs_defs)
      next
        case True': True
        obtain y c2 where y: "ri_Delete (c1\<lparr>cs_sharky := k\<rparr>) a = (y, c2)" by fastforce
        have c': "c' = c2" "isl r = isl y" using assms(2) g found(1) u y True True' x(2) by (auto simp: chunk_Delete_def Let_def split: sum.splits)
        have d: "cs_sharky c2 = k" "decodes (cs_store c2)"
          "entry (cs_store c2) = (case y of Inl _ \<Rightarrow> entry (cs_store c1) | Inr _ \<Rightarrow> (entry (cs_store c1))(a := None))"
          using ri_Delete_cases [OF y] inv(1) by (cases y; simp add: cs_inv_def)+
        have ix: "index_ok (entry (cs_store c1)) (blobs (cs_sharky c1))" using inv(1) by (simp add: cs_inv_def)
        note k = k [OF assms(3) [unfolded c'(1) d(1)]] and gone = index_gone [OF ix inv(2)]
        show ?thesis using same b(2) c' d k gone True True' index_unref [OF ix inv(2)] by (cases y; cases r) (auto simp: cs_defs)
      qed
    qed
  next
    case missing
    then have "r = Inr () \<and> c' = c1" using assms(2) g by (auto simp: chunk_Delete_def)
    then show ?thesis using same refs_missing [OF missing(2)] by auto
  next
    case (failed e)
    then have "r = Inl (ChunkIndex e) \<and> c' = c1" using assms(2) g by (cases e) (auto simp: chunk_Delete_def)
    then show ?thesis using same by auto
  qed
qed

lemma get_outcome:
  assumes "cs_inv blobs store_ok c" "chunk_Get K c a = (r, c')"
  shows "cs_inv blobs store_ok c' \<and> cs_refs blobs c' = cs_refs blobs c \<and>
    (case r of Inr (a', b) \<Rightarrow> a' = a \<and> (\<exists>n. cs_refs blobs c a = Some (n, b))
     | Inl e \<Rightarrow> e = ChunkIndex ItemNotFound \<longrightarrow> cs_refs blobs c a = None)"
proof -
  obtain g c1 where g: "ri_Get c a = (g, c1)" by fastforce
  note same = lookup_same [OF assms(1) g]
  have dec: "decodes (cs_store c)" using assms(1) by (simp add: cs_inv_def)
  from g dec show ?thesis
  proof (cases rule: ri_Get_cases)
    case (found x)
    have inv: "cs_inv blobs store_ok c1" "entry (cs_store c1) a = Some x" using same found(2) by simp_all
    obtain b where b: "blobs (cs_sharky c1) (ri_Location x) = Some b" "cs_refs blobs c1 a = Some (ri_RefCnt x, b)" using refs_found [OF inv] by blast
    obtain y k where y: "sk_Read K (cs_sharky c1) (ri_Location x) = (y, k)" by fastforce
    have c': "c' = c1\<lparr>cs_sharky := k\<rparr>" "r = (case y of None \<Rightarrow> Inl ChunkSharky | Some v \<Rightarrow> Inr (a, v))"
      using assms(2) g found(1) y entry_facts(2) [OF inv] by (auto simp: chunk_Get_def readChunk_def split: option.splits)
    have "store_ok (cs_sharky c1)" using inv(1) by (simp add: cs_inv_def)
    from read_law [OF this y, of b] have k: "store_ok k" "blobs k = blobs (cs_sharky c1)" "y \<in> {None, Some b}" using b(1) by auto
    then have "cs_inv blobs store_ok c'" "cs_refs blobs c' = cs_refs blobs c1" using inv(1) c'(1) by (simp_all add: cs_defs)
    then show ?thesis using same b(2) c'(2) k(3) by auto
  next
    case missing
    then have "r = Inl (ChunkIndex ItemNotFound) \<and> c' = c1" using assms(2) g by (auto simp: chunk_Get_def)
    then show ?thesis using same refs_missing [OF missing(2)] by auto
  next
    case (failed e)
    then have "r = Inl (ChunkIndex e) \<and> c' = c1" using assms(2) g by (auto simp: chunk_Get_def)
    then show ?thesis using same failed(2) by auto
  qed
qed

lemma delete_frame:
  assumes "cs_inv blobs store_ok c" "chunk_Delete K c a = (r, c')" "small (cs_sharky c')"
  shows "store_ok (cs_sharky c') \<and> decodes (cs_store c')"
proof -
  obtain g c1 where g: "ri_Get c a = (g, c1)" by fastforce
  note same = lookup_same [OF assms(1) g]
  have dec: "decodes (cs_store c)" using assms(1) by (simp add: cs_inv_def)
  have c1: "store_ok (cs_sharky c1)" "decodes (cs_store c1)" using same [THEN conjunct1] by (auto simp: cs_inv_def)
  from g dec show ?thesis
  proof (cases rule: ri_Get_cases)
    case (found x)
    have inv: "cs_inv blobs store_ok c1" "entry (cs_store c1) a = Some x" using same found(2) by simp_all
    obtain b where b: "blobs (cs_sharky c1) (ri_Location x) = Some b" using refs_found [OF inv] by blast
    obtain u k where u: "sk_Release K (cs_sharky c1) (ri_Location x) = (u, k)" by fastforce
    have k: "small k \<Longrightarrow> store_ok k" using release_law [OF c1(1) b u] by blast
    obtain y c2 where y: "ri_Put c1 (x\<lparr>ri_RefCnt := ri_RefCnt x - 1\<rparr>) = (y, c2)" by fastforce
    have p: "cs_sharky c2 = cs_sharky c1 \<and> decodes (cs_store c2)"
      using ri_Put_cases [OF y _ c1(2)] entry_facts(1) [OF inv] by (simp add: item_ok_def)
    obtain z c3 where z: "ri_Delete (c1\<lparr>cs_sharky := k\<rparr>) a = (z, c3)" by fastforce
    have d: "cs_sharky c3 = k \<and> decodes (cs_store c3)" using ri_Delete_cases [OF z] c1(2) by simp
    have "c' \<in> {c2, c1\<lparr>cs_sharky := k\<rparr>, c3}"
      using assms(2) g found(1) y u z entry_facts(2) [OF inv] by (auto simp: chunk_Delete_def Let_def split: if_splits bool.splits sum.splits)
    then show ?thesis using c1 k p d assms(3) by auto
  next
    case missing
    then show ?thesis using assms(2) g c1 by (auto simp: chunk_Delete_def)
  next
    case (failed e)
    then show ?thesis using assms(2) g c1 by (cases e) (auto simp: chunk_Delete_def)
  qed
qed

end

context chunk_blobs
begin

lemma put_new:
  assumes "cs_inv blobs store_ok c" "entry (cs_store c) a = None" "length a = HashSize"
    "sk_Write K (cs_sharky c) data = (Some l, k)" "small (cs_sharky c')"
    "put_index K (c\<lparr>cs_sharky := k\<rparr>) \<lparr>ri_Address = a, ri_Timestamp = now, ri_Location = l, ri_RefCnt = 0\<rparr> False = (r, c')"
  shows "cs_inv blobs store_ok c' \<and> small (cs_sharky c) \<and>
    cs_refs blobs c' = (case r of Inl _ \<Rightarrow> cs_refs blobs c | Inr _ \<Rightarrow> (cs_refs blobs c)(a \<mapsto> (1, data)))"
proof -
  let ?x = "\<lparr>ri_Address = a, ri_Timestamp = now, ri_Location = l, ri_RefCnt = 1\<rparr>" and ?B = "blobs (cs_sharky c)"
  obtain y c1 where y: "ri_Put (c\<lparr>cs_sharky := k\<rparr>) ?x = (y, c1)" by fastforce
  have st: "store_ok (cs_sharky c)" and dec: "decodes (cs_store c)" and ix: "index_ok (entry (cs_store c)) ?B"
    using assms(1) by (simp_all add: cs_inv_def)
  have "small k" using put_index_small [OF assms(6,5)] by simp
  then have w: "store_ok k" "small (cs_sharky c)" "loc_ok l" "?B l = None" "blobs k = ?B(l \<mapsto> data)" using write_law [OF st assms(4)] by simp_all
  have ok: "item_ok ?x" using assms(3) w(3) by (simp add: item_ok_def)
  note p = ri_Put_cases [OF y ok]
  show ?thesis
  proof (cases y)
    case (Inl e)
    obtain u k' where u: "sk_Release K (cs_sharky c1) l = (u, k')" by fastforce
    have c': "c' = c1\<lparr>cs_sharky := k'\<rparr>" "r = Inl (ChunkJoined e u)" using assms(6) y Inl u by (simp_all add: put_index_def)
    have k': "store_ok k'" "blobs k' = (if u then ?B else ?B(l \<mapsto> data))"
      using release_law [OF w(1) _ _, of l data u k'] w(4,5) u p dec assms(5) c'(1) by (simp_all add: fun_upd_idem)
    then show ?thesis using index_extra [OF ix w(4), of data] w(2) p dec Inl c' ix by (cases u) (simp_all add: cs_defs)
  next
    case (Inr e)
    have c': "c' = c1" "r = Inr ()" using assms(6) y Inr by (simp_all add: put_index_def)
    show ?thesis using index_new [OF ix assms(2) w(4) assms(3) w(3) refl, of now data] w p dec Inr c' by (simp add: cs_defs)
  qed
qed

text \<open>What \<open>Put\<close> does to the counted chunks.\<close>

lemma put_outcome:
  assumes "cs_inv blobs store_ok c" "length a = HashSize" "chunk_Put K now c a data = (r, c')" "small (cs_sharky c')"
    "\<And>n b. cs_refs blobs c a = Some (n, b) \<Longrightarrow> n + 1 \<noteq> 0"
  shows "cs_inv blobs store_ok c' \<and> small (cs_sharky c) \<and>
    (case (r, cs_refs blobs c a) of
       (Inl _, _) \<Rightarrow> cs_refs blobs c' = cs_refs blobs c
     | (Inr _, None) \<Rightarrow> cs_refs blobs c' = (cs_refs blobs c)(a \<mapsto> (1, data))
     | (Inr _, Some (n, b)) \<Rightarrow> cs_refs blobs c' =
         (if st_fault (cs_store c) (Suc (st_tick (cs_store c))) then cs_refs blobs c else (cs_refs blobs c)(a \<mapsto> (n + 1, b))))"
proof -
  obtain g c1 where g: "ri_Get c a = (g, c1)" by fastforce
  note same = lookup_same [OF assms(1) g]
  have dec: "decodes (cs_store c)" using assms(1) by (simp add: cs_inv_def)
  from g dec show ?thesis
  proof (cases rule: ri_Get_cases)
    case (found x)
    obtain b where b: "cs_refs blobs c a = Some (ri_RefCnt x, b)" using refs_found [OF assms(1) found(2)] by blast
    obtain y c2 where y: "ri_Put c1 (x\<lparr>ri_RefCnt := ri_RefCnt x + 1\<rparr>) = (y, c2)" by fastforce
    have c': "r = Inr () \<and> c' = c2" using assms(3) g found(1) y by (auto simp: chunk_Put_def put_index_def Let_def split: sum.splits)
    have "cs_inv blobs store_ok c1" "entry (cs_store c1) a = Some x" using same found(2) by simp_all
    from recount [OF this assms(5) [OF b] y] ri_Get_tick [OF g [unfolded found(1)]] show ?thesis using same b c' assms(4) by (cases y) auto
  next
    case missing
    obtain w k where w: "sk_Write K (cs_sharky c1) data = (w, k)" by fastforce
    note none = refs_missing [OF missing(2)]
    show ?thesis
    proof (cases w)
      case None
      then have c': "r = Inl ChunkSharky" "c' = c1\<lparr>cs_sharky := k\<rparr>" using assms(3) g missing(1) w by (simp_all add: chunk_Put_def)
      have st: "store_ok (cs_sharky c)" using assms(1) by (simp add: cs_inv_def)
      have "sk_Write K (cs_sharky c) data = (None, k)" "small k" using w None same assms(4) c'(2) by simp_all
      note w = write_fail [OF st this]
      have ix: "index_ok (entry (cs_store c)) (blobs (cs_sharky c))" using assms(1) by (simp add: cs_inv_def)
      show ?thesis using w assms(1) same c' index_extra [OF ix] by (auto simp: cs_defs)
    next
      case (Some l)
      then have "put_index K (c1\<lparr>cs_sharky := k\<rparr>) \<lparr>ri_Address = a, ri_Timestamp = now, ri_Location = l, ri_RefCnt = 0\<rparr> False = (r, c')"
        using assms(3) g missing(1) w by (simp add: chunk_Put_def)
      from put_new [OF _ _ assms(2) _ assms(4) this] show ?thesis
        using same missing(2) w Some none by (auto split: sum.splits)
    qed
  next
    case (failed e)
    then have "r = Inl (ChunkIndex e) \<and> c' = c1" using assms(3) g by (cases e) (auto simp: chunk_Put_def)
    then show ?thesis using same assms(4) by auto
  qed
qed

text \<open>Where a new chunk is written, also in a store whose index has an entry without a blob.\<close>

lemma put_written:
  assumes "store_ok (cs_sharky c)" "decodes (cs_store c)" "entry (cs_store c) a = None" "length a = HashSize"
    "chunk_Put K now c a data = (Inr (), c')" "small (cs_sharky c')"
  shows "\<exists>y. store_ok (cs_sharky c') \<and> decodes (cs_store c') \<and> entry (cs_store c') = (entry (cs_store c))(a \<mapsto> y) \<and>
    blobs (cs_sharky c') (ri_Location y) = Some data"
proof -
  obtain g c1 where g: "ri_Get c a = (g, c1)" by fastforce
  note same = ri_Get_same [OF g]
  from g assms(2) show ?thesis
  proof (cases rule: ri_Get_cases)
    case missing
    obtain w k where w: "sk_Write K (cs_sharky c1) data = (w, k)" by fastforce
    obtain l where l: "w = Some l" using assms(5) g missing(1) w by (cases w) (simp_all add: chunk_Put_def)
    let ?y = "\<lparr>ri_Address = a, ri_Timestamp = now, ri_Location = l, ri_RefCnt = 1\<rparr>"
    obtain z c2 where z: "ri_Put (c1\<lparr>cs_sharky := k\<rparr>) ?y = (z, c2)" by fastforce
    have zr: "\<exists>u. z = Inr u" "c' = c2"
      using assms(5) g missing(1) w l z by (auto simp: chunk_Put_def put_index_def split: sum.splits prod.splits)
    have k: "cs_sharky c2 = k" using z by (auto simp: ri_Put_def split: prod.splits)
    have law: "store_ok k \<and> loc_ok l \<and> blobs k = (blobs (cs_sharky c))(l \<mapsto> data)"
      using write_law [OF assms(1), of data l k] w l same k zr(2) assms(6) by simp
    then have "item_ok ?y" using assms(4) by (simp add: item_ok_def)
    then have "decodes (cs_store c2) \<and> entry (cs_store c2) = (entry (cs_store c))(a \<mapsto> ?y)"
      using ri_Put_cases [OF z] zr(1) same assms(2) by auto
    then show ?thesis using law k zr(2) by (intro exI [of _ ?y]) simp
  qed (use assms(3,5) g in \<open>auto simp: chunk_Put_def split: item_error.splits\<close>)
qed

text \<open>A read of an entry follows its location, whatever was written there.\<close>

lemma get_follows:
  assumes "store_ok (cs_sharky c)" "decodes (cs_store c)" "entry (cs_store c) a = Some x" "ri_Address x = a"
    "blobs (cs_sharky c) (ri_Location x) = Some b" "chunk_Get K c a = (r, c')"
  shows "r = Inr (a, b) \<or> r = Inl ChunkSharky \<or> (\<exists>e. r = Inl (ChunkIndex e) \<and> e \<noteq> ItemNotFound)"
proof -
  obtain g c1 where g: "ri_Get c a = (g, c1)" by fastforce
  have same: "cs_sharky c1 = cs_sharky c" using ri_Get_same [OF g] by simp
  from g assms(2) show ?thesis
  proof (cases rule: ri_Get_cases)
    case (found z)
    obtain v k where v: "sk_Read K (cs_sharky c1) (ri_Location x) = (v, k)" by fastforce
    have "v \<in> {None, Some b}" using read_law [OF assms(1) v [unfolded same], of b] assms(5) by blast
    then show ?thesis using assms(3,4,6) g found v by (auto simp: chunk_Get_def readChunk_def)
  qed (use assms(3,6) g in \<open>auto simp: chunk_Get_def\<close>)
qed

text \<open>A failed deletion of a last reference leaves an entry for whatever is written to the freed location.\<close>

lemma failed_delete_leaves:
  assumes "cs_inv blobs store_ok c" "entry (cs_store c) a = Some x" "chunk_Delete K c a = (Inl e, c1)" "cs_refs blobs c1 \<noteq> cs_refs blobs c"
    "entry (cs_store c1) a' = None" "length a' = HashSize" "chunk_Put K now c1 a' data = (Inr (), c2)" "small (cs_sharky c2)" "small (cs_sharky c1)"
    "map_option ri_Location (entry (cs_store c2) a') = Some (ri_Location x)" "chunk_Get K c2 a = (r, c3)"
  shows "r = Inr (a, data) \<or> r = Inl ChunkSharky \<or> (\<exists>e. r = Inl (ChunkIndex e) \<and> e \<noteq> ItemNotFound)"
proof -
  have e1: "entry (cs_store c1) = entry (cs_store c)" using delete_outcome [OF assms(1,3,9)] assms(4) by auto
  note f = delete_frame [OF assms(1,3,9)]
  obtain y where y: "store_ok (cs_sharky c2)" "decodes (cs_store c2)" "entry (cs_store c2) = (entry (cs_store c1))(a' \<mapsto> y)"
    "blobs (cs_sharky c2) (ri_Location y) = Some data"
    using put_written [OF _ _ assms(5-8)] f by blast
  have "a \<noteq> a'" using assms(2,5) e1 by auto
  then have "entry (cs_store c2) a = Some x" "blobs (cs_sharky c2) (ri_Location x) = Some data" using y(3,4) e1 assms(2,10) by auto
  from get_follows [OF y(1,2) this(1) entry_facts(2) [OF assms(1,2)] this(2) assms(11)] show ?thesis .
qed

end

section \<open>A new store\<close>

abbreviation chunk_ok :: "sharky_driver chunkstore \<Rightarrow> bool" where
  "chunk_ok \<equiv> cs_inv driver_blobs driver_ok"

abbreviation chunk_refs :: "sharky_driver chunkstore \<Rightarrow> address \<rightharpoonup> u32 \<times> bytes" where
  "chunk_refs \<equiv> cs_refs driver_blobs"

lemma chunk_ok_new:
  assumes "sharky_New d (replicate n (Some [], Some [])) 0 = Some (Some shards)" "0 < n" "n \<le> 256" "d < 2 ^ 16"
    and "st_kv db = Map.empty" "sd_confs k = opened shards"
  shows "chunk_ok \<lparr>cs_store = db, cs_sharky = k\<rparr>"
proof -
  have "driver_ok k" using opened_inv [OF assms(1)] assms(2-4,6) by (auto simp: driver_ok_def opened_def)
  then show ?thesis using assms(5) by (simp add: cs_inv_def decodes_def entry_def index_ok_def)
qed

definition demo_driver :: sharky_driver where
  "demo_driver = \<lparr>sd_confs = [(demo_sh0, Map.empty, {})], sd_choice = \<lambda>_. 0, sd_fault = \<lambda>_. None, sd_tick = 0\<rparr>"

definition demo_cs :: "(nat \<Rightarrow> bool) \<Rightarrow> sharky_driver chunkstore" where
  "demo_cs f = \<lparr>cs_store = \<lparr>st_kv = Map.empty, st_keys = [], st_tick = 0, st_fault = f\<rparr>, cs_sharky = demo_driver\<rparr>"

definition demo_item :: "byte \<Rightarrow> RetrievalIndexItem" where
  "demo_item w = \<lparr>ri_Address = replicate 32 w, ri_Timestamp = 5, ri_Location = \<lparr>lo_Shard = 0, lo_Slot = 0, lo_Length = 2\<rparr>, ri_RefCnt = 1\<rparr>"

definition demo_key :: "byte \<Rightarrow> string" where
  "demo_key w = item_key ri_Namespace (ri_ID (replicate 32 w))"

lemma demo_cs_ok: "chunk_ok (demo_cs f)"
  unfolding demo_cs_def by (rule chunk_ok_new [OF demo_store]) (simp_all add: demo_driver_def opened_def)

text \<open>The store with two bytes in slot 0, and after their release.\<close>

definition demo_full :: "bytes \<Rightarrow> nat \<Rightarrow> sharky_driver" where
  "demo_full b t = demo_driver\<lparr>sd_confs := [(demo_sh2\<lparr>ss_slot := None, ss_file := b\<rparr>, [0 \<mapsto> b], {})], sd_tick := t\<rparr>"

definition demo_freed :: "bytes \<Rightarrow> nat \<Rightarrow> sharky_driver" where
  "demo_freed b t = demo_driver\<lparr>sd_confs := [(demo_sh0\<lparr>ss_slots := \<lparr>sl_data = [255], sl_size = 8, sl_head = 0\<rparr>, ss_file := b\<rparr>, Map.empty, {})], sd_tick := t\<rparr>"

lemmas demo_driver_defs = demo_driver_def demo_full_def demo_freed_def demo_item_def

lemma demo_take: "sh_take demo_sh0 = Some demo_sh2"
  "sh_take (demo_sh0\<lparr>ss_slots := \<lparr>sl_data = [255], sl_size = 8, sl_head = 0\<rparr>, ss_file := b\<rparr>) = Some (demo_sh2\<lparr>ss_file := b\<rparr>)"
proof -
  have "ss_slot demo_sh0 = None" "ss_pending demo_sh0 = None" "ss_pending demo_sh1 = Some 0" by (simp_all add: demo_sh1_def demo_sh0_def)
  then show "sh_take demo_sh0 = Some demo_sh2" by (simp add: sh_take_def demo_pop demo_sh2_def)
  show "sh_take (demo_sh0\<lparr>ss_slots := \<lparr>sl_data = [255], sl_size = 8, sl_head = 0\<rparr>, ss_file := b\<rparr>) = Some (demo_sh2\<lparr>ss_file := b\<rparr>)"
    by (simp add: sh_take_def sp_pop_def sl_pop_def sl_next_def to_u32_def demo_next demo_sh2_def demo_sh1_def demo_sh0_def)
qed

lemmas demo_take_eval = demo_take [unfolded demo_sh2_def demo_sh1_def demo_sh0_def, simplified]

lemma demo_writes:
  "sharky_Write demo_driver [x, y] = (Some (ri_Location (demo_item w)), demo_full [x, y] 1)"
  "length b = 2 \<Longrightarrow> sharky_Write (demo_freed b t) [x, y] = (Some (ri_Location (demo_item w)), demo_full [x, y] (Suc t))"
  by (simp_all add: sharky_Write_def demo_driver_defs demo_take_eval sharky_Write_accepts_def demo_defs)

lemma demo_release: "length b = 2 \<Longrightarrow> sharky_Release (demo_full b t) (ri_Location (demo_item w)) = (True, demo_freed b (Suc t))"
  by (simp add: sharky_Release_def demo_driver_defs sp_push_def sl_push_def demo_defs)

lemma demo_fetch: "length b = 2 \<Longrightarrow> sharky_Fetch (demo_full b t) (ri_Location (demo_item w)) = (Some b, demo_full b (Suc t))"
  by (simp add: sharky_Fetch_def sharky_Read_def sh_read_def file_ReadAt_def demo_driver_defs demo_defs)

definition demo_value :: "byte \<Rightarrow> bytes" where
  "demo_value w = the (ri_Marshal (demo_item w))"

lemma demo_value: "ri_Marshal (demo_item w) = Some (demo_value w)" "ri_Unmarshal (demo_value w) = Some (demo_item w)"
proof -
  have "item_ok (demo_item w)" by (simp add: item_ok_def demo_item_def loc_ok_def HashSize_def)
  from item_roundtrip [OF this] obtain v where v: "ri_Marshal (demo_item w) = Some v" "ri_Unmarshal v = Some (demo_item w)" by blast
  then show "ri_Marshal (demo_item w) = Some (demo_value w)" "ri_Unmarshal (demo_value w) = Some (demo_item w)" by (simp_all add: demo_value_def)
qed

lemma demo_key_inj [simp]: "demo_key v = demo_key w \<longleftrightarrow> v = w"
  by (simp add: demo_key_def)

text \<open>The index operations on the two addresses, by the state of the item store.\<close>

lemma demo_lookup:
  assumes "\<not> st_fault db (st_tick db)"
  shows "st_kv db (demo_key w) = Some (demo_value w) \<Longrightarrow> ri_Get \<lparr>cs_store = db, cs_sharky = k\<rparr> (replicate 32 w) =
      (Inr (demo_item w), \<lparr>cs_store = db\<lparr>st_tick := Suc (st_tick db)\<rparr>, cs_sharky = k\<rparr>)"
    and "st_kv db (demo_key w) = None \<Longrightarrow> ri_Get \<lparr>cs_store = db, cs_sharky = k\<rparr> (replicate 32 w) =
      (Inl ItemNotFound, \<lparr>cs_store = db\<lparr>st_tick := Suc (st_tick db)\<rparr>, cs_sharky = k\<rparr>)"
  using assms unfolding demo_key_def by (simp_all add: ri_Get_def ls_Get_def st_Get_def st_step_def demo_value)

lemma demo_store_item:
  assumes "\<not> st_fault db (st_tick db)"
  obtains db' where "ri_Put \<lparr>cs_store = db, cs_sharky = k\<rparr> (demo_item w) = (Inr (), \<lparr>cs_store = db', cs_sharky = k\<rparr>)"
    "st_kv db' = (st_kv db)(demo_key w \<mapsto> demo_value w)" "st_tick db' = Suc (st_tick db)" "st_fault db' = st_fault db"
proof -
  have "ri_Address (demo_item w) = replicate 32 w" by (simp add: demo_item_def)
  then show thesis using that assms unfolding demo_key_def
    by (simp add: ri_Put_def ls_Put_def demo_value st_Put_def st_step_def)
qed

lemma demo_put:
  assumes "\<not> st_fault db (st_tick db)" "\<not> st_fault db (Suc (st_tick db))" "st_kv db (demo_key w) = None"
    and "sk_Write K k data = (Some (ri_Location (demo_item w)), k')"
  obtains db' where "chunk_Put K 5 \<lparr>cs_store = db, cs_sharky = k\<rparr> (replicate 32 w) data = (Inr (), \<lparr>cs_store = db', cs_sharky = k'\<rparr>)"
    "st_kv db' = (st_kv db)(demo_key w \<mapsto> demo_value w)" "st_tick db' = Suc (Suc (st_tick db))" "st_fault db' = st_fault db"
proof -
  let ?db = "db\<lparr>st_tick := Suc (st_tick db)\<rparr>"
  have "\<not> st_fault ?db (st_tick ?db)" using assms(2) by simp
  from demo_store_item [OF this, of k' w] obtain db' where db':
    "ri_Put \<lparr>cs_store = ?db, cs_sharky = k'\<rparr> (demo_item w) = (Inr (), \<lparr>cs_store = db', cs_sharky = k'\<rparr>)"
    "st_kv db' = (st_kv db)(demo_key w \<mapsto> demo_value w)" "st_tick db' = Suc (Suc (st_tick db))" "st_fault db' = st_fault db" by auto
  have "\<lparr>ri_Address = replicate 32 w, ri_Timestamp = 5, ri_Location = ri_Location (demo_item w), ri_RefCnt = 1\<rparr> = demo_item w" by (simp add: demo_item_def)
  with db'(1) have "chunk_Put K 5 \<lparr>cs_store = db, cs_sharky = k\<rparr> (replicate 32 w) data = (Inr (), \<lparr>cs_store = db', cs_sharky = k'\<rparr>)"
    using demo_lookup(2) [OF assms(1,3), of k] assms(4) by (simp add: chunk_Put_def put_index_def)
  then show thesis using db' that by blast
qed

lemma demo_delete:
  assumes "\<not> st_fault db (st_tick db)" "st_kv db (demo_key w) = Some (demo_value w)"
    and "sk_Release K k (ri_Location (demo_item w)) = (True, k')"
  obtains db' where "chunk_Delete K \<lparr>cs_store = db, cs_sharky = k\<rparr> (replicate 32 w) =
      (if st_fault db (Suc (st_tick db)) then Inl (ChunkIndex ItemIO) else Inr (), \<lparr>cs_store = db', cs_sharky = k'\<rparr>)"
    "st_kv db' = (if st_fault db (Suc (st_tick db)) then st_kv db else (st_kv db)(demo_key w := None))"
    "st_tick db' = Suc (Suc (st_tick db))" "st_fault db' = st_fault db"
proof -
  have "ri_RefCnt (demo_item w) = 1" "ri_Address (demo_item w) = replicate 32 w" by (simp_all add: demo_item_def)
  then show thesis using that demo_lookup(1) [OF assms(1,2), of k] assms(3) ns_nonempty unfolding demo_key_def
    by (cases "st_fault db (Suc (st_tick db))")
      (simp_all add: chunk_Delete_def Let_def ri_Delete_def ls_Delete_def st_Delete_def st_step_def)
qed

lemma demo_get:
  assumes "\<not> st_fault db (st_tick db)" "st_kv db (demo_key w) = Some (demo_value w)"
    and "sharky_Fetch k (ri_Location (demo_item w)) = (Some b, k')"
  shows "\<exists>c. chunk_Get sharky_store \<lparr>cs_store = db, cs_sharky = k\<rparr> (replicate 32 w) = (Inr (replicate 32 w, b), c)"
  using demo_lookup(1) [OF assms(1,2), of k] assms(3)
  by (simp add: chunk_Get_def readChunk_def sharky_store_def) (simp add: demo_item_def)

lemma demo_cs_put:
  assumes "\<not> f 0" "\<not> f 1"
  obtains db where "chunk_Put sharky_store 5 (demo_cs f) (replicate 32 w) [x, y] = (Inr (), \<lparr>cs_store = db, cs_sharky = demo_full [x, y] 1\<rparr>)"
    "st_kv db = [demo_key w \<mapsto> demo_value w]" "st_tick db = 2" "st_fault db = f"
proof (rule demo_put [of "cs_store (demo_cs f)" w sharky_store demo_driver "[x, y]" "demo_full [x, y] 1"])
  show "sk_Write sharky_store demo_driver [x, y] = (Some (ri_Location (demo_item w)), demo_full [x, y] 1)" using demo_writes(1) [of x y w] by (simp add: sharky_store_def)
qed (use assms that in \<open>simp_all add: demo_cs_def numeral_2_eq_2\<close>)

lemma demo_full_small: "store_small (sd_confs (demo_full b t))" "store_small (sd_confs (demo_freed b t))"
  by (simp_all add: store_small_def conf_cap_def slots_cap_def demo_driver_defs demo_sh2_def demo_sh1_def demo_sh0_def)

section \<open>Properties\<close>

text \<open>C9: Storing a chunk counts a reference. On the sharded store with shards of fewer than \<open>2\<^sup>3\<^sup>2\<close> slots, in a consistent state, for a
  32-byte address that has fewer than the largest number of references a 32-bit counter holds: a successful \<open>Put\<close> adds a missing chunk with its data and one reference; of a chunk that is stored
  already the data stays and the count grows by exactly one, unless the write of the index entry (the second operation of the item
  store in the call) fails, when the count stays and the error is not reported. A failed \<open>Put\<close> changes nothing. Whatever
  operations fail the invariant is kept: every entry of the index has a blob of its own.\<close>

theorem chunk_Put_correct:
  assumes "chunk_ok c" "length a = HashSize" "chunk_Put sharky_store now c a data = (r, c')" "store_small (sd_confs (cs_sharky c'))"
    "\<And>n b. chunk_refs c a = Some (n, b) \<Longrightarrow> n + 1 \<noteq> 0"
  shows "chunk_ok c' \<and>
    (case (r, chunk_refs c a) of
       (Inl _, _) \<Rightarrow> chunk_refs c' = chunk_refs c
     | (Inr _, None) \<Rightarrow> chunk_refs c' = (chunk_refs c)(a \<mapsto> (1, data))
     | (Inr _, Some (n, b)) \<Rightarrow> chunk_refs c' =
         (if st_fault (cs_store c) (Suc (st_tick (cs_store c))) then chunk_refs c else (chunk_refs c)(a \<mapsto> (n + 1, b))))"
  using sky.put_outcome [OF assms] by simp

lemma demo_cs_refs: "chunk_refs (demo_cs f) = Map.empty"
  by (simp add: cs_refs_def refs_def fun_eq_iff entry_def demo_cs_def)

text \<open>A chunk stored twice has two references.\<close>

lemma put_again:
  assumes "ri_Get c a = (Inr x, c1)"
  shows "\<exists>c'. chunk_Put K now c a data = (Inr (), c') \<and> cs_sharky c' = cs_sharky c"
  using assms by (auto simp: chunk_Put_def put_index_def Let_def ri_Get_def ri_Put_def split: prod.splits sum.splits)

theorem chunk_Put_correct_witness:
  "\<exists>c1 c2. chunk_Put sharky_store 5 (demo_cs (\<lambda>_. False)) (replicate 32 7) [1, 2] = (Inr (), c1) \<and>
     chunk_Put sharky_store 5 c1 (replicate 32 7) [1, 2] = (Inr (), c2) \<and>
     chunk_ok c1 \<and> chunk_refs c1 = [replicate 32 7 \<mapsto> (1, [1, 2])] \<and> chunk_ok c2 \<and> chunk_refs c2 = [replicate 32 7 \<mapsto> (2, [1, 2])]"
proof -
  let ?f = "\<lambda>_::nat. False"
  obtain db where p: "chunk_Put sharky_store 5 (demo_cs ?f) (replicate 32 7) [1, 2] = (Inr (), \<lparr>cs_store = db, cs_sharky = demo_full [1, 2] 1\<rparr>)"
    and db: "st_kv db = [demo_key 7 \<mapsto> demo_value 7]" "st_tick db = 2" "st_fault db = ?f"
    by (rule demo_cs_put [of ?f 7 1 2]) auto
  let ?c = "\<lparr>cs_store = db, cs_sharky = demo_full [1, 2] 1\<rparr>"
  have c: "chunk_ok ?c" "chunk_refs ?c = [replicate 32 7 \<mapsto> (1, [1, 2])]"
    using chunk_Put_correct [OF demo_cs_ok _ p] demo_full_small(1) [of "[1, 2]" 1] by (simp_all add: demo_cs_refs HashSize_def)
  obtain c2 where q: "chunk_Put sharky_store 5 ?c (replicate 32 7) [1, 2] = (Inr (), c2)" "cs_sharky c2 = demo_full [1, 2] 1"
  proof -
    from put_again [OF demo_lookup(1) [of db 7 "demo_full [1, 2] 1"], of sharky_store 5 "[1, 2]"] db
    show thesis using that by auto
  qed
  have "chunk_ok c2 \<and> chunk_refs c2 = [replicate 32 7 \<mapsto> (2, [1, 2])]"
    using chunk_Put_correct [OF c(1) _ q(1)] q(2) c(2) db(3) demo_full_small(1) [of "[1, 2]" 1] by (simp add: HashSize_def)
  with p c q(1) show ?thesis by blast
qed

text \<open>C10: Deleting a chunk gives up a reference. A successful \<open>Delete\<close> of a stored chunk takes one from its count, and
  with the last reference removes the chunk; a missing chunk is no error. A failed one changes nothing, except that when the
  last reference is deleted the blob may be gone while the entry of the index remains.\<close>

theorem chunk_Delete_correct:
  assumes "chunk_ok c" "chunk_Delete sharky_store c a = (r, c')" "store_small (sd_confs (cs_sharky c'))"
  shows "case (r, chunk_refs c a) of
       (Inl _, x) \<Rightarrow> (chunk_ok c' \<and> chunk_refs c' = chunk_refs c) \<or>
         (\<exists>b. x = Some (1, b) \<and> entry (cs_store c') = entry (cs_store c) \<and> chunk_refs c' = (chunk_refs c)(a := None))
     | (Inr _, None) \<Rightarrow> chunk_ok c' \<and> chunk_refs c' = chunk_refs c
     | (Inr _, Some (n, b)) \<Rightarrow> chunk_ok c' \<and> chunk_refs c' = (chunk_refs c)(a := if n = 1 then None else Some (n - 1, b))"
  by (rule sky.delete_outcome [OF assms])

theorem chunk_Delete_correct_witness:
  "\<exists>c c'. chunk_refs c = [replicate 32 7 \<mapsto> (1, [1, 2])] \<and> chunk_Delete sharky_store c (replicate 32 7) = (Inr (), c') \<and>
     chunk_ok c' \<and> chunk_refs c' = Map.empty"
proof -
  let ?f = "\<lambda>_::nat. False"
  obtain db where p: "chunk_Put sharky_store 5 (demo_cs ?f) (replicate 32 7) [1, 2] = (Inr (), \<lparr>cs_store = db, cs_sharky = demo_full [1, 2] 1\<rparr>)"
    and db: "st_kv db = [demo_key 7 \<mapsto> demo_value 7]" "st_tick db = 2" "st_fault db = ?f"
    by (rule demo_cs_put [of ?f 7 1 2]) auto
  let ?c = "\<lparr>cs_store = db, cs_sharky = demo_full [1, 2] 1\<rparr>"
  have c: "chunk_ok ?c" "chunk_refs ?c = [replicate 32 7 \<mapsto> (1, [1, 2])]"
    using sky.put_outcome [OF demo_cs_ok _ p] demo_full_small(1) [of "[1, 2]" 1] by (simp_all add: demo_cs_refs HashSize_def)
  obtain db' where d: "chunk_Delete sharky_store ?c (replicate 32 7) = (Inr (), \<lparr>cs_store = db', cs_sharky = demo_freed [1, 2] 2\<rparr>)"
    using demo_delete [of db 7 sharky_store "demo_full [1, 2] 1" "demo_freed [1, 2] 2"] demo_release [of "[1, 2]" 1 7] db by (auto simp: numeral_2_eq_2 sharky_store_def)
  show ?thesis using chunk_Delete_correct [OF c(1) d] c(2) d demo_full_small(2) [of "[1, 2]" 2] by auto
qed

text \<open>C11: Reading a chunk gives back what was stored. \<open>Get\<close> changes nothing; when it succeeds the chunk has the address asked
  for and exactly the data stored under it, and it reports a chunk as missing only when it is.\<close>

theorem chunk_Get_correct:
  assumes "chunk_ok c" "chunk_Get sharky_store c a = (r, c')"
  shows "chunk_ok c' \<and> chunk_refs c' = chunk_refs c \<and>
    (case r of Inr (a', b) \<Rightarrow> a' = a \<and> (\<exists>n. chunk_refs c a = Some (n, b))
     | Inl e \<Rightarrow> e = ChunkIndex ItemNotFound \<longrightarrow> chunk_refs c a = None)"
  by (rule sky.get_outcome [OF assms])

theorem chunk_Get_correct_witness:
  "\<exists>c c' n. chunk_Get sharky_store c (replicate 32 7) = (Inr (replicate 32 7, [1, 2]), c') \<and> chunk_ok c' \<and>
     chunk_refs c (replicate 32 7) = Some (n, [1, 2])"
proof -
  let ?f = "\<lambda>_::nat. False"
  obtain db where p: "chunk_Put sharky_store 5 (demo_cs ?f) (replicate 32 7) [1, 2] = (Inr (), \<lparr>cs_store = db, cs_sharky = demo_full [1, 2] 1\<rparr>)"
    and db: "st_kv db = [demo_key 7 \<mapsto> demo_value 7]" "st_tick db = 2" "st_fault db = ?f"
    by (rule demo_cs_put [of ?f 7 1 2]) auto
  let ?c = "\<lparr>cs_store = db, cs_sharky = demo_full [1, 2] 1\<rparr>"
  have c: "chunk_ok ?c" using sky.put_outcome [OF demo_cs_ok _ p] demo_full_small(1) [of "[1, 2]" 1] by (simp add: demo_cs_refs HashSize_def)
  obtain c' where g: "chunk_Get sharky_store ?c (replicate 32 7) = (Inr (replicate 32 7, [1, 2]), c')"
    using demo_get [of db 7 "demo_full [1, 2] 1" "[1, 2]"] demo_fetch [of "[1, 2]" 1 7] db by auto
  show ?thesis using chunk_Get_correct [OF c g] g by auto
qed

text \<open>C39: A failed deletion can expose another chunk. \<open>Delete\<close> releases the blob of a last reference before it deletes the
  entry; when the deletion of the entry then fails (\<open>Delete\<close> reports an error and the counted chunks have changed), and the next \<open>Put\<close>, of a missing
  chunk, gets the freed location, then \<open>Get\<close> of the old address does not report a missing chunk: unless the read of the
  index or of the blob fails, it returns the data of the new chunk under the old address.\<close>

theorem failed_delete_exposes:
  assumes "chunk_ok c" "entry (cs_store c) a = Some x" "chunk_Delete sharky_store c a = (Inl e, c1)" "chunk_refs c1 \<noteq> chunk_refs c"
    and "entry (cs_store c1) a' = None" "length a' = HashSize" "chunk_Put sharky_store now c1 a' data = (Inr (), c2)"
    and "store_small (sd_confs (cs_sharky c2))" "store_small (sd_confs (cs_sharky c1))"
    and "map_option ri_Location (entry (cs_store c2) a') = Some (ri_Location x)" "chunk_Get sharky_store c2 a = (r, c3)"
  shows "r = Inr (a, data) \<or> r = Inl ChunkSharky \<or> (\<exists>e. r = Inl (ChunkIndex e) \<and> e \<noteq> ItemNotFound)"
  by (rule sky.failed_delete_leaves [OF assms])

lemma demo_entry: "st_kv db (demo_key w) = Some (demo_value w) \<Longrightarrow> entry db (replicate 32 w) = Some (demo_item w)"
  "st_kv db (demo_key w) = None \<Longrightarrow> entry db (replicate 32 w) = None"
  by (simp_all add: entry_def flip: demo_key_def) (simp add: demo_value)

theorem failed_delete_exposes_witness:
  "\<exists>c1 c2 c3 c4. chunk_Put sharky_store 5 (demo_cs (\<lambda>t. t = 3)) (replicate 32 7) [1, 2] = (Inr (), c1) \<and>
     chunk_Delete sharky_store c1 (replicate 32 7) = (Inl (ChunkIndex ItemIO), c2) \<and>
     chunk_Put sharky_store 5 c2 (replicate 32 8) [3, 4] = (Inr (), c3) \<and>
     chunk_Get sharky_store c3 (replicate 32 7) = (Inr (replicate 32 7, [3, 4]), c4)"
proof -
  let ?f = "\<lambda>t::nat. t = 3"
  obtain db1 where p: "chunk_Put sharky_store 5 (demo_cs ?f) (replicate 32 7) [1, 2] = (Inr (), \<lparr>cs_store = db1, cs_sharky = demo_full [1, 2] 1\<rparr>)"
    and db1: "st_kv db1 = [demo_key 7 \<mapsto> demo_value 7]" "st_tick db1 = 2" "st_fault db1 = ?f"
    by (rule demo_cs_put [of ?f 7 1 2]) auto
  let ?c1 = "\<lparr>cs_store = db1, cs_sharky = demo_full [1, 2] 1\<rparr>"
  have c1: "chunk_ok ?c1" "chunk_refs ?c1 = [replicate 32 7 \<mapsto> (1, [1, 2])]"
    using sky.put_outcome [OF demo_cs_ok _ p] demo_full_small(1) [of "[1, 2]" 1] by (simp_all add: demo_cs_refs HashSize_def)
  obtain db2 where d: "chunk_Delete sharky_store ?c1 (replicate 32 7) =
      (Inl (ChunkIndex ItemIO), \<lparr>cs_store = db2, cs_sharky = demo_freed [1, 2] 2\<rparr>)"
    and db2: "st_kv db2 = [demo_key 7 \<mapsto> demo_value 7]" "st_tick db2 = 4" "st_fault db2 = ?f"
    by (rule demo_delete [of db1 7 sharky_store "demo_full [1, 2] 1" "demo_freed [1, 2] 2"]) (use db1 demo_release [of "[1, 2]" 1 7] in \<open>simp_all add: eval_nat_numeral sharky_store_def\<close>)
  let ?c2 = "\<lparr>cs_store = db2, cs_sharky = demo_freed [1, 2] 2\<rparr>"
  obtain db3 where q: "chunk_Put sharky_store 5 ?c2 (replicate 32 8) [3, 4] = (Inr (), \<lparr>cs_store = db3, cs_sharky = demo_full [3, 4] 3\<rparr>)"
    and db3: "st_kv db3 = [demo_key 7 \<mapsto> demo_value 7, demo_key 8 \<mapsto> demo_value 8]" "st_tick db3 = 6" "st_fault db3 = ?f"
    using demo_put [of db2 8 sharky_store "demo_freed [1, 2] 2" "[3, 4]" "demo_full [3, 4] 3"] demo_writes(2) [of "[1, 2]" 2 3 4 8] db2 by (auto simp: sharky_store_def)
  let ?c3 = "\<lparr>cs_store = db3, cs_sharky = demo_full [3, 4] 3\<rparr>"
  have lost: "chunk_refs ?c2 \<noteq> chunk_refs ?c1"
  proof
    assume "chunk_refs ?c2 = chunk_refs ?c1"
    then have "chunk_refs ?c2 (replicate 32 7) \<noteq> None" using c1(2) by simp
    then show False using demo_entry(1) [of db2 7] db2(1)
      by (simp add: cs_refs_def refs_def driver_blobs_def demo_freed_def demo_item_def)
  qed
  have loc: "ri_Location (demo_item v) = ri_Location (demo_item w)" for v w by (simp add: demo_item_def)
  obtain r c4 where g: "chunk_Get sharky_store ?c3 (replicate 32 7) = (r, c4)" by fastforce
  have "r = Inr (replicate 32 7, [3, 4]) \<or> r = Inl ChunkSharky \<or> (\<exists>e. r = Inl (ChunkIndex e) \<and> e \<noteq> ItemNotFound)"
    by (rule failed_delete_exposes [OF c1(1) _ d lost _ _ q _ _ _ g, of "demo_item 7"])
      (use db1 db2 db3 demo_entry(1) [of db1 7] demo_entry(2) [of db2 8] demo_entry(1) [of db3 8] demo_full_small loc [of 8 7] in \<open>simp_all add: HashSize_def\<close>)
  moreover have "\<not> isl r"
    using demo_get [of db3 7 "demo_full [3, 4] 3" "[3, 4]"] demo_fetch [of "[3, 4]" 3 7] db3 g by auto
  ultimately have "r = Inr (replicate 32 7, [3, 4])" by auto
  with p d q g show ?thesis by blast
qed

text \<open>An update of a count that fails is not reported: after two successful calls of \<open>Put\<close> one \<open>Delete\<close> removes
  the chunk.\<close>

lemma put_swallows_error:
  "\<exists>c1 c2 c3 c4. chunk_Put sharky_store 5 (demo_cs (\<lambda>t. t = 3)) (replicate 32 7) [1, 2] = (Inr (), c1) \<and>
     chunk_Put sharky_store 5 c1 (replicate 32 7) [1, 2] = (Inr (), c2) \<and>
     chunk_Delete sharky_store c2 (replicate 32 7) = (Inr (), c3) \<and>
     chunk_Get sharky_store c3 (replicate 32 7) = (Inl (ChunkIndex ItemNotFound), c4)"
proof -
  let ?f = "\<lambda>t::nat. t = 3" and ?k = "demo_full [1, 2] 1"
  obtain db1 where p: "chunk_Put sharky_store 5 (demo_cs ?f) (replicate 32 7) [1, 2] = (Inr (), \<lparr>cs_store = db1, cs_sharky = ?k\<rparr>)"
    and db1: "st_kv db1 = [demo_key 7 \<mapsto> demo_value 7]" "st_tick db1 = 2" "st_fault db1 = ?f"
    by (rule demo_cs_put [of ?f 7 1 2]) auto
  let ?db2 = "db1\<lparr>st_tick := 4\<rparr>"
  have "fst (ri_Put \<lparr>cs_store = db1\<lparr>st_tick := 3\<rparr>, cs_sharky = ?k\<rparr> x) = Inl e \<and>
      snd (ri_Put \<lparr>cs_store = db1\<lparr>st_tick := 3\<rparr>, cs_sharky = ?k\<rparr> x) = \<lparr>cs_store = ?db2, cs_sharky = ?k\<rparr>"
    if "ri_Marshal x \<noteq> None" "e = ItemIO" for x e
    using that db1 by (auto simp: ri_Put_def ls_Put_def st_Put_def st_step_def)
  moreover have "ri_Marshal (demo_item 7\<lparr>ri_RefCnt := 2\<rparr>) \<noteq> None"
    using item_roundtrip [of "demo_item 7\<lparr>ri_RefCnt := 2\<rparr>"] by (auto simp: item_ok_def demo_item_def loc_ok_def HashSize_def)
  ultimately have "ri_Put \<lparr>cs_store = db1\<lparr>st_tick := 3\<rparr>, cs_sharky = ?k\<rparr> (demo_item 7\<lparr>ri_RefCnt := 2\<rparr>) = (Inl ItemIO, \<lparr>cs_store = ?db2, cs_sharky = ?k\<rparr>)"
    by (simp add: prod_eq_iff)
  then have q: "chunk_Put sharky_store 5 \<lparr>cs_store = db1, cs_sharky = ?k\<rparr> (replicate 32 7) [1, 2] = (Inr (), \<lparr>cs_store = ?db2, cs_sharky = ?k\<rparr>)"
    using demo_lookup(1) [of db1 7 ?k] db1 by (simp add: chunk_Put_def put_index_def) (simp add: demo_item_def)
  obtain db3 where d: "chunk_Delete sharky_store \<lparr>cs_store = ?db2, cs_sharky = ?k\<rparr> (replicate 32 7) = (Inr (), \<lparr>cs_store = db3, cs_sharky = demo_freed [1, 2] 2\<rparr>)"
    and db3: "st_kv db3 = Map.empty" "st_tick db3 = 6" "st_fault db3 = ?f"
    by (rule demo_delete [of ?db2 7 sharky_store ?k "demo_freed [1, 2] 2"]) (use db1 demo_release [of "[1, 2]" 1 7] in \<open>simp_all add: eval_nat_numeral sharky_store_def\<close>)
  have "\<exists>c. chunk_Get sharky_store \<lparr>cs_store = db3, cs_sharky = demo_freed [1, 2] 2\<rparr> (replicate 32 7) = (Inl (ChunkIndex ItemNotFound), c)"
    using demo_lookup(2) [of db3 7 "demo_freed [1, 2] 2"] db3 by (simp add: chunk_Get_def)
  with p q d show ?thesis by blast
qed

end
