(* ===== verification/TxProps.thy ===== *)
theory TxProps
  imports Transactions ChunkProps
begin

text \<open>
  Properties of transactions. What an item must satisfy for its reverse operations is the locale
  \<open>tx_items\<close>, interpreted on the entries of the retrieval index. A transaction is a sequence of calls, of which any
  may fail, and of cancellations of its context.
\<close>

section \<open>Reverting\<close>

fun undo_op :: "batch_op \<Rightarrow> (string \<rightharpoonup> bytes) \<Rightarrow> (string \<rightharpoonup> bytes)" where
  "undo_op (BatchPut k v) m = m(k \<mapsto> v)"
| "undo_op (BatchDelete k) m = m(k := None)"

abbreviation undo :: "batch_op list \<Rightarrow> (string \<rightharpoonup> bytes) \<Rightarrow> (string \<rightharpoonup> bytes)" where
  "undo b \<equiv> fold undo_op b"

lemma fold_batch_kv: "st_kv (fold batch_apply b db) = undo b (st_kv db)"
proof (induction b arbitrary: db)
  case (Cons op b)
  then show ?case by (cases op) (simp_all del: fun_upd_apply)
qed simp

lemma batch_apply_ok: "st_ok db \<Longrightarrow> st_ok (batch_apply op db)"
  by (cases op) (auto simp: st_ok_def set_insort_key sorted_insort sorted_removeAll distinct_insort distinct_removeAll)

text \<open>Reverting works key by key.\<close>

lemma undo_local: "m j = m' j \<Longrightarrow> undo b m j = undo b m' j"
proof (induction b arbitrary: m m')
  case (Cons op b)
  have "undo_op op m j = undo_op op m' j" using Cons.prems by (cases op) simp_all
  then show ?case using Cons.IH [of "undo_op op m" "undo_op op m'"] by simp
qed simp

section \<open>Runs of a transaction\<close>

datatype 'a tx_call = CallPut 'a | CallDelete 'a | CallCancel

definition ts_cancel :: "TxStore \<Rightarrow> TxStore" where
  "ts_cancel s = s\<lparr>tx_state := map_option (\<lambda>t. if tx_cause t = None then t\<lparr>tx_cause := Some CtxCanceled\<rparr> else t) (tx_state s)\<rparr>"

fun ts_call :: "batch_codec \<Rightarrow> 'a Item \<Rightarrow> 'a tx_call \<Rightarrow> TxStore \<Rightarrow> (tx_error + unit) \<times> TxStore" where
  "ts_call C I (CallPut x) s = ts_Put C I s x"
| "ts_call C I (CallDelete x) s = ts_Delete C I s x"
| "ts_call C I CallCancel s = (Inr (), ts_cancel s)"

fun ts_run :: "batch_codec \<Rightarrow> 'a Item \<Rightarrow> 'a tx_call list \<Rightarrow> TxStore \<Rightarrow> (tx_error + unit) list \<times> TxStore" where
  "ts_run C I [] s = ([], s)"
| "ts_run C I (c # cs) s = (case ts_call C I c s of (r, s) \<Rightarrow> (case ts_run C I cs s of (rs, s) \<Rightarrow> (r # rs, s)))"

fun call_keys :: "'a Item \<Rightarrow> 'a tx_call \<Rightarrow> string list" where
  "call_keys I (CallPut x) = [it_key I x]"
| "call_keys I (CallDelete x) = [it_key I x]"
| "call_keys I CallCancel = []"

text \<open>A deletion goes on when its read of the old value fails for another reason than a missing item; the item is then deleted
  without a reverse operation. These are the keys of such deletions, of one call and of a run.\<close>

definition unreadable :: "'a Item \<Rightarrow> TxStore \<Rightarrow> 'a \<Rightarrow> bool" where
  "unreadable I s x = (case fst (base_Get I s x) of Inl e \<Rightarrow> e \<noteq> TxItem ItemNotFound | Inr _ \<Rightarrow> False)"

fun lost_keys :: "'a Item \<Rightarrow> 'a tx_call \<Rightarrow> TxStore \<Rightarrow> tx_error + unit \<Rightarrow> string set" where
  "lost_keys I (CallDelete x) s r = (if TxState_IsDone (tx_state s) = None \<and> unreadable I s x \<and> \<not> isl r then {it_key I x} else {})"
| "lost_keys I _ s r = {}"

fun unrestorable :: "batch_codec \<Rightarrow> 'a Item \<Rightarrow> 'a tx_call list \<Rightarrow> TxStore \<Rightarrow> string set" where
  "unrestorable C I [] s = {}"
| "unrestorable C I (c # cs) s = (case ts_call C I c s of (r, s') \<Rightarrow> lost_keys I c s r \<union> unrestorable C I cs s')"

definition stored_ok :: "'a Item \<Rightarrow> ('a \<Rightarrow> bool) \<Rightarrow> (string \<rightharpoonup> bytes) \<Rightarrow> bool" where
  "stored_ok I valid m \<longleftrightarrow> (\<forall>x v. valid x \<longrightarrow> m (it_key I x) = Some v \<longrightarrow>
     (\<exists>p. it_Unmarshal I x v = Some p \<and> it_Marshal I p = Some v \<and> it_key I p = it_key I x))"

locale tx_items =
  fixes I :: "'a Item" and valid :: "'a \<Rightarrow> bool"
  assumes own_keys: "valid x \<Longrightarrow> it_Namespace I x \<noteq> [] \<and> \<not> prefix (pendingTxNamespace @ ''/'') (it_key I x)"
    and rereads: "valid x \<Longrightarrow> valid y \<Longrightarrow> it_key I y = it_key I x \<Longrightarrow> it_Marshal I x = Some v \<Longrightarrow>
      \<exists>p. it_Unmarshal I y v = Some p \<and> it_Marshal I p = Some v \<and> it_key I p = it_key I x"

text \<open>A transaction under way on the content \<open>m\<close>, with the keys of \<open>D\<close> written so far: outside \<open>D\<close> nothing has changed,
  and the reverse operations, all on keys of \<open>D\<close>, give back \<open>m\<close>.\<close>

fun op_key :: "batch_op \<Rightarrow> string" where
  "op_key (BatchPut k v) = k"
| "op_key (BatchDelete k) = k"

lemma restrict_UNIV [simp]: "m |` UNIV = m"
  by (simp add: restrict_map_def)

lemma undo_untouched: "k \<notin> op_key ` set b \<Longrightarrow> undo b m k = m k"
proof (induction b arbitrary: m)
  case (Cons op b)
  then show ?case by (cases op) simp_all
qed simp

definition tx_inv :: "string \<Rightarrow> (string \<rightharpoonup> bytes) \<Rightarrow> string set \<Rightarrow> TxStore \<Rightarrow> bool" where
  "tx_inv w m D s \<longleftrightarrow> (\<exists>t b. tx_state s = Some t \<and> tx_cause t \<noteq> Some ErrTxDone \<and> tx_bound s \<and> \<not> tx_rolledBack s \<and>
     tx_revOps s = Some \<lparr>rs_id = w, rs_batch = b\<rparr> \<and> op_key ` set b \<subseteq> D \<and>
     (\<forall>k. k \<noteq> w \<longrightarrow> undo b (st_kv (tx_db s)) k = m k) \<and>
     (\<forall>k. k \<noteq> w \<longrightarrow> k \<notin> D \<longrightarrow> st_kv (tx_db s) k = m k))"

lemma base_Get_cases:
  assumes "base_Get I s x = (r, s')" "TxState_IsDone (tx_state s) = None" "tx_bound s"
  shows "\<exists>db. s' = s\<lparr>tx_db := db\<rparr> \<and> st_kv db = st_kv (tx_db s) \<and> (st_ok (tx_db s) \<longrightarrow> st_ok db) \<and>
    (case r of Inr p \<Rightarrow> \<exists>v. st_kv (tx_db s) (it_key I x) = Some v \<and> it_Unmarshal I x v = Some p
     | Inl e \<Rightarrow> e = TxItem ItemNotFound \<longrightarrow> st_kv (tx_db s) (it_key I x) = None)"
proof -
  obtain y :: "unit item_error + 'a" and db where y: "ls_Get (tx_db s) (it_Namespace I x) (it_ID I x) (it_Unmarshal I x) = (y, db)" by fastforce
  note db = ls_Get_db [OF y] and val = ls_Get_value [OF y]
  have "s' = s\<lparr>tx_db := db\<rparr>" "r = (case y of Inl e \<Rightarrow> Inl (TxItem e) | Inr p \<Rightarrow> Inr p)"
    using assms y by (auto simp: base_Get_def guarded_def split: sum.splits)
  then show ?thesis using db val by (cases y) (auto simp: it_key_def)
qed

lemma base_Put_cases:
  assumes "base_Put I s x = (r, s')" "TxState_IsDone (tx_state s) = None" "tx_bound s"
  shows "\<exists>db. s' = s\<lparr>tx_db := db\<rparr> \<and> (st_ok (tx_db s) \<longrightarrow> st_ok db) \<and>
    (case r of Inr _ \<Rightarrow> \<exists>v. it_Marshal I x = Some v \<and> st_kv db = (st_kv (tx_db s))(it_key I x \<mapsto> v)
     | Inl _ \<Rightarrow> st_kv db = st_kv (tx_db s))"
proof -
  obtain y :: "unit item_error + unit" and db where y: "ls_Put (tx_db s) (it_Namespace I x) (it_ID I x) (it_Marshal I x) = (y, db)" by fastforce
  have s': "s' = s\<lparr>tx_db := db\<rparr>" "isl r = isl y" using assms y by (auto simp: base_Put_def guarded_def split: sum.splits)
  show ?thesis
  proof (cases y)
    case (Inl e)
    show ?thesis using ls_Put_fail [OF y [unfolded Inl]] Inl s' by (cases r) auto
  next
    case (Inr u)
    then show ?thesis using ls_Put_ok [OF y [unfolded Inr]] s' by (cases r) (auto simp: it_key_def)
  qed
qed

lemma base_Delete_cases:
  assumes "base_Delete I s x = (r, s')" "TxState_IsDone (tx_state s) = None" "tx_bound s" "it_Namespace I x \<noteq> []"
  shows "\<exists>db. s' = s\<lparr>tx_db := db\<rparr> \<and> (st_ok (tx_db s) \<longrightarrow> st_ok db) \<and>
    st_kv db = (case r of Inr _ \<Rightarrow> (st_kv (tx_db s))(it_key I x := None) | Inl _ \<Rightarrow> st_kv (tx_db s))"
proof -
  obtain y :: "unit item_error + unit" and db where y: "ls_Delete (tx_db s) (it_Namespace I x) (it_ID I x) = (y, db)" by fastforce
  have s': "s' = s\<lparr>tx_db := db\<rparr>" "isl r = isl y" using assms y by (auto simp: base_Delete_def guarded_def split: sum.splits)
  show ?thesis
  proof (cases y)
    case (Inl e)
    show ?thesis using ls_Delete_fail [OF y [unfolded Inl]] Inl s' by (cases r) auto
  next
    case (Inr u)
    then show ?thesis using ls_Delete_ok [OF assms(4) y [unfolded Inr]] s' by (cases r) (auto simp: it_key_def)
  qed
qed

lemma ts_append_cases:
  assumes "ts_append C s [Some op] = (r, s')" "tx_revOps s = Some \<lparr>rs_id = w, rs_batch = b\<rparr>" "revOpsFn (ro_Origin op) = Some fn"
  shows "\<exists>db. s' = s\<lparr>tx_revOps := Some \<lparr>rs_id = w, rs_batch = b @ [fn (ro_Key op) (ro_Val op)]\<rparr>, tx_db := db\<rparr> \<and>
    (\<forall>k. k \<noteq> w \<longrightarrow> st_kv db k = st_kv (tx_db s) k) \<and> (st_ok (tx_db s) \<longrightarrow> st_ok db) \<and>
    (\<not> isl r \<longrightarrow> st_kv db w = Some (bc_Dump C (b @ [fn (ro_Key op) (ro_Val op)])))"
proof -
  let ?b = "b @ [fn (ro_Key op) (ro_Val op)]"
  obtain y db where y: "st_Put (tx_db s) w (bc_Dump C ?b) = (y, db)" by fastforce
  have "s' = s\<lparr>tx_revOps := Some \<lparr>rs_id = w, rs_batch = ?b\<rparr>, tx_db := db\<rparr>" "isl r \<longleftrightarrow> y \<noteq> None"
    using assms y by (auto simp: ts_append_def rev_Append_def split: option.splits)
  moreover have "st_ok (tx_db s) \<longrightarrow> st_ok db" using st_ok_ops(2) [of "tx_db s" w "bc_Dump C ?b"] y by simp
  moreover have "st_kv db = (if y = None then (st_kv (tx_db s))(w \<mapsto> bc_Dump C ?b) else st_kv (tx_db s))"
    using y by (auto simp: st_defs split: if_splits)
  ultimately show ?thesis by auto
qed

lemma tx_inv_same:
  assumes "tx_inv w m D s" "D \<subseteq> D'" "\<And>k. k \<noteq> w \<Longrightarrow> st_kv db k = st_kv (tx_db s) k"
  shows "tx_inv w m D' (s\<lparr>tx_db := db\<rparr>)"
proof -
  have "undo b (st_kv db) k = undo b (st_kv (tx_db s)) k" if "k \<noteq> w" for b k using undo_local assms(3) that by blast
  moreover have "k \<notin> D" if "k \<notin> D'" for k using assms(2) that by blast
  moreover have "op_key ` set b \<subseteq> D'" if "op_key ` set b \<subseteq> D" for b using assms(2) that by blast
  ultimately show ?thesis using assms(1,3) by (auto simp: tx_inv_def)
qed

text \<open>A deletion without a reverse operation changes what the transaction is reverted to.\<close>

lemma tx_inv_lost:
  assumes "tx_inv w m D s" "k \<noteq> w" "k \<notin> D" "st_kv db = (st_kv (tx_db s))(k := None)"
  shows "tx_inv w (m(k := None)) (insert k D) (s\<lparr>tx_db := db\<rparr>)"
proof -
  obtain t b where s: "tx_state s = Some t" "tx_cause t \<noteq> Some ErrTxDone" "tx_bound s" "\<not> tx_rolledBack s"
    "tx_revOps s = Some \<lparr>rs_id = w, rs_batch = b\<rparr>" "op_key ` set b \<subseteq> D"
    and un: "\<And>j. j \<noteq> w \<Longrightarrow> undo b (st_kv (tx_db s)) j = m j" and same: "\<And>j. j \<noteq> w \<Longrightarrow> j \<notin> D \<Longrightarrow> st_kv (tx_db s) j = m j"
    using assms(1) by (auto simp: tx_inv_def)
  have "undo b (st_kv db) j = (m(k := None)) j" if "j \<noteq> w" for j
  proof (cases "j = k")
    case True
    then have "j \<notin> op_key ` set b" using s(6) assms(3) by blast
    then show ?thesis using True assms(4) by (simp add: undo_untouched)
  next
    case False
    then have "undo b (st_kv db) j = undo b (st_kv (tx_db s)) j" by (intro undo_local) (simp add: assms(4))
    then show ?thesis using un [OF that] False by simp
  qed
  moreover have "st_kv db j = (m(k := None)) j" if "j \<noteq> w" "j \<notin> insert k D" for j using same [of j] that assms(4) by simp
  moreover have "op_key ` set b \<subseteq> insert k D" using s(6) by blast
  ultimately show ?thesis using s by (simp add: tx_inv_def)
qed

lemma tx_inv_change:
  assumes "tx_inv w m D s" "tx_revOps s = Some \<lparr>rs_id = w, rs_batch = b\<rparr>" "k \<noteq> w"
    and "\<And>j. j \<noteq> w \<Longrightarrow> st_kv db j = ((st_kv (tx_db s))(k := z)) j"
    and "op = (case m k of None \<Rightarrow> BatchDelete k | Some v \<Rightarrow> BatchPut k v)"
  shows "tx_inv w m (insert k D) (s\<lparr>tx_revOps := Some \<lparr>rs_id = w, rs_batch = b @ [op]\<rparr>, tx_db := db\<rparr>)"
proof -
  have "undo (b @ [op]) (st_kv db) j = m j" if "j \<noteq> w" for j
  proof (cases "j = k")
    case True
    then show ?thesis using assms(5) by (simp split: option.splits)
  next
    case False
    then have "undo (b @ [op]) (st_kv db) j = undo b (st_kv db) j" using assms(5) by (simp split: option.splits)
    also have "\<dots> = undo b (st_kv (tx_db s)) j" by (rule undo_local) (use assms(4) that False in simp)
    also have "\<dots> = m j" using assms(1,2) that by (auto simp: tx_inv_def)
    finally show ?thesis .
  qed
  moreover have "op_key op = k" using assms(5) by (simp split: option.splits)
  then have "op_key ` set (b @ [op]) \<subseteq> insert k D" using assms(1,2) by (auto simp: tx_inv_def)
  ultimately show ?thesis using assms(1,2,4) by (auto simp: tx_inv_def simp del: fold_append set_append)
qed

lemma tx_inv_open:
  assumes "tx_inv w m D s"
  obtains b where "tx_state s \<noteq> None" "tx_bound s" "tx_revOps s = Some \<lparr>rs_id = w, rs_batch = b\<rparr>"
  using assms by (auto simp: tx_inv_def)

lemma tx_inv_more: "tx_inv w m D s \<Longrightarrow> D \<subseteq> D' \<Longrightarrow> tx_inv w m D' s"
  using tx_inv_same [of w m D s D' "tx_db s"] by simp

lemma tx_inv_value: "tx_inv w m D s \<Longrightarrow> k \<noteq> w \<Longrightarrow> k \<notin> D \<Longrightarrow> st_kv (tx_db s) k = m k"
  by (auto simp: tx_inv_def)

text \<open>The record of the reverse operations in the database is up to date.\<close>

definition logged :: "batch_codec \<Rightarrow> TxStore \<Rightarrow> bool" where
  "logged C s \<longleftrightarrow> (\<exists>w b. tx_revOps s = Some \<lparr>rs_id = w, rs_batch = b\<rparr> \<and> st_kv (tx_db s) w = (if b = [] then None else Some (bc_Dump C b)))"

definition tx_keeps :: "batch_codec \<Rightarrow> TxStore \<Rightarrow> (tx_error + unit) \<Rightarrow> TxStore \<Rightarrow> bool" where
  "tx_keeps C s r s' \<longleftrightarrow> (st_ok (tx_db s) \<longrightarrow> st_ok (tx_db s')) \<and> (\<not> isl r \<longrightarrow> logged C s \<longrightarrow> logged C s')"

lemma logged_same: "logged C s \<Longrightarrow> (\<And>w. st_kv db w = st_kv (tx_db s) w) \<Longrightarrow> logged C (s\<lparr>tx_db := db\<rparr>)"
  by (simp add: logged_def)

lemma append_step:
  assumes "tx_inv w m D s" "tx_revOps s = Some \<lparr>rs_id = w, rs_batch = b\<rparr>" "k \<noteq> w"
    and "s2 = s\<lparr>tx_db := db2\<rparr>" "st_ok (tx_db s) \<longrightarrow> st_ok db2" "st_kv db2 = (st_kv (tx_db s))(k := z)"
    and "ts_append C s2 [Some rop] = (r, s')" "revOpsFn (ro_Origin rop) = Some fn"
    and "fn (ro_Key rop) (ro_Val rop) = (case m k of None \<Rightarrow> BatchDelete k | Some v \<Rightarrow> BatchPut k v)"
  shows "tx_inv w m (insert k D) s' \<and> tx_keeps C s r s'"
proof -
  let ?b = "b @ [fn (ro_Key rop) (ro_Val rop)]"
  have "tx_revOps s2 = Some \<lparr>rs_id = w, rs_batch = b\<rparr>" using assms(2,4) by simp
  from ts_append_cases [OF assms(7) this assms(8)] obtain db where db:
    "s' = s2\<lparr>tx_revOps := Some \<lparr>rs_id = w, rs_batch = ?b\<rparr>, tx_db := db\<rparr>" "\<And>k. k \<noteq> w \<Longrightarrow> st_kv db k = st_kv db2 k"
    "st_ok db2 \<longrightarrow> st_ok db" "\<not> isl r \<longrightarrow> st_kv db w = Some (bc_Dump C ?b)" using assms(4) by auto
  have s': "s' = s\<lparr>tx_revOps := Some \<lparr>rs_id = w, rs_batch = ?b\<rparr>, tx_db := db\<rparr>" using db(1) assms(4) by (cases s) simp
  have "tx_inv w m (insert k D) s'"
    unfolding s' by (rule tx_inv_change [OF assms(1-3) _ assms(9)]) (use db(2) assms(6) in simp)
  moreover have "tx_keeps C s r s'" using s' db(3,4) assms(5) by (auto simp: tx_keeps_def logged_def)
  ultimately show ?thesis by blast
qed

lemma rollback_batch:
  assumes "ts_Rollback s = (Inr (), s')" "tx_state s = Some t" "tx_cause t \<noteq> Some ErrTxDone" "\<not> tx_rolledBack s" "tx_revOps s = Some \<lparr>rs_id = w, rs_batch = b\<rparr>"
  shows "st_kv (tx_db s') = undo (b @ [BatchDelete w]) (st_kv (tx_db s))"
proof -
  obtain s1 where s1: "base_Rollback s = (None, s1)" "tx_db s1 = tx_db s" "tx_revOps s1 = tx_revOps s"
    using assms(2-4) by (cases "tx_cause t"; cases "the (tx_cause t)") (auto simp: base_Rollback_def TxState_Done_def Let_def)
  then show ?thesis
    using assms by (auto simp: ts_Rollback_def rev_Revert_def db_Write_def st_step_def ts_release_def fold_batch_kv split: if_splits)
qed

context tx_items
begin

lemma key_own: "valid x \<Longrightarrow> it_key I x \<noteq> tx_key u"
  using own_keys [of x] by (auto simp: tx_key_def)

text \<open>The reverse operation of a call puts back the value before the call.\<close>

lemma reverse_put_cases:
  assumes "reverse_put I s x = (r, s')" "TxState_IsDone (tx_state s) = None" "tx_bound s" "valid x" "stored_ok I valid m"
    "st_kv (tx_db s) (it_key I x) = m (it_key I x)"
  shows "\<exists>db. s' = s\<lparr>tx_db := db\<rparr> \<and> st_kv db = st_kv (tx_db s) \<and> (st_ok (tx_db s) \<longrightarrow> st_ok db) \<and>
    (\<forall>op. r = Inr op \<longrightarrow> (\<exists>fn. revOpsFn (ro_Origin op) = Some fn \<and>
       fn (ro_Key op) (ro_Val op) = (case m (it_key I x) of None \<Rightarrow> BatchDelete (it_key I x) | Some v \<Rightarrow> BatchPut (it_key I x) v)))"
proof -
  obtain g s1 where g: "base_Get I s x = (g, s1)" by fastforce
  from base_Get_cases [OF this assms(2,3), unfolded assms(6)] obtain db where db: "s1 = s\<lparr>tx_db := db\<rparr>" "st_kv db = st_kv (tx_db s)" "st_ok (tx_db s) \<longrightarrow> st_ok db"
    and val: "case g of Inr p \<Rightarrow> \<exists>v. m (it_key I x) = Some v \<and> it_Unmarshal I x v = Some p
      | Inl e \<Rightarrow> e = TxItem ItemNotFound \<longrightarrow> m (it_key I x) = None" by blast
  show ?thesis
  proof (cases g)
    case (Inl e)
    then show ?thesis using assms(1) g db val by (auto simp: reverse_put_def split: if_splits)
  next
    case (Inr p)
    then obtain v where v: "m (it_key I x) = Some v" "it_Unmarshal I x v = Some p" using val by auto
    then have "it_Marshal I p = Some v" "it_key I p = it_key I x" using assms(4,5) by (fastforce simp: stored_ok_def)+
    then show ?thesis using assms(1) g db Inr v by (auto simp: reverse_put_def)
  qed
qed

lemma reverse_del_cases:
  assumes "reverse_del I s x = (r, s')" "TxState_IsDone (tx_state s) = None" "tx_bound s" "valid x" "stored_ok I valid m"
    "st_kv (tx_db s) (it_key I x) = m (it_key I x)"
  shows "\<exists>db. s' = s\<lparr>tx_db := db\<rparr> \<and> st_kv db = st_kv (tx_db s) \<and> (st_ok (tx_db s) \<longrightarrow> st_ok db) \<and>
    (\<forall>op. r = Inr op \<longrightarrow> (case op of None \<Rightarrow> unreadable I s x \<or> m (it_key I x) = None
       | Some op \<Rightarrow> \<not> unreadable I s x \<and> (\<exists>fn v. revOpsFn (ro_Origin op) = Some fn \<and> m (it_key I x) = Some v \<and> fn (ro_Key op) (ro_Val op) = BatchPut (it_key I x) v)))"
proof -
  obtain g s1 where g: "base_Get I s x = (g, s1)" by fastforce
  from base_Get_cases [OF this assms(2,3), unfolded assms(6)] obtain db where db: "s1 = s\<lparr>tx_db := db\<rparr>" "st_kv db = st_kv (tx_db s)" "st_ok (tx_db s) \<longrightarrow> st_ok db"
    and val: "case g of Inr p \<Rightarrow> \<exists>v. m (it_key I x) = Some v \<and> it_Unmarshal I x v = Some p
      | Inl e \<Rightarrow> e = TxItem ItemNotFound \<longrightarrow> m (it_key I x) = None" by blast
  show ?thesis
  proof (cases g)
    case (Inl e)
    then show ?thesis using assms(1) g db val by (auto simp: reverse_del_def unreadable_def)
  next
    case (Inr p)
    then obtain v where v: "m (it_key I x) = Some v" "it_Unmarshal I x v = Some p" using val by auto
    then have "it_Marshal I p = Some v" using assms(4,5) by (fastforce simp: stored_ok_def)
    then show ?thesis using assms(1) g db Inr v by (auto simp: reverse_del_def unreadable_def)
  qed
qed

lemma put_step:
  assumes "tx_inv (tx_key u) m D s" "valid x" "it_key I x \<notin> D" "stored_ok I valid m" "ts_Put C I s x = (r, s')"
  shows "tx_inv (tx_key u) m (insert (it_key I x) D) s' \<and> tx_keeps C s r s'"
proof (cases "TxState_IsDone (tx_state s)")
  case (Some e)
  obtain b where "tx_state s \<noteq> None" using assms(1) by (rule tx_inv_open)
  then have "s' = s \<and> isl r" using assms(5) Some by (auto simp: ts_Put_def)
  then show ?thesis using tx_inv_more [OF assms(1)] by (auto simp: tx_keeps_def)
next
  case None
  let ?k = "it_key I x"
  obtain b where op: "tx_state s \<noteq> None" "tx_bound s" "tx_revOps s = Some \<lparr>rs_id = tx_key u, rs_batch = b\<rparr>" using assms(1) by (rule tx_inv_open)
  note kw = key_own [OF assms(2), of u]
  obtain g s1 where g: "reverse_put I s x = (g, s1)" by fastforce
  from reverse_put_cases [OF g None op(2) assms(2,4) tx_inv_value [OF assms(1) kw assms(3)]]
  obtain db1 where db1: "s1 = s\<lparr>tx_db := db1\<rparr>" "st_kv db1 = st_kv (tx_db s)" "st_ok (tx_db s) \<longrightarrow> st_ok db1"
    and rops: "\<And>op. g = Inr op \<Longrightarrow> \<exists>fn. revOpsFn (ro_Origin op) = Some fn \<and>
       fn (ro_Key op) (ro_Val op) = (case m ?k of None \<Rightarrow> BatchDelete ?k | Some v \<Rightarrow> BatchPut ?k v)" by blast
  have inv1: "tx_inv (tx_key u) m (insert ?k D) s1" unfolding db1(1) by (rule tx_inv_same [OF assms(1)]) (auto simp: db1(2))
  show ?thesis
  proof (cases g)
    case (Inl e)
    then have "s' = s1 \<and> isl r" using assms(5) g None op(1) by (auto simp: ts_Put_def)
    then show ?thesis using inv1 db1 by (auto simp: tx_keeps_def)
  next
    case (Inr rop)
    obtain p s2 where p: "base_Put I s1 x = (p, s2)" by fastforce
    obtain db2 where db2: "s2 = s1\<lparr>tx_db := db2\<rparr>" "st_ok db1 \<longrightarrow> st_ok db2" "case p of Inr _ \<Rightarrow> \<exists>v. st_kv db2 = (st_kv (tx_db s))(?k \<mapsto> v)
     | Inl _ \<Rightarrow> st_kv db2 = st_kv (tx_db s)"
      using base_Put_cases [OF p] None op(2) db1 by (cases p) auto
    show ?thesis
    proof (cases p)
      case l: (Inl e)
      then have "s' = s2 \<and> isl r" using assms(5) g None op(1) Inr p by (auto simp: ts_Put_def)
      moreover have "tx_inv (tx_key u) m (insert ?k D) s2" unfolding db2(1) by (rule tx_inv_same [OF inv1]) (use db2(3) db1 l in auto)
      ultimately show ?thesis using db1 db2 by (auto simp: tx_keeps_def)
    next
      case r: (Inr y)
      then have a: "ts_append C s2 [Some rop] = (r, s')" using assms(5) g None op(1) Inr p by (auto simp: ts_Put_def)
      obtain fn where fn: "revOpsFn (ro_Origin rop) = Some fn" "fn (ro_Key rop) (ro_Val rop) = (case m ?k of None \<Rightarrow> BatchDelete ?k | Some v \<Rightarrow> BatchPut ?k v)"
        using rops [OF Inr] by blast
      obtain v where v: "st_kv db2 = (st_kv (tx_db s))(?k \<mapsto> v)" using db2(3) r by auto
      have "s2 = s\<lparr>tx_db := db2\<rparr>" "st_ok (tx_db s) \<longrightarrow> st_ok db2" using db1 db2 by auto
      from append_step [OF assms(1) op(3) kw this v a fn] show ?thesis .
    qed
  qed
qed

lemma delete_step:
  assumes "tx_inv (tx_key u) m D s" "valid x" "it_key I x \<notin> D" "stored_ok I valid m" "ts_Delete C I s x = (r, s')"
  shows "tx_inv (tx_key u) (m |` (- lost_keys I (CallDelete x) s r)) (insert (it_key I x) D) s' \<and> tx_keeps C s r s'"
proof (cases "TxState_IsDone (tx_state s)")
  case (Some e)
  obtain b where "tx_state s \<noteq> None" using assms(1) by (rule tx_inv_open)
  then have "s' = s \<and> isl r" using assms(5) Some by (auto simp: ts_Delete_def)
  then show ?thesis using tx_inv_more [OF assms(1)] Some by (auto simp: tx_keeps_def)
next
  case None
  let ?k = "it_key I x"
  obtain b where op: "tx_state s \<noteq> None" "tx_bound s" "tx_revOps s = Some \<lparr>rs_id = tx_key u, rs_batch = b\<rparr>" using assms(1) by (rule tx_inv_open)
  note kw = key_own [OF assms(2), of u] and km = tx_inv_value [OF assms(1) key_own [OF assms(2), of u] assms(3)]
  obtain g s1 where g: "reverse_del I s x = (g, s1)" by fastforce
  from reverse_del_cases [OF g None op(2) assms(2,4) km]
  obtain db1 where db1: "s1 = s\<lparr>tx_db := db1\<rparr>" "st_kv db1 = st_kv (tx_db s)" "st_ok (tx_db s) \<longrightarrow> st_ok db1"
    and rops: "\<And>op. g = Inr op \<Longrightarrow> case op of None \<Rightarrow> unreadable I s x \<or> m ?k = None
       | Some op \<Rightarrow> \<not> unreadable I s x \<and> (\<exists>fn v. revOpsFn (ro_Origin op) = Some fn \<and> m ?k = Some v \<and> fn (ro_Key op) (ro_Val op) = BatchPut ?k v)" by blast
  have inv1: "tx_inv (tx_key u) m (insert ?k D) s1" unfolding db1(1) by (rule tx_inv_same [OF assms(1)]) (auto simp: db1(2))
  show ?thesis
  proof (cases g)
    case (Inl e)
    then have "s' = s1 \<and> isl r" using assms(5) g None op(1) by (auto simp: ts_Delete_def)
    then show ?thesis using inv1 db1 by (auto simp: tx_keeps_def)
  next
    case (Inr rop)
    obtain p s2 where p: "base_Delete I s1 x = (p, s2)" by fastforce
    obtain db2 where db2: "s2 = s1\<lparr>tx_db := db2\<rparr>" "st_ok db1 \<longrightarrow> st_ok db2"
      "st_kv db2 = (case p of Inr _ \<Rightarrow> (st_kv (tx_db s))(?k := None) | Inl _ \<Rightarrow> st_kv (tx_db s))"
      using base_Delete_cases [OF p] None op(2) db1 own_keys [OF assms(2)] by (cases p) auto
    have s2: "s2 = s\<lparr>tx_db := db2\<rparr>" "st_ok (tx_db s) \<longrightarrow> st_ok db2" using db1 db2 by auto
    show ?thesis
    proof (cases "isl p \<or> rop = None")
      case True
      have s': "s' = s2" "isl r = isl p" using assms(5) g None op(1) Inr p True by (auto simp: ts_Delete_def split: sum.splits)
      have "logged C s \<longrightarrow> logged C s2" using op(3) db2(3) s2(1) kw by (cases p) (auto simp: logged_def)
      then have keeps: "tx_keeps C s r s'" using s2 s'(1) by (simp add: tx_keeps_def)
      have "tx_inv (tx_key u) (m |` (- lost_keys I (CallDelete x) s r)) (insert ?k D) s2"
      proof (cases "unreadable I s x \<and> \<not> isl p")
        case lost: True
        then have "st_kv db2 = (st_kv (tx_db s))(?k := None)" using db2(3) by (cases p) auto
        from tx_inv_lost [OF assms(1) kw assms(3) this] show ?thesis using lost None s'(2) s2(1) by (simp add: restrict_complement_singleton_eq)
      next
        case False
        then have "\<not> isl p \<Longrightarrow> m ?k = None" using True rops [OF Inr] by auto
        then have same: "st_kv db2 = st_kv (tx_db s)" using db2(3) km by (cases p) (auto simp: fun_upd_idem)
        have "tx_inv (tx_key u) m (insert ?k D) s2" unfolding s2(1) by (rule tx_inv_same [OF assms(1)]) (auto simp: same)
        then show ?thesis using False s'(2) by auto
      qed
      then show ?thesis using keeps s'(1) by simp
    next
      case False
      then obtain y rop1 where y: "p = Inr y" "rop = Some rop1" by (cases p) auto
      then have a: "ts_append C s2 [Some rop1] = (r, s')" using assms(5) g None op(1) Inr p by (auto simp: ts_Delete_def)
      obtain fn where fn: "revOpsFn (ro_Origin rop1) = Some fn" "fn (ro_Key rop1) (ro_Val rop1) = (case m ?k of None \<Rightarrow> BatchDelete ?k | Some v \<Rightarrow> BatchPut ?k v)"
        using rops [OF Inr] y(2) by auto
      have "\<not> unreadable I s x" using rops [OF Inr] y(2) by simp
      moreover have "st_kv db2 = (st_kv (tx_db s))(?k := None)" using db2(3) y by simp
      ultimately show ?thesis using append_step [OF assms(1) op(3) kw s2 _ a fn] by simp
    qed
  qed
qed

lemma cancel_step: "tx_inv w m D s \<Longrightarrow> tx_inv w m D (ts_cancel s) \<and> tx_keeps C s r (ts_cancel s)"
proof -
  assume inv: "tx_inv w m D s"
  then obtain t where t: "tx_state s = Some t" "tx_cause t \<noteq> Some ErrTxDone" by (auto simp: tx_inv_def)
  let ?t = "if tx_cause t = None then t\<lparr>tx_cause := Some CtxCanceled\<rparr> else t"
  have c: "ts_cancel s = s\<lparr>tx_state := Some ?t\<rparr>" using t(1) by (simp add: ts_cancel_def)
  moreover have "tx_cause ?t \<noteq> Some ErrTxDone" using t(2) by simp
  ultimately have "tx_inv w m D (ts_cancel s)" using inv by (auto simp: tx_inv_def)
  then show ?thesis by (simp add: c tx_keeps_def logged_def)
qed

lemma stored_restrict: "stored_ok I valid m \<Longrightarrow> stored_ok I valid (m |` A)"
  by (auto simp: stored_ok_def restrict_map_def split: if_splits)

text \<open>A run whose calls are on different keys is reverted to the content before it, less the keys that can not be restored.\<close>

lemma tx_run_inv:
  assumes "tx_inv (tx_key u) m D s" "stored_ok I valid m" "distinct (concat (map (call_keys I) cs))" "set (concat (map (call_keys I) cs)) \<inter> D = {}"
    "\<And>x. CallPut x \<in> set cs \<or> CallDelete x \<in> set cs \<Longrightarrow> valid x" "ts_run C I cs s = (rs, s')"
  shows "(\<exists>D'. tx_inv (tx_key u) (m |` (- unrestorable C I cs s)) D' s' \<and> D' \<subseteq> D \<union> set (concat (map (call_keys I) cs))) \<and>
    (st_ok (tx_db s) \<longrightarrow> st_ok (tx_db s')) \<and> ((\<forall>r \<in> set rs. \<not> isl r) \<longrightarrow> logged C s \<longrightarrow> logged C s')"
  using assms
proof (induction cs arbitrary: s m D rs)
  case (Cons c cs)
  obtain r s1 where c: "ts_call C I c s = (r, s1)" by fastforce
  obtain rs1 where run: "ts_run C I cs s1 = (rs1, s')" "rs = r # rs1" using Cons.prems(6) c by (auto split: prod.splits)
  let ?m = "m |` (- lost_keys I c s r)"
  have step: "tx_inv (tx_key u) ?m (set (call_keys I c) \<union> D) s1 \<and> tx_keeps C s r s1"
  proof (cases c)
    case (CallPut x)
    then show ?thesis using put_step [OF Cons.prems(1) _ _ Cons.prems(2), of x C r s1] Cons.prems(4) Cons.prems(5) [of x] c by simp
  next
    case (CallDelete x)
    then show ?thesis using delete_step [OF Cons.prems(1) _ _ Cons.prems(2), of x C r s1] Cons.prems(4) Cons.prems(5) [of x] c by simp
  next
    case CallCancel
    then show ?thesis using cancel_step [OF Cons.prems(1)] c by auto
  qed
  have all: "?m |` (- unrestorable C I cs s1) = m |` (- unrestorable C I (c # cs) s)" using c by (simp add: Int_commute)
  have "set (concat (map (call_keys I) cs)) \<inter> (set (call_keys I c) \<union> D) = {}" using Cons.prems(3,4) by auto
  moreover have "distinct (concat (map (call_keys I) cs))" using Cons.prems(3) by simp
  moreover have "valid x" if "CallPut x \<in> set cs \<or> CallDelete x \<in> set cs" for x using that Cons.prems(5) [of x] by auto
  ultimately have "(\<exists>D'. tx_inv (tx_key u) (?m |` (- unrestorable C I cs s1)) D' s' \<and> D' \<subseteq> (set (call_keys I c) \<union> D) \<union> set (concat (map (call_keys I) cs))) \<and>
      (st_ok (tx_db s1) \<longrightarrow> st_ok (tx_db s')) \<and> ((\<forall>r \<in> set rs1. \<not> isl r) \<longrightarrow> logged C s1 \<longrightarrow> logged C s')"
    using Cons.IH [OF conjunct1 [OF step] stored_restrict [OF Cons.prems(2)]] run(1) by blast
  moreover have "(set (call_keys I c) \<union> D) \<union> set (concat (map (call_keys I) cs)) = D \<union> set (concat (map (call_keys I) (c # cs)))" by auto
  ultimately show ?case using step run(2) unfolding all by (simp add: tx_keeps_def)
qed auto

lemma rollback_inv:
  assumes "tx_inv (tx_key u) m D s" "m (tx_key u) = None" "ts_Rollback s = (Inr (), s')"
  shows "st_kv (tx_db s') = m"
proof -
  obtain t b where s: "tx_state s = Some t" "tx_cause t \<noteq> Some ErrTxDone" "\<not> tx_rolledBack s" "tx_revOps s = Some \<lparr>rs_id = tx_key u, rs_batch = b\<rparr>"
    and un: "\<And>k. k \<noteq> tx_key u \<Longrightarrow> undo b (st_kv (tx_db s)) k = m k" using assms(1) by (auto simp: tx_inv_def)
  have "st_kv (tx_db s') = undo (b @ [BatchDelete (tx_key u)]) (st_kv (tx_db s))" by (rule rollback_batch [OF assms(3) s])
  also have "\<dots> = m" using un assms(2) by (auto simp: fun_eq_iff)
  finally show ?thesis .
qed

lemma new_inv:
  assumes "ts_NewTx (NewTxStore db) (Some \<lparr>tx_cause = None\<rparr>) u = Inr s"
  shows "tx_inv (tx_key u) (st_kv db) {} s \<and> (st_kv db (tx_key u) = None \<longrightarrow> logged C s) \<and> tx_db s = db"
  using assms by (auto simp: ts_NewTx_def NewTxStore_def tx_inv_def logged_def)

text \<open>The scan for pending transactions finds the one that was under way.\<close>

lemma pending_scan:
  assumes "tx_inv (tx_key u) m D s" "m (tx_key u) = None" "logged C s" "st_ok (tx_db s)" "\<And>b. bc_Load C (bc_Dump C b) = Some b"
    and "\<And>k. k \<in> D \<or> m k \<noteq> None \<Longrightarrow> \<not> prefix (pendingTxNamespace @ ''/'') k" "query_entries (tx_db s) (pending_query C) = (Inr es, db)"
  obtains b where "tx_revOps s = Some \<lparr>rs_id = tx_key u, rs_batch = b\<rparr>"
    "iterate_loop (pending_query C) recover_fn es True [] = ([], if b = [] then [] else b @ [BatchDelete (tx_key u)])"
    "undo (b @ [BatchDelete (tx_key u)]) (st_kv (tx_db s)) = m" "st_kv db = st_kv (tx_db s)" "st_fault db = st_fault (tx_db s)"
    "b = [] \<Longrightarrow> st_kv (tx_db s) = m"
proof -
  let ?w = "tx_key u" and ?q = "pending_query C" and ?kv = "st_kv (tx_db s)"
  obtain b where b: "tx_revOps s = Some \<lparr>rs_id = ?w, rs_batch = b\<rparr>" "\<And>k. k \<noteq> ?w \<Longrightarrow> undo b ?kv k = m k" "\<And>k. k \<noteq> ?w \<Longrightarrow> k \<notin> D \<Longrightarrow> ?kv k = m k"
    using assms(1) by (auto simp: tx_inv_def)
  have w: "?kv ?w = (if b = [] then None else Some (bc_Dump C b))" using assms(3) b(1) by (auto simp: logged_def)
  have q: "query_prefix ?q = pendingTxNamespace @ ''/''" "q_Order ?q = KeyAscendingOrder" "\<not> q_PrefixAtStart ?q"
    by (simp_all add: pending_query_def separator_def pendingTxNamespace_def) (simp_all add: plain_query_def)
  have db: "st_kv db = ?kv" "st_fault db = st_fault (tx_db s)"
    using assms(7) by (auto simp: query_entries_def st_Iterate_def st_step_def split: if_splits)
  have set: "set es = {(k, v). ?kv k = Some v \<and> prefix (pendingTxNamespace @ ''/'') k}" "distinct (map fst es)"
    using query_keys_correct [OF assms(4,7) q(2)] q by auto
  have only: "k = ?w" if "?kv k = Some v" "prefix (pendingTxNamespace @ ''/'') k" for k v
  proof (rule ccontr)
    assume ne: "k \<noteq> ?w"
    have nD: "k \<notin> D" "m k = None" using assms(6) that(2) by blast+
    show False using b(3) [OF ne nD(1)] nD(2) that(1) by simp
  qed
  have pw: "prefix (pendingTxNamespace @ ''/'') ?w" by (simp add: tx_key_def)
  have loop: "iterate_loop ?q recover_fn es True [] = ([], if b = [] then [] else b @ [BatchDelete ?w])"
  proof (cases "b = []")
    case True
    have "(k, v) \<notin> set es" for k v using set(1) only [of k v] w True by auto
    then have "es = []" by (cases es) auto
    then show ?thesis using True by simp
  next
    case False
    then have "(k, v) \<in> set es \<longleftrightarrow> k = ?w \<and> v = bc_Dump C b" for k v using set(1) only [of k v] w pw by auto
    then have one: "set es = {(?w, bc_Dump C b)}" by auto
    have "distinct es" using set(2) by (simp add: distinct_map)
    then have "length es = 1" using distinct_card [of es] one by simp
    then have e: "es = [(?w, bc_Dump C b)]" using one by (cases es) auto
    show ?thesis unfolding e using False q assms(5) by (simp add: pending_query_def query_result_def recover_fn_def plain_query_def tx_key_def Let_def)
  qed
  have un: "undo (b @ [BatchDelete ?w]) ?kv = m" using b(2) assms(2) by (auto simp: fun_eq_iff)
  have "?kv k = m k" if "b = []" for k using b(2) [of k] that w assms(2) by (cases "k = ?w") simp_all
  then have "b = [] \<Longrightarrow> ?kv = m" by (simp add: fun_eq_iff)
  with b(1) loop un db show thesis by (rule that)
qed

lemma NewTxStore_db [simp]: "tx_db (NewTxStore db) = db"
  by (simp add: NewTxStore_def)

lemma recover_eval:
  "ts_Recover C (NewTxStore db) =
    (case query_entries db (pending_query C) of
       (Inl _, db) \<Rightarrow> (Inl [TxItem ItemIO], NewTxStore db)
     | (Inr es, db) \<Rightarrow>
         (case iterate_loop (pending_query C) recover_fn es True [] of (errs, batch) \<Rightarrow>
            if errs \<noteq> [] then (Inl (map TxItem errs), NewTxStore db)
            else if batch = [] then (Inr (), NewTxStore db)
            else (case db_Write db batch of
                (Some _, db) \<Rightarrow> (Inl [TxItem ItemIO], NewTxStore db)
              | (None, db) \<Rightarrow> (Inr (), NewTxStore db))))"
  by (auto simp: ts_Recover_def base_Iterate_def NewTxStore_def TxState_IsDone_def ls_Iterate_def pending_query_def
      split: prod.splits sum.splits option.splits)

lemma recover_inv:
  assumes "tx_inv (tx_key u) m D s" "m (tx_key u) = None" "logged C s" "st_ok (tx_db s)" "\<And>b. bc_Load C (bc_Dump C b) = Some b"
    and "\<And>k. k \<in> D \<or> m k \<noteq> None \<Longrightarrow> \<not> prefix (pendingTxNamespace @ ''/'') k" "ts_Recover C (NewTxStore (tx_db s)) = (r, s')"
  shows "r = Inr () \<Longrightarrow> st_kv (tx_db s') = m" "st_fault (tx_db s) = (\<lambda>_. False) \<Longrightarrow> r = Inr ()"
proof -
  obtain y db where y: "query_entries (tx_db s) (pending_query C) = (y, db)" by fastforce
  show "st_kv (tx_db s') = m" if r: "r = Inr ()"
  proof -
    obtain es where "y = Inr es" using y r assms(7) by (cases y) (auto simp: recover_eval)
    with y have es: "query_entries (tx_db s) (pending_query C) = (Inr es, db)" by simp
    obtain b where b: "iterate_loop (pending_query C) recover_fn es True [] = ([], if b = [] then [] else b @ [BatchDelete (tx_key u)])"
      "undo (b @ [BatchDelete (tx_key u)]) (st_kv db) = m" "b = [] \<Longrightarrow> st_kv db = m" using pending_scan [OF assms(1-6) es] by metis
    show ?thesis using assms(7) es r b
      by (cases "b = []") (auto simp: recover_eval db_Write_def st_step_def fold_batch_kv split: if_splits)
  qed
  show "r = Inr ()" if nf: "st_fault (tx_db s) = (\<lambda>_. False)"
  proof -
    obtain es where "y = Inr es" using y nf by (auto simp: query_entries_def st_Iterate_def st_step_def)
    with y have es: "query_entries (tx_db s) (pending_query C) = (Inr es, db)" by simp
    obtain b where b: "iterate_loop (pending_query C) recover_fn es True [] = ([], if b = [] then [] else b @ [BatchDelete (tx_key u)])"
      "st_fault db = st_fault (tx_db s)" using pending_scan [OF assms(1-6) es] by metis
    show ?thesis using assms(7) es nf b by (cases "b = []") (auto simp: recover_eval db_Write_def st_step_def)
  qed
qed

lemma recover_run:
  assumes "ts_NewTx (NewTxStore db) (Some \<lparr>tx_cause = None\<rparr>) u = Inr s0" "stored_ok I valid (st_kv db)" "st_ok db"
    and "\<And>k. st_kv db k \<noteq> None \<Longrightarrow> \<not> prefix (pendingTxNamespace @ ''/'') k" "\<And>b. bc_Load C (bc_Dump C b) = Some b"
    and "ts_run C I cs s0 = (rs, s1)" "\<forall>r \<in> set rs. \<not> isl r" "distinct (concat (map (call_keys I) cs))"
    and "\<And>x. CallPut x \<in> set cs \<or> CallDelete x \<in> set cs \<Longrightarrow> valid x"
    and "ts_Recover C (NewTxStore (tx_db s1)) = (r, s2)"
  shows "r = Inr () \<Longrightarrow> st_kv (tx_db s2) = (st_kv db) |` (- unrestorable C I cs s0)" "st_fault (tx_db s1) = (\<lambda>_. False) \<Longrightarrow> r = Inr ()"
proof -
  let ?m = "(st_kv db) |` (- unrestorable C I cs s0)"
  have none: "st_kv db (tx_key u) = None" using assms(4) [of "tx_key u"] by (cases "st_kv db (tx_key u)") (simp_all add: tx_key_def)
  then have none': "?m (tx_key u) = None" by (simp add: restrict_map_def)
  from none have n: "tx_inv (tx_key u) (st_kv db) {} s0" "logged C s0" "tx_db s0 = db" using new_inv [OF assms(1), of C] by blast+
  from tx_run_inv [OF n(1) assms(2,8) _ assms(9,6)] n(2,3) assms(3,7)
  obtain D where D: "tx_inv (tx_key u) ?m D s1" "D \<subseteq> set (concat (map (call_keys I) cs))" "st_ok (tx_db s1)" "logged C s1" by auto
  have "\<not> prefix (pendingTxNamespace @ ''/'') k" if kD: "k \<in> D" for k
  proof -
    obtain c where "c \<in> set cs" "k \<in> set (call_keys I c)" using subsetD [OF D(2) kD] by auto
    then show ?thesis using own_keys assms(9) by (cases c rule: tx_call.exhaust) auto
  qed
  moreover have "st_kv db k \<noteq> None" if "?m k \<noteq> None" for k using that by (simp add: restrict_map_def split: if_splits)
  ultimately have "\<And>k. k \<in> D \<or> ?m k \<noteq> None \<Longrightarrow> \<not> prefix (pendingTxNamespace @ ''/'') k" using assms(4) by blast
  note rec = recover_inv [OF D(1) none' D(4,3) assms(5) this assms(10)]
  show "r = Inr () \<Longrightarrow> st_kv (tx_db s2) = ?m" "st_fault (tx_db s1) = (\<lambda>_. False) \<Longrightarrow> r = Inr ()" using rec by blast+
qed

lemma put_success:
  assumes "ts_Put C I s x = (Inr (), s')" "tx_state s = Some t" "tx_cause t = None" "tx_bound s" "tx_revOps s = Some \<lparr>rs_id = w, rs_batch = b\<rparr>"
    "valid x" "stored_ok I valid (st_kv (tx_db s))"
  shows "\<exists>v db. it_Marshal I x = Some v \<and> (\<forall>j. j \<noteq> w \<longrightarrow> st_kv db j = ((st_kv (tx_db s))(it_key I x \<mapsto> v)) j) \<and>
    s' = s\<lparr>tx_revOps := Some \<lparr>rs_id = w, rs_batch = b @ [case st_kv (tx_db s) (it_key I x) of
       None \<Rightarrow> BatchDelete (it_key I x) | Some v \<Rightarrow> BatchPut (it_key I x) v]\<rparr>, tx_db := db\<rparr>"
proof -
  let ?k = "it_key I x" and ?kv = "st_kv (tx_db s)"
  have op: "TxState_IsDone (tx_state s) = None" "tx_state s \<noteq> None" using assms(2,3) by (simp_all add: TxState_IsDone_def)
  obtain g s1 where g: "reverse_put I s x = (g, s1)" by fastforce
  then obtain rop where rop: "g = Inr rop" using assms(1) op by (cases g) (auto simp: ts_Put_def)
  from reverse_put_cases [OF g op(1) assms(4,6,7) refl] rop obtain db1 fn where db1: "s1 = s\<lparr>tx_db := db1\<rparr>" "st_kv db1 = ?kv"
    and fn: "revOpsFn (ro_Origin rop) = Some fn" "fn (ro_Key rop) (ro_Val rop) = (case ?kv ?k of None \<Rightarrow> BatchDelete ?k | Some v \<Rightarrow> BatchPut ?k v)" by blast
  obtain p s2 where p: "base_Put I s1 x = (p, s2)" by fastforce
  then obtain y where y: "p = Inr y" "ts_append C s2 [Some rop] = (Inr (), s')" using assms(1) op g rop by (cases p) (auto simp: ts_Put_def)
  obtain db2 v where db2: "s2 = s1\<lparr>tx_db := db2\<rparr>" "it_Marshal I x = Some v" "st_kv db2 = ?kv(?k \<mapsto> v)"
    using base_Put_cases [OF p] op assms(4) db1 y(1) by auto
  have "tx_revOps s2 = Some \<lparr>rs_id = w, rs_batch = b\<rparr>" using db1 db2 assms(5) by simp
  from ts_append_cases [OF y(2) this fn(1)] obtain db where db: "\<forall>k. k \<noteq> w \<longrightarrow> st_kv db k = st_kv (tx_db s2) k"
    "s' = s2\<lparr>tx_revOps := Some \<lparr>rs_id = w, rs_batch = b @ [fn (ro_Key rop) (ro_Val rop)]\<rparr>, tx_db := db\<rparr>" by blast
  have "s' = s\<lparr>tx_revOps := Some \<lparr>rs_id = w, rs_batch = b @ [case ?kv ?k of None \<Rightarrow> BatchDelete ?k | Some v \<Rightarrow> BatchPut ?k v]\<rparr>, tx_db := db\<rparr>"
    using db(2) db1 db2 fn(2) by (cases s) simp
  moreover have "\<forall>j. j \<noteq> w \<longrightarrow> st_kv db j = (?kv(?k \<mapsto> v)) j" using db(1) db2 by simp
  ultimately show ?thesis using db2(2) by blast
qed

text \<open>Two writes of one item are reverted to the first of them.\<close>

lemma double_put:
  assumes "ts_NewTx (NewTxStore db) (Some \<lparr>tx_cause = None\<rparr>) u = Inr s0" "valid x" "valid y" "it_key I y = it_key I x" "stored_ok I valid (st_kv db)"
    and "ts_Put C I s0 x = (Inr (), s1)" "ts_Put C I s1 y = (Inr (), s2)" "ts_Rollback s2 = (Inr (), s3)"
  shows "st_kv (tx_db s3) (it_key I x) = it_Marshal I x"
proof -
  let ?k = "it_key I x" and ?w = "tx_key u"
  have kw: "?k \<noteq> ?w" by (rule key_own [OF assms(2)])
  have s0: "s0 = \<lparr>tx_state = Some \<lparr>tx_cause = None\<rparr>, tx_db = db, tx_bound = True, tx_rolledBack = False, tx_revOps = Some \<lparr>rs_id = ?w, rs_batch = []\<rparr>\<rparr>"
    using assms(1) by (simp add: ts_NewTx_def NewTxStore_def)
  from put_success [OF assms(6) _ _ _ _ assms(2), of "\<lparr>tx_cause = None\<rparr>" ?w "[]"] assms(5) obtain v db1 op where v: "it_Marshal I x = Some v"
    and db1: "\<And>j. j \<noteq> ?w \<Longrightarrow> st_kv db1 j = ((st_kv db)(?k \<mapsto> v)) j" "s1 = s0\<lparr>tx_revOps := Some \<lparr>rs_id = ?w, rs_batch = [op]\<rparr>, tx_db := db1\<rparr>"
    by (auto simp: s0)
  have st1: "stored_ok I valid (st_kv db1)" unfolding stored_ok_def
  proof (intro allI impI)
    fix z u' assume z: "valid z" "st_kv db1 (it_key I z) = Some u'"
    show "\<exists>p. it_Unmarshal I z u' = Some p \<and> it_Marshal I p = Some u' \<and> it_key I p = it_key I z"
    proof (cases "it_key I z = ?k")
      case True
      then show ?thesis using rereads [OF assms(2) z(1) True v] db1(1) [OF key_own [OF z(1)]] z(2) by simp
    next
      case False
      then have "st_kv db (it_key I z) = Some u'" using db1(1) [OF key_own [OF z(1)]] z(2) by simp
      then show ?thesis using assms(5) z(1) unfolding stored_ok_def by blast
    qed
  qed
  from put_success [OF assms(7) _ _ _ _ assms(3), of "\<lparr>tx_cause = None\<rparr>" ?w "[op]"] st1 obtain db2 where
    "s2 = s1\<lparr>tx_revOps := Some \<lparr>rs_id = ?w, rs_batch = [op, BatchPut ?k v]\<rparr>, tx_db := db2\<rparr>"
    using db1 kw by (auto simp: s0 assms(4))
  then have "st_kv (tx_db s3) = undo ([op, BatchPut ?k v] @ [BatchDelete ?w]) (st_kv db2)"
    using rollback_batch [OF assms(8)] db1(2) by (auto simp: s0)
  then show ?thesis using kw v by simp
qed

end

section \<open>Entries of the retrieval index\<close>

definition ri_Item :: "RetrievalIndexItem Item" where
  "ri_Item = \<lparr>it_Namespace = \<lambda>_. ri_Namespace, it_ID = \<lambda>r. ri_ID (ri_Address r), it_Marshal = ri_Marshal, it_Unmarshal = \<lambda>_ v. ri_Unmarshal v\<rparr>"

interpretation rtx: tx_items ri_Item item_ok
proof (unfold_locales, goal_cases)
  case (1 x)
  show ?case by (simp add: ri_Item_def it_key_def item_key_def ri_Namespace_def pendingTxNamespace_def)
next
  case (2 x y v)
  then show ?case using item_roundtrip [OF 2(1)] by (auto simp: ri_Item_def)
qed

section \<open>A transaction\<close>

text \<open>A codec of batches, and a transaction on an empty database without failures.\<close>

definition enc_bytes :: "bytes \<Rightarrow> bytes" where
  "enc_bytes bs = concat (map (\<lambda>b. [1, b]) bs) @ [0]"

fun dec_bytes :: "bytes \<Rightarrow> (bytes \<times> bytes) option" where
  "dec_bytes [] = None"
| "dec_bytes (t # r) =
     (if t = 0 then Some ([], r)
      else case r of [] \<Rightarrow> None | b # r' \<Rightarrow> map_option (\<lambda>(bs, r). (b # bs, r)) (dec_bytes r'))"

lemma dec_enc [simp]: "dec_bytes (enc_bytes bs @ r) = Some (bs, r)"
  by (induction bs) (simp_all add: enc_bytes_def)

fun enc_op :: "batch_op \<Rightarrow> bytes" where
  "enc_op (BatchPut k v) = 1 # enc_bytes (str_bytes k) @ enc_bytes v"
| "enc_op (BatchDelete k) = 2 # enc_bytes (str_bytes k)"

fun dec_ops :: "nat \<Rightarrow> bytes \<Rightarrow> batch_op list option" where
  "dec_ops n [] = Some []"
| "dec_ops 0 (t # r) = None"
| "dec_ops (Suc n) (t # r) =
     (case dec_bytes r of
        None \<Rightarrow> None
      | Some (k, r) \<Rightarrow>
          if t = 1 then
            (case dec_bytes r of None \<Rightarrow> None | Some (v, r) \<Rightarrow> map_option (Cons (BatchPut (bytes_str k) v)) (dec_ops n r))
          else map_option (Cons (BatchDelete (bytes_str k))) (dec_ops n r))"

definition demo_codec :: batch_codec where
  "demo_codec = \<lparr>bc_Dump = \<lambda>b. concat (map enc_op b), bc_Load = \<lambda>bs. dec_ops (length bs) bs\<rparr>"

lemma bytes_str_str_bytes: "bytes_str (str_bytes s) = s"
proof (induction s)
  case (Cons c s)
  have "of_char c < (256 :: nat)" using mod_less_divisor [of 256 "of_char c :: nat"] by simp
  then have "unat (of_nat (of_char c) :: byte) = of_char c" by (simp add: unat_of_nat_byte)
  then show ?case using Cons by (simp add: bytes_str_def str_bytes_def)
qed (simp add: bytes_str_def str_bytes_def)

lemma dec_ops_enc: "length b \<le> n \<Longrightarrow> dec_ops n (concat (map enc_op b)) = Some b"
proof (induction b arbitrary: n)
  case (Cons op b)
  then obtain k where "n = Suc k" "length b \<le> k" by (cases n) auto
  then show ?case using Cons.IH [of k] by (cases op) (simp_all add: bytes_str_str_bytes)
qed simp

lemma demo_codec_ok: "bc_Load demo_codec (bc_Dump demo_codec b) = Some b"
proof -
  have "1 \<le> length (enc_op op)" for op by (cases op) simp_all
  then have "length b \<le> length (concat (map enc_op b))" for b by (induction b) (auto simp: Suc_le_eq add_strict_increasing intro: le_trans)
  then show ?thesis using dec_ops_enc by (simp add: demo_codec_def)
qed

definition demo_db :: leveldb where
  "demo_db = \<lparr>st_kv = Map.empty, st_keys = [], st_tick = 0, st_fault = \<lambda>_. False\<rparr>"

definition demo_tx :: TxStore where
  "demo_tx = \<lparr>tx_state = Some \<lparr>tx_cause = None\<rparr>, tx_db = demo_db, tx_bound = True, tx_rolledBack = False,
     tx_revOps = Some \<lparr>rs_id = tx_key ''1'', rs_batch = []\<rparr>\<rparr>"

lemma demo_tx_new: "ts_NewTx (NewTxStore demo_db) (Some \<lparr>tx_cause = None\<rparr>) ''1'' = Inr demo_tx"
  by (simp add: ts_NewTx_def NewTxStore_def demo_tx_def)

lemma fresh_put:
  assumes "st_fault db = (\<lambda>_. False)" "st_kv db (demo_key w) = None"
  obtains db' where "ts_Put C ri_Item \<lparr>tx_state = Some \<lparr>tx_cause = None\<rparr>, tx_db = db, tx_bound = True, tx_rolledBack = False,
       tx_revOps = Some \<lparr>rs_id = i, rs_batch = b\<rparr>\<rparr> (demo_item w) =
     (Inr (), \<lparr>tx_state = Some \<lparr>tx_cause = None\<rparr>, tx_db = db', tx_bound = True, tx_rolledBack = False,
       tx_revOps = Some \<lparr>rs_id = i, rs_batch = b @ [BatchDelete (demo_key w)]\<rparr>\<rparr>)"
    "st_fault db' = (\<lambda>_. False)" "st_kv db' = (st_kv db)(demo_key w \<mapsto> demo_value w, i \<mapsto> bc_Dump C (b @ [BatchDelete (demo_key w)]))"
proof -
  have k: "it_key ri_Item (demo_item w) = demo_key w" "it_Marshal ri_Item (demo_item w) = Some (demo_value w)"
    "item_key (it_Namespace ri_Item (demo_item w)) (it_ID ri_Item (demo_item w)) = demo_key w"
    by (simp_all add: it_key_def ri_Item_def demo_key_def demo_value) (simp_all add: demo_item_def)
  show thesis using that assms
    by (simp add: ts_Put_def reverse_put_def base_Get_def base_Put_def guarded_def TxState_IsDone_def ls_Get_def ls_Put_def st_defs k
        ts_append_def rev_Append_def del: fun_upd_apply)
qed

section \<open>Properties\<close>

text \<open>A transaction that stores two entries.\<close>

lemma demo_tx_run:
  obtains db where "ts_run demo_codec ri_Item [CallPut (demo_item 7), CallPut (demo_item 8)] demo_tx =
      ([Inr (), Inr ()], \<lparr>tx_state = Some \<lparr>tx_cause = None\<rparr>, tx_db = db, tx_bound = True, tx_rolledBack = False,
       tx_revOps = Some \<lparr>rs_id = tx_key ''1'', rs_batch = [BatchDelete (demo_key 7), BatchDelete (demo_key 8)]\<rparr>\<rparr>)"
    "st_fault db = (\<lambda>_. False)" "st_kv db (demo_key 8) = Some (demo_value 8)"
proof -
  have ne: "demo_key w \<noteq> tx_key v" for v w by (simp add: demo_key_def tx_key_def item_key_def ri_Namespace_def pendingTxNamespace_def)
  obtain db1 where 1: "ts_Put demo_codec ri_Item demo_tx (demo_item 7) =
     (Inr (), \<lparr>tx_state = Some \<lparr>tx_cause = None\<rparr>, tx_db = db1, tx_bound = True, tx_rolledBack = False,
       tx_revOps = Some \<lparr>rs_id = tx_key ''1'', rs_batch = [BatchDelete (demo_key 7)]\<rparr>\<rparr>)" "st_fault db1 = (\<lambda>_. False)" "st_kv db1 (demo_key 8) = None"
    unfolding demo_tx_def by (rule fresh_put [of demo_db 7 demo_codec "tx_key ''1''" "[]"]) (use ne in \<open>auto simp: demo_db_def\<close>)
  obtain db2 where 2: "ts_Put demo_codec ri_Item \<lparr>tx_state = Some \<lparr>tx_cause = None\<rparr>, tx_db = db1, tx_bound = True, tx_rolledBack = False,
       tx_revOps = Some \<lparr>rs_id = tx_key ''1'', rs_batch = [BatchDelete (demo_key 7)]\<rparr>\<rparr> (demo_item 8) =
     (Inr (), \<lparr>tx_state = Some \<lparr>tx_cause = None\<rparr>, tx_db = db2, tx_bound = True, tx_rolledBack = False,
       tx_revOps = Some \<lparr>rs_id = tx_key ''1'', rs_batch = [BatchDelete (demo_key 7), BatchDelete (demo_key 8)]\<rparr>\<rparr>)"
    "st_fault db2 = (\<lambda>_. False)" "st_kv db2 (demo_key 8) = Some (demo_value 8)"
    by (rule fresh_put [of db1 8 demo_codec "tx_key ''1''" "[BatchDelete (demo_key 7)]"]) (use 1(2,3) ne in auto)
  from 1(1) 2 show thesis by (intro that [of db2]) simp_all
qed

lemma demo_items_ok: "item_ok (demo_item w)" "it_key ri_Item (demo_item w) = demo_key w"
  by (simp_all add: item_ok_def demo_item_def loc_ok_def HashSize_def it_key_def ri_Item_def demo_key_def)

lemma demo_stored_ok: "stored_ok ri_Item item_ok (st_kv demo_db)" "st_kv demo_db = Map.empty" "st_ok demo_db"
  by (simp_all add: stored_ok_def demo_db_def st_ok_def)

text \<open>C18: Rolling back restores the store. For a transaction of calls of \<open>Put\<close> and \<open>Delete\<close> on entries of the retrieval index that
  writes every key at most once, on a database whose entries decode under their own keys and that has no log of the same id: whatever calls
  fail and whenever its context is cancelled, after a successful \<open>Rollback\<close> the content of the database is exactly what it was at
  \<open>NewTx\<close>, less the entries that were deleted although the read of their old value failed, which the code does not log.
  (What happens with keys written twice is stated below.)\<close>

theorem tx_rollback_restores:
  assumes "ts_NewTx (NewTxStore db) (Some \<lparr>tx_cause = None\<rparr>) u = Inr s0" "stored_ok ri_Item item_ok (st_kv db)" "st_kv db (tx_key u) = None"
    and "ts_run C ri_Item cs s0 = (rs, s1)" "distinct (concat (map (call_keys ri_Item) cs))"
    and "\<And>x. CallPut x \<in> set cs \<or> CallDelete x \<in> set cs \<Longrightarrow> item_ok x"
    and "ts_Rollback s1 = (Inr (), s2)"
  shows "st_kv (tx_db s2) = (st_kv db) |` (- unrestorable C ri_Item cs s0)"
proof -
  have "tx_inv (tx_key u) (st_kv db) {} s0" using rtx.new_inv [OF assms(1)] by blast
  from rtx.tx_run_inv [OF this assms(2,5) _ assms(6,4)]
  obtain D where "tx_inv (tx_key u) ((st_kv db) |` (- unrestorable C ri_Item cs s0)) D s1" by auto
  from rtx.rollback_inv [OF this _ assms(7)] assms(3) show ?thesis by (simp add: restrict_map_def)
qed

theorem tx_rollback_restores_witness:
  "\<exists>s1 s2. ts_run demo_codec ri_Item [CallPut (demo_item 7), CallPut (demo_item 8)] demo_tx = ([Inr (), Inr ()], s1) \<and>
     st_kv (tx_db s1) (demo_key 8) = Some (demo_value 8) \<and> ts_Rollback s1 = (Inr (), s2) \<and> st_kv (tx_db s2) = Map.empty"
proof -
  let ?cs = "[CallPut (demo_item 7), CallPut (demo_item 8)]"
  obtain s1 where r: "ts_run demo_codec ri_Item ?cs demo_tx = ([Inr (), Inr ()], s1)" and s1: "st_kv (tx_db s1) (demo_key 8) = Some (demo_value 8)"
    "st_fault (tx_db s1) = (\<lambda>_. False)" "tx_state s1 = Some \<lparr>tx_cause = None\<rparr>" "\<not> tx_rolledBack s1" "tx_revOps s1 \<noteq> None"
    by (rule demo_tx_run) force
  obtain s2 where b: "ts_Rollback s1 = (Inr (), s2)"
    using s1(2-5) by (auto simp: ts_Rollback_def base_Rollback_def TxState_Done_def Let_def rev_Revert_def db_Write_def st_step_def)
  have "item_ok x" if "CallPut x \<in> set ?cs \<or> CallDelete x \<in> set ?cs" for x using that demo_items_ok by auto
  from tx_rollback_restores [OF demo_tx_new demo_stored_ok(1) _ r _ this b] demo_stored_ok(2)
  have "st_kv (tx_db s2) = Map.empty" by (simp add: demo_items_ok)
  then show ?thesis using r s1(1) b by blast
qed

text \<open>C19: A crash loses a transaction without traces. When the node stops in the middle of a transaction on entries of the retrieval
  index that writes every key at most once and all of whose calls so far succeeded, with no other transaction pending in the database, entries that
  decode under their own keys and a batch format that loads what it dumps: a successful \<open>Recover\<close> of the next start gives
  back the content the database had when the transaction began, less the entries that were deleted although the read of
  their old value failed.\<close>

theorem tx_recover_restores:
  assumes "ts_NewTx (NewTxStore db) (Some \<lparr>tx_cause = None\<rparr>) u = Inr s0" "stored_ok ri_Item item_ok (st_kv db)" "st_ok db"
    and "\<And>k. st_kv db k \<noteq> None \<Longrightarrow> \<not> prefix (pendingTxNamespace @ ''/'') k" "\<And>b. bc_Load C (bc_Dump C b) = Some b"
    and "ts_run C ri_Item cs s0 = (rs, s1)" "\<forall>r \<in> set rs. \<not> isl r" "distinct (concat (map (call_keys ri_Item) cs))"
    and "\<And>x. CallPut x \<in> set cs \<or> CallDelete x \<in> set cs \<Longrightarrow> item_ok x"
    and "ts_Recover C (NewTxStore (tx_db s1)) = (Inr (), s2)"
  shows "st_kv (tx_db s2) = (st_kv db) |` (- unrestorable C ri_Item cs s0)"
  using rtx.recover_run(1) [OF assms] by simp

theorem tx_recover_restores_witness:
  "\<exists>s1 s2. ts_run demo_codec ri_Item [CallPut (demo_item 7), CallPut (demo_item 8)] demo_tx = ([Inr (), Inr ()], s1) \<and>
     st_kv (tx_db s1) (demo_key 8) = Some (demo_value 8) \<and> ts_Recover demo_codec (NewTxStore (tx_db s1)) = (Inr (), s2) \<and> st_kv (tx_db s2) = Map.empty"
proof -
  let ?cs = "[CallPut (demo_item 7), CallPut (demo_item 8)]"
  obtain s1 where r: "ts_run demo_codec ri_Item ?cs demo_tx = ([Inr (), Inr ()], s1)" and s1: "st_kv (tx_db s1) (demo_key 8) = Some (demo_value 8)"
    "st_fault (tx_db s1) = (\<lambda>_. False)" by (rule demo_tx_run) force
  have ok: "item_ok x" if "CallPut x \<in> set ?cs \<or> CallDelete x \<in> set ?cs" for x using that demo_items_ok by auto
  obtain y s2 where b: "ts_Recover demo_codec (NewTxStore (tx_db s1)) = (y, s2)" by fastforce
  have y: "y = Inr ()"
    using rtx.recover_run(2) [OF demo_tx_new demo_stored_ok(1,3) _ demo_codec_ok r _ _ ok b s1(2)] demo_stored_ok(2) by (simp add: demo_items_ok)
  from tx_recover_restores [OF demo_tx_new demo_stored_ok(1,3) _ demo_codec_ok r _ _ ok b [unfolded y]] demo_stored_ok(2)
  have "st_kv (tx_db s2) = Map.empty" by (simp add: demo_items_ok)
  then show ?thesis using r s1(1) b y by blast
qed

text \<open>C38: A key written twice is not restored. \<open>Rollback\<close> applies the reverse operations in the order of the calls, so after two
  writes of an entry it leaves the value of the first write, not the one before the transaction.\<close>

theorem tx_double_put_survives:
  assumes "ts_NewTx (NewTxStore db) (Some \<lparr>tx_cause = None\<rparr>) u = Inr s0" "stored_ok ri_Item item_ok (st_kv db)"
    and "item_ok x" "item_ok y" "ri_Address y = ri_Address x"
    and "ts_Put C ri_Item s0 x = (Inr (), s1)" "ts_Put C ri_Item s1 y = (Inr (), s2)" "ts_Rollback s2 = (Inr (), s3)"
  shows "st_kv (tx_db s3) (item_key ri_Namespace (ri_ID (ri_Address x))) = ri_Marshal x"
proof -
  have "it_key ri_Item y = it_key ri_Item x" using assms(5) by (simp add: ri_Item_def it_key_def)
  from rtx.double_put [OF assms(1,3,4) this assms(2,6-8)] show ?thesis by (simp add: ri_Item_def it_key_def)
qed

theorem tx_double_put_survives_witness:
  "\<exists>s1 s2 s3. ts_Put demo_codec ri_Item demo_tx (demo_item 7) = (Inr (), s1) \<and> ts_Put demo_codec ri_Item s1 (demo_item 7\<lparr>ri_RefCnt := 2\<rparr>) = (Inr (), s2) \<and>
     ts_Rollback s2 = (Inr (), s3) \<and> st_kv demo_db (demo_key 7) = None \<and> st_kv (tx_db s3) (demo_key 7) = Some (demo_value 7)"
proof -
  let ?y = "demo_item 7\<lparr>ri_RefCnt := 2\<rparr>"
  have y: "item_ok ?y" "it_key ri_Item ?y = demo_key 7" "ri_Address ?y = ri_Address (demo_item 7)"
    using demo_items_ok [of 7] by (simp_all add: item_ok_def it_key_def ri_Item_def)
  have ne: "demo_key w \<noteq> tx_key v" for v w by (simp add: demo_key_def tx_key_def item_key_def ri_Namespace_def pendingTxNamespace_def)
  obtain v where v: "ri_Marshal ?y = Some v" using item_roundtrip [OF y(1)] by blast
  obtain db1 where 1: "ts_Put demo_codec ri_Item demo_tx (demo_item 7) =
     (Inr (), \<lparr>tx_state = Some \<lparr>tx_cause = None\<rparr>, tx_db = db1, tx_bound = True, tx_rolledBack = False,
       tx_revOps = Some \<lparr>rs_id = tx_key ''1'', rs_batch = [BatchDelete (demo_key 7)]\<rparr>\<rparr>)" "st_fault db1 = (\<lambda>_. False)" "st_kv db1 (demo_key 7) = Some (demo_value 7)"
    unfolding demo_tx_def by (rule fresh_put [of demo_db 7 demo_codec "tx_key ''1''" "[]"]) (use ne in \<open>auto simp: demo_db_def\<close>)
  let ?s1 = "\<lparr>tx_state = Some \<lparr>tx_cause = None\<rparr>, tx_db = db1, tx_bound = True, tx_rolledBack = False,
       tx_revOps = Some \<lparr>rs_id = tx_key ''1'', rs_batch = [BatchDelete (demo_key 7)]\<rparr>\<rparr>"
  have k: "item_key (it_Namespace ri_Item ?y) (it_ID ri_Item ?y) = demo_key 7" "it_Unmarshal ri_Item ?y (demo_value 7) = Some (demo_item 7)"
    "it_Marshal ri_Item (demo_item 7) = Some (demo_value 7)" "it_Marshal ri_Item ?y = Some v"
    using y(2) v by (simp_all add: it_key_def ri_Item_def demo_value)
  obtain s2 where 2: "ts_Put demo_codec ri_Item ?s1 ?y = (Inr (), s2)" "tx_state s2 = Some \<lparr>tx_cause = None\<rparr>" "\<not> tx_rolledBack s2" "tx_revOps s2 \<noteq> None" "st_fault (tx_db s2) = (\<lambda>_. False)"
    using 1(2,3) by (auto simp: ts_Put_def reverse_put_def base_Get_def base_Put_def guarded_def TxState_IsDone_def ls_Get_def ls_Put_def st_defs k
        ts_append_def rev_Append_def)
  obtain s3 where 3: "ts_Rollback s2 = (Inr (), s3)"
    using 2(2-5) by (auto simp: ts_Rollback_def base_Rollback_def TxState_Done_def Let_def rev_Revert_def db_Write_def st_step_def)
  from tx_double_put_survives [OF demo_tx_new demo_stored_ok(1) demo_items_ok(1) y(1) y(3) 1(1) 2(1) 3]
  have "st_kv (tx_db s3) (demo_key 7) = Some (demo_value 7)" by (simp add: demo_value demo_key_def) (simp add: demo_item_def)
  then show ?thesis using 1 2 3 demo_stored_ok(2) by auto
qed

lemma commit_state:
  assumes "tx_state s = Some t" "ts_Commit s = (Inr (), s')"
  obtains rs db where "tx_revOps s = Some rs" "st_kv db = (st_kv (tx_db s))(rs_id rs := None)"
    "s' = ts_release (s\<lparr>tx_state := Some \<lparr>tx_cause = Some ErrTxDone\<rparr>, tx_db := db\<rparr>)"
proof -
  have c: "tx_cause t = None" using assms by (cases "tx_cause t") (auto simp: ts_Commit_def TxState_Done_def)
  obtain rs where rs: "tx_revOps s = Some rs" using assms c by (cases "tx_revOps s") (auto simp: ts_Commit_def TxState_Done_def)
  obtain db where d: "st_Delete (tx_db s) (rs_id rs) = (None, db)"
    using assms c rs by (cases "st_Delete (tx_db s) (rs_id rs)"; cases "fst (st_Delete (tx_db s) (rs_id rs))")
      (auto simp: ts_Commit_def TxState_Done_def rev_Clean_def)
  have "s' = ts_release (s\<lparr>tx_state := Some \<lparr>tx_cause = Some ErrTxDone\<rparr>, tx_db := db\<rparr>)"
    using assms c rs d by (cases t) (auto simp: ts_Commit_def TxState_Done_def rev_Clean_def)
  with rs st.delete_ok [OF d] show thesis by (rule that)
qed

text \<open>C32: A committed transaction is durable and over. A successful \<open>Commit\<close> keeps every change and removes only the log, so that
  a later recovery reverts nothing of it. Afterwards \<open>Get\<close>, \<open>Has\<close>, \<open>GetSize\<close>, \<open>Count\<close>, \<open>Iterate\<close>, \<open>Put\<close>, \<open>Delete\<close> and the
  \<open>Put\<close> and \<open>Delete\<close> of a batch opened before are refused with \<open>ErrTxDone\<close> and change nothing at all, \<open>Commit\<close> and \<open>Rollback\<close> are
  refused with \<open>ErrTxDone\<close> and do not touch the database, and opening a batch panics. (The one call that is not refused, the \<open>Commit\<close> of a batch
  opened before, is stated below.)\<close>

theorem tx_commit_final:
  assumes "tx_state s = Some t" "ts_Commit s = (Inr (), s')"
  shows "\<exists>rs. tx_revOps s = Some rs \<and> st_kv (tx_db s') = (st_kv (tx_db s))(rs_id rs := None) \<and>
    base_Get I s' x = (Inl (TxCause ErrTxDone), s') \<and> base_Has I s' x = (Inl (TxCause ErrTxDone), s') \<and>
    base_GetSize I s' x = (Inl (TxCause ErrTxDone), s') \<and> base_Count I s' x = (Inl (TxCause ErrTxDone), s') \<and>
    base_Iterate s' q fn z = ([TxCause ErrTxDone], z, s') \<and> ts_Put C I s' x = (Inl (TxCause ErrTxDone), s') \<and>
    ts_Delete C I s' x = (Inl (TxCause ErrTxDone), s') \<and> xb_Put I s' b x = (Inl (TxCause ErrTxDone), s', b) \<and>
    xb_Delete I s' b x = (Inl (TxCause ErrTxDone), s', b) \<and> ts_Batch s' cancelled = Inl TxPanic \<and>
    fst (ts_Commit s') = Inl (TxCause ErrTxDone) \<and> tx_db (snd (ts_Commit s')) = tx_db s' \<and>
    fst (ts_Rollback s') = Inl (TxCause ErrTxDone) \<and> tx_db (snd (ts_Rollback s')) = tx_db s'"
proof -
  obtain rs db where rs: "tx_revOps s = Some rs" and kv: "st_kv db = (st_kv (tx_db s))(rs_id rs := None)"
    and s': "s' = ts_release (s\<lparr>tx_state := Some \<lparr>tx_cause = Some ErrTxDone\<rparr>, tx_db := db\<rparr>)"
    by (rule commit_state [OF assms])
  show ?thesis using rs kv unfolding s'
    by (simp add: ts_release_def base_Get_def base_Has_def base_GetSize_def base_Count_def base_Iterate_def guarded_def TxState_IsDone_def TxState_Done_def
        ts_Put_def ts_Delete_def xb_Put_def xb_Delete_def ts_Batch_def ts_Commit_def ts_Rollback_def base_Rollback_def Let_def)
qed

theorem tx_commit_final_witness:
  "\<exists>s'. ts_Commit demo_tx = (Inr (), s') \<and> ts_Put demo_codec ri_Item s' (demo_item 7) = (Inl (TxCause ErrTxDone), s')"
proof -
  obtain s' where c: "ts_Commit demo_tx = (Inr (), s')" and t: "tx_state demo_tx = Some \<lparr>tx_cause = None\<rparr>"
    by (auto simp: demo_tx_def demo_db_def ts_Commit_def TxState_Done_def rev_Clean_def st_defs)
  have "ts_Put demo_codec ri_Item s' (demo_item 7) = (Inl (TxCause ErrTxDone), s')"
    using tx_commit_final [OF t c, where I = ri_Item and x = "demo_item 7" and C = demo_codec and q = "pending_query demo_codec" and fn = recover_fn and z = "[]"] by blast
  with c show ?thesis by blast
qed

text \<open>A batch opened in the transaction can still be committed after it: its operations are written although the transaction is
  over, without reverse operations, and the call then panics on the released log.\<close>

lemma late_batch_commits:
  assumes "tx_state s = Some t" "ts_Commit s = (Inr (), s')" "\<not> ba_cancelled (xb_batch b)" "\<not> ba_done (xb_batch b)"
    and "\<not> st_fault (tx_db s') (st_tick (tx_db s'))" "xb_Commit C s' b = (r, s2, b')"
  shows "r = Inl TxPanic \<and> st_kv (tx_db s2) = undo (ba_ops (xb_batch b)) (st_kv (tx_db s'))"
proof -
  obtain rs db where "tx_revOps s = Some rs" "st_kv db = (st_kv (tx_db s))(rs_id rs := None)"
    and s': "s' = ts_release (s\<lparr>tx_state := Some \<lparr>tx_cause = Some ErrTxDone\<rparr>, tx_db := db\<rparr>)"
    by (rule commit_state [OF assms(1,2)])
  show ?thesis using assms(3-6) unfolding s'
    by (auto simp: xb_Commit_def ba_Commit_def db_Write_def st_step_def ts_release_def ts_append_def fold_batch_kv)
qed

text \<open>A transaction whose context was cancelled can not be committed; \<open>Commit\<close> reports it but gives up the log of reverse
  operations, so that the changes stay and a \<open>Rollback\<close> after it fails with a nil dereference.\<close>

lemma cancelled_commit:
  assumes "tx_state s = Some t" "tx_cause t = Some CtxCanceled" "\<not> tx_rolledBack s" "ts_Commit s = (r, s')"
  shows "r = Inl (TxCause CtxCanceled) \<and> tx_db s' = tx_db s \<and> fst (ts_Rollback s') = Inl TxPanic"
  using assms by (auto simp: ts_Commit_def TxState_Done_def ts_release_def ts_Rollback_def base_Rollback_def Let_def)

end
