(* ===== verification/TxChunk.thy ===== *)
theory TxChunk
  imports TxProps
begin

text \<open>
  Transactions of the chunk store (\<open>pkg/storer/internal/chunkstore/transaction.go\<close>, \<open>recovery.go\<close>). Inside a transaction the
  blob store is wrapped by \<open>txSharky\<close>, which notes the written locations in the database and postpones releases to
  the commit. SHA-256 and msgpack are the parameters \<open>sha\<close>, an arbitrary function from byte lists to 256-bit words, and \<open>loc_codec\<close>; the order in which a Go map is iterated is
  an argument. The part of the database with the records of these transactions is \<open>tk_db\<close>.
\<close>

section \<open>The blob store inside a transaction\<close>

record loc_codec =
  lc_Marshal :: "Location list \<Rightarrow> bytes option"
  lc_Unmarshal :: "bytes \<Rightarrow> Location list option"

type_synonym digest = "256 word"

record 'k txSharky =
  tk_Sharky :: 'k
  tk_id :: string
  tk_db :: leveldb
  tk_writtenLocs :: "Location list"
  tk_toReleaseLocs :: "digest \<rightharpoonup> Location"
  tk_toReleaseSums :: "Location \<rightharpoonup> digest"

definition tk_Read :: "'k SharkyStore \<Rightarrow> 'k txSharky \<Rightarrow> Location \<Rightarrow> bytes option \<times> 'k txSharky" where
  "tk_Read K t loc = (case sk_Read K (tk_Sharky t) loc of (r, k) \<Rightarrow> (r, t\<lparr>tk_Sharky := k\<rparr>))"

definition tk_Write :: "(bytes \<Rightarrow> digest) \<Rightarrow> loc_codec \<Rightarrow> 'k SharkyStore \<Rightarrow> 'k txSharky \<Rightarrow> bytes \<Rightarrow> Location option \<times> 'k txSharky" where
  "tk_Write sha lc K t buf =
     (let sm = sha buf in
      case tk_toReleaseLocs t sm of
        Some loc \<Rightarrow>
          (Some loc, t\<lparr>tk_toReleaseLocs := (tk_toReleaseLocs t)(sm := None), tk_toReleaseSums := (tk_toReleaseSums t)(loc := None)\<rparr>)
      | None \<Rightarrow>
          (case sk_Write K (tk_Sharky t) buf of
             (None, k) \<Rightarrow> (None, t\<lparr>tk_Sharky := k\<rparr>)
           | (Some loc, k) \<Rightarrow>
               let t = t\<lparr>tk_Sharky := k, tk_writtenLocs := tk_writtenLocs t @ [loc]\<rparr> in
               (case lc_Marshal lc (tk_writtenLocs t) of
                  None \<Rightarrow> (None, t)
                | Some b \<Rightarrow>
                    (case st_Put (tk_db t) (tk_id t) b of
                       (Some _, db) \<Rightarrow> (None, t\<lparr>tk_db := db\<rparr>)
                     | (None, db) \<Rightarrow> (Some loc, t\<lparr>tk_db := db\<rparr>)))))"

definition tk_Release :: "(bytes \<Rightarrow> digest) \<Rightarrow> 'k SharkyStore \<Rightarrow> 'k txSharky \<Rightarrow> Location \<Rightarrow> bool \<times> 'k txSharky" where
  "tk_Release sha K t loc =
     (case tk_toReleaseSums t loc of
        Some sm \<Rightarrow> (True, t\<lparr>tk_toReleaseLocs := (tk_toReleaseLocs t)(sm \<mapsto> loc)\<rparr>)
      | None \<Rightarrow>
          (case sk_Read K (tk_Sharky t) loc of
             (None, k) \<Rightarrow> (False, t\<lparr>tk_Sharky := k\<rparr>)
           | (Some buf, k) \<Rightarrow>
               let sm = sha buf in
               (True, t\<lparr>tk_Sharky := k, tk_toReleaseSums := (tk_toReleaseSums t)(loc \<mapsto> sm),
                  tk_toReleaseLocs := (tk_toReleaseLocs t)(sm \<mapsto> loc)\<rparr>)))"

definition tx_sharky :: "(bytes \<Rightarrow> digest) \<Rightarrow> loc_codec \<Rightarrow> 'k SharkyStore \<Rightarrow> 'k txSharky SharkyStore" where
  "tx_sharky sha lc K = \<lparr>sk_Read = tk_Read K, sk_Write = tk_Write sha lc K, sk_Release = tk_Release sha K\<rparr>"

section \<open>Commit, rollback and recovery\<close>

datatype tc_error = TcStore tx_error | TcRelease | TcDelete | TcDecode | TcIterate "tx_error list"

record 'k TxChunkStoreWrapper =
  tc_txStore :: TxStore
  tc_txSharky :: "'k txSharky"

fun releaseLocs :: "'k SharkyStore \<Rightarrow> 'k \<Rightarrow> Location list \<Rightarrow> tc_error list \<times> 'k" where
  "releaseLocs K k [] = ([], k)"
| "releaseLocs K k (loc # locs) =
     (case sk_Release K k loc of
        (ok, k) \<Rightarrow> (case releaseLocs K k locs of (errs, k) \<Rightarrow> (if ok then errs else TcRelease # errs, k)))"

definition tc_release :: "'k TxChunkStoreWrapper \<Rightarrow> 'k TxChunkStoreWrapper" where
  "tc_release w = w\<lparr>tc_txSharky := (tc_txSharky w)\<lparr>tk_toReleaseLocs := Map.empty, tk_toReleaseSums := Map.empty, tk_writtenLocs := []\<rparr>\<rparr>"

definition tc_delete_log :: "'k txSharky \<Rightarrow> tc_error list \<times> 'k txSharky" where
  "tc_delete_log t = (case st_Delete (tk_db t) (tk_id t) of (Some _, db) \<Rightarrow> ([TcDelete], t\<lparr>tk_db := db\<rparr>) | (None, db) \<Rightarrow> ([], t\<lparr>tk_db := db\<rparr>))"

text \<open>The joined errors; \<open>order\<close> lists the locations to release in the order of the map.\<close>

definition tc_Commit :: "'k SharkyStore \<Rightarrow> Location list \<Rightarrow> 'k TxChunkStoreWrapper \<Rightarrow> tc_error list \<times> 'k TxChunkStoreWrapper" where
  "tc_Commit K order w =
     (case ts_Commit (tc_txStore w) of
        (r, ts) \<Rightarrow>
          let errs = (case r of Inl e \<Rightarrow> [TcStore e] | Inr _ \<Rightarrow> []); t = tc_txSharky w in
          (case releaseLocs K (tk_Sharky t) order of
             (errs1, k) \<Rightarrow>
               (case tc_delete_log (t\<lparr>tk_Sharky := k\<rparr>) of
                  (errs2, t) \<Rightarrow> (errs @ errs1 @ errs2, tc_release \<lparr>tc_txStore = ts, tc_txSharky = t\<rparr>))))"

definition tc_Rollback :: "'k SharkyStore \<Rightarrow> 'k TxChunkStoreWrapper \<Rightarrow> tc_error list \<times> 'k TxChunkStoreWrapper" where
  "tc_Rollback K w =
     (case ts_Rollback (tc_txStore w) of
        (Inl e, ts) \<Rightarrow>
          (case tc_delete_log (tc_txSharky w) of
             (errs, t) \<Rightarrow> (TcStore e # errs, tc_release \<lparr>tc_txStore = ts, tc_txSharky = t\<rparr>))
      | (Inr _, ts) \<Rightarrow>
          let t = tc_txSharky w in
          (case releaseLocs K (tk_Sharky t) (tk_writtenLocs t) of
             (errs, k) \<Rightarrow>
               let t = t\<lparr>tk_Sharky := k\<rparr> in
               if errs \<noteq> [] then (errs, tc_release \<lparr>tc_txStore = ts, tc_txSharky = t\<rparr>)
               else (case tc_delete_log t of (errs, t) \<Rightarrow> (errs, tc_release \<lparr>tc_txStore = ts, tc_txSharky = t\<rparr>))))"

definition pendingChunkTxNamespace :: string where
  "pendingChunkTxNamespace = ''pending-chunkstore-tx''"

definition tc_NewTx :: "'k TxChunkStoreWrapper \<Rightarrow> TxState option \<Rightarrow> string \<Rightarrow> string \<Rightarrow> tx_error + 'k TxChunkStoreWrapper" where
  "tc_NewTx w state uuid uuid' =
     map_sum (\<lambda>e. e) (\<lambda>ts. \<lparr>tc_txStore = ts,
         tc_txSharky = \<lparr>tk_Sharky = tk_Sharky (tc_txSharky w), tk_id = pendingChunkTxNamespace @ ''/'' @ uuid', tk_db = tk_db (tc_txSharky w),
           tk_writtenLocs = [], tk_toReleaseLocs = Map.empty, tk_toReleaseSums = Map.empty\<rparr>\<rparr>)
       (ts_NewTx (tc_txStore w) state uuid)"

text \<open>Recovery goes through the records of the transactions that were under way, and stops at the first error.\<close>

fun recover_locs :: "'k SharkyStore \<Rightarrow> 'k \<Rightarrow> Location list \<Rightarrow> bool \<times> 'k" where
  "recover_locs K k [] = (True, k)"
| "recover_locs K k (loc # locs) = (case sk_Release K k loc of (False, k) \<Rightarrow> (False, k) | (True, k) \<Rightarrow> recover_locs K k locs)"

definition tc_recover_fn :: "loc_codec \<Rightarrow> 'k SharkyStore \<Rightarrow> bytes Result \<Rightarrow> 'k txSharky \<Rightarrow> (unit + bool) \<times> 'k txSharky" where
  "tc_recover_fn lc K r t =
     (case Option.bind (r_Entry r) (lc_Unmarshal lc) of
        None \<Rightarrow> (Inl (), t)
      | Some locations \<Rightarrow>
          (case recover_locs K (tk_Sharky t) locations of
             (False, k) \<Rightarrow> (Inl (), t\<lparr>tk_Sharky := k\<rparr>)
           | (True, k) \<Rightarrow>
               (case ls_Delete (tk_db t) pendingChunkTxNamespace (r_ID r) of
                  (Inl (e :: unit item_error), db) \<Rightarrow> (Inl (), t\<lparr>tk_Sharky := k, tk_db := db\<rparr>)
                | (Inr _, db) \<Rightarrow> (Inr False, t\<lparr>tk_Sharky := k, tk_db := db\<rparr>))))"

definition tc_Recover :: "batch_codec \<Rightarrow> loc_codec \<Rightarrow> 'k SharkyStore \<Rightarrow> 'k TxChunkStoreWrapper \<Rightarrow> tc_error list \<times> 'k TxChunkStoreWrapper" where
  "tc_Recover C lc K w =
     (case ts_Recover C (tc_txStore w) of
        (Inl errs, ts) \<Rightarrow> ([TcIterate errs], w\<lparr>tc_txStore := ts\<rparr>)
      | (Inr _, ts) \<Rightarrow>
          let t = tc_txSharky w; q = plain_query pendingChunkTxNamespace Some [] in
          (case query_entries (tk_db t) q of
             (Inl _, db) \<Rightarrow> ([TcIterate [TxItem ItemIO]], w\<lparr>tc_txStore := ts, tc_txSharky := t\<lparr>tk_db := db\<rparr>\<rparr>)
           | (Inr es, db) \<Rightarrow>
               (case iterate_loop q (tc_recover_fn lc K) es True (t\<lparr>tk_db := db\<rparr>) of
                  (errs, t) \<Rightarrow> (if errs = [] then [] else [TcIterate (map TxItem errs)], w\<lparr>tc_txStore := ts, tc_txSharky := t\<rparr>))))"

section \<open>A transaction as a blob store\<close>

text \<open>A chunk store inside a transaction does not see the blobs whose release is pending.\<close>

definition tk_blobs :: "('k \<Rightarrow> Location \<rightharpoonup> bytes) \<Rightarrow> 'k txSharky \<Rightarrow> Location \<rightharpoonup> bytes" where
  "tk_blobs blobs t = (blobs (tk_Sharky t)) |` (- dom (tk_toReleaseSums t))"

definition tk_ok :: "(bytes \<Rightarrow> digest) \<Rightarrow> ('k \<Rightarrow> Location \<rightharpoonup> bytes) \<Rightarrow> ('k \<Rightarrow> bool) \<Rightarrow> 'k txSharky \<Rightarrow> bool" where
  "tk_ok sha blobs store_ok t \<longleftrightarrow> store_ok (tk_Sharky t) \<and>
     (\<forall>s l. tk_toReleaseLocs t s = Some l \<longrightarrow> tk_toReleaseSums t l = Some s) \<and>
     (\<forall>l s. tk_toReleaseSums t l = Some s \<longrightarrow> (\<exists>b. blobs (tk_Sharky t) l = Some b \<and> sha b = s))"

lemma tk_sums: "tk_ok sha blobs store_ok t \<Longrightarrow> tk_toReleaseSums t l = Some s \<Longrightarrow> \<exists>b. blobs (tk_Sharky t) l = Some b \<and> sha b = s"
  unfolding tk_ok_def by blast

text \<open>The calls of a chunk store in a transaction.\<close>

datatype tk_op = TkWrite bytes | TkRelease Location | TkRead Location

fun tk_call :: "(bytes \<Rightarrow> digest) \<Rightarrow> loc_codec \<Rightarrow> 'k SharkyStore \<Rightarrow> tk_op \<Rightarrow> 'k txSharky \<Rightarrow> 'k txSharky" where
  "tk_call sha lc K (TkWrite b) t = snd (tk_Write sha lc K t b)"
| "tk_call sha lc K (TkRelease l) t = snd (tk_Release sha K t l)"
| "tk_call sha lc K (TkRead l) t = snd (tk_Read K t l)"

definition tk_grown :: "('k \<Rightarrow> bool) \<Rightarrow> ('k \<Rightarrow> Location \<rightharpoonup> bytes) \<Rightarrow> (Location \<rightharpoonup> bytes) \<Rightarrow> 'k txSharky \<Rightarrow> bool" where
  "tk_grown store_ok blobs B t \<longleftrightarrow> store_ok (tk_Sharky t) \<and> distinct (tk_writtenLocs t) \<and>
     (\<forall>l \<in> set (tk_writtenLocs t). B l = None \<and> blobs (tk_Sharky t) l \<noteq> None) \<and>
     (\<forall>l. l \<notin> set (tk_writtenLocs t) \<longrightarrow> blobs (tk_Sharky t) l = B l)"

context blob_store
begin

lemma release_all_small: "releaseLocs K k ls = (e, k') \<Longrightarrow> small k' \<Longrightarrow> small k"
proof (induction ls arbitrary: k e)
  case (Cons l ls)
  obtain ok k1 where r: "sk_Release K k l = (ok, k1)" by fastforce
  obtain e1 where "releaseLocs K k1 ls = (e1, k')" using Cons.prems(1) r by (auto split: prod.splits)
  from Cons.IH [OF this Cons.prems(2)] show ?case by (rule release_small [OF r])
qed simp

lemma tk_write_stored:
  assumes "tk_ok sha blobs store_ok t" "blobs (tk_Sharky t) l = None" "store_ok k" "blobs k = (blobs (tk_Sharky t))(l \<mapsto> b)"
  shows "tk_ok sha blobs store_ok (t\<lparr>tk_Sharky := k, tk_writtenLocs := ls, tk_db := db\<rparr>) \<and> tk_blobs blobs t l = None \<and>
    tk_blobs blobs (t\<lparr>tk_Sharky := k, tk_writtenLocs := ls, tk_db := db\<rparr>) = (tk_blobs blobs t)(l \<mapsto> b)"
proof -
  have l: "tk_toReleaseSums t l = None" using tk_sums [OF assms(1), of l] assms(2) by (cases "tk_toReleaseSums t l") auto
  have "\<exists>b'. blobs k l' = Some b' \<and> sha b' = s" if "tk_toReleaseSums t l' = Some s" for l' s
    using tk_sums [OF assms(1) that] assms(4) that l by (cases "l' = l") auto
  then have "tk_ok sha blobs store_ok (t\<lparr>tk_Sharky := k, tk_writtenLocs := ls, tk_db := db\<rparr>)" using assms(1,3) by (simp add: tk_ok_def)
  then show ?thesis using assms(2,4) l by (auto simp: tk_blobs_def restrict_map_def fun_eq_iff)
qed

text \<open>A write stores the data under a fresh location, or takes up a noted release of data with the same sum, provided that
  data is the same.\<close>

lemma tk_write:
  assumes "\<And>l b'. tk_toReleaseSums t l = Some (sha b) \<Longrightarrow> blobs (tk_Sharky t) l = Some b' \<Longrightarrow> b' = b" "tk_ok sha blobs store_ok t" "tk_Write sha lc K t b = (r, t')" "small (tk_Sharky t')"
  shows "tk_ok sha blobs store_ok t' \<and> small (tk_Sharky t) \<and>
    (case r of Some l \<Rightarrow> loc_ok l \<and> tk_blobs blobs t l = None \<and> tk_blobs blobs t' = (tk_blobs blobs t)(l \<mapsto> b)
     | None \<Rightarrow> tk_blobs blobs t' = tk_blobs blobs t \<or> (\<exists>l. tk_blobs blobs t l = None \<and> tk_blobs blobs t' = (tk_blobs blobs t)(l \<mapsto> b)))"
proof (cases "tk_toReleaseLocs t (sha b)")
  case (Some l)
  have t': "r = Some l" "t' = t\<lparr>tk_toReleaseLocs := (tk_toReleaseLocs t)(sha b := None), tk_toReleaseSums := (tk_toReleaseSums t)(l := None)\<rparr>"
    using assms(3) Some by (simp_all add: tk_Write_def Let_def)
  have st: "store_ok (tk_Sharky t)" and sl: "tk_toReleaseSums t l = Some (sha b)" using assms(2) Some by (simp_all add: tk_ok_def)
  then have bl: "blobs (tk_Sharky t) l = Some b" using tk_sums [OF assms(2) sl] assms(1) [OF sl] by auto
  have sm: "small (tk_Sharky t)" using assms(4) t'(2) by simp
  have "tk_ok sha blobs store_ok t'" using assms(2) sl unfolding t'(2) by (auto simp: tk_ok_def)
  moreover have "tk_blobs blobs t l = None \<and> tk_blobs blobs t' = (tk_blobs blobs t)(l \<mapsto> b)"
    using sl bl unfolding t'(2) by (auto simp: tk_blobs_def restrict_map_def fun_eq_iff)
  ultimately show ?thesis using t'(1) sm blob_loc [OF st sm bl] by simp
next
  case None
  obtain y k where y: "sk_Write K (tk_Sharky t) b = (y, k)" by fastforce
  have st: "store_ok (tk_Sharky t)" using assms(2) by (simp add: tk_ok_def)
  show ?thesis
  proof (cases y)
    case y0: None
    then have t': "r = None" "t' = t\<lparr>tk_Sharky := k\<rparr>" using assms(3) None y by (simp_all add: tk_Write_def Let_def)
    have "store_ok k" "small (tk_Sharky t)" "blobs k = blobs (tk_Sharky t)"
      using write_fail [OF st y [unfolded y0]] write_none [OF st y [unfolded y0]] assms(4) t'(2) by simp_all
    then show ?thesis using assms(2) t' by (simp add: tk_ok_def tk_blobs_def)
  next
    case (Some l)
    obtain db where t': "t' = t\<lparr>tk_Sharky := k, tk_writtenLocs := tk_writtenLocs t @ [l], tk_db := db\<rparr>" "r \<in> {None, Some l}"
      using assms(3) None y Some by (cases t) (auto simp: tk_Write_def Let_def split: option.splits prod.splits)
    have "small k" using assms(4) t'(1) by simp
    note w = write_law [OF st y [unfolded Some] this]
    show ?thesis using tk_write_stored [OF assms(2), where l = l and k = k and b = b and ls = "tk_writtenLocs t @ [l]" and db = db] w t' by auto
  qed
qed

lemma tk_release:
  assumes "tk_ok sha blobs store_ok t" "tk_blobs blobs t l = Some b" "tk_Release sha K t l = (ok, t')"
  shows "tk_ok sha blobs store_ok t' \<and> tk_blobs blobs t' = (if ok then (tk_blobs blobs t)(l := None) else tk_blobs blobs t)"
proof -
  have l: "tk_toReleaseSums t l = None" "blobs (tk_Sharky t) l = Some b"
    using assms(2) by (auto simp: tk_blobs_def restrict_map_def split: if_splits)
  have st: "store_ok (tk_Sharky t)" using assms(1) by (simp add: tk_ok_def)
  obtain y k where y: "sk_Read K (tk_Sharky t) l = (y, k)" by fastforce
  have r: "store_ok k" "blobs k = blobs (tk_Sharky t)" "y \<in> {None, Some b}" using read_law [OF st y, of b] l(2) by simp_all
  show ?thesis
  proof (cases y)
    case None
    then have "ok = False" "t' = t\<lparr>tk_Sharky := k\<rparr>" using assms(3) l(1) y by (simp_all add: tk_Release_def)
    then show ?thesis using assms(1) r by (simp add: tk_ok_def tk_blobs_def)
  next
    case (Some b')
    then have t': "ok" "t' = t\<lparr>tk_Sharky := k, tk_toReleaseSums := (tk_toReleaseSums t)(l \<mapsto> sha b), tk_toReleaseLocs := (tk_toReleaseLocs t)(sha b \<mapsto> l)\<rparr>"
      using assms(3) l(1) y r(3) by (simp_all add: tk_Release_def Let_def)
    have "tk_ok sha blobs store_ok t'" using assms(1) l r unfolding t'(2) by (auto simp: tk_ok_def)
    then show ?thesis using t' r l by (auto simp: tk_blobs_def restrict_map_def fun_eq_iff)
  qed
qed

text \<open>Reads and releases in a transaction obey the laws of \<open>chunk_reads\<close>, whatever the hash function is.\<close>

lemma tx_chunk_reads: "chunk_reads (tx_sharky sha lc K) (tk_blobs blobs) (tk_ok sha blobs store_ok) (\<lambda>t. small (tk_Sharky t))"
proof (unfold_locales, goal_cases)
  case (1 t l r t' b)
  obtain k where k: "sk_Read K (tk_Sharky t) l = (r, k)" "t' = t\<lparr>tk_Sharky := k\<rparr>" using 1(2) by (auto simp: tx_sharky_def tk_Read_def split: prod.splits)
  then show ?case using 1(1) read_law [OF _ k(1), of b] by (auto simp: tk_ok_def tk_blobs_def restrict_map_def)
next
  case (2 t l r t')
  then show ?case using read_small by (auto simp: tx_sharky_def tk_Read_def split: prod.splits)
next
  case (3 t l b ok t')
  have "small (tk_Sharky t)" using 3(3,4) read_small by (auto simp: tx_sharky_def tk_Release_def Let_def split: option.splits prod.splits)
  then show ?case using tk_release [OF 3(1,2)] 3(3) by (auto simp: tx_sharky_def)
next
  case (4 t l ok t')
  then show ?case using read_small by (auto simp: tx_sharky_def tk_Release_def Let_def split: option.splits prod.splits)
qed

text \<open>Inside a transaction the blobs of the store only grow, by the written locations.\<close>

lemma tk_call_grows:
  assumes "tk_grown store_ok blobs B t" "tk_call sha lc K c t = t'" "small (tk_Sharky t')"
  shows "tk_grown store_ok blobs B t'"
proof -
  have st: "store_ok (tk_Sharky t)" using assms(1) by (simp add: tk_grown_def)
  have same: "tk_grown store_ok blobs B t'" if "store_ok (tk_Sharky t')" "blobs (tk_Sharky t') = blobs (tk_Sharky t)" "tk_writtenLocs t' = tk_writtenLocs t"
    using assms(1) that by (simp add: tk_grown_def)
  show ?thesis
  proof (cases c)
    case (TkRead l)
    obtain y k where y: "sk_Read K (tk_Sharky t) l = (y, k)" by fastforce
    have "store_ok k" "blobs k = blobs (tk_Sharky t)" using read_law [OF st y] by blast+
    then show ?thesis using same assms(2) TkRead y by (auto simp: tk_Read_def)
  next
    case (TkRelease l)
    obtain y k where y: "sk_Read K (tk_Sharky t) l = (y, k)" by fastforce
    have "store_ok k" "blobs k = blobs (tk_Sharky t)" using read_law [OF st y] by blast+
    then show ?thesis using same st assms(2) TkRelease y by (auto simp: tk_Release_def Let_def split: option.splits)
  next
    case (TkWrite b)
    obtain y k where y: "sk_Write K (tk_Sharky t) b = (y, k)" by fastforce
    show ?thesis
    proof (cases "tk_toReleaseLocs t (sha b) \<noteq> None \<or> y = None")
      case True
      have "y = None \<Longrightarrow> small k \<Longrightarrow> store_ok k \<and> blobs k = blobs (tk_Sharky t)" using write_fail [OF st] write_none [OF st] y by blast
      then show ?thesis using same st assms(2,3) TkWrite y True by (auto simp: tk_Write_def Let_def split: option.splits)
    next
      case False
      then obtain l where l: "y = Some l" by blast
      have t': "tk_Sharky t' = k" "tk_writtenLocs t' = tk_writtenLocs t @ [l]"
        using assms(2) TkWrite y False l by (auto simp: tk_Write_def Let_def split: option.splits prod.splits)
      have "small k" using assms(3) t'(1) by simp
      note w = write_law [OF st y [unfolded l] this]
      have l: "l \<notin> set (tk_writtenLocs t)" using w assms(1) by (auto simp: tk_grown_def)
      then have "B l = None" using w assms(1) by (auto simp: tk_grown_def)
      then show ?thesis using l w assms(1) t' by (auto simp: tk_grown_def)
    qed
  qed
qed

lemma tk_call_small: "small (tk_Sharky (tk_call sha lc K c t)) \<Longrightarrow> small (tk_Sharky t)"
  using read_small [of "tk_Sharky t"] write_small [of "tk_Sharky t"]
  by (cases c) (auto simp: tk_Read_def tk_Write_def tk_Release_def Let_def split: option.splits prod.splits)

lemma tk_run_small: "small (tk_Sharky (fold (tk_call sha lc K) cs t)) \<Longrightarrow> small (tk_Sharky t)"
proof (induction cs arbitrary: t)
  case (Cons c cs)
  then have "small (tk_Sharky (tk_call sha lc K c t))" by simp
  then show ?case by (rule tk_call_small)
qed simp

lemma tk_run_grows:
  assumes "tk_grown store_ok blobs B t" "small (tk_Sharky (fold (tk_call sha lc K) cs t))"
  shows "tk_grown store_ok blobs B (fold (tk_call sha lc K) cs t)"
  using assms
proof (induction cs arbitrary: t)
  case (Cons c cs)
  have "small (tk_Sharky (tk_call sha lc K c t))" using tk_run_small [of sha lc cs "tk_call sha lc K c t"] Cons.prems(2) by simp
  from Cons.IH [OF tk_call_grows [OF Cons.prems(1) refl this]] Cons.prems(2) show ?case by simp
qed simp

lemma release_all:
  assumes "store_ok k" "distinct ls" "\<And>l. l \<in> set ls \<Longrightarrow> blobs k l \<noteq> None" "releaseLocs K k ls = ([], k')" "small k'"
  shows "store_ok k' \<and> blobs k' = (blobs k) |` (- set ls)"
  using assms
proof (induction ls arbitrary: k)
  case (Cons l ls)
  obtain ok k1 where r: "sk_Release K k l = (ok, k1)" by fastforce
  have ok: "ok" and r1: "releaseLocs K k1 ls = ([], k')" using Cons.prems(4) r by (auto split: prod.splits if_splits)
  obtain b where b: "blobs k l = Some b" using Cons.prems(3) [of l] by auto
  have "small k1" using release_all_small [OF r1 Cons.prems(5)] .
  from release_law [OF Cons.prems(1) b r this] ok have k1: "store_ok k1" "blobs k1 = (blobs k)(l := None)" by simp_all
  have "blobs k1 l' \<noteq> None" if "l' \<in> set ls" for l' using Cons.prems(2,3) k1(2) that by auto
  from Cons.IH [OF k1(1) _ this r1 Cons.prems(5)] Cons.prems(2) have "store_ok k' \<and> blobs k' = (blobs k1) |` (- set ls)" by simp
  then show ?case using k1(2) by (auto simp: restrict_map_def fun_eq_iff)
qed (simp add: restrict_map_def)

lemma rollback_blobs:
  assumes "store_ok (tk_Sharky (tc_txSharky w))" "tk_writtenLocs (tc_txSharky w) = []"
    and "tc_Rollback K \<lparr>tc_txStore = ts, tc_txSharky = fold (tk_call sha lc K) cs (tc_txSharky w)\<rparr> = ([], w')" "small (tk_Sharky (tc_txSharky w'))"
  shows "blobs (tk_Sharky (tc_txSharky w')) = blobs (tk_Sharky (tc_txSharky w))"
proof -
  let ?B = "blobs (tk_Sharky (tc_txSharky w))" and ?t = "fold (tk_call sha lc K) cs (tc_txSharky w)"
  obtain k where k: "releaseLocs K (tk_Sharky ?t) (tk_writtenLocs ?t) = ([], k)" "tk_Sharky (tc_txSharky w') = k"
    using assms(3) by (auto simp: tc_Rollback_def tc_delete_log_def tc_release_def Let_def split: prod.splits sum.splits if_splits option.splits)
  have "small (tk_Sharky ?t)" using release_all_small [OF k(1)] assms(4) k(2) by simp
  moreover have "tk_grown store_ok blobs ?B (tc_txSharky w)" using assms(1,2) by (simp add: tk_grown_def)
  ultimately have g: "tk_grown store_ok blobs ?B ?t" by (rule tk_run_grows [rotated])
  have "store_ok k \<and> blobs k = (blobs (tk_Sharky ?t)) |` (- set (tk_writtenLocs ?t))"
    by (rule release_all [OF _ _ _ k(1)]) (use g assms(4) k(2) in \<open>auto simp: tk_grown_def\<close>)
  then show ?thesis using g k(2) by (auto simp: tk_grown_def restrict_map_def fun_eq_iff)
qed

end

lemma delete_releases:
  "chunk_Delete K c a = (r, c') \<Longrightarrow> cs_sharky c' = cs_sharky c \<or> (\<exists>l ok. sk_Release K (cs_sharky c) l = (ok, cs_sharky c'))"
  by (auto simp: chunk_Delete_def Let_def ri_Get_def ri_Put_def ri_Delete_def split: prod.splits sum.splits item_error.splits if_splits bool.splits)

interpretation txs: chunk_reads "tx_sharky sha lc sharky_store" "tk_blobs driver_blobs" "tk_ok sha driver_blobs driver_ok"
    "\<lambda>t. store_small (sd_confs (tk_Sharky t))" for sha lc
  by (rule sky.tx_chunk_reads)

text \<open>At the beginning of a transaction the chunk store is what it is outside.\<close>

lemma tk_fresh:
  assumes "tk_toReleaseSums t = Map.empty" "tk_toReleaseLocs t = Map.empty"
  shows "cs_inv (tk_blobs blobs) (tk_ok sha blobs store_ok) \<lparr>cs_store = db, cs_sharky = t\<rparr> = cs_inv blobs store_ok \<lparr>cs_store = db, cs_sharky = tk_Sharky t\<rparr>"
    "cs_refs (tk_blobs blobs) \<lparr>cs_store = db, cs_sharky = t\<rparr> = cs_refs blobs \<lparr>cs_store = db, cs_sharky = tk_Sharky t\<rparr>"
proof -
  have "tk_blobs blobs t = blobs (tk_Sharky t)" by (simp add: tk_blobs_def assms(1) restrict_map_def)
  then show "cs_inv (tk_blobs blobs) (tk_ok sha blobs store_ok) \<lparr>cs_store = db, cs_sharky = t\<rparr> = cs_inv blobs store_ok \<lparr>cs_store = db, cs_sharky = tk_Sharky t\<rparr>"
    "cs_refs (tk_blobs blobs) \<lparr>cs_store = db, cs_sharky = t\<rparr> = cs_refs blobs \<lparr>cs_store = db, cs_sharky = tk_Sharky t\<rparr>"
    by (simp_all add: cs_inv_def cs_refs_def tk_ok_def assms)
qed

section \<open>Properties\<close>

text \<open>C21: A transaction that is rolled back leaves the blobs as they were. Whatever chunks are written, released and read in it, with
  all failures, after a \<open>Rollback\<close> without errors the sharded store has exactly the blobs it had when the transaction began:
  releases were only noted, and the written locations are released again.\<close>

theorem tx_rollback_blobs:
  assumes "driver_ok (tk_Sharky (tc_txSharky w))" "tk_writtenLocs (tc_txSharky w) = []"
    and "tc_Rollback sharky_store \<lparr>tc_txStore = ts, tc_txSharky = fold (tk_call sha lc sharky_store) cs (tc_txSharky w)\<rparr> = ([], w')"
    and "store_small (sd_confs (tk_Sharky (tc_txSharky w')))"
  shows "driver_blobs (tk_Sharky (tc_txSharky w')) = driver_blobs (tk_Sharky (tc_txSharky w))"
  by (rule sky.rollback_blobs [OF assms])

definition demo_locs :: loc_codec where
  "demo_locs = \<lparr>lc_Marshal = \<lambda>_. Some [], lc_Unmarshal = \<lambda>_. None\<rparr>"

definition demo_tk :: "sharky_driver txSharky" where
  "demo_tk = \<lparr>tk_Sharky = demo_driver, tk_id = ''x'', tk_db = demo_db, tk_writtenLocs = [], tk_toReleaseLocs = Map.empty, tk_toReleaseSums = Map.empty\<rparr>"

lemma demo_tk_write:
  "\<exists>db. tk_Write (\<lambda>_. 0) demo_locs sharky_store demo_tk [1, 2] =
     (Some (ri_Location (demo_item w)), demo_tk\<lparr>tk_Sharky := demo_full [1, 2] 1, tk_writtenLocs := [ri_Location (demo_item w)], tk_db := db\<rparr>) \<and> st_fault db = (\<lambda>_. False)"
  using demo_writes(1) [of 1 2 w] by (simp add: tk_Write_def demo_tk_def demo_db_def demo_locs_def sharky_store_def st_defs)

lemma demo_driver_ok: "driver_ok demo_driver"
  using demo_cs_ok [of "\<lambda>_. False"] by (simp add: cs_inv_def demo_cs_def)

theorem tx_rollback_blobs_witness:
  "\<exists>w'. tc_Rollback sharky_store \<lparr>tc_txStore = demo_tx, tc_txSharky = tk_call (\<lambda>_. 0) demo_locs sharky_store (TkWrite [1, 2]) demo_tk\<rparr> = ([], w') \<and>
     driver_blobs (tk_Sharky (tc_txSharky w')) = driver_blobs demo_driver"
proof -
  obtain db where db: "tk_call (\<lambda>_. 0) demo_locs sharky_store (TkWrite [1, 2]) demo_tk =
      demo_tk\<lparr>tk_Sharky := demo_full [1, 2] 1, tk_writtenLocs := [ri_Location (demo_item 7)], tk_db := db\<rparr>" "st_fault db = (\<lambda>_. False)"
    using demo_tk_write [of 7] by auto
  obtain ts where ts: "ts_Rollback demo_tx = (Inr (), ts)"
    by (auto simp: demo_tx_def demo_db_def ts_Rollback_def base_Rollback_def TxState_Done_def Let_def rev_Revert_def db_Write_def st_step_def)
  obtain w' where w': "tc_Rollback sharky_store \<lparr>tc_txStore = demo_tx, tc_txSharky = tk_call (\<lambda>_. 0) demo_locs sharky_store (TkWrite [1, 2]) demo_tk\<rparr> = ([], w')"
    "tk_Sharky (tc_txSharky w') = demo_freed [1, 2] 2"
    unfolding db(1) using ts demo_release [of "[1, 2]" 1 7] db(2)
    by (auto simp: tc_Rollback_def sharky_store_def Let_def tc_delete_log_def tc_release_def demo_tk_def st_defs numeral_2_eq_2)
  have w: "driver_ok (tk_Sharky (tc_txSharky \<lparr>tc_txStore = demo_tx, tc_txSharky = demo_tk\<rparr>))" "tk_writtenLocs (tc_txSharky \<lparr>tc_txStore = demo_tx, tc_txSharky = demo_tk\<rparr>) = []"
    by (simp_all add: demo_tk_def demo_driver_ok)
  from tx_rollback_blobs [OF w, of demo_tx "\<lambda>_. 0" demo_locs "[TkWrite [1, 2]]" w'] w' demo_full_small(2) [of "[1, 2]" 2]
  show ?thesis by (auto simp: demo_tk_def)
qed

text \<open>C33: In a transaction a deletion is only noted. On a consistent store with shards of fewer than \<open>2\<^sup>3\<^sup>2\<close> slots, a successful \<open>Delete\<close> of a chunk store on the blob store of a transaction gives
  up a reference, and with the last one the chunk, as it does outside; but no blob of the sharded store is released. This
  holds for every hash function, also where sums collide.\<close>

theorem tx_chunk_Delete_postponed:
  assumes "cs_inv (tk_blobs driver_blobs) (tk_ok sha driver_blobs driver_ok) c"
    and "chunk_Delete (tx_sharky sha lc sharky_store) c a = (Inr (), c')" "store_small (sd_confs (tk_Sharky (cs_sharky c')))"
  shows "driver_blobs (tk_Sharky (cs_sharky c')) = driver_blobs (tk_Sharky (cs_sharky c)) \<and>
    cs_inv (tk_blobs driver_blobs) (tk_ok sha driver_blobs driver_ok) c' \<and>
    (case cs_refs (tk_blobs driver_blobs) c a of
       None \<Rightarrow> cs_refs (tk_blobs driver_blobs) c' = cs_refs (tk_blobs driver_blobs) c
     | Some (n, b) \<Rightarrow> cs_refs (tk_blobs driver_blobs) c' =
         (cs_refs (tk_blobs driver_blobs) c)(a := if n = 1 then None else Some (n - 1, b)))"
proof -
  have st: "driver_ok (tk_Sharky (cs_sharky c))" using assms(1) by (simp add: cs_inv_def tk_ok_def)
  have "driver_blobs (tk_Sharky t') = driver_blobs (tk_Sharky (cs_sharky c))" if "tk_Release sha sharky_store (cs_sharky c) l = (ok, t')" for l ok t'
  proof -
    obtain y k where y: "sk_Read sharky_store (tk_Sharky (cs_sharky c)) l = (y, k)" by fastforce
    have "driver_blobs k = driver_blobs (tk_Sharky (cs_sharky c))" using sky.read_law [OF st y] by blast
    then show ?thesis using that y by (auto simp: tk_Release_def Let_def split: option.splits)
  qed
  then have "driver_blobs (tk_Sharky (cs_sharky c')) = driver_blobs (tk_Sharky (cs_sharky c))"
    using delete_releases [OF assms(2)] by (auto simp: tx_sharky_def)
  then show ?thesis using txs.delete_outcome [OF assms] by (auto split: option.splits)
qed

text \<open>The chunk of the witness is stored before the transaction; the sum of every blob is 0.\<close>

theorem tx_chunk_Delete_postponed_witness:
  "\<exists>c c'. cs_refs (tk_blobs driver_blobs) c = [replicate 32 7 \<mapsto> (1, [1, 2])] \<and>
     chunk_Delete (tx_sharky (\<lambda>_. 0) demo_locs sharky_store) c (replicate 32 7) = (Inr (), c') \<and>
     cs_refs (tk_blobs driver_blobs) c' = Map.empty \<and> driver_blobs (tk_Sharky (cs_sharky c')) = driver_blobs (demo_full [1, 2] 1)"
proof -
  let ?f = "\<lambda>_::nat. False" and ?K = "tx_sharky (\<lambda>_. 0) demo_locs sharky_store" and ?l = "ri_Location (demo_item 7)"
  let ?k = "demo_tk\<lparr>tk_Sharky := demo_full [1, 2] 1\<rparr>"
  obtain db where p: "chunk_Put sharky_store 5 (demo_cs ?f) (replicate 32 7) [1, 2] = (Inr (), \<lparr>cs_store = db, cs_sharky = demo_full [1, 2] 1\<rparr>)"
    and db: "st_kv db = [demo_key 7 \<mapsto> demo_value 7]" "st_tick db = 2" "st_fault db = ?f"
    by (rule demo_cs_put [of ?f 7 1 2]) auto
  let ?c = "\<lparr>cs_store = db, cs_sharky = ?k\<rparr>"
  have "chunk_ok \<lparr>cs_store = db, cs_sharky = demo_full [1, 2] 1\<rparr>" "chunk_refs \<lparr>cs_store = db, cs_sharky = demo_full [1, 2] 1\<rparr> = [replicate 32 7 \<mapsto> (1, [1, 2])]"
    using sky.put_outcome [OF demo_cs_ok _ p] demo_full_small(1) [of "[1, 2]" 1] by (simp_all add: demo_cs_refs HashSize_def)
  then have c: "cs_inv (tk_blobs driver_blobs) (tk_ok (\<lambda>_. 0) driver_blobs driver_ok) ?c" "cs_refs (tk_blobs driver_blobs) ?c = [replicate 32 7 \<mapsto> (1, [1, 2])]"
    using tk_fresh [of ?k driver_blobs] by (simp_all add: demo_tk_def)
  obtain k' where k': "sk_Release ?K ?k ?l = (True, k')" "tk_Sharky k' = demo_full [1, 2] 2"
    using demo_fetch [of "[1, 2]" 1 7] by (auto simp: tx_sharky_def tk_Release_def Let_def demo_tk_def sharky_store_def numeral_2_eq_2)
  obtain db' where d: "chunk_Delete ?K ?c (replicate 32 7) = (Inr (), \<lparr>cs_store = db', cs_sharky = k'\<rparr>)"
    by (rule demo_delete [of db 7 ?K ?k k']) (use db k'(1) in auto)
  let ?d = "\<lparr>cs_store = db', cs_sharky = k'\<rparr>"
  have "cs_refs (tk_blobs driver_blobs) ?d = Map.empty" "driver_blobs (tk_Sharky (cs_sharky ?d)) = driver_blobs (demo_full [1, 2] 1)"
    using tx_chunk_Delete_postponed [OF c(1) d] c(2) k'(2) demo_full_small(1) [of "[1, 2]" 2] by auto
  with c(2) d show ?thesis by blast
qed

end
