(* ===== verification/Spec2Isabelle.thy ===== *)
theory Spec2Isabelle
  imports PSlice Intervals BatchService MantaraySave SwapProps TxChunk
begin

text \<open>
  A verification library for the Aisc node (\<open>src/pkg\<close>): a peer of a storage network that keeps chunks,
  accounts for the bandwidth it exchanges with its peers, tracks the postage batches that pay for
  storage, stamps chunks, and organises stored data in manifests.

  \<^bold>\<open>How the parts interact.\<close> Overlay addresses and their proximity order (\<open>swarm\<close>) place peers in the bins of
  a peer slice (\<open>topology/pslice\<close>). Every exchange of chunks is a credit or a debit in \<open>accounting\<close>, which
  keeps balances in the state store (\<open>statestore/storeadapter\<close>) and asks \<open>settlement/pseudosettle\<close> for
  time-based refreshments and \<open>settlement/swap\<close> for payments by cheque; both call back into accounting. Events of the postage contract reach
  \<open>postage/batchservice\<close>, which updates \<open>postage/batchstore\<close> and tells \<open>postage.service\<close> about the node's own
  batches; the service keeps the issuers from which \<open>postage.stamper\<close> stamps chunks, with the stamps and the
  issuers stored in the item store (\<open>storage/leveldbstore\<close>). Chunks are
  kept by \<open>storer/internal/chunkstore\<close>: an index with reference counts in the item store and the data in the blob
  store \<open>sharky\<close>, files cut into slots. The puller remembers the bins it has synced in
  \<open>puller/intervalstore\<close>. Manifests (\<open>manifest/mantaray\<close>) map paths to references.

  \<^bold>\<open>The theories.\<close>
  \<^item> \<open>Prelude\<close>: types of machine integers, the error-and-state sequencing \<open>bindE\<close>, sorting, hexadecimal
    text, list lemmas. \<open>Bytes\<close>: big- and little-endian encodings, slices, strings as bytes.
  \<^item> \<open>Swarm\<close> (\<open>swarm/swarm.go\<close>, \<open>swarm/proximity.go\<close>, \<open>swarm/distance.go\<close>, \<open>swarm/utilities.go\<close>): addresses,
    proximity, XOR distance. The proximity order is the length of the common prefix, an ultrametric; the
    distance comparison agrees with the distance as an integer.
  \<^item> \<open>PSlice\<close> (\<open>topology/pslice\<close>): peers by bin. Refinement to a set of peers; iteration order.
  \<^item> \<open>BitVector\<close> (\<open>bitvector\<close>), \<open>Intervals\<close> (\<open>puller/intervalstore\<close>): merged intervals as sets of numbers.
  \<^item> \<open>StateStore\<close> (\<open>statestore/storeadapter\<close>): a key-value store with a schedule of failures, \<open>Nuke\<close>.
  \<^item> \<open>Accounting\<close>, \<open>AccountingProps\<close> (\<open>accounting/accounting.go\<close>): the state of \<open>Accounting\<close> and of its
    peers as records, one definition per operation, calls to other components as recorded effects. Over
    any interleaving of the operations, connections included, the debt to a peer stays within the limit announced by it
    and the reserved balances are those of open actions, both up to the reservations that \<open>Connect\<close> resets while
    actions are in flight; and the effect of every operation on the balances.
  \<^item> \<open>Pseudosettle\<close> (\<open>settlement/pseudosettle\<close>): payments and refreshments; the accounting it calls is a
    locale, interpreted on \<open>Accounting\<close>. What is accepted over time is bounded by the refresh rate.
  \<^item> \<open>Cheque\<close>, \<open>ChequeProps\<close> (\<open>settlement/swap/chequebook\<close>): received and issued cheques and their cash-out, on a
    chain that answers differently over time. No cheque is credited twice; concurrent calls of \<open>Issue\<close>, as
    a step relation, never promise more than the funds.
  \<^item> \<open>Swap\<close>, \<open>SwapProps\<close> (\<open>settlement/swap\<close>, its \<open>swapprotocol\<close>, \<open>headers\<close> and \<open>priceoracle\<close>, \<open>p2p/libp2p/headers.go\<close>):
    address book, service and protocol. A payment is credited exactly between two nodes, cheques are made
    out to the right address in every run, and when the handler panics.
  \<^item> \<open>BatchStore\<close> (\<open>postage/batchstore\<close>), \<open>BatchService\<close> (\<open>postage/batchservice\<close>): batches by id and by value, eviction of
    expired batches, radius; the service refines a specification over a map of live batches. The storer
    and the event listener of the service are locales, interpreted on the batch store and the
    postage service.
  \<^item> \<open>ItemStore\<close> (\<open>storage/leveldbstore\<close>), \<open>Stamps\<close> (\<open>postage/stampissuer.go\<close>, \<open>stamp.go\<close>, \<open>stamper.go\<close>),
    \<open>PostageService\<close> (\<open>postage/service.go\<close>): stamps of an immutable batch never share an index, every issued
    stamp is valid, issuers survive a restart.
  \<^item> \<open>Sharky\<close>, \<open>SharkyProps\<close> (\<open>sharky\<close>): free slots, shards and their two goroutines as a step relation, opening, closing
    and recovery. In every interleaving blobs are read back unchanged until they are released, a restart loses nothing, and a
    running shard never gets stuck.
  \<^item> \<open>ChunkStore\<close>, \<open>ChunkProps\<close> (\<open>storer/internal/chunkstore\<close>): chunks with reference counts. The blob store is a
    locale, \<open>chunk_reads\<close> for reads and releases and \<open>chunk_blobs\<close> with writes, interpreted on \<open>Sharky\<close>; the operations refine a map from addresses to counts and data, also when the
    index or the files fail, with the two exceptions that are stated.
  \<^item> \<open>Transactions\<close>, \<open>TxProps\<close> (\<open>storage/transaction.go\<close>, \<open>storage/leveldbstore\<close>): transactions on the item store with their log
    of reverse operations, batches and crash recovery. Items are a locale, interpreted on the entries of the retrieval index. A
    transaction that writes keys at most once is undone by a rollback and by the recovery after a crash, except for entries it deleted
    without being able to read them; a key written twice is not restored.
  \<^item> \<open>TxChunk\<close> (\<open>storer/internal/chunkstore/transaction.go\<close>, \<open>recovery.go\<close>): the blob store inside a transaction, which postpones
    releases, satisfies the contract \<open>chunk_reads\<close> for every hash function, so that the lemmas about \<open>Get\<close> and \<open>Delete\<close> of the chunk store hold
    in a transaction too; a rollback leaves the blobs as they were.
  \<^item> \<open>Mantaray\<close>, \<open>MantarayProps\<close>, \<open>MantaraySave\<close> (\<open>manifest/mantaray\<close>): the trie, its refinement to a map from
    paths to entries, its binary format and persistence.

  \<^bold>\<open>Conventions.\<close> A struct is a record, an error is a value of a sum type, a Go panic is a constructor of the
  error type. State is passed explicitly; operations under a lock are atomic. Fixed-width
  integers are words where they can wrap; \<open>big.Int\<close> is \<open>int\<close>, and so are the clock readings of accounting,
  which stay far from the bounds of 64 bits. A store that can fail carries a schedule of the operations that
  fail, and the clock is a stream of times, so that statements cover every failure and every timing.
  Hash functions, signatures and encodings of other packages are parameters; what a theorem needs of them
  is a named hypothesis. Loops end by the structure of their argument or a measure; no fuel is used.

  \<^bold>\<open>Not modelled.\<close> HTTP interface, node assembly, libp2p transport, generated protobuf code, logging, metrics
  and tracing (input/output and glue); the kademlia manager, the push, pull and retrieval protocols and the storage-incentives agent
  (goroutines and timers around modelled data); the upload, reserve, cache and pinning parts of the chunk storer, file splitter and joiner and
  feeds. Concurrent parts of modelled components are taken in one
  order, except for the shards of \<open>sharky\<close>, the handlers of accounting and the calls of \<open>Issue\<close>, which interleave.
\<close>

end
